(* ===== verification/Xdl_Prelude.thy ===== *)
theory Xdl_Prelude
  imports "HOL-Library.Word"
begin

text \<open>
  Shared vocabulary of the development: the machine integers of the sources, the
  exceptions of \<open>include/xdl/types.h\<close> as an error type, a result type for code that
  throws, a state-and-exception type for code that mutates and throws, byte buffers
  (\<open>std::vector<char>\<close> and raw pointers into one), and \<open>std::lower_bound\<close>.

  Conventions used by every component:
  \<^item> a \<open>uint8_t\<close>, \<open>uint16_t\<close>, \<open>uint32_t\<close> or \<open>uint64_t\<close> is a word of that width, so
    that the sources' wrap-around is the model's; a \<open>size_t\<close> that counts bytes or
    elements held in memory is a \<open>nat\<close>;
  \<^item> a pointer into a buffer is the list of bytes from the pointer to the end of the
    buffer; a read past the end is the error \<open>UndefinedBehaviour\<close>, so a theorem that an
    operation returns a value also says that it reads inside its buffer;
  \<^item> an exception is a value of \<open>xdl_error\<close>; messages are dropped;
  \<^item> \<open>std::string\<close> is \<open>string\<close>, one \<open>char\<close> per byte.
\<close>

unbundle bit_operations_syntax

section \<open>Machine types\<close>

type_synonym byte = "8 word"
type_synonym u16 = "16 word"
type_synonym u32 = "32 word"
type_synonym u64 = "64 word"
type_synonym bytes = "byte list"

named_theorems result_simps \<open>rewriting of the result type\<close>
named_theorems codec_simps \<open>read-after-write equations of the byte codecs\<close>
named_theorems codec_length \<open>lengths of encoded values\<close>

section \<open>Exceptions\<close>

text \<open>
  The exception classes of \<open>types.h\<close>, the standard library exceptions the sources let
  escape, and \<open>UndefinedBehaviour\<close> for what the C++ standard leaves undefined (an
  out-of-bounds access, an overlapping \<open>memcpy\<close>, a modulo by zero).
\<close>

datatype xdl_error =
    XDLError
  | CorruptionError
  | DuplicateKeyError
  | NotFoundError
  | IOError
  | CompressionError
  | MigrationError
  | WALError
  | InvalidArgument
  | OutOfRange
  | BadVariantAccess
  | UndefinedBehaviour

text \<open>\<open>catch (const XDLError&)\<close> takes the base class and everything derived from it.\<close>

fun is_xdl_error :: "xdl_error \<Rightarrow> bool" where
  "is_xdl_error InvalidArgument = False"
| "is_xdl_error OutOfRange = False"
| "is_xdl_error BadVariantAccess = False"
| "is_xdl_error UndefinedBehaviour = False"
| "is_xdl_error _ = True"

section \<open>Results: code that may throw\<close>

type_synonym 'a result = "xdl_error + 'a"

definition bindR :: "'a result \<Rightarrow> ('a \<Rightarrow> 'b result) \<Rightarrow> 'b result" where
  "bindR m f = (case m of Inl e \<Rightarrow> Inl e | Inr x \<Rightarrow> f x)"

lemma bindR_Inl [simp, result_simps]: "bindR (Inl e) f = Inl e"
  by (simp add: bindR_def)

lemma bindR_Inr [simp, result_simps]: "bindR (Inr x) f = f x"
  by (simp add: bindR_def)

lemma bindR_assoc [result_simps]: "bindR (bindR m f) g = bindR m (\<lambda>x. bindR (f x) g)"
  by (cases m) simp_all

lemma bindR_eq_Inr [result_simps]:
  "bindR m f = Inr y \<longleftrightarrow> (\<exists>x. m = Inr x \<and> f x = Inr y)"
  by (cases m) simp_all

lemma bindR_eq_Inl [result_simps]:
  "bindR m f = Inl e \<longleftrightarrow> m = Inl e \<or> (\<exists>x. m = Inr x \<and> f x = Inl e)"
  by (cases m) simp_all

lemma bindR_cong [fundef_cong]:
  "m = m' \<Longrightarrow> (\<And>x. m' = Inr x \<Longrightarrow> f x = f' x) \<Longrightarrow> bindR m f = bindR m' f'"
  by (cases m') simp_all

text \<open>The errors a computation can end in.\<close>

definition only_fails :: "xdl_error set \<Rightarrow> 'a result \<Rightarrow> bool" where
  "only_fails E m \<longleftrightarrow> (\<forall>e. m = Inl e \<longrightarrow> e \<in> E)"

lemma only_fails_Inr [simp]: "only_fails E (Inr x)"
  by (simp add: only_fails_def)

lemma only_fails_Inl [simp]: "only_fails E (Inl e) \<longleftrightarrow> e \<in> E"
  by (simp add: only_fails_def)

lemma only_fails_bindR:
  "only_fails E m \<Longrightarrow> (\<And>x. m = Inr x \<Longrightarrow> only_fails E (f x)) \<Longrightarrow> only_fails E (bindR m f)"
  by (cases m) simp_all

section \<open>Programs: code that mutates state and may throw\<close>

text \<open>
  A thrown exception does not undo the mutations made before it, so a program returns
  the state in both cases.
\<close>

type_synonym ('s, 'a) prog = "'s \<Rightarrow> 'a result \<times> 's"

definition returnS :: "'a \<Rightarrow> ('s, 'a) prog" where
  "returnS x s = (Inr x, s)"

definition throwS :: "xdl_error \<Rightarrow> ('s, 'a) prog" where
  "throwS e s = (Inl e, s)"

definition bindS :: "('s, 'a) prog \<Rightarrow> ('a \<Rightarrow> ('s, 'b) prog) \<Rightarrow> ('s, 'b) prog" where
  "bindS m f s = (case m s of (Inl e, s') \<Rightarrow> (Inl e, s') | (Inr x, s') \<Rightarrow> f x s')"

definition liftR :: "'a result \<Rightarrow> ('s, 'a) prog" where
  "liftR r s = (r, s)"

definition getS :: "('s \<Rightarrow> 'a) \<Rightarrow> ('s, 'a) prog" where
  "getS f s = (Inr (f s), s)"

definition modifyS :: "('s \<Rightarrow> 's) \<Rightarrow> ('s, unit) prog" where
  "modifyS f s = (Inr (), f s)"

lemma bindS_apply:
  "m s = (Inr x, s') \<Longrightarrow> bindS m f s = f x s'"
  "m s = (Inl e, s') \<Longrightarrow> bindS m f s = (Inl e, s')"
  by (simp_all add: bindS_def)

lemma returnS_apply [simp]: "returnS x s = (Inr x, s)"
  by (simp add: returnS_def)

lemma throwS_apply [simp]: "throwS e s = (Inl e, s)"
  by (simp add: throwS_def)

lemma liftR_apply [simp]: "liftR r s = (r, s)"
  by (simp add: liftR_def)

lemma getS_apply [simp]: "getS f s = (Inr (f s), s)"
  by (simp add: getS_def)

lemma modifyS_apply [simp]: "modifyS f s = (Inr (), f s)"
  by (simp add: modifyS_def)

text \<open>
  \<open>try ... catch\<close>, with the exceptions the handler takes: \<open>catch (...)\<close> takes every exception, but undefined
  behaviour is none.
\<close>

definition any_exception :: "xdl_error \<Rightarrow> bool" where
  "any_exception e \<longleftrightarrow> e \<noteq> UndefinedBehaviour"

definition catchS :: "(xdl_error \<Rightarrow> bool) \<Rightarrow> ('s, 'a) prog \<Rightarrow> ('s, 'a) prog \<Rightarrow> ('s, 'a) prog" where
  "catchS caught m handler s =
     (case m s of (Inl e, s') \<Rightarrow> if caught e then handler s' else (Inl e, s') | (Inr x, s') \<Rightarrow> (Inr x, s'))"

lemma catchS_apply:
  "m s = (Inr x, s') \<Longrightarrow> catchS caught m h s = (Inr x, s')"
  "m s = (Inl e, s') \<Longrightarrow> catchS caught m h s = (if caught e then h s' else (Inl e, s'))"
  by (simp_all add: catchS_def)

text \<open>A call of a method of a member object.\<close>

definition zoomS :: "('s \<Rightarrow> 't) \<Rightarrow> ('t \<Rightarrow> 's \<Rightarrow> 's) \<Rightarrow> ('t, 'a) prog \<Rightarrow> ('s, 'a) prog" where
  "zoomS member put m s = (case m (member s) of (r, t) \<Rightarrow> (r, put t s))"

lemma zoomS_apply: "m (member s) = (r, t) \<Longrightarrow> zoomS member put m s = (r, put t s)"
  by (simp add: zoomS_def)

section \<open>Byte buffers\<close>

text \<open>\<open>std::vector::resize\<close>: truncate, or pad with zero bytes.\<close>

definition vec_resize :: "nat \<Rightarrow> bytes \<Rightarrow> bytes" where
  "vec_resize n xs = take n xs @ replicate (n - length xs) 0"

text \<open>\<open>std::memcpy\<close> of \<open>bs\<close> to offset \<open>off\<close> of a buffer.\<close>

definition mem_write :: "nat \<Rightarrow> bytes \<Rightarrow> bytes \<Rightarrow> bytes result" where
  "mem_write off bs xs =
     (if off + length bs \<le> length xs
      then Inr (take off xs @ bs @ drop (off + length bs) xs)
      else Inl UndefinedBehaviour)"

text \<open>A pointer \<open>data.data() + off\<close>, and \<open>n\<close> bytes read from a pointer.\<close>

definition ptr_at :: "bytes \<Rightarrow> nat \<Rightarrow> bytes" where
  "ptr_at xs off = drop off xs"

definition mem_read :: "nat \<Rightarrow> bytes \<Rightarrow> bytes result" where
  "mem_read n p = (if n \<le> length p then Inr (take n p) else Inl UndefinedBehaviour)"

text \<open>Element access with \<open>operator[]\<close> on a vector (undefined out of range).\<close>

definition vec_index :: "'a list \<Rightarrow> nat \<Rightarrow> 'a result" where
  "vec_index xs i = (if i < length xs then Inr (xs ! i) else Inl UndefinedBehaviour)"

lemma length_vec_resize [simp]: "length (vec_resize n xs) = n"
  by (simp add: vec_resize_def)

lemma vec_resize_append: "vec_resize (length xs + n) xs = xs @ replicate n 0"
  by (simp add: vec_resize_def)

lemma mem_write_at_end:
  "length bs = n \<Longrightarrow> mem_write (length xs) bs (xs @ replicate n 0) = Inr (xs @ bs)"
  by (simp add: mem_write_def)

lemma ptr_at_append [simp]: "ptr_at (xs @ ys) (length xs) = ys"
  by (simp add: ptr_at_def)

lemma mem_read_append [codec_simps]: "length xs = n \<Longrightarrow> mem_read n (xs @ ys) = Inr xs"
  by (auto simp: mem_read_def)

lemma vec_index_Inr [simp]: "i < length xs \<Longrightarrow> vec_index xs i = Inr (xs ! i)"
  by (simp add: vec_index_def)

section \<open>File contents\<close>

text \<open>Writing at a position past the end fills the gap with zero bytes.\<close>

definition file_put :: "nat \<Rightarrow> bytes \<Rightarrow> bytes \<Rightarrow> bytes" where
  "file_put pos bs c =
     take pos c @ replicate (pos - length c) 0 @ bs @ drop (pos + length bs) c"

text \<open>\<open>n\<close> bytes of a file from a position; only sensible inside the file.\<close>

definition file_get :: "nat \<Rightarrow> nat \<Rightarrow> bytes \<Rightarrow> bytes" where
  "file_get pos n c = take n (drop pos c)"

lemma length_file_put: "length (file_put pos bs c) = (if bs = [] then max pos (length c) else max (pos + length bs) (length c))"
  by (auto simp: file_put_def max_def)

lemma nth_file_put:
  "i < length (file_put pos bs c) \<Longrightarrow>
   file_put pos bs c ! i =
     (if pos \<le> i \<and> i < pos + length bs then bs ! (i - pos) else if i < length c then c ! i else 0)"
  by (auto simp: file_put_def nth_append length_file_put min_def split: if_splits)

lemma file_get_put_same:
  assumes "length bs = n" shows "file_get pos n (file_put pos bs c) = bs"
proof -
  have "drop pos (file_put pos bs c) = bs @ drop (pos + length bs) c"
    by (cases "pos \<le> length c") (simp_all add: file_put_def)
  then show ?thesis using assms by (simp add: file_get_def)
qed

lemma file_get_put_other:
  assumes "pos' + n \<le> pos \<or> pos + length bs \<le> pos'" and "pos' + n \<le> length c"
  shows "file_get pos' n (file_put pos bs c) = file_get pos' n c"
proof (rule nth_equalityI)
  have len: "pos' + n \<le> length (file_put pos bs c)" using assms(2) by (auto simp: length_file_put)
  then show "length (file_get pos' n (file_put pos bs c)) = length (file_get pos' n c)"
    using assms(2) by (simp add: file_get_def)
  fix i assume "i < length (file_get pos' n (file_put pos bs c))"
  then have "i < n" by (simp add: file_get_def)
  then show "file_get pos' n (file_put pos bs c) ! i = file_get pos' n c ! i"
    using assms len by (auto simp: file_get_def nth_file_put)
qed

section \<open>Small words\<close>

lemma unat_u32_of_nat [simp]: "n < 4294967296 \<Longrightarrow> unat (word_of_nat n :: u32) = n"
  by (simp add: unat_of_nat)

lemma unat_u16_of_nat [simp]: "n < 65536 \<Longrightarrow> unat (word_of_nat n :: u16) = n"
  by (simp add: unat_of_nat)

lemma unat_u32_less: "unat (w :: u32) < 4294967296"
  using unsigned_less [of w, where ?'a = nat] by simp

lemma u32_of_nat_less_iff:
  "m < 4294967296 \<Longrightarrow> (word_of_nat m :: u32) < w \<longleftrightarrow> m < unat w"
  by (simp add: word_less_nat_alt)

section \<open>Strings as bytes\<close>

definition byte_of_char :: "char \<Rightarrow> byte" where
  "byte_of_char c = word_of_nat (of_char c)"

definition char_of_byte :: "byte \<Rightarrow> char" where
  "char_of_byte b = char_of (unat b)"

definition string_bytes :: "string \<Rightarrow> bytes" where
  "string_bytes s = map byte_of_char s"

definition bytes_string :: "bytes \<Rightarrow> string" where
  "bytes_string bs = map char_of_byte bs"

lemma unat_byte_of_char: "unat (byte_of_char c) = of_char c"
  by (simp add: byte_of_char_def unat_of_nat)

lemma char_of_byte_of_char [simp]: "char_of_byte (byte_of_char c) = c"
  by (simp add: char_of_byte_def unat_byte_of_char)

lemma byte_of_char_of_byte [simp]: "byte_of_char (char_of_byte b) = b"
proof -
  have "unat b < 256" using unsigned_less [of b, where ?'a = nat] by simp
  then show ?thesis by (simp add: byte_of_char_def char_of_byte_def)
qed

lemma bytes_string_bytes [simp, codec_simps]: "bytes_string (string_bytes s) = s"
  by (simp add: bytes_string_def string_bytes_def comp_def)

lemma string_bytes_string [simp]: "string_bytes (bytes_string bs) = bs"
  by (simp add: bytes_string_def string_bytes_def comp_def)

lemma length_string_bytes [simp, codec_length]: "length (string_bytes s) = length s"
  by (simp add: string_bytes_def)

lemma string_bytes_inject [simp]: "string_bytes a = string_bytes b \<longleftrightarrow> a = b"
  by (metis bytes_string_bytes)

section \<open>\<open>std::lower_bound\<close>\<close>

text \<open>
  The halving loop of the standard library: \<open>P x\<close> stands for \<open>comp(x, key)\<close>. On a range
  partitioned by \<open>P\<close> it returns the first position where \<open>P\<close> fails.
\<close>

function lb_loop :: "('a \<Rightarrow> bool) \<Rightarrow> 'a list \<Rightarrow> nat \<Rightarrow> nat \<Rightarrow> nat" where
  "lb_loop P xs first len =
     (if len = 0 then first
      else let half = len div 2; mid = first + half
           in if P (xs ! mid) then lb_loop P xs (mid + 1) (len - half - 1)
              else lb_loop P xs first half)"
  by pat_completeness auto
termination
  by (relation "measure (\<lambda>(P, xs, first, len). len)") auto

declare lb_loop.simps [simp del]

definition lower_bound :: "('a \<Rightarrow> bool) \<Rightarrow> 'a list \<Rightarrow> nat" where
  "lower_bound P xs = lb_loop P xs 0 (length xs)"

definition partitioned :: "('a \<Rightarrow> bool) \<Rightarrow> 'a list \<Rightarrow> bool" where
  "partitioned P xs \<longleftrightarrow> sorted_wrt (\<lambda>x y. P y \<longrightarrow> P x) xs"

lemma partitioned_nth:
  "partitioned P xs \<Longrightarrow> i \<le> j \<Longrightarrow> j < length xs \<Longrightarrow> P (xs ! j) \<Longrightarrow> P (xs ! i)"
  unfolding partitioned_def
  by (metis le_neq_implies_less sorted_wrt_nth_less)

lemma lb_loop_0: "lb_loop P xs first 0 = first"
  by (subst lb_loop.simps) simp

lemma lb_loop_right:
  "len \<noteq> 0 \<Longrightarrow> P (xs ! (first + len div 2)) \<Longrightarrow>
     lb_loop P xs first len = lb_loop P xs (first + len div 2 + 1) (len - len div 2 - 1)"
  by (subst lb_loop.simps) (simp add: Let_def)

lemma lb_loop_left:
  "len \<noteq> 0 \<Longrightarrow> \<not> P (xs ! (first + len div 2)) \<Longrightarrow>
     lb_loop P xs first len = lb_loop P xs first (len div 2)"
  by (subst lb_loop.simps) (simp add: Let_def)

lemma lb_loop_correct:
  assumes "partitioned P xs" and "first + len \<le> length xs"
    and "\<forall>i < first. P (xs ! i)"
    and "\<forall>i. first + len \<le> i \<and> i < length xs \<longrightarrow> \<not> P (xs ! i)"
  shows "lb_loop P xs first len \<le> length xs
    \<and> (\<forall>i < lb_loop P xs first len. P (xs ! i))
    \<and> (\<forall>i. lb_loop P xs first len \<le> i \<and> i < length xs \<longrightarrow> \<not> P (xs ! i))"
  using assms
proof (induction P xs first len rule: lb_loop.induct)
  case (1 P xs first len)
  show ?case
  proof (cases "len = 0")
    case True
    then show ?thesis using "1.prems" by (simp add: lb_loop_0)
  next
    case False
    then have mid: "first + len div 2 < length xs" using "1.prems"(2) by linarith
    show ?thesis
    proof (cases "P (xs ! (first + len div 2))")
      case True
      have "\<forall>i < first + len div 2 + 1. P (xs ! i)"
        using partitioned_nth [OF "1.prems"(1) _ mid True] by auto
      moreover have "first + len div 2 + 1 + (len - len div 2 - 1) = first + len"
        using False by simp
      ultimately show ?thesis
        unfolding lb_loop_right [of len P xs first, OF False True]
        using "1.IH"(1) [OF False refl refl True "1.prems"(1)] "1.prems"(2,4) by metis
    next
      case notP: False
      have "\<forall>i. first + len div 2 \<le> i \<and> i < length xs \<longrightarrow> \<not> P (xs ! i)"
        using partitioned_nth [OF "1.prems"(1)] notP by blast
      then show ?thesis
        unfolding lb_loop_left [of len P xs first, OF False notP]
        using "1.IH"(2) [OF False refl refl notP "1.prems"(1)] "1.prems"(3) mid
        by (meson less_imp_le_nat)
    qed
  qed
qed

lemma lower_bound_takeWhile:
  assumes "partitioned P xs"
  shows "lower_bound P xs = length (takeWhile P xs)"
proof -
  let ?k = "lower_bound P xs"
  have "?k \<le> length xs \<and> (\<forall>i < ?k. P (xs ! i))
      \<and> (\<forall>i. ?k \<le> i \<and> i < length xs \<longrightarrow> \<not> P (xs ! i))"
    unfolding lower_bound_def by (rule lb_loop_correct [OF assms]) auto
  then have k: "?k \<le> length xs" "\<forall>i < ?k. P (xs ! i)"
    "\<forall>i. ?k \<le> i \<and> i < length xs \<longrightarrow> \<not> P (xs ! i)"
    by blast+
  have "takeWhile P xs = take ?k xs"
  proof (rule takeWhile_eq_take_P_nth)
    show "\<And>i. i < ?k \<Longrightarrow> i < length xs \<Longrightarrow> P (xs ! i)" using k(2) by blast
    show "?k < length xs \<Longrightarrow> \<not> P (xs ! ?k)" using k(3) by blast
  qed
  then show ?thesis using k(1) by simp
qed

lemma lower_bound_split:
  assumes "partitioned P xs"
  shows "take (lower_bound P xs) xs = takeWhile P xs"
    and "drop (lower_bound P xs) xs = dropWhile P xs"
  unfolding lower_bound_takeWhile [OF assms]
  by (rule takeWhile_eq_take [symmetric], rule dropWhile_eq_drop [symmetric])

section \<open>Sequences of calls\<close>

text \<open>The answers to a sequence of calls and the state they leave.\<close>

primrec run_calls :: "('o \<Rightarrow> 's \<Rightarrow> 'r \<times> 's) \<Rightarrow> 'o list \<Rightarrow> 's \<Rightarrow> 'r list \<times> 's" where
  "run_calls call [] s = ([], s)"
| "run_calls call (oper # ops) s = (let (r, s1) = call oper s; (rs, s2) = run_calls call ops s1 in (r # rs, s2))"

lemma run_calls_snoc:
  "run_calls call (ops @ [oper]) s = (let (rs, s1) = run_calls call ops s; (r, s2) = call oper s1 in (rs @ [r], s2))"
  by (induction ops arbitrary: s) (simp_all add: Let_def case_prod_beta)

text \<open>A refinement of single calls carries over to sequences.\<close>

lemma run_calls_refined:
  assumes "\<And>oper s a. R s a \<Longrightarrow> fst (call oper s) = fst (spec oper a) \<and> R (snd (call oper s)) (snd (spec oper a))" and "R s a"
  shows "fst (run_calls call ops s) = fst (run_calls spec ops a) \<and> R (snd (run_calls call ops s)) (snd (run_calls spec ops a))"
  using assms(2)
proof (induction ops arbitrary: s a)
  case (Cons oper ops)
  then show ?case using assms(1) [OF Cons.prems, of oper] by (simp add: case_prod_beta Let_def)
qed simp

end
