(* ===== verification/Xdl_Types.thy ===== *)
theory Xdl_Types
  imports Xdl_Prelude
begin

text \<open>
  The data model of \<open>include/xdl/types.h\<close>: constants, field types, field definitions,
  schemas with \<open>field_index\<close> and \<open>validate\<close>, field values (the \<open>std::variant\<close>), rows with
  their typed accessors, and the reader-writer lock.

  A \<open>float\<close> is its IEEE 754 bit pattern (a 32-bit word); an \<open>int64_t\<close> is a 64-bit word
  read with \<open>sint\<close>. The enumeration \<open>FieldType\<close> has a sixth constructor \<open>OtherType\<close> for
  the values outside the enumerators that \<open>static_cast<FieldType>(byte)\<close> produces when a
  schema is read from disk: every \<open>switch\<close> of the sources has a path for them.
\<close>

section \<open>Constants\<close>

definition XDL_MAGIC :: u32 where "XDL_MAGIC = 0x58444C31"
definition XDL_VERSION :: u32 where "XDL_VERSION = 1"
definition PAGE_SIZE :: u32 where "PAGE_SIZE = 8192"
definition MAX_ROWS_PER_PAGE :: u32 where "MAX_ROWS_PER_PAGE = 64"
definition INVALID_PAGE_ID :: u32 where "INVALID_PAGE_ID = 0xFFFFFFFF"
definition DEFAULT_CACHE_SIZE :: nat where "DEFAULT_CACHE_SIZE = 256"
definition WAL_MAGIC :: u64 where "WAL_MAGIC = 0x57414C31"
definition WAL_CHECKSUM_SEED :: u32 where "WAL_CHECKSUM_SEED = 0xDEADBEEF"

lemma unat_PAGE_SIZE [simp]: "unat PAGE_SIZE = 8192"
  by (simp add: PAGE_SIZE_def)

lemma unat_MAX_ROWS_PER_PAGE [simp]: "unat MAX_ROWS_PER_PAGE = 64"
  by (simp add: MAX_ROWS_PER_PAGE_def)

section \<open>Enumerations\<close>

datatype CompressionType = CNone | CLZ4 | COther byte

fun compression_code :: "CompressionType \<Rightarrow> byte" where
  "compression_code CNone = 0"
| "compression_code CLZ4 = 1"
| "compression_code (COther b) = b"

definition compression_of_code :: "byte \<Rightarrow> CompressionType" where
  "compression_of_code b = (if b = 0 then CNone else if b = 1 then CLZ4 else COther b)"

datatype FieldType = UINT32 | STRING | FLOAT32 | BOOL | INT64 | OtherType byte

fun field_type_code :: "FieldType \<Rightarrow> byte" where
  "field_type_code UINT32 = 0"
| "field_type_code STRING = 1"
| "field_type_code FLOAT32 = 2"
| "field_type_code BOOL = 3"
| "field_type_code INT64 = 4"
| "field_type_code (OtherType b) = b"

definition field_type_of_code :: "byte \<Rightarrow> FieldType" where
  "field_type_of_code b =
     (if b = 0 then UINT32 else if b = 1 then STRING else if b = 2 then FLOAT32
      else if b = 3 then BOOL else if b = 4 then INT64 else OtherType b)"

fun is_enumerator :: "FieldType \<Rightarrow> bool" where
  "is_enumerator (OtherType b) = False"
| "is_enumerator _ = True"

fun field_type_width :: "FieldType \<Rightarrow> u32" where
  "field_type_width UINT32 = 4"
| "field_type_width FLOAT32 = 4"
| "field_type_width BOOL = 1"
| "field_type_width INT64 = 8"
| "field_type_width STRING = 0"
| "field_type_width (OtherType b) = 0"

fun field_type_name :: "FieldType \<Rightarrow> string" where
  "field_type_name UINT32 = ''uint32''"
| "field_type_name STRING = ''string''"
| "field_type_name FLOAT32 = ''float32''"
| "field_type_name BOOL = ''bool''"
| "field_type_name INT64 = ''int64''"
| "field_type_name (OtherType b) = ''unknown''"

definition parse_field_type :: "string \<Rightarrow> FieldType result" where
  "parse_field_type s =
     (if s = ''uint32'' then Inr UINT32
      else if s = ''string'' then Inr STRING
      else if s = ''float32'' then Inr FLOAT32
      else if s = ''bool'' then Inr BOOL
      else if s = ''int64'' then Inr INT64
      else Inl InvalidArgument)"

section \<open>Schemas\<close>

record FieldDef =
  fd_name :: string
  fd_type :: FieldType

record Schema =
  s_fields :: "FieldDef list"
  s_version :: u32

fun field_index_from :: "FieldDef list \<Rightarrow> string \<Rightarrow> nat \<Rightarrow> int" where
  "field_index_from [] name i = -1"
| "field_index_from (f # fs) name i =
     (if fd_name f = name then int i else field_index_from fs name (Suc i))"

definition field_index :: "Schema \<Rightarrow> string \<Rightarrow> int" where
  "field_index schema name = field_index_from (s_fields schema) name 0"

text \<open>The two nested loops of \<open>Schema::validate\<close>: \<open>j\<close> runs over the fields after \<open>i\<close>.\<close>

fun name_occurs :: "string \<Rightarrow> FieldDef list \<Rightarrow> bool" where
  "name_occurs n [] = False"
| "name_occurs n (f # fs) = (n = fd_name f \<or> name_occurs n fs)"

fun duplicate_name :: "FieldDef list \<Rightarrow> bool" where
  "duplicate_name [] = False"
| "duplicate_name (f # fs) = (name_occurs (fd_name f) fs \<or> duplicate_name fs)"

definition validate :: "Schema \<Rightarrow> unit result" where
  "validate schema =
     (if s_fields schema = [] then Inl InvalidArgument
      else if duplicate_name (s_fields schema) then Inl InvalidArgument
      else Inr ())"

section \<open>Values and rows\<close>

datatype FieldValue =
    VUint32 u32
  | VString string
  | VFloat u32
  | VBool bool
  | VInt64 u64

record Row =
  row_id :: u32
  row_fields :: "FieldValue list"

text \<open>\<open>std::vector::at\<close> and \<open>std::get\<close>.\<close>

definition vec_at :: "'a list \<Rightarrow> nat \<Rightarrow> 'a result" where
  "vec_at xs i = (if i < length xs then Inr (xs ! i) else Inl OutOfRange)"

fun get_u32_value :: "FieldValue \<Rightarrow> u32 result" where
  "get_u32_value (VUint32 v) = Inr v"
| "get_u32_value _ = Inl BadVariantAccess"

fun get_string_value :: "FieldValue \<Rightarrow> string result" where
  "get_string_value (VString v) = Inr v"
| "get_string_value _ = Inl BadVariantAccess"

fun get_float_value :: "FieldValue \<Rightarrow> u32 result" where
  "get_float_value (VFloat v) = Inr v"
| "get_float_value _ = Inl BadVariantAccess"

fun get_bool_value :: "FieldValue \<Rightarrow> bool result" where
  "get_bool_value (VBool v) = Inr v"
| "get_bool_value _ = Inl BadVariantAccess"

fun get_int64_value :: "FieldValue \<Rightarrow> u64 result" where
  "get_int64_value (VInt64 v) = Inr v"
| "get_int64_value _ = Inl BadVariantAccess"

definition get_uint32 :: "Row \<Rightarrow> nat \<Rightarrow> u32 result" where
  "get_uint32 r idx = bindR (vec_at (row_fields r) idx) get_u32_value"

definition get_string :: "Row \<Rightarrow> nat \<Rightarrow> string result" where
  "get_string r idx = bindR (vec_at (row_fields r) idx) get_string_value"

definition get_float32 :: "Row \<Rightarrow> nat \<Rightarrow> u32 result" where
  "get_float32 r idx = bindR (vec_at (row_fields r) idx) get_float_value"

definition get_bool :: "Row \<Rightarrow> nat \<Rightarrow> bool result" where
  "get_bool r idx = bindR (vec_at (row_fields r) idx) get_bool_value"

definition get_int64 :: "Row \<Rightarrow> nat \<Rightarrow> u64 result" where
  "get_int64 r idx = bindR (vec_at (row_fields r) idx) get_int64_value"

definition get_named :: "(Row \<Rightarrow> nat \<Rightarrow> 'a result) \<Rightarrow> Row \<Rightarrow> Schema \<Rightarrow> string \<Rightarrow> 'a result" where
  "get_named get r schema name =
     (let idx = field_index schema name
      in if idx < 0 then Inl InvalidArgument else get r (nat idx))"

definition set_field :: "Row \<Rightarrow> nat \<Rightarrow> FieldValue \<Rightarrow> Row result" where
  "set_field r idx v =
     (if idx < length (row_fields r)
      then Inr (r\<lparr>row_fields := (row_fields r)[idx := v]\<rparr>) else Inl OutOfRange)"

section \<open>Typing of rows\<close>

fun value_has_type :: "FieldType \<Rightarrow> FieldValue \<Rightarrow> bool" where
  "value_has_type UINT32 (VUint32 v) = True"
| "value_has_type STRING (VString s) = (length s \<le> 65535)"
| "value_has_type FLOAT32 (VFloat v) = True"
| "value_has_type BOOL (VBool b) = True"
| "value_has_type INT64 (VInt64 v) = True"
| "value_has_type _ _ = False"

text \<open>A row conforms to a schema when it has one value of the declared type per field.\<close>

definition row_typed :: "Schema \<Rightarrow> Row \<Rightarrow> bool" where
  "row_typed schema r \<longleftrightarrow>
     list_all2 (\<lambda>fd v. value_has_type (fd_type fd) v) (s_fields schema) (row_fields r)"

section \<open>Reader-writer lock\<close>

text \<open>
  \<open>RWLock\<close> wraps \<open>std::shared_mutex\<close>; \<open>ReadLock\<close> and \<open>WriteLock\<close> hold it for a scope.
  The state is the number of shared holders and whether there is an exclusive holder; a
  transition is one member function returning.
\<close>

record RWLock =
  shared_holders :: nat
  exclusive :: bool

definition rwlock_init :: RWLock where
  "rwlock_init = \<lparr>shared_holders = 0, exclusive = False\<rparr>"

datatype lock_op = Lock | Unlock | LockShared | UnlockShared

text \<open>\<open>None\<close> is a call that blocks (a lock) or that the holder may not make (an unlock).\<close>

fun rwlock_op :: "lock_op \<Rightarrow> RWLock \<Rightarrow> RWLock option" where
  "rwlock_op Lock l =
     (if exclusive l \<or> shared_holders l > 0 then None else Some (l\<lparr>exclusive := True\<rparr>))"
| "rwlock_op Unlock l = (if exclusive l then Some (l\<lparr>exclusive := False\<rparr>) else None)"
| "rwlock_op LockShared l =
     (if exclusive l then None else Some (l\<lparr>shared_holders := Suc (shared_holders l)\<rparr>))"
| "rwlock_op UnlockShared l =
     (if shared_holders l > 0 then Some (l\<lparr>shared_holders := shared_holders l - 1\<rparr>) else None)"

definition try_lock :: "RWLock \<Rightarrow> bool \<times> RWLock" where
  "try_lock l = (case rwlock_op Lock l of None \<Rightarrow> (False, l) | Some l' \<Rightarrow> (True, l'))"

definition try_lock_shared :: "RWLock \<Rightarrow> bool \<times> RWLock" where
  "try_lock_shared l = (case rwlock_op LockShared l of None \<Rightarrow> (False, l) | Some l' \<Rightarrow> (True, l'))"

inductive rwlock_reachable :: "RWLock \<Rightarrow> bool" where
  start: "rwlock_reachable rwlock_init"
| step: "rwlock_reachable l \<Longrightarrow> rwlock_op op l = Some l' \<Longrightarrow> rwlock_reachable l'"

section \<open>Lemmas\<close>

lemma compression_of_code_code [simp]:
  "ct = CNone \<or> ct = CLZ4 \<Longrightarrow> compression_of_code (compression_code ct) = ct"
  by (auto simp: compression_of_code_def)

lemma field_type_of_code_code [simp, codec_simps]:
  "is_enumerator t \<Longrightarrow> field_type_of_code (field_type_code t) = t"
  by (cases t) (simp_all add: field_type_of_code_def)

lemma field_type_code_of_code [simp]: "field_type_code (field_type_of_code b) = b"
  by (simp add: field_type_of_code_def)

lemma parse_field_type_name: "is_enumerator t \<Longrightarrow> parse_field_type (field_type_name t) = Inr t"
  by (cases t) (simp_all add: parse_field_type_def)

lemma name_occurs_iff [simp]: "name_occurs n fs \<longleftrightarrow> n \<in> set (map fd_name fs)"
  by (induction fs) auto

lemma duplicate_name_iff: "duplicate_name fs \<longleftrightarrow> \<not> distinct (map fd_name fs)"
  by (induction fs) auto

lemma validate_ok_iff:
  "validate s = Inr () \<longleftrightarrow> s_fields s \<noteq> [] \<and> distinct (map fd_name (s_fields s))"
  by (simp add: validate_def duplicate_name_iff)

lemma field_index_from_found:
  assumes "i < length fs" and "\<forall>j < i. fd_name (fs ! j) \<noteq> fd_name (fs ! i)"
  shows "field_index_from fs (fd_name (fs ! i)) k = int (k + i)"
  using assms
proof (induction fs arbitrary: i k)
  case Nil
  then show ?case by simp
next
  case (Cons f fs)
  show ?case
  proof (cases i)
    case 0
    then show ?thesis by simp
  next
    case (Suc j)
    have "fd_name f \<noteq> fd_name (fs ! j)" using Cons.prems(2) Suc by force
    moreover have "field_index_from fs (fd_name (fs ! j)) (Suc k) = int (Suc k + j)"
    proof (rule Cons.IH)
      show "j < length fs" using Cons.prems(1) Suc by simp
      show "\<forall>l < j. fd_name (fs ! l) \<noteq> fd_name (fs ! j)"
        using Cons.prems(2) Suc by (metis Suc_less_eq nth_Cons_Suc)
    qed
    ultimately show ?thesis using Suc by simp
  qed
qed

lemma field_index_from_cases:
  "(field_index_from fs name k = -1 \<and> name \<notin> fd_name ` set fs)
   \<or> (\<exists>i < length fs. field_index_from fs name k = int (k + i) \<and> fd_name (fs ! i) = name
        \<and> (\<forall>j < i. fd_name (fs ! j) \<noteq> name))"
proof (induction fs arbitrary: k)
  case Nil
  then show ?case by simp
next
  case (Cons f fs)
  show ?case
  proof (cases "fd_name f = name")
    case True
    then show ?thesis by force
  next
    case False
    from Cons.IH [of "Suc k"] show ?thesis
    proof
      assume "field_index_from fs name (Suc k) = -1 \<and> name \<notin> fd_name ` set fs"
      then show ?thesis using False by auto
    next
      assume "\<exists>i < length fs. field_index_from fs name (Suc k) = int (Suc k + i)
        \<and> fd_name (fs ! i) = name \<and> (\<forall>j < i. fd_name (fs ! j) \<noteq> name)"
      then obtain i where i: "i < length fs" "field_index_from fs name (Suc k) = int (Suc k + i)"
        "fd_name (fs ! i) = name" "\<forall>j < i. fd_name (fs ! j) \<noteq> name" by blast
      have "\<forall>j < Suc i. fd_name ((f # fs) ! j) \<noteq> name"
        using i(4) False by (auto simp: less_Suc_eq_0_disj)
      then show ?thesis using i False by (intro disjI2 exI [of _ "Suc i"]) simp
    qed
  qed
qed

lemma field_index_nonneg:
  "field_index s name \<ge> 0 \<Longrightarrow>
     nat (field_index s name) < length (s_fields s)
     \<and> fd_name (s_fields s ! nat (field_index s name)) = name"
  using field_index_from_cases [of "s_fields s" name 0] by (auto simp: field_index_def)

lemma field_index_neg_iff: "field_index s name < 0 \<longleftrightarrow> name \<notin> fd_name ` set (s_fields s)"
  using field_index_from_cases [of "s_fields s" name 0] by (auto simp: field_index_def)

lemma field_index_distinct:
  assumes "distinct (map fd_name (s_fields s))" and "i < length (s_fields s)"
  shows "field_index s (fd_name (s_fields s ! i)) = int i"
proof -
  have "\<forall>j < i. fd_name (s_fields s ! j) \<noteq> fd_name (s_fields s ! i)"
    using assms by (auto simp: distinct_conv_nth)
  then show ?thesis using field_index_from_found [of i "s_fields s" 0] assms(2)
    by (simp add: field_index_def)
qed

lemma row_typed_length: "row_typed s r \<Longrightarrow> length (row_fields r) = length (s_fields s)"
  by (simp add: row_typed_def list_all2_lengthD)

lemma row_typed_nth:
  "row_typed s r \<Longrightarrow> i < length (s_fields s) \<Longrightarrow>
     value_has_type (fd_type (s_fields s ! i)) (row_fields r ! i)"
  by (simp add: row_typed_def list_all2_conv_all_nth)

lemma rwlock_reachable_inv: "rwlock_reachable l \<Longrightarrow> \<not> (exclusive l \<and> shared_holders l > 0)"
proof (induction rule: rwlock_reachable.induct)
  case start
  then show ?case by (simp add: rwlock_init_def)
next
  case (step l op l')
  then show ?case by (cases op) (auto split: if_splits)
qed

end
