(* ===== verification/Serialise.thy ===== *)
theory Serialise
  imports Xdl_Types
begin

text \<open>
  The namespace \<open>serialise\<close> of \<open>include/xdl/page.h\<close>: explicit little-endian writers and
  readers. A writer returns the bytes it stores at \<open>dst\<close>; a reader takes a pointer (the
  bytes from \<open>src\<close> to the end of the buffer). \<open>std::memcpy\<close> of an integer to or from a
  buffer, which the write-ahead log and the file headers use, is the same codec on the
  little-endian hosts the project builds for.
\<close>

section \<open>Writers\<close>

definition write_u8 :: "byte \<Rightarrow> bytes" where
  "write_u8 v = [v]"

definition write_u16 :: "u16 \<Rightarrow> bytes" where
  "write_u16 v = [ucast (v AND 0xFF), ucast (drop_bit 8 v AND 0xFF)]"

definition write_u32 :: "u32 \<Rightarrow> bytes" where
  "write_u32 v =
     [ucast (v AND 0xFF), ucast (drop_bit 8 v AND 0xFF),
      ucast (drop_bit 16 v AND 0xFF), ucast (drop_bit 24 v AND 0xFF)]"

definition write_u64 :: "u64 \<Rightarrow> bytes" where
  "write_u64 v = map (\<lambda>i. ucast (drop_bit (i * 8) v AND 0xFF)) [0..<8]"

section \<open>Readers\<close>

fun read_u8 :: "bytes \<Rightarrow> byte result" where
  "read_u8 (b # p) = Inr b"
| "read_u8 _ = Inl UndefinedBehaviour"

fun read_u16 :: "bytes \<Rightarrow> u16 result" where
  "read_u16 (b0 # b1 # p) = Inr (ucast b0 OR push_bit 8 (ucast b1))"
| "read_u16 _ = Inl UndefinedBehaviour"

fun read_u32 :: "bytes \<Rightarrow> u32 result" where
  "read_u32 (b0 # b1 # b2 # b3 # p) =
     Inr (ucast b0 OR push_bit 8 (ucast b1) OR push_bit 16 (ucast b2) OR push_bit 24 (ucast b3))"
| "read_u32 _ = Inl UndefinedBehaviour"

definition read_u64 :: "bytes \<Rightarrow> u64 result" where
  "read_u64 src =
     (if length src < 8 then Inl UndefinedBehaviour
      else Inr (fold (\<lambda>i v. v OR push_bit (i * 8) (ucast (src ! i))) [0..<8] 0))"

definition read_f32 :: "bytes \<Rightarrow> u32 result" where
  "read_f32 src = read_u32 src"

section \<open>Lengths\<close>

lemma length_write_u8 [simp, codec_length]: "length (write_u8 v) = 1"
  by (simp add: write_u8_def)

lemma length_write_u16 [simp, codec_length]: "length (write_u16 v) = 2"
  by (simp add: write_u16_def)

lemma length_write_u32 [simp, codec_length]: "length (write_u32 v) = 4"
  by (simp add: write_u32_def)

lemma length_write_u64 [simp, codec_length]: "length (write_u64 v) = 8"
  by (simp add: write_u64_def)

section \<open>Read after write\<close>

lemma bit_byte_high: "8 \<le> n \<Longrightarrow> \<not> bit b n" for b :: byte
  by (auto dest: bit_imp_le_length)

lemma and_byte_mask: "x AND 0xFF = take_bit 8 x" for x :: "'a::len word"
  by (simp add: take_bit_eq_mask mask_eq_exp_minus_1)

lemma read_write_u8 [simp, codec_simps]: "read_u8 (write_u8 v @ p) = Inr v"
  by (simp add: write_u8_def)

lemma read_write_u16 [simp, codec_simps]: "read_u16 (write_u16 v @ p) = Inr v"
proof -
  have "ucast (ucast (v AND 0xFF) :: byte) OR push_bit 8 (ucast (ucast (drop_bit 8 v AND 0xFF) :: byte)) = v"
    (is "?l = v")
  proof (rule bit_word_eqI)
    fix n assume "n < LENGTH(16)"
    then show "bit ?l n = bit v n"
      by (cases "n < 8") (auto simp: bit_simps and_byte_mask)
  qed
  then show ?thesis by (simp add: write_u16_def)
qed

lemma read_write_u32 [simp, codec_simps]: "read_u32 (write_u32 v @ p) = Inr v"
proof -
  have "ucast (ucast (v AND 0xFF) :: byte) OR push_bit 8 (ucast (ucast (drop_bit 8 v AND 0xFF) :: byte))
      OR push_bit 16 (ucast (ucast (drop_bit 16 v AND 0xFF) :: byte))
      OR push_bit 24 (ucast (ucast (drop_bit 24 v AND 0xFF) :: byte)) = v" (is "?l = v")
  proof (rule bit_word_eqI)
    fix n assume "n < LENGTH(32)"
    then consider "n < 8" | "8 \<le> n" "n < 16" | "16 \<le> n" "n < 24" | "24 \<le> n" "n < 32"
      by fastforce
    then show "bit ?l n = bit v n"
      by cases (auto simp: bit_simps and_byte_mask)
  qed
  then show ?thesis by (simp add: write_u32_def)
qed

lemma write_read_u32:
  assumes "read_u32 p = Inr v" shows "p = write_u32 v @ drop 4 p"
proof -
  from assms obtain b0 b1 b2 b3 q where p: "p = b0 # b1 # b2 # b3 # q"
    and v: "v = ucast b0 OR push_bit 8 (ucast b1) OR push_bit 16 (ucast b2) OR push_bit 24 (ucast b3)"
    by (cases p rule: read_u32.cases) auto
  have "ucast (v AND 0xFF) = b0" "ucast (drop_bit 8 v AND 0xFF) = b1"
    "ucast (drop_bit 16 v AND 0xFF) = b2" "ucast (drop_bit 24 v AND 0xFF) = b3"
    unfolding v and_byte_mask
    by (auto intro!: bit_word_eqI simp: bit_simps bit_byte_high)
  then show ?thesis by (simp add: p write_u32_def)
qed

lemma read_u32_total: "4 \<le> length p \<Longrightarrow> \<exists>v. read_u32 p = Inr v"
  by (cases p rule: read_u32.cases) auto

text \<open>The byte-wise decomposition that the eight-byte codec is built from.\<close>

lemma bit_fold_push:
  "bit (fold (\<lambda>i v. v OR push_bit (i * 8) (ucast (g i :: byte))) [0..<k] (0::u64)) n \<longleftrightarrow>
     n < 64 \<and> n div 8 < k \<and> bit (g (n div 8)) (n mod 8)"
proof (induction k)
  case 0
  then show ?case by simp
next
  case (Suc k)
  have "n \<ge> k * 8 \<and> n - k * 8 < 8 \<longleftrightarrow> n div 8 = k" by auto
  moreover have "n div 8 = k \<Longrightarrow> n - k * 8 = n mod 8" by (auto simp: minus_div_mult_eq_mod)
  ultimately show ?case
    using Suc by (auto simp: bit_simps dest: bit_imp_le_length)
qed

lemma read_write_u64 [simp, codec_simps]: "read_u64 (write_u64 v @ p) = Inr v"
proof -
  let ?g = "\<lambda>i. (write_u64 v @ p) ! i"
  have g: "?g i = ucast (drop_bit (i * 8) v AND 0xFF)" if "i < 8" for i
    using that by (simp add: write_u64_def nth_append)
  have "fold (\<lambda>i v. v OR push_bit (i * 8) (ucast (?g i))) [0..<8] 0 = v" (is "?l = v")
  proof (rule bit_word_eqI)
    fix n assume "n < LENGTH(64)"
    then have n: "n < 64" "n div 8 < 8" by auto
    have "bit ?l n \<longleftrightarrow> bit (?g (n div 8)) (n mod 8)"
      using bit_fold_push [of ?g 8 n] n by simp
    also have "\<dots> \<longleftrightarrow> bit v (n div 8 * 8 + n mod 8)"
      using n by (simp add: g bit_simps and_byte_mask)
    finally show "bit ?l n = bit v n" by simp
  qed
  then show ?thesis by (simp add: read_u64_def)
qed

lemma read_write_f32 [simp, codec_simps]: "read_f32 (write_u32 v @ p) = Inr v"
  by (simp add: read_f32_def)

end
