(* ===== verification/Page.thy ===== *)
theory Page
  imports Serialise
begin

text \<open>
  The in-memory page: \<open>struct Page\<close> of \<open>include/xdl/page.h\<close> and the row wire format of
  \<open>src/page.cpp\<close>. A page holds serialised rows in \<open>data\<close> and caches the start of each
  row in \<open>row_offsets\<close>. The abstraction relation \<open>page_rel\<close> says which list of rows a
  page stands for; append, erase, decode and search refine the list operations.
\<close>

section \<open>State\<close>

record Page =
  p_id :: u32
  p_data :: bytes
  p_row_count :: u32
  p_dirty :: bool
  p_row_offsets :: "u32 list"

definition Page_of_id :: "u32 \<Rightarrow> Page" where
  "Page_of_id pid =
     \<lparr>p_id = pid, p_data = [], p_row_count = 0, p_dirty = False, p_row_offsets = []\<rparr>"

section \<open>Row serialisation\<close>

definition field_byte_size :: "FieldValue \<Rightarrow> FieldType \<Rightarrow> u32 result" where
  "field_byte_size v t = (case t of
       UINT32 \<Rightarrow> (case v of VUint32 _ \<Rightarrow> Inr 4 | _ \<Rightarrow> Inl XDLError)
     | STRING \<Rightarrow> (case v of
           VString s \<Rightarrow> if length s > 65535 then Inl XDLError
                        else Inr (2 + word_of_nat (length s))
         | _ \<Rightarrow> Inl XDLError)
     | FLOAT32 \<Rightarrow> (case v of VFloat _ \<Rightarrow> Inr 4 | _ \<Rightarrow> Inl XDLError)
     | BOOL \<Rightarrow> (case v of VBool _ \<Rightarrow> Inr 1 | _ \<Rightarrow> Inl XDLError)
     | INT64 \<Rightarrow> (case v of VInt64 _ \<Rightarrow> Inr 8 | _ \<Rightarrow> Inl XDLError)
     | OtherType _ \<Rightarrow> Inl XDLError)"

text \<open>The loop of \<open>row_byte_size\<close>: \<open>row.fields.at(i)\<close> throws when the row is too short.\<close>

fun fields_byte_size :: "FieldDef list \<Rightarrow> FieldValue list \<Rightarrow> u32 \<Rightarrow> u32 result" where
  "fields_byte_size [] vs sz = Inr sz"
| "fields_byte_size (fd # fds) [] sz = Inl OutOfRange"
| "fields_byte_size (fd # fds) (v # vs) sz =
     bindR (field_byte_size v (fd_type fd)) (\<lambda>n. fields_byte_size fds vs (sz + n))"

definition row_byte_size :: "Row \<Rightarrow> Schema \<Rightarrow> u32 result" where
  "row_byte_size row schema = fields_byte_size (s_fields schema) (row_fields row) (4 + 4)"

definition serialised_row_size :: "Row \<Rightarrow> Schema \<Rightarrow> u32 result" where
  "serialised_row_size row schema = row_byte_size row schema"

text \<open>One iteration of the writing loop of \<open>append_row\<close>: the bytes stored at \<open>dst\<close>.\<close>

definition write_field :: "FieldType \<Rightarrow> FieldValue \<Rightarrow> bytes result" where
  "write_field t v = (case t of
       UINT32 \<Rightarrow> bindR (get_u32_value v) (\<lambda>x. Inr (write_u32 x))
     | STRING \<Rightarrow> bindR (get_string_value v) (\<lambda>s.
           let len = (word_of_nat (length s) :: u16)
           in Inr (write_u16 len @ take (unat len) (string_bytes s)))
     | FLOAT32 \<Rightarrow> bindR (get_float_value v) (\<lambda>bits. Inr (write_u32 bits))
     | BOOL \<Rightarrow> bindR (get_bool_value v) (\<lambda>b. Inr (write_u8 (if b then 1 else 0)))
     | INT64 \<Rightarrow> bindR (get_int64_value v) (\<lambda>x. Inr (write_u64 x))
     | OtherType _ \<Rightarrow> Inr [])"

fun write_fields :: "FieldDef list \<Rightarrow> FieldValue list \<Rightarrow> bytes result" where
  "write_fields [] vs = Inr []"
| "write_fields (fd # fds) [] = (case fd_type fd of
       OtherType _ \<Rightarrow> write_fields fds []
     | _ \<Rightarrow> Inl OutOfRange)"
| "write_fields (fd # fds) (v # vs) =
     bindR (write_field (fd_type fd) v) (\<lambda>bs.
       bindR (write_fields fds vs) (\<lambda>rest. Inr (bs @ rest)))"

definition append_row :: "Page \<Rightarrow> Row \<Rightarrow> Schema \<Rightarrow> Page result" where
  "append_row p row schema =
     (let offset = word_of_nat (length (p_data p)) :: u32 in
      bindR (row_byte_size row schema) (\<lambda>total.
        if total > PAGE_SIZE then Inl XDLError
        else bindR (write_fields (s_fields schema) (row_fields row)) (\<lambda>fs.
          bindR (mem_write (unat offset) (write_u32 total @ write_u32 (row_id row) @ fs)
                           (vec_resize (unat (offset + total)) (p_data p))) (\<lambda>d.
            Inr (p\<lparr>p_data := d,
                   p_row_offsets := p_row_offsets p @ [offset],
                   p_row_count := p_row_count p + 1,
                   p_dirty := True\<rparr>)))))"

section \<open>Removal\<close>

text \<open>\<open>for (i = idx; i < row_count; ++i) row_offsets[i] -= total\<close>\<close>

definition shift_offsets :: "nat \<Rightarrow> nat \<Rightarrow> u32 \<Rightarrow> u32 list \<Rightarrow> u32 list result" where
  "shift_offsets idx n tot os =
     (if n > length os then Inl UndefinedBehaviour
      else Inr (map (\<lambda>(i, off). if idx \<le> i \<and> i < n then off - tot else off)
                    (zip [0..<length os] os)))"

definition erase_row :: "Page \<Rightarrow> u32 \<Rightarrow> Page result" where
  "erase_row p idx =
     (if idx \<ge> p_row_count p then Inl XDLError
      else bindR (vec_index (p_row_offsets p) (unat idx)) (\<lambda>start.
        bindR (read_u32 (ptr_at (p_data p) (unat start))) (\<lambda>total.
          if unat start + unat total > length (p_data p) then Inl UndefinedBehaviour
          else let offs = take (unat idx) (p_row_offsets p) @ drop (Suc (unat idx)) (p_row_offsets p);
                   rc = p_row_count p - 1
               in bindR (shift_offsets (unat idx) (unat rc) total offs) (\<lambda>offs'.
                 Inr (p\<lparr>p_data := take (unat start) (p_data p)
                                  @ drop (unat start + unat total) (p_data p),
                        p_row_offsets := offs',
                        p_row_count := rc,
                        p_dirty := True\<rparr>)))))"

section \<open>Decoding\<close>

text \<open>
  One iteration of the decoding loop of \<open>get_row\<close>: the value appended to the row (none
  for a type outside the enumerators) and the advanced pointer.
\<close>

definition read_field :: "FieldType \<Rightarrow> bytes \<Rightarrow> (FieldValue list \<times> bytes) result" where
  "read_field t src = (case t of
       UINT32 \<Rightarrow> bindR (read_u32 src) (\<lambda>v. Inr ([VUint32 v], drop 4 src))
     | STRING \<Rightarrow> bindR (read_u16 src) (\<lambda>len.
           bindR (mem_read (unat len) (drop 2 src)) (\<lambda>s.
             Inr ([VString (bytes_string s)], drop (2 + unat len) src)))
     | FLOAT32 \<Rightarrow> bindR (read_f32 src) (\<lambda>v. Inr ([VFloat v], drop 4 src))
     | BOOL \<Rightarrow> bindR (read_u8 src) (\<lambda>b. Inr ([VBool (b \<noteq> 0)], drop 1 src))
     | INT64 \<Rightarrow> bindR (read_u64 src) (\<lambda>u. Inr ([VInt64 u], drop 8 src))
     | OtherType _ \<Rightarrow> Inr ([], src))"

fun read_fields :: "FieldDef list \<Rightarrow> bytes \<Rightarrow> FieldValue list result" where
  "read_fields [] src = Inr []"
| "read_fields (fd # fds) src =
     bindR (read_field (fd_type fd) src) (\<lambda>(vs, src').
       bindR (read_fields fds src') (\<lambda>rest. Inr (vs @ rest)))"

definition get_row :: "Page \<Rightarrow> u32 \<Rightarrow> Schema \<Rightarrow> Row result" where
  "get_row p idx schema =
     (if idx \<ge> p_row_count p then Inl XDLError
      else bindR (vec_index (p_row_offsets p) (unat idx)) (\<lambda>off.
        let src = drop 4 (ptr_at (p_data p) (unat off)) in
        bindR (read_u32 src) (\<lambda>rid.
          bindR (read_fields (s_fields schema) (drop 4 src)) (\<lambda>fv.
            Inr \<lparr>row_id = rid, row_fields = fv\<rparr>))))"

definition row_id_at :: "Page \<Rightarrow> u32 \<Rightarrow> u32 result" where
  "row_id_at p idx =
     bindR (vec_index (p_row_offsets p) (unat idx)) (\<lambda>off.
       read_u32 (ptr_at (p_data p) (unat off + 4)))"

fun find_row_in :: "Page \<Rightarrow> u32 \<Rightarrow> nat list \<Rightarrow> int result" where
  "find_row_in p rid [] = Inr (-1)"
| "find_row_in p rid (i # is) =
     bindR (row_id_at p (word_of_nat i)) (\<lambda>r.
       if r = rid then Inr (int i) else find_row_in p rid is)"

definition find_row :: "Page \<Rightarrow> u32 \<Rightarrow> int result" where
  "find_row p rid = find_row_in p rid [0..<unat (p_row_count p)]"

definition has_capacity :: "Page \<Rightarrow> bool" where
  "has_capacity p \<longleftrightarrow> p_row_count p < MAX_ROWS_PER_PAGE"

definition row_data_ptr :: "Page \<Rightarrow> u32 \<Rightarrow> bytes result" where
  "row_data_ptr p idx =
     bindR (vec_index (p_row_offsets p) (unat idx)) (\<lambda>off. Inr (ptr_at (p_data p) (unat off)))"

definition row_data_len :: "Page \<Rightarrow> u32 \<Rightarrow> u32 result" where
  "row_data_len p idx = bindR (row_data_ptr p idx) read_u32"

definition row_data_copy :: "Page \<Rightarrow> u32 \<Rightarrow> bytes result" where
  "row_data_copy p idx =
     (if idx \<ge> p_row_count p then Inl XDLError
      else bindR (row_data_ptr p idx) (\<lambda>base.
        bindR (read_u32 base) (\<lambda>total. mem_read (unat total) base)))"

section \<open>The list of rows a page stands for\<close>

text \<open>The reference encoding: it does not look at the schema.\<close>

fun enc_field :: "FieldValue \<Rightarrow> bytes" where
  "enc_field (VUint32 x) = write_u32 x"
| "enc_field (VString s) = write_u16 (word_of_nat (length s)) @ string_bytes s"
| "enc_field (VFloat bits) = write_u32 bits"
| "enc_field (VBool b) = write_u8 (if b then 1 else 0)"
| "enc_field (VInt64 x) = write_u64 x"

definition row_payload :: "Row \<Rightarrow> bytes" where
  "row_payload r = concat (map enc_field (row_fields r))"

definition row_size :: "Row \<Rightarrow> nat" where
  "row_size r = 8 + length (row_payload r)"

definition row_bytes :: "Row \<Rightarrow> bytes" where
  "row_bytes r = write_u32 (word_of_nat (row_size r)) @ write_u32 (row_id r) @ row_payload r"

definition rows_bytes :: "Row list \<Rightarrow> bytes" where
  "rows_bytes rows = concat (map row_bytes rows)"

definition rows_offsets :: "Row list \<Rightarrow> u32 list" where
  "rows_offsets rows =
     map (\<lambda>i. word_of_nat (length (rows_bytes (take i rows)))) [0..<length rows]"

definition storable_row :: "Schema \<Rightarrow> Row \<Rightarrow> bool" where
  "storable_row schema r \<longleftrightarrow> row_typed schema r \<and> row_size r \<le> unat PAGE_SIZE"

text \<open>
  The representation invariant and abstraction in one relation. The last conjunct keeps
  every offset below \<open>2 ^ 32\<close>, the range of \<open>row_offsets\<close>.
\<close>

definition page_rel :: "Schema \<Rightarrow> Page \<Rightarrow> Row list \<Rightarrow> bool" where
  "page_rel schema p rows \<longleftrightarrow>
     p_data p = rows_bytes rows
     \<and> p_row_offsets p = rows_offsets rows
     \<and> unat (p_row_count p) = length rows
     \<and> (\<forall>r \<in> set rows. storable_row schema r)
     \<and> length (p_data p) < 2 ^ 32"

section \<open>Lemmas on the wire format\<close>

lemma length_enc_field [codec_length]:
  "length (enc_field v) = (case v of VUint32 _ \<Rightarrow> 4 | VString s \<Rightarrow> 2 + length s
     | VFloat _ \<Rightarrow> 4 | VBool _ \<Rightarrow> 1 | VInt64 _ \<Rightarrow> 8)"
  by (cases v) simp_all

lemma field_byte_size_typed:
  "value_has_type t v \<Longrightarrow> field_byte_size v t = Inr (word_of_nat (length (enc_field v)))"
  by (cases t; cases v) (simp_all add: field_byte_size_def)

lemma field_byte_size_untyped:
  "\<not> value_has_type t v \<Longrightarrow> field_byte_size v t = Inl XDLError"
  by (cases t; cases v) (simp_all add: field_byte_size_def)

lemma write_field_typed: "value_has_type t v \<Longrightarrow> write_field t v = Inr (enc_field v)"
  by (cases t; cases v) (simp_all add: write_field_def Let_def)

lemma read_field_typed:
  "value_has_type t v \<Longrightarrow> read_field t (enc_field v @ p) = Inr ([v], p)"
  by (cases t; cases v) (simp_all add: read_field_def codec_simps)

lemma fields_byte_size_typed:
  "list_all2 (\<lambda>fd v. value_has_type (fd_type fd) v) fds vs \<Longrightarrow>
     fields_byte_size fds vs sz = Inr (sz + word_of_nat (length (concat (map enc_field vs))))"
proof (induction fds vs arbitrary: sz rule: list_all2_induct)
  case Nil
  then show ?case by simp
next
  case (Cons fd fds v vs)
  then show ?case by (simp add: field_byte_size_typed add.assoc)
qed

lemma fields_byte_size_ok_typed:
  "fields_byte_size fds vs sz = Inr n \<Longrightarrow> length vs = length fds \<Longrightarrow>
     list_all2 (\<lambda>fd v. value_has_type (fd_type fd) v) fds vs"
proof (induction fds vs sz rule: fields_byte_size.induct)
  case (3 fd fds v vs sz)
  then have "value_has_type (fd_type fd) v" using field_byte_size_untyped by fastforce
  with 3 show ?case by (auto simp: bindR_eq_Inr)
qed simp_all

lemma fields_byte_size_error:
  "length vs = length fds \<Longrightarrow> \<not> list_all2 (\<lambda>fd v. value_has_type (fd_type fd) v) fds vs \<Longrightarrow>
     fields_byte_size fds vs sz = Inl XDLError"
proof (induction fds vs sz rule: fields_byte_size.induct)
  case (3 fd fds v vs sz)
  show ?case
  proof (cases "value_has_type (fd_type fd) v")
    case True
    then show ?thesis using 3 by (simp add: field_byte_size_typed)
  next
    case False
    then show ?thesis by (simp add: field_byte_size_untyped)
  qed
qed simp_all

lemma write_fields_typed:
  "list_all2 (\<lambda>fd v. value_has_type (fd_type fd) v) fds vs \<Longrightarrow>
     write_fields fds vs = Inr (concat (map enc_field vs))"
  by (induction fds vs rule: list_all2_induct) (simp_all add: write_field_typed)

lemma read_fields_typed:
  "list_all2 (\<lambda>fd v. value_has_type (fd_type fd) v) fds vs \<Longrightarrow>
     read_fields fds (concat (map enc_field vs) @ p) = Inr vs"
  by (induction fds vs rule: list_all2_induct) (simp_all add: read_field_typed)

lemma row_byte_size_typed:
  "row_typed s r \<Longrightarrow> row_byte_size r s = Inr (word_of_nat (row_size r))"
  by (simp add: row_typed_def row_byte_size_def fields_byte_size_typed row_size_def row_payload_def)

lemma row_byte_size_ok_typed:
  "row_byte_size r s = Inr n \<Longrightarrow> length (row_fields r) = length (s_fields s) \<Longrightarrow>
     row_typed s r \<and> n = word_of_nat (row_size r)"
  using row_byte_size_typed fields_byte_size_ok_typed
  by (fastforce simp: row_byte_size_def row_typed_def)

lemma length_row_bytes [simp, codec_length]: "length (row_bytes r) = row_size r"
  by (simp add: row_bytes_def row_size_def)

lemma row_bytes_not_Nil [simp]: "row_bytes r \<noteq> []"
  by (simp add: row_bytes_def write_u32_def)

lemma row_bytes_drop [simp]:
  "drop 4 (row_bytes r) = write_u32 (row_id r) @ row_payload r"
  "drop 8 (row_bytes r) = row_payload r"
  "4 - row_size r = 0" "8 - row_size r = 0"
  by (simp_all add: row_bytes_def row_size_def)

lemma rows_bytes_simps [simp]:
  "rows_bytes [] = []" "rows_bytes (r # rows) = row_bytes r @ rows_bytes rows"
  "rows_bytes (rows @ rows') = rows_bytes rows @ rows_bytes rows'"
  by (simp_all add: rows_bytes_def)

lemma rows_bytes_split:
  "i < length rows \<Longrightarrow>
     rows_bytes rows = rows_bytes (take i rows) @ row_bytes (rows ! i) @ rows_bytes (drop (Suc i) rows)"
  by (metis append_Cons append_Nil id_take_nth_drop rows_bytes_simps(2,3))

lemma length_rows_bytes_take_le: "length (rows_bytes (take i rows)) \<le> length (rows_bytes rows)"
  by (metis append_take_drop_id le_add1 length_append rows_bytes_simps(3))

lemma length_rows_bytes_take_less:
  "i < length rows \<Longrightarrow> length (rows_bytes (take i rows)) + row_size (rows ! i) \<le> length (rows_bytes rows)"
  by (simp add: rows_bytes_split [of i rows])

lemma length_rows_bytes_ge: "8 * length rows \<le> length (rows_bytes rows)"
  by (induction rows) (auto simp: row_size_def)

lemma rows_offsets_simps [simp]:
  "rows_offsets [] = []"
  "rows_offsets (rows @ [r]) = rows_offsets rows @ [word_of_nat (length (rows_bytes rows))]"
  by (simp_all add: rows_offsets_def)

lemma length_rows_offsets [simp]: "length (rows_offsets rows) = length rows"
  by (simp add: rows_offsets_def)

lemma nth_rows_offsets:
  "i < length rows \<Longrightarrow> rows_offsets rows ! i = word_of_nat (length (rows_bytes (take i rows)))"
  by (simp add: rows_offsets_def)

section \<open>Refinement lemmas\<close>

lemma page_relD:
  assumes "page_rel s p rows"
  shows "p_data p = rows_bytes rows" "p_row_offsets p = rows_offsets rows"
    "unat (p_row_count p) = length rows" "\<And>r. r \<in> set rows \<Longrightarrow> storable_row s r"
    "length (rows_bytes rows) < 4294967296" "length rows < 4294967296"
  using assms unat_u32_less [of "p_row_count p"] by (auto simp: page_rel_def)

lemma page_rel_empty: "page_rel s (Page_of_id pid) []"
  by (simp add: page_rel_def Page_of_id_def)

text \<open>The pointer to a slot points at that row's bytes.\<close>

lemma page_rel_slot_offset:
  assumes "page_rel s p rows" and "i < length rows"
  shows "vec_index (p_row_offsets p) i = Inr (word_of_nat (length (rows_bytes (take i rows))))"
    and "unat (word_of_nat (length (rows_bytes (take i rows))) :: u32) = length (rows_bytes (take i rows))"
  using page_relD [OF assms(1)] assms(2) length_rows_bytes_take_le [of i rows]
  by (simp_all add: nth_rows_offsets)

lemma page_rel_slot_ptr:
  assumes "page_rel s p rows" and "i < length rows"
  shows "ptr_at (p_data p) (length (rows_bytes (take i rows)))
    = row_bytes (rows ! i) @ rows_bytes (drop (Suc i) rows)"
  by (simp add: page_relD(1) [OF assms(1)] rows_bytes_split [OF assms(2)] ptr_at_def)

lemma read_u32_row_bytes:
  "read_u32 (row_bytes r @ p) = Inr (word_of_nat (row_size r))"
  by (simp_all add: row_bytes_def)

lemma slot_in_range:
  "page_rel s p rows \<Longrightarrow> i < length rows \<Longrightarrow>
     unat (word_of_nat i :: u32) = i \<and> \<not> p_row_count p \<le> word_of_nat i"
  using page_relD(3,6) [of s p rows] by (simp add: word_le_nat_alt)

lemma append_row_page_rel:
  assumes rel: "page_rel s p rows" and ok: "storable_row s r"
    and room: "length (p_data p) + row_size r < 4294967296"
  shows "\<exists>p'. append_row p r s = Inr p' \<and> page_rel s p' (rows @ [r])
     \<and> p_id p' = p_id p \<and> p_dirty p'"
proof -
  let ?off = "word_of_nat (length (p_data p)) :: u32"
  let ?tot = "word_of_nat (row_size r) :: u32"
  let ?p' = "p\<lparr>p_data := p_data p @ row_bytes r, p_row_offsets := p_row_offsets p @ [?off],
               p_row_count := p_row_count p + 1, p_dirty := True\<rparr>"
  note d = page_relD [OF rel]
  have typed: "row_typed s r" and size: "row_size r \<le> 8192"
    using ok by (simp_all add: storable_row_def)
  have sum: "unat (?off + ?tot) = length (p_data p) + row_size r"
    using room by (simp flip: of_nat_add)
  have mw: "mem_write (length (p_data p)) (row_bytes r)
      (vec_resize (length (p_data p) + row_size r) (p_data p)) = Inr (p_data p @ row_bytes r)"
    by (simp add: vec_resize_append mem_write_at_end)
  have lim: "\<not> PAGE_SIZE < ?tot" using size by (simp add: word_less_nat_alt)
  have app: "append_row p r s = Inr ?p'"
    using typed lim room sum mw write_fields_typed [of "s_fields s" "row_fields r"]
    by (simp add: append_row_def Let_def row_byte_size_typed row_typed_def
        flip: row_payload_def row_bytes_def)
  have rc: "unat (p_row_count p + 1) = Suc (length rows)"
  proof -
    have "Suc (length rows) < 4294967296" using d(5) length_rows_bytes_ge [of rows] by linarith
    then show ?thesis using d(3) by (simp add: unat_word_ariths)
  qed
  have "page_rel s ?p' (rows @ [r])"
    using d ok room rc by (auto simp: page_rel_def)
  then show ?thesis using app by simp
qed

lemma append_row_errors:
  assumes "length (row_fields r) = length (s_fields s)" and "\<not> storable_row s r" and "row_size r < 4294967296"
  shows "append_row p r s = Inl XDLError"
proof (cases "row_typed s r")
  case True
  then have "\<not> row_size r \<le> 8192" using assms(2) by (simp add: storable_row_def)
  then show ?thesis using True assms(3)
    by (simp add: append_row_def Let_def row_byte_size_typed word_less_nat_alt)
next
  case False
  then have "row_byte_size r s = Inl XDLError"
    using assms(1) fields_byte_size_error by (simp add: row_byte_size_def row_typed_def)
  then show ?thesis by (simp add: append_row_def Let_def)
qed

lemma get_row_page_rel:
  assumes rel: "page_rel s p rows" and i: "i < length rows"
  shows "get_row p (word_of_nat i) s = Inr (rows ! i)"
proof -
  have typed: "list_all2 (\<lambda>fd v. value_has_type (fd_type fd) v) (s_fields s) (row_fields (rows ! i))"
    using page_relD(4) [OF rel, of "rows ! i"] i by (simp add: storable_row_def row_typed_def)
  show ?thesis
    using slot_in_range [OF assms] page_rel_slot_offset [OF assms] page_rel_slot_ptr [OF assms]
      read_fields_typed [OF typed]
    by (simp add: get_row_def Let_def row_payload_def)
qed

lemma row_id_at_page_rel:
  assumes "page_rel s p rows" and "i < length rows"
  shows "row_id_at p (word_of_nat i) = Inr (row_id (rows ! i))"
proof -
  have "ptr_at (p_data p) (length (rows_bytes (take i rows)) + 4)
      = drop 4 (row_bytes (rows ! i) @ rows_bytes (drop (Suc i) rows))"
    using page_rel_slot_ptr [OF assms] by (simp add: ptr_at_def add.commute flip: drop_drop)
  then show ?thesis
    using slot_in_range [OF assms] page_rel_slot_offset [OF assms]
    by (simp add: row_id_at_def)
qed

text \<open>Removing slot \<open>i\<close> from the list of rows, and what it does to the offsets.\<close>

definition remove_nth :: "nat \<Rightarrow> 'a list \<Rightarrow> 'a list" where
  "remove_nth i xs = take i xs @ drop (Suc i) xs"

lemma length_remove_nth [simp]: "i < length xs \<Longrightarrow> length (remove_nth i xs) = length xs - 1"
  by (simp add: remove_nth_def)

lemma set_remove_nth_subset: "set (remove_nth i xs) \<subseteq> set xs"
  using set_take_subset [of i xs] set_drop_subset [of "Suc i" xs] by (auto simp: remove_nth_def)

lemma nth_remove_nth:
  "j < length xs - 1 \<Longrightarrow> i < length xs \<Longrightarrow>
     remove_nth i xs ! j = (if j < i then xs ! j else xs ! Suc j)"
  by (simp add: remove_nth_def nth_append min_def)

lemma take_remove_nth:
  assumes "i < length xs"
  shows "take j (remove_nth i xs)
    = (if j \<le> i then take j xs else remove_nth i (take (Suc j) xs))"
  using assms by (auto simp: remove_nth_def min_def drop_take Suc_diff_le)

lemma rows_bytes_remove_nth:
  assumes "i < length rows"
  shows "length (rows_bytes rows) = length (rows_bytes (remove_nth i rows)) + row_size (rows ! i)"
  by (simp add: rows_bytes_split [OF assms] remove_nth_def)

lemma rows_offsets_remove_nth:
  assumes i: "i < length rows"
  shows "shift_offsets i (length rows - 1) (word_of_nat (row_size (rows ! i)))
      (remove_nth i (rows_offsets rows)) = Inr (rows_offsets (remove_nth i rows))"
proof -
  let ?n = "length rows - 1" and ?sz = "word_of_nat (row_size (rows ! i)) :: u32"
  let ?os = "remove_nth i (rows_offsets rows)"
  have "(if i \<le> j \<and> j < ?n then ?os ! j - ?sz else ?os ! j) = rows_offsets (remove_nth i rows) ! j"
    if j: "j < ?n" for j
  proof (cases "j < i")
    case True
    then show ?thesis using i j
      by (simp add: nth_remove_nth nth_rows_offsets take_remove_nth)
  next
    case False
    then have sz: "length (rows_bytes (take (Suc j) rows))
        = length (rows_bytes (remove_nth i (take (Suc j) rows))) + row_size (rows ! i)"
      using rows_bytes_remove_nth [of i "take (Suc j) rows"] i by simp
    have "?os ! j - ?sz = word_of_nat (length (rows_bytes (remove_nth i (take (Suc j) rows))))"
      using False i j by (simp add: nth_remove_nth nth_rows_offsets sz)
    also have "\<dots> = rows_offsets (remove_nth i rows) ! j"
      using False i j by (auto simp: nth_rows_offsets take_remove_nth remove_nth_def drop_take)
    finally show ?thesis using False j by simp
  qed
  then have "map (\<lambda>(k, off). if i \<le> k \<and> k < ?n then off - ?sz else off) (zip [0..<?n] ?os)
      = rows_offsets (remove_nth i rows)"
    using i by (intro nth_equalityI) simp_all
  then show ?thesis using i by (simp add: shift_offsets_def)
qed

lemma erase_row_page_rel:
  assumes rel: "page_rel s p rows" and i: "i < length rows"
  shows "\<exists>p'. erase_row p (word_of_nat i) = Inr p' \<and> page_rel s p' (remove_nth i rows)
     \<and> p_id p' = p_id p \<and> p_dirty p'"
proof -
  let ?st = "length (rows_bytes (take i rows))" and ?sz = "row_size (rows ! i)"
  let ?p' = "p\<lparr>p_data := rows_bytes (remove_nth i rows),
    p_row_offsets := rows_offsets (remove_nth i rows),
    p_row_count := p_row_count p - 1, p_dirty := True\<rparr>"
  note d = page_relD [OF rel] and slot = slot_in_range [OF assms]
  note off = page_rel_slot_offset [OF assms] and ptr = page_rel_slot_ptr [OF assms]
  have bound: "?st + ?sz \<le> length (rows_bytes rows)" by (rule length_rows_bytes_take_less [OF i])
  have sz: "unat (word_of_nat ?sz :: u32) = ?sz" using bound d(5) by simp
  have cut: "take ?st (p_data p) @ drop (?st + ?sz) (p_data p) = rows_bytes (remove_nth i rows)"
    by (simp add: d(1) rows_bytes_split [OF i] remove_nth_def)
  have "p_row_count p \<noteq> 0" using d(3) i by auto
  then have rc: "unat (p_row_count p - 1) = length rows - 1"
    using d(3) by (simp add: unat_minus_one)
  have offs: "take i (p_row_offsets p) @ drop (Suc i) (p_row_offsets p) = remove_nth i (rows_offsets rows)"
    by (simp add: d(2) remove_nth_def)
  have er: "erase_row p (word_of_nat i) = Inr ?p'"
    using slot off ptr bound sz cut rc rows_offsets_remove_nth [OF i]
    by (simp add: erase_row_def Let_def read_u32_row_bytes offs d(1) not_less)
  moreover have "page_rel s ?p' (remove_nth i rows)"
    using d rc i set_remove_nth_subset [of i rows] rows_bytes_remove_nth [OF i]
    by (auto simp: page_rel_def)
  ultimately show ?thesis by simp
qed

text \<open>The search returns the first slot that holds the row id.\<close>

fun first_index :: "('a \<Rightarrow> bool) \<Rightarrow> nat \<Rightarrow> 'a list \<Rightarrow> int" where
  "first_index P k [] = -1"
| "first_index P k (x # xs) = (if P x then int k else first_index P (Suc k) xs)"

lemma find_row_in_page_rel:
  assumes rel: "page_rel s p rows" and "k \<le> length rows"
  shows "find_row_in p rid [k..<length rows]
    = Inr (first_index (\<lambda>r. row_id r = rid) k (drop k rows))"
  using assms(2)
proof (induction "length rows - k" arbitrary: k)
  case 0
  then show ?case by simp
next
  case (Suc n)
  then have k: "k < length rows" by linarith
  have "find_row_in p rid [Suc k..<length rows]
      = Inr (first_index (\<lambda>r. row_id r = rid) (Suc k) (drop (Suc k) rows))"
    using Suc k by (intro Suc.hyps(1)) simp_all
  then show ?case
    using k by (simp add: upt_conv_Cons row_id_at_page_rel [OF rel] Cons_nth_drop_Suc [symmetric, of k])
qed

lemma find_row_page_rel:
  "page_rel s p rows \<Longrightarrow> find_row p rid = Inr (first_index (\<lambda>r. row_id r = rid) 0 rows)"
  using find_row_in_page_rel [of s p rows 0 rid] page_relD(3) [of s p rows]
  by (simp add: find_row_def)

lemma first_index_cases:
  "(first_index P k xs = -1 \<and> (\<forall>x \<in> set xs. \<not> P x))
   \<or> (\<exists>i < length xs. first_index P k xs = int (k + i) \<and> P (xs ! i) \<and> (\<forall>j < i. \<not> P (xs ! j)))"
proof (induction xs arbitrary: k)
  case Nil
  then show ?case by simp
next
  case (Cons x xs)
  show ?case
  proof (cases "P x")
    case True
    then show ?thesis by force
  next
    case False
    from Cons.IH [of "Suc k"] show ?thesis
    proof
      assume "first_index P (Suc k) xs = -1 \<and> (\<forall>x \<in> set xs. \<not> P x)"
      then show ?thesis using False by simp
    next
      assume "\<exists>i < length xs. first_index P (Suc k) xs = int (Suc k + i) \<and> P (xs ! i)
        \<and> (\<forall>j < i. \<not> P (xs ! j))"
      then obtain i where i: "i < length xs" "first_index P (Suc k) xs = int (Suc k + i)"
        "P (xs ! i)" "\<forall>j < i. \<not> P (xs ! j)" by blast
      have "\<forall>j < Suc i. \<not> P ((x # xs) ! j)" using i(4) False by (auto simp: less_Suc_eq_0_disj)
      then show ?thesis using i False by (intro disjI2 exI [of _ "Suc i"]) simp
    qed
  qed
qed

lemma row_data_ptr_page_rel:
  assumes "page_rel s p rows" and "i < length rows"
  shows "row_data_ptr p (word_of_nat i) = Inr (row_bytes (rows ! i) @ rows_bytes (drop (Suc i) rows))"
    and "row_data_len p (word_of_nat i) = Inr (word_of_nat (row_size (rows ! i)))"
    and "row_data_copy p (word_of_nat i) = Inr (row_bytes (rows ! i))"
proof -
  note slot = slot_in_range [OF assms]
  show ptr: "row_data_ptr p (word_of_nat i) = Inr (row_bytes (rows ! i) @ rows_bytes (drop (Suc i) rows))"
    using slot page_rel_slot_offset [OF assms] page_rel_slot_ptr [OF assms]
    by (simp add: row_data_ptr_def)
  then show "row_data_len p (word_of_nat i) = Inr (word_of_nat (row_size (rows ! i)))"
    by (simp add: row_data_len_def read_u32_row_bytes)
  have "row_size (rows ! i) < 4294967296"
    using length_rows_bytes_take_less [OF assms(2)] page_relD(5) [OF assms(1)] by linarith
  then show "row_data_copy p (word_of_nat i) = Inr (row_bytes (rows ! i))"
    using slot ptr by (simp add: row_data_copy_def read_u32_row_bytes mem_read_append)
qed

section \<open>Properties\<close>

text \<open>A concrete schema and rows, used by the witnesses.\<close>

definition demo_schema :: Schema where
  "demo_schema = \<lparr>s_fields = [\<lparr>fd_name = ''age'', fd_type = UINT32\<rparr>,
                             \<lparr>fd_name = ''name'', fd_type = STRING\<rparr>], s_version = 1\<rparr>"

definition demo_row :: "u32 \<Rightarrow> u32 \<Rightarrow> string \<Rightarrow> Row" where
  "demo_row i age name = \<lparr>row_id = i, row_fields = [VUint32 age, VString name]\<rparr>"

lemma storable_demo_row [simp]: "length name \<le> 8178 \<Longrightarrow> storable_row demo_schema (demo_row i age name)"
  by (simp add: storable_row_def row_typed_def demo_schema_def demo_row_def row_size_def row_payload_def)

lemma row_size_demo_row [simp]: "row_size (demo_row i age name) = 14 + length name"
  by (simp add: demo_row_def row_size_def row_payload_def)

lemma page_rel_demo:
  "\<exists>p. page_rel demo_schema p [demo_row 1 25 ''alice'', demo_row 2 30 ''bob''] \<and> p_id p = pid"
proof -
  obtain p1 where p1: "page_rel demo_schema p1 ([] @ [demo_row 1 25 ''alice''])" "p_id p1 = pid"
    using append_row_page_rel [OF page_rel_empty [of demo_schema pid], of "demo_row 1 25 ''alice''"]
    by (auto simp: Page_of_id_def)
  have "length (p_data p1) + row_size (demo_row 2 30 ''bob'') < 4294967296"
    using page_relD(1) [OF p1(1)] by simp
  then show ?thesis
    using append_row_page_rel [OF p1(1), of "demo_row 2 30 ''bob''"] p1(2) by auto
qed

text \<open>
  C17: appending a storable row to a page that stands for \<open>rows\<close> succeeds, marks the page
  dirty, leaves every earlier slot decoding to the row it held, and the new slot decodes
  to exactly the row that was appended, whatever the types of its fields.
\<close>

theorem append_row_then_get_row:
  assumes "page_rel s p rows" and "storable_row s r"
    and "length (p_data p) + row_size r < 2 ^ 32"
  shows "\<exists>p'. append_row p r s = Inr p' \<and> p_dirty p' \<and> p_id p' = p_id p
    \<and> get_row p' (word_of_nat (length rows)) s = Inr r
    \<and> (\<forall>i < length rows. get_row p' (word_of_nat i) s = get_row p (word_of_nat i) s)
    \<and> page_rel s p' (rows @ [r])"
proof -
  obtain p' where p': "append_row p r s = Inr p'" "page_rel s p' (rows @ [r])"
    "p_id p' = p_id p" "p_dirty p'"
    using append_row_page_rel [OF assms(1,2)] assms(3) by auto
  have "get_row p' (word_of_nat (length rows)) s = Inr r"
    using get_row_page_rel [OF p'(2), of "length rows"] by simp
  moreover have "get_row p' (word_of_nat i) s = get_row p (word_of_nat i) s" if "i < length rows" for i
    using get_row_page_rel [OF p'(2), of i] get_row_page_rel [OF assms(1) that] that
    by (simp add: nth_append)
  ultimately show ?thesis using p' by blast
qed

theorem append_row_then_get_row_witness:
  "\<exists>p'. append_row (Page_of_id 0) (demo_row 7 25 ''alice'') demo_schema = Inr p' \<and>
     get_row p' 0 demo_schema = Inr (demo_row 7 25 ''alice'')"
proof -
  have "length (p_data (Page_of_id 0)) + row_size (demo_row 7 25 ''alice'') < 2 ^ 32"
    by (simp add: Page_of_id_def)
  from append_row_then_get_row [OF page_rel_empty storable_demo_row this] show ?thesis by force
qed

text \<open>
  C18: erasing slot \<open>i\<close> compacts the page to exactly the other rows, in order: every slot
  below \<open>i\<close> decodes as before, every slot above moves down by one, and the page is
  dirty. The byte buffer, the offset table and the row count stay consistent.
\<close>

theorem erase_row_refines:
  assumes "page_rel s p rows" and "i < length rows"
  shows "\<exists>p'. erase_row p (word_of_nat i) = Inr p' \<and> p_dirty p' \<and> p_id p' = p_id p
    \<and> page_rel s p' (remove_nth i rows)
    \<and> (\<forall>j < length rows - 1. get_row p' (word_of_nat j) s
         = get_row p (word_of_nat (if j < i then j else Suc j)) s)"
proof -
  obtain p' where p': "erase_row p (word_of_nat i) = Inr p'" "page_rel s p' (remove_nth i rows)"
    "p_id p' = p_id p" "p_dirty p'"
    using erase_row_page_rel [OF assms] by blast
  have "get_row p' (word_of_nat j) s = get_row p (word_of_nat (if j < i then j else Suc j)) s"
    if "j < length rows - 1" for j
    using get_row_page_rel [OF p'(2), of j] get_row_page_rel [OF assms(1)] that assms(2)
    by (simp add: nth_remove_nth del: of_nat_Suc)
  then show ?thesis using p' by blast
qed

theorem erase_row_refines_witness:
  "\<exists>p p'. erase_row p (word_of_nat 0) = Inr p' \<and> get_row p' (word_of_nat 0) demo_schema = Inr (demo_row 2 30 ''bob'')"
proof -
  obtain p where p: "page_rel demo_schema p [demo_row 1 25 ''alice'', demo_row 2 30 ''bob'']"
    using page_rel_demo by blast
  have i: "(0::nat) < length [demo_row 1 25 ''alice'', demo_row 2 30 ''bob'']" by simp
  obtain p' where "erase_row p (word_of_nat 0) = Inr p'"
    "page_rel demo_schema p' (remove_nth 0 [demo_row 1 25 ''alice'', demo_row 2 30 ''bob''])"
    using erase_row_refines [OF p i] by blast
  then show ?thesis using get_row_page_rel [of demo_schema p' _ 0] by (force simp: remove_nth_def)
qed

text \<open>
  \<open>find_row\<close> returns -1 exactly when no row of the page has the id, and otherwise the
  lowest slot whose row has it; \<open>row_id_at\<close> on that slot reads the id back.
\<close>

theorem find_row_correct:
  assumes "page_rel s p rows"
  shows "(find_row p rid = Inr (-1) \<and> rid \<notin> row_id ` set rows)
    \<or> (\<exists>i < length rows. find_row p rid = Inr (int i) \<and> row_id_at p (word_of_nat i) = Inr rid
        \<and> (\<forall>j < i. row_id (rows ! j) \<noteq> rid))"
  using first_index_cases [of "\<lambda>r. row_id r = rid" 0 rows] find_row_page_rel [OF assms, of rid]
    row_id_at_page_rel [OF assms]
  by auto

theorem find_row_correct_witness:
  "\<exists>p. find_row p 2 = Inr 1 \<and> find_row p 9 = Inr (-1)"
proof -
  obtain p where p: "page_rel demo_schema p [demo_row 1 25 ''alice'', demo_row 2 30 ''bob'']"
    using page_rel_demo by blast
  have "find_row p 2 = Inr 1"
    using find_row_correct [OF p, of 2] find_row_page_rel [OF p, of 2] by (simp add: demo_row_def)
  moreover have "find_row p 9 = Inr (-1)"
    using find_row_correct [OF p, of 9] find_row_page_rel [OF p, of 9] by (simp add: demo_row_def)
  ultimately show ?thesis by blast
qed

text \<open>
  A row with the right number of fields that is not storable (a value of the wrong
  type, a string over 65535 bytes, a row over the page size) is rejected with
  \<open>XDLError\<close> before the page is touched.
\<close>

theorem append_row_rejects:
  assumes "length (row_fields r) = length (s_fields s)" and "\<not> storable_row s r"
    and "row_size r < 2 ^ 32"
  shows "append_row p r s = Inl XDLError"
  using append_row_errors assms by simp

theorem append_row_rejects_witness:
  "append_row (Page_of_id 0) \<lparr>row_id = 1, row_fields = [VUint32 3, VBool True]\<rparr> demo_schema = Inl XDLError"
  by (rule append_row_rejects)
     (simp_all add: demo_schema_def storable_row_def row_typed_def row_size_def row_payload_def)

end
