(* ===== verification/BPTree.thy ===== *)
theory BPTree
  imports Serialise "HOL-Library.List_Lexorder"
begin

text \<open>
  Secondary indexes: \<open>include/xdl/bptree.h\<close> and \<open>src/bptree.cpp\<close>. Field values are
  encoded to order-preserving byte keys; the tree is a vector of entries sorted by key,
  searched with \<open>std::lower_bound\<close>. The order of the library theory
  \<open>List_Lexorder\<close> on byte lists is the specification of \<open>bptree_key_compare\<close>.
\<close>

section \<open>Key encoding\<close>

text \<open>
  The loop of \<open>encode_int_be\<close> fills \<open>out\<close> from its last byte: \<open>n\<close> is the number of
  bytes still to write.
\<close>

fun encode_int_be :: "nat \<Rightarrow> 'a::len word \<Rightarrow> bytes" where
  "encode_int_be 0 val = []"
| "encode_int_be (Suc n) val = encode_int_be n (drop_bit 8 val) @ [ucast (val AND 0xFF)]"

definition encode_signed_be :: "u64 \<Rightarrow> bytes" where
  "encode_signed_be val = encode_int_be 8 (val XOR push_bit 63 1)"

definition encode_float_ordered :: "u32 \<Rightarrow> bytes" where
  "encode_float_ordered bits =
     encode_int_be 4 (if bits AND 0x80000000 \<noteq> 0 then bits XOR 0xFFFFFFFF
                      else bits XOR 0x80000000)"

definition bptree_key_encode_vec :: "FieldValue \<Rightarrow> FieldType \<Rightarrow> bytes result" where
  "bptree_key_encode_vec fv t = (case t of
       UINT32 \<Rightarrow> bindR (get_u32_value fv) (\<lambda>v. Inr (encode_int_be 4 v))
     | INT64 \<Rightarrow> bindR (get_int64_value fv) (\<lambda>v. Inr (encode_signed_be v))
     | FLOAT32 \<Rightarrow> bindR (get_float_value fv) (\<lambda>f. Inr (encode_float_ordered f))
     | BOOL \<Rightarrow> bindR (get_bool_value fv) (\<lambda>b. Inr [if b then 1 else 0])
     | STRING \<Rightarrow> bindR (get_string_value fv) (\<lambda>s. Inr (string_bytes s))
     | OtherType _ \<Rightarrow> Inr [])"

text \<open>\<open>std::memcmp\<close> on two buffers of equal length, and the three-way key comparison.\<close>

fun memcmp :: "bytes \<Rightarrow> bytes \<Rightarrow> int" where
  "memcmp (a # as) (b # bs) = (if a < b then -1 else if b < a then 1 else memcmp as bs)"
| "memcmp _ _ = 0"

definition bptree_key_compare :: "bytes \<Rightarrow> bytes \<Rightarrow> int" where
  "bptree_key_compare a b =
     (let min_len = min (length a) (length b);
          cmp = (if min_len \<noteq> 0 then memcmp (take min_len a) (take min_len b) else 0)
      in if cmp \<noteq> 0 then cmp
         else if length a < length b then -1
         else if length a > length b then 1
         else 0)"

section \<open>Fixed-size key buffers\<close>

record KeyBuffer =
  kb_buf :: bytes
  kb_len :: byte

definition key_buffer :: "bytes \<Rightarrow> KeyBuffer" where
  "key_buffer bs = \<lparr>kb_buf = vec_resize 32 bs, kb_len = word_of_nat (length bs)\<rparr>"

definition bptree_key_encode :: "FieldValue \<Rightarrow> FieldType \<Rightarrow> KeyBuffer result" where
  "bptree_key_encode fv t = (case t of
       UINT32 \<Rightarrow> bindR (get_u32_value fv) (\<lambda>v. Inr (key_buffer (encode_int_be 4 v)))
     | INT64 \<Rightarrow> bindR (get_int64_value fv) (\<lambda>v. Inr (key_buffer (encode_signed_be v)))
     | FLOAT32 \<Rightarrow> bindR (get_float_value fv) (\<lambda>f. Inr (key_buffer (encode_float_ordered f)))
     | BOOL \<Rightarrow> bindR (get_bool_value fv) (\<lambda>b. Inr (key_buffer [if b then 1 else 0]))
     | STRING \<Rightarrow> bindR (get_string_value fv) (\<lambda>s.
           if length s \<le> 32 then Inr (key_buffer (string_bytes s))
           else Inr (key_buffer (take 32 (string_bytes s))))
     | OtherType _ \<Rightarrow> Inr (key_buffer []))"

definition kb_less :: "KeyBuffer \<Rightarrow> KeyBuffer \<Rightarrow> bool" where
  "kb_less a b =
     (let min_len = min (unat (kb_len a)) (unat (kb_len b));
          cmp = memcmp (take min_len (kb_buf a)) (take min_len (kb_buf b))
      in if cmp \<noteq> 0 then cmp < 0 else kb_len a < kb_len b)"

definition kb_equal :: "KeyBuffer \<Rightarrow> KeyBuffer \<Rightarrow> bool" where
  "kb_equal a b \<longleftrightarrow> kb_len a = kb_len b
     \<and> memcmp (take (unat (kb_len a)) (kb_buf a)) (take (unat (kb_len a)) (kb_buf b)) = 0"

section \<open>The tree\<close>

record Entry =
  key_data :: bytes
  ids :: "u32 list"

record BPTree =
  bt_entries :: "Entry list"

definition bptree_empty :: BPTree where
  "bptree_empty = \<lparr>bt_entries = []\<rparr>"

definition bptree_lower_bound :: "BPTree \<Rightarrow> bytes \<Rightarrow> nat" where
  "bptree_lower_bound t key =
     lower_bound (\<lambda>e. bptree_key_compare (key_data e) key < 0) (bt_entries t)"

definition find_entry :: "BPTree \<Rightarrow> bytes \<Rightarrow> Entry option" where
  "find_entry t key =
     (let it = bptree_lower_bound t key
      in if it = length (bt_entries t) then None
         else if bptree_key_compare (key_data (bt_entries t ! it)) key \<noteq> 0 then None
         else Some (bt_entries t ! it))"

text \<open>\<open>insert\<close>, \<open>erase\<close> and \<open>find\<close> after the key has been encoded.\<close>

definition insert_encoded :: "bytes \<Rightarrow> u32 \<Rightarrow> BPTree \<Rightarrow> BPTree" where
  "insert_encoded kb rid t =
     (let es = bt_entries t; it = bptree_lower_bound t kb
      in if it \<noteq> length es \<and> bptree_key_compare (key_data (es ! it)) kb = 0
         then (let e = es ! it
               in t\<lparr>bt_entries := es[it := e\<lparr>ids := (if rid \<in> set (ids e) then ids e
                                                    else ids e @ [rid])\<rparr>]\<rparr>)
         else t\<lparr>bt_entries := take it es @ [\<lparr>key_data = kb, ids = [rid]\<rparr>] @ drop it es\<rparr>)"

definition erase_encoded :: "bytes \<Rightarrow> u32 \<Rightarrow> BPTree \<Rightarrow> BPTree" where
  "erase_encoded kb rid t =
     (let es = bt_entries t; it = bptree_lower_bound t kb
      in if it = length es then t
         else if bptree_key_compare (key_data (es ! it)) kb \<noteq> 0 then t
         else (let ids' = filter (\<lambda>i. i \<noteq> rid) (ids (es ! it))
               in if ids' = [] then t\<lparr>bt_entries := take it es @ drop (Suc it) es\<rparr>
                  else t\<lparr>bt_entries := es[it := (es ! it)\<lparr>ids := ids'\<rparr>]\<rparr>))"

definition bptree_insert :: "BPTree \<Rightarrow> FieldValue \<Rightarrow> FieldType \<Rightarrow> u32 \<Rightarrow> BPTree result" where
  "bptree_insert t key key_type rid =
     bindR (bptree_key_encode_vec key key_type) (\<lambda>kb. Inr (insert_encoded kb rid t))"

definition bptree_erase :: "BPTree \<Rightarrow> FieldValue \<Rightarrow> FieldType \<Rightarrow> u32 \<Rightarrow> BPTree result" where
  "bptree_erase t key key_type rid =
     bindR (bptree_key_encode_vec key key_type) (\<lambda>kb. Inr (erase_encoded kb rid t))"

definition bptree_find :: "BPTree \<Rightarrow> FieldValue \<Rightarrow> FieldType \<Rightarrow> u32 list option result" where
  "bptree_find t key key_type =
     bindR (bptree_key_encode_vec key key_type) (\<lambda>kb. Inr (map_option ids (find_entry t kb)))"

definition bptree_is_empty :: "BPTree \<Rightarrow> bool" where
  "bptree_is_empty t \<longleftrightarrow> bt_entries t = []"

definition bptree_size :: "BPTree \<Rightarrow> nat" where
  "bptree_size t = length (bt_entries t)"

text \<open>The visiting loop of \<open>range_scan\<close>: the entries passed to the visitor, in order.\<close>

fun scan_until :: "bytes option \<Rightarrow> bool \<Rightarrow> Entry list \<Rightarrow> Entry list" where
  "scan_until hi hi_inclusive [] = []"
| "scan_until hi hi_inclusive (e # es) = (case hi of
       None \<Rightarrow> e # scan_until hi hi_inclusive es
     | Some hi_kb \<Rightarrow>
         (let cmp = bptree_key_compare (key_data e) hi_kb
          in if cmp > 0 then [] else if cmp = 0 \<and> \<not> hi_inclusive then []
             else e # scan_until hi hi_inclusive es))"

definition range_encoded :: "BPTree \<Rightarrow> bytes option \<Rightarrow> bool \<Rightarrow> bytes option \<Rightarrow> bool \<Rightarrow> Entry list" where
  "range_encoded t lo lo_inclusive hi hi_inclusive =
     (let es = bt_entries t;
          it = (case lo of None \<Rightarrow> 0
            | Some lo_kb \<Rightarrow>
                (let it = bptree_lower_bound t lo_kb
                 in if \<not> lo_inclusive \<and> it \<noteq> length es
                       \<and> bptree_key_compare (key_data (es ! it)) lo_kb = 0
                    then Suc it else it))
      in scan_until hi hi_inclusive (drop it es))"

definition encode_bound :: "FieldValue option \<Rightarrow> FieldType \<Rightarrow> bytes option result" where
  "encode_bound v t = (case v of None \<Rightarrow> Inr None
     | Some fv \<Rightarrow> bindR (bptree_key_encode_vec fv t) (\<lambda>kb. Inr (Some kb)))"

definition range_scan ::
  "BPTree \<Rightarrow> FieldValue option \<Rightarrow> FieldType \<Rightarrow> bool \<Rightarrow> FieldValue option \<Rightarrow> FieldType \<Rightarrow> bool
     \<Rightarrow> Entry list result" where
  "range_scan t lo lo_type lo_inclusive hi hi_type hi_inclusive =
     bindR (encode_bound lo lo_type) (\<lambda>lo_kb.
       bindR (encode_bound hi hi_type) (\<lambda>hi_kb.
         Inr (range_encoded t lo_kb lo_inclusive hi_kb hi_inclusive)))"

section \<open>Comparison\<close>

lemma memcmp_sign: "length a = length b \<Longrightarrow> memcmp a b = (if a < b then -1 else if a = b then 0 else 1)"
  by (induction a b rule: memcmp.induct) auto

lemma less_take_min:
  "take (min (length a) (length b)) a < take (min (length a) (length b)) b \<Longrightarrow> a < b"
  for a b :: bytes
proof (induction a arbitrary: b)
  case Nil
  then show ?case by simp
next
  case (Cons x a)
  then show ?case by (cases b) (auto simp: min_Suc_Suc)
qed

lemma take_min_eq:
  "take (min (length a) (length b)) a = take (min (length a) (length b)) b \<Longrightarrow>
     (a < b \<longleftrightarrow> length a < length b) \<and> (a = b \<longleftrightarrow> length a = length b)" for a b :: bytes
proof (induction a arbitrary: b)
  case Nil
  then show ?case by (cases b) auto
next
  case (Cons x a)
  then show ?case by (cases b) (auto simp: min_Suc_Suc)
qed

lemma key_compare_sign:
  "bptree_key_compare a b = (if a < b then -1 else if a = b then 0 else 1)"
proof -
  let ?n = "min (length a) (length b)"
  have cmp: "(if ?n \<noteq> 0 then memcmp (take ?n a) (take ?n b) else 0)
      = (if take ?n a < take ?n b then -1 else if take ?n a = take ?n b then 0 else 1)"
    using memcmp_sign [of "take ?n a" "take ?n b"] by auto
  consider "take ?n a < take ?n b" | "take ?n b < take ?n a" | "take ?n a = take ?n b"
    using linorder_cases by blast
  then show ?thesis
  proof cases
    case 1
    then show ?thesis using cmp less_take_min [of a b] by (simp add: bptree_key_compare_def Let_def)
  next
    case 2
    then have "b < a" using less_take_min [of b a] by (simp add: min.commute)
    then show ?thesis using 2 cmp by (auto simp: bptree_key_compare_def Let_def)
  next
    case 3
    then show ?thesis using cmp take_min_eq [OF 3] by (auto simp: bptree_key_compare_def Let_def)
  qed
qed

lemma key_compare_iff [simp]:
  "bptree_key_compare a b < 0 \<longleftrightarrow> a < b"
  "bptree_key_compare a b = 0 \<longleftrightarrow> a = b"
  "0 < bptree_key_compare a b \<longleftrightarrow> b < a"
  by (auto simp: key_compare_sign)

section \<open>Order preservation of the encodings\<close>

lemma length_encode_int_be [simp]: "length (encode_int_be n v) = n"
  by (induction n arbitrary: v) auto

lemma snoc_less_iff:
  "length xs = length ys \<Longrightarrow> xs @ [a] < ys @ [b] \<longleftrightarrow> xs < ys \<or> (xs = ys \<and> a < b)"
  for xs ys :: bytes
  by (induction xs ys rule: list_induct2) auto

lemma unat_low_byte: "unat (ucast (v AND 0xFF) :: byte) = unat v mod 256" for v :: "'a::len word"
proof -
  have "unat (ucast (v AND 0xFF) :: byte) = take_bit 8 (take_bit 8 (unat v))"
    by (simp add: and_byte_mask unsigned_ucast_eq unsigned_take_bit_eq)
  then show ?thesis by (simp add: take_bit_eq_mod)
qed

lemma unat_drop8: "unat (drop_bit 8 v) = unat v div 256" for v :: "'a::len word"
  unfolding unat_drop_bit_eq by (simp add: drop_bit_eq_div)

lemma mod_256_Suc: "x mod 256 ^ Suc n = 256 * (x div 256 mod 256 ^ n) + x mod 256" for x :: nat
  by (simp add: mod_mult2_eq mult.commute)

lemma base256_less_iff:
  "c < 256 \<Longrightarrow> d < 256 \<Longrightarrow> 256 * a + c < 256 * b + d \<longleftrightarrow> a < b \<or> (a = b \<and> c < d)" for a b :: nat
  by auto

lemma base256_eq_iff:
  "c < 256 \<Longrightarrow> d < 256 \<Longrightarrow> 256 * a + c = 256 * b + d \<longleftrightarrow> a = b \<and> c = d" for a b :: nat
  using base256_less_iff [of c d a b] base256_less_iff [of d c b a] by auto

lemma encode_int_be_eq_iff:
  "encode_int_be n v = encode_int_be n w \<longleftrightarrow> unat v mod 256 ^ n = unat w mod 256 ^ n"
  for v w :: "'a::len word"
proof (induction n arbitrary: v w)
  case 0
  then show ?case by simp
next
  case (Suc n)
  have "encode_int_be (Suc n) v = encode_int_be (Suc n) w \<longleftrightarrow>
      unat v div 256 mod 256 ^ n = unat w div 256 mod 256 ^ n \<and> unat v mod 256 = unat w mod 256"
    using Suc by (simp add: unat_drop8 word_unat_eq_iff [of "ucast (v AND 0xFF) :: byte"] unat_low_byte)
  also have "\<dots> \<longleftrightarrow> unat v mod 256 ^ Suc n = unat w mod 256 ^ Suc n"
    unfolding mod_256_Suc by (subst base256_eq_iff) simp_all
  finally show ?case .
qed

lemma encode_int_be_less_iff:
  "encode_int_be n v < encode_int_be n w \<longleftrightarrow> unat v mod 256 ^ n < unat w mod 256 ^ n"
  for v w :: "'a::len word"
proof (induction n arbitrary: v w)
  case 0
  then show ?case by simp
next
  case (Suc n)
  have "encode_int_be (Suc n) v < encode_int_be (Suc n) w \<longleftrightarrow>
      unat v div 256 mod 256 ^ n < unat w div 256 mod 256 ^ n
      \<or> (unat v div 256 mod 256 ^ n = unat w div 256 mod 256 ^ n \<and> unat v mod 256 < unat w mod 256)"
    using Suc by (simp add: snoc_less_iff unat_drop8 encode_int_be_eq_iff
        word_less_nat_alt [of "ucast (v AND 0xFF) :: byte"] unat_low_byte)
  also have "\<dots> \<longleftrightarrow> unat v mod 256 ^ Suc n < unat w mod 256 ^ Suc n"
    unfolding mod_256_Suc by (subst base256_less_iff) simp_all
  finally show ?case .
qed

lemma encode_u32_less_iff: "encode_int_be 4 v < encode_int_be 4 w \<longleftrightarrow> v < w" for v w :: u32
  using unat_u32_less [of v] unat_u32_less [of w]
  by (simp add: encode_int_be_less_iff word_less_nat_alt)

lemma encode_u64_less_iff: "encode_int_be 8 v < encode_int_be 8 w \<longleftrightarrow> v < w" for v w :: u64
proof -
  have "unat v < 256 ^ 8" "unat w < 256 ^ 8"
    using unsigned_less [of v, where ?'a = nat] unsigned_less [of w, where ?'a = nat] by simp_all
  then show ?thesis by (simp add: encode_int_be_less_iff word_less_nat_alt)
qed

text \<open>
  \<open>float\<close> comparison on IEEE 754 bit patterns: sign and magnitude, the two zeros equal,
  every comparison with a NaN false.
\<close>

definition f32_is_nan :: "u32 \<Rightarrow> bool" where
  "f32_is_nan b \<longleftrightarrow> unat b mod 2 ^ 31 > 0x7F800000"

definition f32_ord :: "u32 \<Rightarrow> int" where
  "f32_ord b = (if unat b < 2 ^ 31 then int (unat b) else - int (unat b - 2 ^ 31))"

definition f32_less :: "u32 \<Rightarrow> u32 \<Rightarrow> bool" where
  "f32_less a b \<longleftrightarrow> \<not> f32_is_nan a \<and> \<not> f32_is_nan b \<and> f32_ord a < f32_ord b"

definition f32_equal :: "u32 \<Rightarrow> u32 \<Rightarrow> bool" where
  "f32_equal a b \<longleftrightarrow> \<not> f32_is_nan a \<and> \<not> f32_is_nan b \<and> f32_ord a = f32_ord b"

text \<open>The effect of flipping the sign bit or all bits, on the numeric value.\<close>

lemma xor_exp_nat: "x XOR 2 ^ k = (if bit x k then x - 2 ^ k else x + 2 ^ k)" for x :: nat
proof (cases "bit x k")
  case True
  have "\<not> bit (x XOR 2 ^ k) k" using True by (simp add: bit_simps)
  then have "(x XOR 2 ^ k) + 2 ^ k = (x XOR 2 ^ k) XOR 2 ^ k"
    by (intro disjunctive_add_eq_xor) (simp add: and_exp_eq_0_iff_not_bit)
  then have "(x XOR 2 ^ k) + 2 ^ k = x" by (simp add: xor.assoc)
  then have "x XOR 2 ^ k = x - 2 ^ k" by linarith
  then show ?thesis using True by simp
next
  case False
  then have "x + 2 ^ k = x XOR 2 ^ k"
    by (intro disjunctive_add_eq_xor) (simp add: and_exp_eq_0_iff_not_bit)
  then show ?thesis using False by simp
qed

lemma top_bit_nat: "x < 2 ^ Suc k \<Longrightarrow> bit x k \<longleftrightarrow> 2 ^ k \<le> x" for x :: nat
proof -
  assume "x < 2 ^ Suc k"
  then have "x div 2 ^ k < 2" by (simp add: less_mult_imp_div_less)
  then consider "x div 2 ^ k = 0" | "x div 2 ^ k = 1" by linarith
  then show ?thesis
  proof cases
    case 1
    then show ?thesis by (simp add: bit_iff_odd div_eq_0_iff)
  next
    case 2
    then have "\<not> x < 2 ^ k" by (metis div_less zero_neq_one)
    with 2 show ?thesis by (simp add: bit_iff_odd)
  qed
qed

lemma unat_flip_top:
  fixes w :: "'a::len word"
  assumes "LENGTH('a) = Suc k"
  shows "unat (w XOR 2 ^ k) = (if 2 ^ k \<le> unat w then unat w - 2 ^ k else unat w + 2 ^ k)"
proof -
  have "unat w < 2 ^ Suc k" using unsigned_less [of w, where ?'a = nat] assms by simp
  moreover have "unat (w XOR 2 ^ k) = unat w XOR 2 ^ k"
  proof -
    have "unat (2 ^ k :: 'a word) = unat (word_of_nat (2 ^ k) :: 'a word)" by simp
    also have "\<dots> = 2 ^ k" using assms by (simp only: unat_of_nat) simp
    finally have "unat (2 ^ k :: 'a word) = 2 ^ k" .
    then show ?thesis by (simp only: unsigned_xor_eq)
  qed
  ultimately show ?thesis by (simp add: xor_exp_nat top_bit_nat)
qed

lemma unat_flip_all: "unat (w XOR 0xFFFFFFFF) = 0xFFFFFFFF - unat w" for w :: u32
proof -
  have "(0xFFFFFFFF :: u32) = -1" by simp
  then have "w XOR 0xFFFFFFFF = w XOR (-1)" by (simp only:)
  also have "\<dots> = -1 - w" by (simp add: not_eq_complement)
  finally have *: "w XOR 0xFFFFFFFF = 0xFFFFFFFF - w" by simp
  have "w \<le> 0xFFFFFFFF" using unat_u32_less [of w] by (simp add: word_le_nat_alt)
  then show ?thesis unfolding * by (simp only: unat_sub) simp
qed

lemma u32_top_bit: "b AND 0x80000000 \<noteq> 0 \<longleftrightarrow> 2 ^ 31 \<le> unat b" for b :: u32
proof -
  have "b AND 2 ^ 31 \<noteq> 0 \<longleftrightarrow> bit b 31" by (simp only: and_exp_eq_0_iff_not_bit not_not)
  also have "\<dots> \<longleftrightarrow> bit (unat b) 31" by (simp add: bit_unsigned_iff)
  also have "\<dots> \<longleftrightarrow> 2 ^ 31 \<le> unat b" using unat_u32_less [of b] by (intro top_bit_nat) simp
  finally show ?thesis by simp
qed

lemma shift_mod_u64:
  fixes x :: nat
  assumes "x < 18446744073709551616"
  shows "(int x + 9223372036854775808) mod 18446744073709551616 - 9223372036854775808
    = (if 9223372036854775808 \<le> x then int x - 18446744073709551616 else int x)"
proof (cases "9223372036854775808 \<le> x")
  case True
  have "int x + 9223372036854775808 = int x - 9223372036854775808 + 18446744073709551616" by simp
  then have "(int x + 9223372036854775808) mod 18446744073709551616
      = (int x - 9223372036854775808 + 18446744073709551616) mod 18446744073709551616"
    by (simp only:)
  also have "\<dots> = int x - 9223372036854775808"
    unfolding mod_add_self2 using assms True by (intro mod_pos_pos_trivial) simp_all
  finally show ?thesis using True by simp
next
  case False
  then show ?thesis by (simp add: mod_pos_pos_trivial)
qed

lemma sint_u64: "sint w = (if 2 ^ 63 \<le> unat w then int (unat w) - 2 ^ 64 else int (unat w))" for w :: u64
proof -
  have lt: "unat w < 18446744073709551616" using unsigned_less [of w, where ?'a = nat] by simp
  have "sint w = (uint w + 9223372036854775808) mod 18446744073709551616 - 9223372036854775808"
    by (simp add: sint_uint signed_take_bit_eq_take_bit_shift take_bit_eq_mod)
  also have "uint w = int (unat w)" by simp
  finally show ?thesis unfolding shift_mod_u64 [OF lt] by simp
qed

lemma encode_signed_less_iff: "encode_signed_be v < encode_signed_be w \<longleftrightarrow> sint v < sint w"
proof -
  have flip: "int (unat (v XOR 2 ^ 63)) = sint v + 2 ^ 63" for v :: u64
    using unat_flip_top [of 63 v] by (simp add: sint_u64)
  have "encode_signed_be v < encode_signed_be w \<longleftrightarrow> int (unat (v XOR 2 ^ 63)) < int (unat (w XOR 2 ^ 63))"
    by (simp add: encode_signed_be_def encode_u64_less_iff word_less_alt)
  then show ?thesis unfolding flip by simp
qed

lemma encode_float_value:
  "encode_float_ordered b = encode_int_be 4 v \<Longrightarrow>
     int (unat v) = (if unat b < 2 ^ 31 then f32_ord b + 2 ^ 31 else f32_ord b + 2 ^ 31 - 1)"
  for v :: u32
proof -
  let ?w = "if b AND 0x80000000 \<noteq> 0 then b XOR 0xFFFFFFFF else b XOR 0x80000000"
  assume "encode_float_ordered b = encode_int_be 4 v"
  then have "encode_int_be 4 ?w = encode_int_be 4 v" by (simp only: encode_float_ordered_def)
  then have v: "unat v = unat ?w"
    using encode_int_be_eq_iff [of 4 ?w v] unat_u32_less [of ?w] unat_u32_less [of v] by simp
  have top: "unat (b XOR 0x80000000) = unat b + 2 ^ 31" if "unat b < 2 ^ 31"
    using unat_flip_top [of 31 b] that by simp
  show ?thesis
  proof (cases "unat b < 2 ^ 31")
    case True
    then have "unat v = unat b + 2 ^ 31" using top u32_top_bit [of b] v by simp
    then show ?thesis using True by (simp add: f32_ord_def)
  next
    case False
    then have "unat v = 0xFFFFFFFF - unat b" using u32_top_bit [of b] v by (simp add: unat_flip_all)
    then show ?thesis using False unat_u32_less [of b] by (simp add: f32_ord_def)
  qed
qed

lemma encode_float_less_iff:
  "encode_float_ordered a < encode_float_ordered b \<longleftrightarrow>
     f32_ord a < f32_ord b \<or> (f32_ord a = f32_ord b \<and> 2 ^ 31 \<le> unat a \<and> unat b < 2 ^ 31)"
proof -
  obtain v w :: u32 where vw: "encode_float_ordered a = encode_int_be 4 v"
    "encode_float_ordered b = encode_int_be 4 w"
    unfolding encode_float_ordered_def by blast
  have "encode_float_ordered a < encode_float_ordered b \<longleftrightarrow> int (unat v) < int (unat w)"
    by (simp add: vw encode_u32_less_iff word_less_alt)
  also have "\<dots> \<longleftrightarrow> f32_ord a < f32_ord b \<or> (f32_ord a = f32_ord b \<and> 2 ^ 31 \<le> unat a \<and> unat b < 2 ^ 31)"
  proof -
    obtain x y where xy: "unat a = x" "unat b = y" by simp
    show ?thesis
      unfolding encode_float_value [OF vw(1)] encode_float_value [OF vw(2)] f32_ord_def xy
      by (cases "x < 2 ^ 31"; cases "y < 2 ^ 31") auto
  qed
  finally show ?thesis .
qed

lemma byte_of_char_less_iff: "byte_of_char c < byte_of_char d \<longleftrightarrow> (of_char c :: nat) < of_char d"
  by (simp add: word_less_nat_alt unat_byte_of_char)

section \<open>The tree as a sorted list\<close>

definition bt_inv :: "BPTree \<Rightarrow> bool" where
  "bt_inv t \<longleftrightarrow> sorted_wrt (<) (map key_data (bt_entries t))
     \<and> (\<forall>e \<in> set (bt_entries t). ids e \<noteq> [] \<and> distinct (ids e))"

text \<open>The row ids stored under a key: the abstraction of the tree.\<close>

definition bt_ids :: "BPTree \<Rightarrow> bytes \<Rightarrow> u32 set" where
  "bt_ids t k = (\<Union>e \<in> {e \<in> set (bt_entries t). key_data e = k}. set (ids e))"

abbreviation sorted_entries :: "Entry list \<Rightarrow> bool" where
  "sorted_entries es \<equiv> sorted_wrt (<) (map key_data es)"

lemma partitioned_entries:
  "sorted_entries es \<Longrightarrow> partitioned (\<lambda>e. bptree_key_compare (key_data e) k < 0) es"
  by (induction es) (auto simp: partitioned_def)

lemma bptree_lower_bound_eq:
  assumes "sorted_entries (bt_entries t)"
  shows "bptree_lower_bound t k = length (takeWhile (\<lambda>e. key_data e < k) (bt_entries t))"
  using lower_bound_takeWhile [OF partitioned_entries [OF assms]]
  by (simp add: bptree_lower_bound_def)

text \<open>Reference versions by structural recursion on the entries.\<close>

fun ins_list :: "bytes \<Rightarrow> u32 \<Rightarrow> Entry list \<Rightarrow> Entry list" where
  "ins_list k r [] = [\<lparr>key_data = k, ids = [r]\<rparr>]"
| "ins_list k r (e # es) =
     (if key_data e < k then e # ins_list k r es
      else if key_data e = k then e\<lparr>ids := (if r \<in> set (ids e) then ids e else ids e @ [r])\<rparr> # es
      else \<lparr>key_data = k, ids = [r]\<rparr> # e # es)"

fun del_list :: "bytes \<Rightarrow> u32 \<Rightarrow> Entry list \<Rightarrow> Entry list" where
  "del_list k r [] = []"
| "del_list k r (e # es) =
     (if key_data e < k then e # del_list k r es
      else if key_data e = k
      then (let ids' = filter (\<lambda>i. i \<noteq> r) (ids e)
            in if ids' = [] then es else e\<lparr>ids := ids'\<rparr> # es)
      else e # es)"

fun find_list :: "bytes \<Rightarrow> Entry list \<Rightarrow> Entry option" where
  "find_list k [] = None"
| "find_list k (e # es) =
     (if key_data e < k then find_list k es else if key_data e = k then Some e else None)"

text \<open>With the lower bound written as the length of a prefix, each operation is its reference.\<close>

lemma insert_at_prefix:
  "(let it = length (takeWhile (\<lambda>e. key_data e < k) es)
    in if it \<noteq> length es \<and> key_data (es ! it) = k
       then es[it := (es ! it)\<lparr>ids := (if r \<in> set (ids (es ! it)) then ids (es ! it) else ids (es ! it) @ [r])\<rparr>]
       else take it es @ [\<lparr>key_data = k, ids = [r]\<rparr>] @ drop it es) = ins_list k r es"
  by (induction es) (auto simp: Let_def)

lemma erase_at_prefix:
  "(let it = length (takeWhile (\<lambda>e. key_data e < k) es)
    in if it = length es \<or> key_data (es ! it) \<noteq> k then es
       else (let ids' = filter (\<lambda>i. i \<noteq> r) (ids (es ! it))
             in if ids' = [] then take it es @ drop (Suc it) es
                else es[it := (es ! it)\<lparr>ids := ids'\<rparr>])) = del_list k r es"
  by (induction es) (auto simp: Let_def)

lemma find_at_prefix:
  "(let it = length (takeWhile (\<lambda>e. key_data e < k) es)
    in if it = length es \<or> key_data (es ! it) \<noteq> k then None else Some (es ! it)) = find_list k es"
  by (induction es) (auto simp: Let_def)

lemma insert_encoded_eq:
  assumes "sorted_entries (bt_entries t)"
  shows "bt_entries (insert_encoded k r t) = ins_list k r (bt_entries t)"
  unfolding insert_at_prefix [of k "bt_entries t" r, symmetric]
  by (simp add: insert_encoded_def bptree_lower_bound_eq [OF assms] Let_def)

lemma erase_encoded_eq:
  assumes "sorted_entries (bt_entries t)"
  shows "bt_entries (erase_encoded k r t) = del_list k r (bt_entries t)"
  unfolding erase_at_prefix [of k "bt_entries t" r, symmetric]
  by (simp add: erase_encoded_def bptree_lower_bound_eq [OF assms] Let_def)

lemma find_entry_eq:
  assumes "sorted_entries (bt_entries t)"
  shows "find_entry t k = find_list k (bt_entries t)"
  unfolding find_at_prefix [of k "bt_entries t", symmetric]
  by (simp add: find_entry_def bptree_lower_bound_eq [OF assms] Let_def)

section \<open>Operations on the reference lists\<close>

lemma set_ins_list_keys: "key_data ` set (ins_list k r es) = insert k (key_data ` set es)"
  by (induction es) auto

lemma sorted_ins_list: "sorted_entries es \<Longrightarrow> sorted_entries (ins_list k r es)"
proof (induction es)
  case Nil
  then show ?case by simp
next
  case (Cons e es)
  have "\<forall>e' \<in> set (ins_list k r es). key_data e' \<in> insert k (key_data ` set es)"
    using set_ins_list_keys [of k r es] by blast
  then show ?case using Cons by (auto dest: less_trans)
qed

lemma set_del_list_keys: "key_data ` set (del_list k r es) \<subseteq> key_data ` set es"
  by (induction es) (auto simp: Let_def)

lemma sorted_del_list: "sorted_entries es \<Longrightarrow> sorted_entries (del_list k r es)"
proof (induction es)
  case Nil
  then show ?case by simp
next
  case (Cons e es)
  have "\<forall>e' \<in> set (del_list k r es). key_data e' \<in> key_data ` set es"
    using set_del_list_keys [of k r es] by blast
  then show ?case using Cons by (auto simp: Let_def)
qed

lemma ids_ok_ins_list:
  "\<forall>e \<in> set es. ids e \<noteq> [] \<and> distinct (ids e) \<Longrightarrow>
     \<forall>e \<in> set (ins_list k r es). ids e \<noteq> [] \<and> distinct (ids e)"
  by (induction es) auto

lemma ids_ok_del_list:
  "\<forall>e \<in> set es. ids e \<noteq> [] \<and> distinct (ids e) \<Longrightarrow>
     \<forall>e \<in> set (del_list k r es). ids e \<noteq> [] \<and> distinct (ids e)"
  by (induction es) (auto simp: Let_def)

lemma bt_invD: "bt_inv t \<Longrightarrow> sorted_entries (bt_entries t)"
  "bt_inv t \<Longrightarrow> \<forall>e \<in> set (bt_entries t). ids e \<noteq> [] \<and> distinct (ids e)"
  by (simp_all add: bt_inv_def)

lemma bt_inv_insert: assumes "bt_inv t" shows "bt_inv (insert_encoded k r t)"
  unfolding bt_inv_def insert_encoded_eq [OF bt_invD(1) [OF assms]]
  by (rule conjI [OF sorted_ins_list ids_ok_ins_list]) (rule bt_invD [OF assms])+

lemma bt_inv_erase: assumes "bt_inv t" shows "bt_inv (erase_encoded k r t)"
  unfolding bt_inv_def erase_encoded_eq [OF bt_invD(1) [OF assms]]
  by (rule conjI [OF sorted_del_list ids_ok_del_list]) (rule bt_invD [OF assms])+

lemma bt_inv_empty [simp]: "bt_inv bptree_empty"
  by (simp add: bt_inv_def bptree_empty_def)

text \<open>What each operation does to the ids stored under a key.\<close>

definition list_ids :: "Entry list \<Rightarrow> bytes \<Rightarrow> u32 set" where
  "list_ids es k = (\<Union>e \<in> {e \<in> set es. key_data e = k}. set (ids e))"

lemma list_ids_simps [simp]:
  "list_ids [] k = {}"
  "list_ids (e # es) k = (if key_data e = k then set (ids e) \<union> list_ids es k else list_ids es k)"
  by (auto simp: list_ids_def)

lemma bt_ids_list: "bt_ids t k = list_ids (bt_entries t) k"
  by (simp add: bt_ids_def list_ids_def)

lemma list_ids_above: "\<forall>e \<in> set es. k < key_data e \<Longrightarrow> list_ids es k = {}"
  by (auto simp: list_ids_def)

lemma list_ids_ins_list:
  "list_ids (ins_list k r es) k' = (if k' = k then insert r (list_ids es k) else list_ids es k')"
  if "sorted_entries es"
  using that by (induction es) auto

lemma list_ids_del_list:
  "list_ids (del_list k r es) k' = (if k' = k then list_ids es k - {r} else list_ids es k')"
  if "sorted_entries es"
  using that
proof (induction es)
  case Nil
  then show ?case by simp
next
  case (Cons e es)
  consider "key_data e < k" | "key_data e = k" | "k < key_data e" using less_linear by blast
  then show ?case
  proof cases
    case 1
    then show ?thesis using Cons by auto
  next
    case 2
    then have "list_ids es k = {}" using Cons.prems by (intro list_ids_above) auto
    then show ?thesis using 2 by (auto simp: Let_def filter_empty_conv)
  next
    case 3
    then have "\<forall>e' \<in> set es. k < key_data e'" using Cons.prems by (auto dest: less_trans)
    then have "list_ids es k = {}" by (rule list_ids_above)
    then show ?thesis using 3 by auto
  qed
qed

lemma find_list_ids:
  assumes "sorted_entries es" "\<forall>e \<in> set es. ids e \<noteq> []"
  shows "(case find_list k es of None \<Rightarrow> list_ids es k = {}
     | Some e \<Rightarrow> e \<in> set es \<and> key_data e = k \<and> set (ids e) = list_ids es k \<and> ids e \<noteq> [])"
  using assms
proof (induction es)
  case Nil
  then show ?case by simp
next
  case (Cons e es)
  consider "key_data e < k" | "key_data e = k" | "k < key_data e" using less_linear by blast
  then show ?case
  proof cases
    case 1
    then show ?thesis using Cons by (auto split: option.splits)
  next
    case 2
    then have "list_ids es k = {}" using Cons.prems by (intro list_ids_above) auto
    then show ?thesis using 2 Cons.prems by auto
  next
    case 3
    then have "\<forall>e' \<in> set es. k < key_data e'" using Cons.prems by (auto dest: less_trans)
    then have "list_ids es k = {}" by (rule list_ids_above)
    then show ?thesis using 3 by auto
  qed
qed

text \<open>The range scan is a filter on the keys.\<close>

definition above_lo :: "bytes option \<Rightarrow> bool \<Rightarrow> bytes \<Rightarrow> bool" where
  "above_lo lo inc k = (case lo of None \<Rightarrow> True | Some l \<Rightarrow> l < k \<or> (inc \<and> k = l))"

definition below_hi :: "bytes option \<Rightarrow> bool \<Rightarrow> bytes \<Rightarrow> bool" where
  "below_hi hi inc k = (case hi of None \<Rightarrow> True | Some h \<Rightarrow> k < h \<or> (inc \<and> k = h))"

lemma scan_until_takeWhile:
  "scan_until hi inc es = takeWhile (\<lambda>e. below_hi hi inc (key_data e)) es"
  by (induction es) (auto simp: below_hi_def Let_def split: option.splits)

lemma takeWhile_below_filter:
  "sorted_entries es \<Longrightarrow> takeWhile (\<lambda>e. below_hi hi inc (key_data e)) es
     = filter (\<lambda>e. below_hi hi inc (key_data e)) es"
proof (induction es)
  case Nil
  then show ?case by simp
next
  case (Cons e es)
  have "\<not> below_hi hi inc (key_data e) \<Longrightarrow> e' \<in> set es \<Longrightarrow> \<not> below_hi hi inc (key_data e')" for e'
    using Cons.prems by (force simp: below_hi_def split: option.splits)
  then show ?case using Cons by (auto simp: filter_empty_conv)
qed

lemma drop_lo_filter:
  assumes "sorted_entries es"
  shows "drop (let it = length (takeWhile (\<lambda>e. key_data e < l) es)
               in if \<not> inc \<and> it \<noteq> length es \<and> key_data (es ! it) = l then Suc it else it) es
    = filter (\<lambda>e. above_lo (Some l) inc (key_data e)) es"
  using assms
proof (induction es)
  case Nil
  then show ?case by simp
next
  case (Cons e es)
  have all: "filter (\<lambda>e. above_lo (Some l) inc (key_data e)) es = es" if "l \<le> key_data e"
    using Cons.prems that by (intro filter_True) (auto simp: above_lo_def)
  consider "key_data e < l" | "key_data e = l" | "l < key_data e" using less_linear by blast
  then show ?case
  proof cases
    case 1
    then show ?thesis using Cons by (auto simp: Let_def above_lo_def)
  next
    case 2
    then show ?thesis using all by (auto simp: Let_def above_lo_def)
  next
    case 3
    then show ?thesis using all by (auto simp: Let_def above_lo_def)
  qed
qed

lemma sorted_filter_entries: "sorted_entries es \<Longrightarrow> sorted_entries (filter P es)"
  by (simp add: sorted_wrt_map sorted_wrt_filter)

lemma range_encoded_filter:
  assumes "bt_inv t"
  shows "range_encoded t lo lo_inc hi hi_inc =
    filter (\<lambda>e. above_lo lo lo_inc (key_data e) \<and> below_hi hi hi_inc (key_data e)) (bt_entries t)"
proof -
  have s: "sorted_entries (bt_entries t)" using assms by (simp add: bt_inv_def)
  have "range_encoded t lo lo_inc hi hi_inc =
      scan_until hi hi_inc (filter (\<lambda>e. above_lo lo lo_inc (key_data e)) (bt_entries t))"
  proof (cases lo)
    case None
    then show ?thesis by (simp add: range_encoded_def above_lo_def)
  next
    case (Some l)
    then show ?thesis
      by (simp add: range_encoded_def bptree_lower_bound_eq [OF s] drop_lo_filter [OF s, symmetric] Let_def)
  qed
  also have "\<dots> = filter (\<lambda>e. below_hi hi hi_inc (key_data e))
      (filter (\<lambda>e. above_lo lo lo_inc (key_data e)) (bt_entries t))"
    by (simp add: scan_until_takeWhile takeWhile_below_filter sorted_filter_entries s)
  finally show ?thesis by (simp add: conj_commute)
qed

section \<open>The interface a client of the index relies on\<close>

text \<open>
  A secondary index maps a key to the set of row ids stored under it. The database builds
  one from the existing rows (\<open>DB::create_index\<close>), adds on insert, removes on erase, and
  on update removes the old key and adds the new one.
\<close>

locale row_id_multimap =
  fixes empty :: "'t"
    and ins :: "bytes \<Rightarrow> u32 \<Rightarrow> 't \<Rightarrow> 't"
    and del :: "bytes \<Rightarrow> u32 \<Rightarrow> 't \<Rightarrow> 't"
    and ids_of :: "'t \<Rightarrow> bytes \<Rightarrow> u32 set"
    and inv :: "'t \<Rightarrow> bool"
  assumes inv_empty: "inv empty"
    and inv_ins: "inv t \<Longrightarrow> inv (ins k r t)"
    and inv_del: "inv t \<Longrightarrow> inv (del k r t)"
    and ids_empty: "ids_of empty k = {}"
    and ids_ins: "inv t \<Longrightarrow> ids_of (ins k r t) = (ids_of t)(k := insert r (ids_of t k))"
    and ids_del: "inv t \<Longrightarrow> ids_of (del k r t) = (ids_of t)(k := ids_of t k - {r})"
begin

definition indexes :: "'t \<Rightarrow> (u32 \<rightharpoonup> bytes) \<Rightarrow> bool" where
  "indexes t m \<longleftrightarrow> inv t \<and> (\<forall>k r. r \<in> ids_of t k \<longleftrightarrow> m r = Some k)"

lemma indexes_empty: "indexes empty Map.empty"
  by (simp add: indexes_def inv_empty ids_empty)

lemma indexes_ins: "indexes t m \<Longrightarrow> m r = None \<Longrightarrow> indexes (ins k r t) (m(r \<mapsto> k))"
  by (auto simp: indexes_def inv_ins ids_ins)

lemma indexes_del: "indexes t m \<Longrightarrow> m r = Some k \<Longrightarrow> indexes (del k r t) (m(r := None))"
  by (auto simp: indexes_def inv_del ids_del)

lemma indexes_move:
  assumes "indexes t m" and "m r = Some k"
  shows "indexes (ins k' r (del k r t)) (m(r \<mapsto> k'))"
  using indexes_ins [OF indexes_del [OF assms], of r k'] by simp

lemma indexes_build:
  "distinct (map fst kvs) \<Longrightarrow> indexes t m \<Longrightarrow> \<forall>(r, k) \<in> set kvs. m r = None \<Longrightarrow>
     indexes (fold (\<lambda>(r, k). ins k r) kvs t) (m ++ map_of kvs)"
proof (induction kvs arbitrary: t m)
  case Nil
  then show ?case by simp
next
  case (Cons rk kvs)
  obtain r k where rk: "rk = (r, k)" by force
  have d: "distinct (map fst kvs)" using Cons.prems(1) by simp
  have i: "indexes (ins k r t) (m(r \<mapsto> k))" using Cons.prems rk by (intro indexes_ins) auto
  have n: "\<forall>(r', k') \<in> set kvs. (m(r \<mapsto> k)) r' = None" using Cons.prems rk by force
  have "indexes (fold (\<lambda>(r, k). ins k r) kvs (ins k r t)) (m(r \<mapsto> k) ++ map_of kvs)"
    by (rule Cons.IH [OF d i n])
  moreover have "m(r \<mapsto> k) ++ map_of kvs = m ++ map_of (rk # kvs)"
  proof -
    have "r \<notin> dom (map_of kvs)" using Cons.prems(1) rk by (simp add: dom_map_of_conv_image_fst)
    then show ?thesis using rk by (auto simp: map_add_def fun_eq_iff split: option.splits)
  qed
  ultimately show ?case by (simp only: rk fold_simps prod.case)
qed

end

lemma bt_ids_insert:
  assumes "bt_inv t"
  shows "bt_ids (insert_encoded k r t) = (bt_ids t)(k := insert r (bt_ids t k))"
  using bt_invD(1) [OF assms]
  by (simp add: fun_eq_iff bt_ids_list insert_encoded_eq list_ids_ins_list)

lemma bt_ids_erase:
  assumes "bt_inv t"
  shows "bt_ids (erase_encoded k r t) = (bt_ids t)(k := bt_ids t k - {r})"
  using bt_invD(1) [OF assms]
  by (simp add: fun_eq_iff bt_ids_list erase_encoded_eq list_ids_del_list)

interpretation bt: row_id_multimap bptree_empty insert_encoded erase_encoded bt_ids bt_inv
proof unfold_locales
  show "bt_inv bptree_empty" by simp
  show "bt_ids bptree_empty k = {}" for k by (simp add: bt_ids_def bptree_empty_def)
qed (simp_all add: bt_inv_insert bt_inv_erase bt_ids_insert bt_ids_erase)

lemma find_entry_ids:
  assumes "bt_inv t"
  shows "(case find_entry t k of None \<Rightarrow> bt_ids t k = {}
     | Some e \<Rightarrow> set (ids e) = bt_ids t k \<and> distinct (ids e) \<and> ids e \<noteq> [])"
  using find_list_ids [of "bt_entries t" k] bt_invD [OF assms]
  by (auto simp: find_entry_eq bt_ids_list split: option.splits)

section \<open>Properties\<close>

text \<open>The order a user of the index expects of the values of a field type.\<close>

fun value_less :: "FieldType \<Rightarrow> FieldValue \<Rightarrow> FieldValue \<Rightarrow> bool" where
  "value_less UINT32 (VUint32 v) (VUint32 w) = (v < w)"
| "value_less INT64 (VInt64 v) (VInt64 w) = (sint v < sint w)"
| "value_less BOOL (VBool v) (VBool w) = (\<not> v \<and> w)"
| "value_less STRING (VString s) (VString t) = ((map of_char s :: nat list) < map of_char t)"
| "value_less FLOAT32 (VFloat a) (VFloat b) = f32_less a b"
| "value_less _ _ _ = False"

fun is_nan_value :: "FieldValue \<Rightarrow> bool" where
  "is_nan_value (VFloat b) = f32_is_nan b"
| "is_nan_value _ = False"

lemma string_bytes_less_iff: "string_bytes s < string_bytes t \<longleftrightarrow> (map of_char s :: nat list) < map of_char t"
  unfolding string_bytes_def
proof (induction s arbitrary: t)
  case Nil
  then show ?case by (cases t) auto
next
  case (Cons c s)
  then show ?case by (cases t) (auto simp: byte_of_char_less_iff dest: of_char_eq_iff [THEN iffD1]
        simp flip: unat_byte_of_char word_unat_eq_iff)
qed

text \<open>What \<open>find\<close> gives for an encoded key: no vector at all, or the ids in the order of their insertion.\<close>

definition ids_at :: "BPTree \<Rightarrow> bytes \<Rightarrow> u32 list option" where
  "ids_at t k = map_option ids (find_entry t k)"

lemma find_ins_list:
  "sorted_entries es \<Longrightarrow> map_option ids (find_list k (ins_list k' r es)) =
     (if k = k' then Some (case map_option ids (find_list k es) of None \<Rightarrow> [r] | Some l \<Rightarrow> if r \<in> set l then l else l @ [r])
      else map_option ids (find_list k es))"
  by (induction es) (auto split: option.splits)

lemma find_list_above: "\<forall>e \<in> set es. k < key_data e \<Longrightarrow> find_list k es = None"
  by (cases es) auto

lemma find_del_list:
  "sorted_entries es \<Longrightarrow> map_option ids (find_list k (del_list k' r es)) =
     (if k = k' then case map_option ids (find_list k es) of None \<Rightarrow> None
        | Some l \<Rightarrow> if filter (\<lambda>i. i \<noteq> r) l = [] then None else Some (filter (\<lambda>i. i \<noteq> r) l)
      else map_option ids (find_list k es))"
proof (induction es)
  case (Cons e es)
  have above: "find_list k es = None" if "k \<le> key_data e" using Cons.prems that by (intro find_list_above) auto
  show ?case using Cons above by (auto simp: Let_def split: option.splits)
qed simp

lemma find_list_dom: "sorted_entries es \<Longrightarrow> find_list k es \<noteq> None \<longleftrightarrow> k \<in> key_data ` set es"
proof (induction es)
  case (Cons e es)
  have "k \<notin> key_data ` set es" if "k \<le> key_data e" using Cons.prems that by auto
  then show ?case using Cons by auto
qed simp

lemma ids_at_insert:
  assumes "bt_inv t"
  shows "ids_at (insert_encoded k' r t) k =
     (if k = k' then Some (case ids_at t k of None \<Rightarrow> [r] | Some l \<Rightarrow> if r \<in> set l then l else l @ [r]) else ids_at t k)"
  using find_ins_list [OF bt_invD(1) [OF assms]] bt_inv_insert [OF assms, THEN bt_invD(1)] bt_invD(1) [OF assms]
  by (simp add: ids_at_def find_entry_eq insert_encoded_eq)

lemma ids_at_erase:
  assumes "bt_inv t"
  shows "ids_at (erase_encoded k' r t) k =
     (if k = k' then case ids_at t k of None \<Rightarrow> None | Some l \<Rightarrow> if filter (\<lambda>i. i \<noteq> r) l = [] then None else Some (filter (\<lambda>i. i \<noteq> r) l)
      else ids_at t k)"
  using find_del_list [OF bt_invD(1) [OF assms]] bt_inv_erase [OF assms, THEN bt_invD(1)] bt_invD(1) [OF assms]
  by (simp add: ids_at_def find_entry_eq erase_encoded_eq)

lemma size_card_dom:
  assumes "bt_inv t" shows "bptree_size t = card (dom (ids_at t))"
proof -
  have s: "sorted_entries (bt_entries t)" by (rule bt_invD(1) [OF assms])
  then have "distinct (map key_data (bt_entries t))" by (simp add: strict_sorted_iff)
  moreover have "dom (ids_at t) = set (map key_data (bt_entries t))"
    using find_list_dom [OF s] by (auto simp: ids_at_def find_entry_eq [OF s] dom_def)
  ultimately show ?thesis using distinct_card [of "map key_data (bt_entries t)"] by (simp add: bptree_size_def)
qed

text \<open>A value of the alternative that belongs to a field type, and that different values have different keys.\<close>

fun of_alternative :: "FieldType \<Rightarrow> FieldValue \<Rightarrow> bool" where
  "of_alternative UINT32 (VUint32 v) = True"
| "of_alternative STRING (VString s) = True"
| "of_alternative FLOAT32 (VFloat v) = True"
| "of_alternative BOOL (VBool b) = True"
| "of_alternative INT64 (VInt64 v) = True"
| "of_alternative _ _ = False"

lemma encode_alternative:
  "is_enumerator ty \<Longrightarrow> of_alternative ty v \<Longrightarrow> \<exists>k. bptree_key_encode_vec v ty = Inr k"
  "is_enumerator ty \<Longrightarrow> \<not> of_alternative ty v \<Longrightarrow> bptree_key_encode_vec v ty = Inl BadVariantAccess"
  by (cases ty; cases v; simp add: bptree_key_encode_vec_def)+

lemma encode_u32_inject: "encode_int_be 4 v = encode_int_be 4 w \<longleftrightarrow> v = w" for v w :: u32
  using encode_int_be_eq_iff [of 4 v w] unat_u32_less [of v] unat_u32_less [of w] by (simp add: word_unat_eq_iff)

lemma encode_signed_inject: "encode_signed_be v = encode_signed_be w \<longleftrightarrow> v = w"
  using encode_signed_less_iff [of v w] encode_signed_less_iff [of w v] by (metis less_irrefl linorder_neqE signed_word_eqI)

lemma encode_float_inject: "encode_float_ordered a = encode_float_ordered b \<longleftrightarrow> a = b"
proof
  assume eq: "encode_float_ordered a = encode_float_ordered b"
  obtain x y where xy: "unat a = x" "unat b = y" by simp
  have "f32_ord a = f32_ord b" "2 ^ 31 \<le> x \<longleftrightarrow> 2 ^ 31 \<le> y"
    using eq encode_float_less_iff [of a b] encode_float_less_iff [of b a] xy by force+
  then have "x = y" unfolding f32_ord_def xy by (auto split: if_splits)
  then show "a = b" using xy by (simp add: word_unat_eq_iff)
qed simp

lemma encode_inject:
  "of_alternative ty a \<Longrightarrow> of_alternative ty b \<Longrightarrow> bptree_key_encode_vec a ty = bptree_key_encode_vec b ty \<Longrightarrow> a = b"
  by (cases ty; cases a; cases b) (auto simp: bptree_key_encode_vec_def encode_u32_inject encode_signed_inject encode_float_inject split: if_splits)

text \<open>The operations as calls, and the same calls on a function from values to lists of ids.\<close>

datatype bt_op = BtInsert FieldValue u32 | BtErase FieldValue u32 | BtFind FieldValue | BtSize | BtEmpty

datatype bt_answer = BtDone | BtIds "u32 list option" | BtCount nat | BtBool bool

fun bt_call :: "FieldType \<Rightarrow> bt_op \<Rightarrow> BPTree \<Rightarrow> bt_answer result \<times> BPTree" where
  "bt_call ty (BtInsert v i) t = (case bptree_insert t v ty i of Inl e \<Rightarrow> (Inl e, t) | Inr t' \<Rightarrow> (Inr BtDone, t'))"
| "bt_call ty (BtErase v i) t = (case bptree_erase t v ty i of Inl e \<Rightarrow> (Inl e, t) | Inr t' \<Rightarrow> (Inr BtDone, t'))"
| "bt_call ty (BtFind v) t = (bindR (bptree_find t v ty) (\<lambda>r. Inr (BtIds r)), t)"
| "bt_call ty BtSize t = (Inr (BtCount (bptree_size t)), t)"
| "bt_call ty BtEmpty t = (Inr (BtBool (bptree_is_empty t)), t)"

fun ids_call :: "FieldType \<Rightarrow> bt_op \<Rightarrow> (FieldValue \<Rightarrow> u32 list) \<Rightarrow> bt_answer result \<times> (FieldValue \<Rightarrow> u32 list)" where
  "ids_call ty (BtInsert v i) m =
     (if of_alternative ty v then (Inr BtDone, m(v := if i \<in> set (m v) then m v else m v @ [i])) else (Inl BadVariantAccess, m))"
| "ids_call ty (BtErase v i) m =
     (if of_alternative ty v then (Inr BtDone, m(v := filter (\<lambda>j. j \<noteq> i) (m v))) else (Inl BadVariantAccess, m))"
| "ids_call ty (BtFind v) m =
     (if of_alternative ty v then Inr (BtIds (if m v = [] then None else Some (m v))) else Inl BadVariantAccess, m)"
| "ids_call ty BtSize m = (Inr (BtCount (card {v. m v \<noteq> []})), m)"
| "ids_call ty BtEmpty m = (Inr (BtBool (\<forall>v. m v = [])), m)"

definition holds_ids :: "FieldType \<Rightarrow> BPTree \<Rightarrow> (FieldValue \<Rightarrow> u32 list) \<Rightarrow> bool" where
  "holds_ids ty t m \<longleftrightarrow> bt_inv t \<and> (\<forall>v. m v \<noteq> [] \<longrightarrow> of_alternative ty v)
     \<and> (\<forall>k \<in> dom (ids_at t). \<exists>v. of_alternative ty v \<and> bptree_key_encode_vec v ty = Inr k)
     \<and> (\<forall>v k. of_alternative ty v \<and> bptree_key_encode_vec v ty = Inr k \<longrightarrow> ids_at t k = (if m v = [] then None else Some (m v)))"

lemma holds_idsD:
  assumes "holds_ids ty t m"
  shows "bt_inv t" and "\<And>v. m v \<noteq> [] \<Longrightarrow> of_alternative ty v"
    and "\<And>k l. ids_at t k = Some l \<Longrightarrow> \<exists>v. of_alternative ty v \<and> bptree_key_encode_vec v ty = Inr k"
    and "\<And>v k. of_alternative ty v \<Longrightarrow> bptree_key_encode_vec v ty = Inr k \<Longrightarrow> ids_at t k = (if m v = [] then None else Some (m v))"
  using assms unfolding holds_ids_def by blast+

text \<open>A change of the ids of one value.\<close>

lemma holds_ids_update:
  assumes "holds_ids ty t m" and "of_alternative ty v" and "bptree_key_encode_vec v ty = Inr k" and "bt_inv t'"
    and "\<And>k'. k' \<noteq> k \<Longrightarrow> ids_at t' k' = ids_at t k'" and "ids_at t' k = (if l = [] then None else Some l)"
  shows "holds_ids ty t' (m(v := l))"
proof -
  note h = holds_idsD [OF assms(1)]
  have "ids_at t' k' = (if (m(v := l)) v' = [] then None else Some ((m(v := l)) v'))"
    if "of_alternative ty v'" "bptree_key_encode_vec v' ty = Inr k'" for v' k'
  proof (cases "v' = v")
    case False
    then have "k' \<noteq> k" using encode_inject [OF that(1) assms(2)] that(2) assms(3) by auto
    then show ?thesis using False assms(5) h(4) [OF that] by simp
  qed (use that assms(3,6) in simp)
  moreover have "\<exists>v. of_alternative ty v \<and> bptree_key_encode_vec v ty = Inr k'" if "k' \<in> dom (ids_at t')" for k'
    using that assms(2,3,5) h(3) by (cases "k' = k") auto
  ultimately show ?thesis using assms(2,4) h(2) by (auto simp: holds_ids_def)
qed

lemma holds_ids_size:
  assumes "holds_ids ty t m" and "is_enumerator ty" shows "bptree_size t = card {v. m v \<noteq> []}"
proof -
  note h = holds_idsD [OF assms(1)]
  let ?key = "\<lambda>v. projr (bptree_key_encode_vec v ty)"
  have key: "bptree_key_encode_vec v ty = Inr (?key v)" if "m v \<noteq> []" for v
    using encode_alternative(1) [OF assms(2) h(2) [OF that]] by auto
  have "dom (ids_at t) = ?key ` {v. m v \<noteq> []}"
  proof (intro equalityI subsetI)
    fix k assume k: "k \<in> dom (ids_at t)"
    then obtain v where v: "of_alternative ty v" "bptree_key_encode_vec v ty = Inr k" using h(3) by blast
    then have "m v \<noteq> []" using h(4) [OF v] k by (auto split: if_splits)
    then show "k \<in> ?key ` {v. m v \<noteq> []}" using v(2) by force
  next
    fix k assume "k \<in> ?key ` {v. m v \<noteq> []}"
    then obtain v where "m v \<noteq> []" "k = ?key v" by blast
    then show "k \<in> dom (ids_at t)" using h(2,4) key by force
  qed
  moreover have "inj_on ?key {v. m v \<noteq> []}"
    using encode_inject [of ty] h(2) key by (intro inj_onI) (metis (mono_tags, lifting) mem_Collect_eq)
  ultimately show ?thesis using size_card_dom [OF h(1)] by (simp add: card_image)
qed

lemma holds_ids_empty_iff: "holds_ids ty t m \<Longrightarrow> is_enumerator ty \<Longrightarrow> bptree_is_empty t \<longleftrightarrow> (\<forall>v. m v = [])"
proof -
  assume h: "holds_ids ty t m" and ty: "is_enumerator ty"
  have s: "sorted_entries (bt_entries t)" by (rule bt_invD(1) [OF holds_idsD(1) [OF h]])
  have dom: "bptree_is_empty t \<longleftrightarrow> dom (ids_at t) = {}"
    using find_list_dom [OF s] by (auto simp: bptree_is_empty_def ids_at_def find_entry_eq [OF s] dom_def)
  show ?thesis
  proof
    assume "bptree_is_empty t"
    then have "ids_at t k = None" for k using dom by auto
    then show "\<forall>v. m v = []" using holds_idsD(2,4) [OF h] encode_alternative(1) [OF ty] by (metis option.distinct(1))
  next
    assume "\<forall>v. m v = []"
    then show "bptree_is_empty t" using holds_idsD(3,4) [OF h] dom by fastforce
  qed
qed

lemma bt_call_refined:
  assumes "holds_ids ty t m" and "is_enumerator ty"
  shows "fst (bt_call ty oper t) = fst (ids_call ty oper m) \<and> holds_ids ty (snd (bt_call ty oper t)) (snd (ids_call ty oper m))"
proof -
  note h = holds_idsD [OF assms(1)] and enc = encode_alternative [OF assms(2)]
  show ?thesis
  proof (cases oper)
    case (BtInsert v i)
    show ?thesis
    proof (cases "of_alternative ty v")
      case True
      then obtain k where k: "bptree_key_encode_vec v ty = Inr k" using enc(1) by blast
      have "holds_ids ty (insert_encoded k i t) (m(v := if i \<in> set (m v) then m v else m v @ [i]))"
        by (rule holds_ids_update [OF assms(1) True k bt_inv_insert [OF h(1)]])
           (use h(4) [OF True k] in \<open>auto simp: ids_at_insert [OF h(1)]\<close>)
      then show ?thesis using BtInsert True k by (simp add: bptree_insert_def)
    qed (use BtInsert assms(1) enc(2) in \<open>simp add: bptree_insert_def\<close>)
  next
    case (BtErase v i)
    show ?thesis
    proof (cases "of_alternative ty v")
      case True
      then obtain k where k: "bptree_key_encode_vec v ty = Inr k" using enc(1) by blast
      have "holds_ids ty (erase_encoded k i t) (m(v := filter (\<lambda>j. j \<noteq> i) (m v)))"
        by (rule holds_ids_update [OF assms(1) True k bt_inv_erase [OF h(1)]])
           (use h(4) [OF True k] in \<open>auto simp: ids_at_erase [OF h(1)]\<close>)
      then show ?thesis using BtErase True k by (simp add: bptree_erase_def)
    qed (use BtErase assms(1) enc(2) in \<open>simp add: bptree_erase_def\<close>)
  next
    case (BtFind v)
    then show ?thesis using assms(1) enc [of v] h(4) [of v]
      by (cases "of_alternative ty v") (auto simp: bptree_find_def simp flip: ids_at_def)
  qed (use assms holds_ids_size holds_ids_empty_iff in auto)
qed

lemma holds_ids_start: "holds_ids ty bptree_empty (\<lambda>_. [])"
proof -
  have "ids_at bptree_empty k = None" for k using find_entry_eq [of bptree_empty] by (simp add: ids_at_def bptree_empty_def)
  then show ?thesis by (simp add: holds_ids_def dom_def)
qed

lemma encode_vec_typed:
  "value_has_type t v \<Longrightarrow> \<exists>k. bptree_key_encode_vec v t = Inr k"
  by (cases t; cases v) (simp_all add: bptree_key_encode_vec_def)

text \<open>
  C19: the key encoding preserves order. For two values of a field's type that are not
  NaN, the encoded keys compare (with \<open>memcmp\<close> and then length) below zero exactly when
  the first value is less than the second; for floats this is IEEE order refined by
  \<open>-0.0\<close> before \<open>+0.0\<close>, the only pair of equal values with distinct keys.
\<close>

theorem key_encoding_order:
  assumes "value_has_type t a" and "value_has_type t b"
    and "\<not> is_nan_value a" and "\<not> is_nan_value b"
  shows "\<exists>ka kb. bptree_key_encode_vec a t = Inr ka \<and> bptree_key_encode_vec b t = Inr kb
    \<and> (bptree_key_compare ka kb < 0 \<longleftrightarrow>
         value_less t a b \<or> (a = VFloat 0x80000000 \<and> b = VFloat 0))"
proof -
  have zero: "f32_ord x = f32_ord y \<and> 2 ^ 31 \<le> unat x \<and> unat y < 2 ^ 31 \<longleftrightarrow> x = 0x80000000 \<and> y = 0"
    for x y :: u32
  proof -
    have "f32_ord x = f32_ord y \<and> 2 ^ 31 \<le> unat x \<and> unat y < 2 ^ 31 \<longleftrightarrow> unat x = 2 ^ 31 \<and> unat y = 0"
    proof -
      obtain m n where mn: "unat x = m" "unat y = n" by simp
      show ?thesis unfolding f32_ord_def mn by auto
    qed
    then show ?thesis by (simp add: word_unat_eq_iff [of x] unat_eq_0)
  qed
  show ?thesis
  proof (cases t)
    case UINT32
    then show ?thesis using assms by (cases a; cases b)
      (auto simp: bptree_key_encode_vec_def encode_u32_less_iff)
  next
    case STRING
    then show ?thesis using assms by (cases a; cases b)
      (auto simp: bptree_key_encode_vec_def string_bytes_less_iff)
  next
    case FLOAT32
    then show ?thesis using assms zero by (cases a; cases b)
      (auto simp: bptree_key_encode_vec_def encode_float_less_iff f32_less_def)
  next
    case BOOL
    then show ?thesis using assms by (cases a; cases b) (auto simp: bptree_key_encode_vec_def)
  next
    case INT64
    then show ?thesis using assms by (cases a; cases b)
      (auto simp: bptree_key_encode_vec_def encode_signed_less_iff)
  qed (use assms in simp_all)
qed

theorem key_encoding_order_witness:
  "\<exists>ka kb. bptree_key_encode_vec (VInt64 (-5)) INT64 = Inr ka
     \<and> bptree_key_encode_vec (VInt64 3) INT64 = Inr kb \<and> bptree_key_compare ka kb < 0"
  using key_encoding_order [of INT64 "VInt64 (-5)" "VInt64 3"] by simp

text \<open>
  C21: a secondary index is a map from values to lists of ids. For every field type and every sequence of insertions, erasures and lookups from
  the empty tree, \<open>find\<close> returns no vector for a value that has no ids left and otherwise the ids of the value in the order of
  their insertion, each once; \<open>size\<close> is the number of values with ids and \<open>empty\<close> says whether there are none; a value of another
  type is refused and changes nothing. The tree keeps its invariant: keys strictly sorted, id lists non-empty and free of duplicates.
\<close>

theorem bptree_index_correct:
  assumes "is_enumerator ty"
  shows "fst (run_calls (bt_call ty) ops bptree_empty) = fst (run_calls (ids_call ty) ops (\<lambda>_. []))
    \<and> bt_inv (snd (run_calls (bt_call ty) ops bptree_empty))"
  using run_calls_refined [of "holds_ids ty" "bt_call ty" "ids_call ty", OF bt_call_refined holds_ids_start] assms holds_idsD(1) by blast

theorem bptree_index_correct_witness:
  "fst (run_calls (bt_call UINT32) [BtInsert (VUint32 42) 100, BtInsert (VUint32 42) 200, BtErase (VUint32 42) 100, BtFind (VUint32 42),
      BtErase (VUint32 42) 200, BtFind (VUint32 42), BtInsert (VBool True) 1, BtEmpty] bptree_empty)
    = [Inr BtDone, Inr BtDone, Inr BtDone, Inr (BtIds (Some [200])), Inr BtDone, Inr (BtIds None), Inl BadVariantAccess, Inr (BtBool True)]"
proof -
  let ?ops = "[BtInsert (VUint32 42) 100, BtInsert (VUint32 42) 200, BtErase (VUint32 42) 100, BtFind (VUint32 42),
      BtErase (VUint32 42) 200, BtFind (VUint32 42), BtInsert (VBool True) 1, BtEmpty]"
  have "fst (run_calls (bt_call UINT32) ?ops bptree_empty) = fst (run_calls (ids_call UINT32) ?ops (\<lambda>_. []))"
    using bptree_index_correct [of UINT32 ?ops] by simp
  then show ?thesis by (simp only:) simp
qed

text \<open>
  C22: a range scan visits exactly the entries whose key lies between the bounds, each
  bound absent, inclusive or exclusive, in ascending key order and each once.
\<close>

theorem range_scan_correct:
  assumes "bt_inv t" and "encode_bound lo lt = Inr lo_kb" and "encode_bound hi ht = Inr hi_kb"
  shows "\<exists>es. range_scan t lo lt lo_inc hi ht hi_inc = Inr es
    \<and> set es = {e \<in> set (bt_entries t). above_lo lo_kb lo_inc (key_data e) \<and> below_hi hi_kb hi_inc (key_data e)}
    \<and> sorted_wrt (<) (map key_data es)"
proof -
  let ?es = "range_encoded t lo_kb lo_inc hi_kb hi_inc"
  have "range_scan t lo lt lo_inc hi ht hi_inc = Inr ?es"
    using assms(2,3) by (simp add: range_scan_def)
  moreover have "sorted_wrt (<) (map key_data ?es)"
    unfolding range_encoded_filter [OF assms(1)] using bt_invD(1) [OF assms(1)] by (rule sorted_filter_entries)
  moreover have "set ?es = {e \<in> set (bt_entries t). above_lo lo_kb lo_inc (key_data e) \<and> below_hi hi_kb hi_inc (key_data e)}"
    unfolding range_encoded_filter [OF assms(1)] by simp
  ultimately show ?thesis by blast
qed

theorem range_scan_correct_witness:
  "let t = \<lparr>bt_entries = [\<lparr>key_data = [0], ids = [4, 9]\<rparr>, \<lparr>key_data = [1], ids = [7]\<rparr>]\<rparr>
   in bt_inv t \<and> (\<exists>es. range_scan t (Some (VBool True)) BOOL True None BOOL True = Inr es
        \<and> set es = {\<lparr>key_data = [1], ids = [7]\<rparr>})"
proof -
  let ?t = "\<lparr>bt_entries = [\<lparr>key_data = [0], ids = [4, 9]\<rparr>, \<lparr>key_data = [1], ids = [7]\<rparr>]\<rparr>"
  have inv: "bt_inv ?t" by (simp add: bt_inv_def)
  have lo: "encode_bound (Some (VBool True)) BOOL = Inr (Some [1])"
    by (simp add: encode_bound_def bptree_key_encode_vec_def)
  have hi: "encode_bound None BOOL = Inr None" by (simp add: encode_bound_def)
  from range_scan_correct [OF inv lo hi, of True True]
  obtain es where "range_scan ?t (Some (VBool True)) BOOL True None BOOL True = Inr es"
    "set es = {e \<in> set (bt_entries ?t). above_lo (Some [1]) True (key_data e) \<and> below_hi None True (key_data e)}"
    by blast
  moreover have "{e \<in> set (bt_entries ?t). above_lo (Some [1]) True (key_data e) \<and> below_hi None True (key_data e)}
      = {\<lparr>key_data = [1], ids = [7]\<rparr>}"
    by (auto simp: above_lo_def below_hi_def)
  ultimately show ?thesis using inv by (auto simp: Let_def)
qed

end
