(* ===== verification/Index_Manager.thy ===== *)
theory Index_Manager
  imports Xdl_Types
begin

text \<open>
  The primary index of \<open>include/xdl/index.h\<close>: a vector of entries sorted by row id, an
  unsorted write buffer with a hash set of its ids, and the reverse mapping from a page
  to the row ids on it. An unordered set is a list without duplicates; nothing in the
  sources depends on its iteration order.
\<close>

section \<open>State\<close>

record IndexEntry =
  ie_page_id :: u32
  ie_page_offset :: u64
  ie_row_slot :: u32

type_synonym index_pair = "u32 \<times> IndexEntry"

record IndexManager =
  im_entries :: "index_pair list"
  im_buf :: "index_pair list"
  im_buf_ids :: "u32 list"
  im_prepared :: bool
  im_page_to_ids :: "u32 \<rightharpoonup> u32 list"

definition MERGE_THRESHOLD :: nat where
  "MERGE_THRESHOLD = 1024"

definition index_manager :: IndexManager where
  "index_manager = \<lparr>im_entries = [], im_buf = [], im_buf_ids = [], im_prepared = False,
                    im_page_to_ids = Map.empty\<rparr>"

section \<open>Private helpers\<close>

definition im_lower_bound :: "IndexManager \<Rightarrow> u32 \<Rightarrow> nat" where
  "im_lower_bound m i = lower_bound (\<lambda>p. fst p < i) (im_entries m)"

text \<open>\<open>it != entries_.end() && it->id == id\<close>: the position of \<open>id\<close> in the sorted vector.\<close>

definition im_locate :: "IndexManager \<Rightarrow> u32 \<Rightarrow> nat option" where
  "im_locate m i =
     (let it = im_lower_bound m i
      in if it \<noteq> length (im_entries m) \<and> fst (im_entries m ! it) = i then Some it else None)"

text \<open>\<open>std::merge\<close>: an element of the second range goes first only when it is less.\<close>

fun merge_pairs :: "index_pair list \<Rightarrow> index_pair list \<Rightarrow> index_pair list" where
  "merge_pairs [] ys = ys"
| "merge_pairs xs [] = xs"
| "merge_pairs (x # xs) (y # ys) =
     (if fst y < fst x then y # merge_pairs (x # xs) ys else x # merge_pairs xs (y # ys))"

definition im_merge :: "IndexManager \<Rightarrow> IndexManager" where
  "im_merge m =
     (if im_buf m = [] then m
      else m\<lparr>im_entries := merge_pairs (im_entries m) (sort_key fst (im_buf m)),
             im_buf := [], im_buf_ids := []\<rparr>)"

text \<open>\<open>page_to_ids_[pid].insert(id)\<close> and \<open>.erase(id)\<close>: \<open>operator[]\<close> creates the set.\<close>

definition page_ids :: "(u32 \<rightharpoonup> u32 list) \<Rightarrow> u32 \<Rightarrow> u32 list" where
  "page_ids p2i pid = (case p2i pid of None \<Rightarrow> [] | Some l \<Rightarrow> l)"

definition page_ids_insert :: "u32 \<Rightarrow> u32 \<Rightarrow> (u32 \<rightharpoonup> u32 list) \<Rightarrow> (u32 \<rightharpoonup> u32 list)" where
  "page_ids_insert pid i p2i = p2i(pid \<mapsto> List.insert i (page_ids p2i pid))"

definition page_ids_erase :: "u32 \<Rightarrow> u32 \<Rightarrow> (u32 \<rightharpoonup> u32 list) \<Rightarrow> (u32 \<rightharpoonup> u32 list)" where
  "page_ids_erase pid i p2i = p2i(pid \<mapsto> removeAll i (page_ids p2i pid))"

section \<open>Public operations\<close>

definition im_push :: "u32 \<Rightarrow> IndexEntry \<Rightarrow> IndexManager \<Rightarrow> IndexManager" where
  "im_push i entry m =
     m\<lparr>im_buf := im_buf m @ [(i, entry)],
       im_buf_ids := List.insert i (im_buf_ids m),
       im_page_to_ids := page_ids_insert (ie_page_id entry) i (im_page_to_ids m)\<rparr>"

definition im_insert :: "u32 \<Rightarrow> IndexEntry \<Rightarrow> (IndexManager, unit) prog" where
  "im_insert i entry m =
     (let m = (if im_prepared m \<and> length (im_buf m) \<ge> MERGE_THRESHOLD then im_merge m else m)
      in if im_prepared m \<and> im_locate m i \<noteq> None then (Inl DuplicateKeyError, m)
         else if i \<in> set (im_buf_ids m) then (Inl DuplicateKeyError, m)
         else (Inr (), im_push i entry m))"

fun buf_find :: "index_pair list \<Rightarrow> u32 \<Rightarrow> IndexEntry option" where
  "buf_find [] i = None"
| "buf_find (p # ps) i = (if fst p = i then Some (snd p) else buf_find ps i)"

definition im_find :: "IndexManager \<Rightarrow> u32 \<Rightarrow> IndexEntry option" where
  "im_find m i =
     (case (if im_prepared m then im_locate m i else None) of
        Some it \<Rightarrow> Some (snd (im_entries m ! it))
      | None \<Rightarrow> if i \<notin> set (im_buf_ids m) then None else buf_find (im_buf m) i)"

text \<open>The first element of the buffer with the id, removed; its entry if there is one.\<close>

fun buf_remove :: "index_pair list \<Rightarrow> u32 \<Rightarrow> (IndexEntry \<times> index_pair list) option" where
  "buf_remove [] i = None"
| "buf_remove (p # ps) i =
     (if fst p = i then Some (snd p, ps)
      else map_option (\<lambda>(e, qs). (e, p # qs)) (buf_remove ps i))"

definition im_remove :: "IndexManager \<Rightarrow> u32 \<Rightarrow> bool \<times> IndexManager" where
  "im_remove m i =
     (case (if im_prepared m then im_locate m i else None) of
        Some it \<Rightarrow>
          (True, m\<lparr>im_page_to_ids := page_ids_erase (ie_page_id (snd (im_entries m ! it))) i (im_page_to_ids m),
                   im_entries := take it (im_entries m) @ drop (Suc it) (im_entries m)\<rparr>)
      | None \<Rightarrow> (case buf_remove (im_buf m) i of
            None \<Rightarrow> (False, m)
          | Some (e, buf') \<Rightarrow>
              (True, m\<lparr>im_page_to_ids := page_ids_erase (ie_page_id e) i (im_page_to_ids m),
                       im_buf_ids := removeAll i (im_buf_ids m),
                       im_buf := buf'\<rparr>)))"

fun buf_update :: "(IndexEntry \<Rightarrow> IndexEntry) \<Rightarrow> index_pair list \<Rightarrow> u32 \<Rightarrow> index_pair list" where
  "buf_update f [] i = []"
| "buf_update f (p # ps) i = (if fst p = i then (fst p, f (snd p)) # ps else p # buf_update f ps i)"

text \<open>The common shape of \<open>update_offset\<close> and \<open>update_slot\<close>.\<close>

definition im_update :: "(IndexEntry \<Rightarrow> IndexEntry) \<Rightarrow> IndexManager \<Rightarrow> u32 \<Rightarrow> IndexManager" where
  "im_update f m i =
     (case (if im_prepared m then im_locate m i else None) of
        Some it \<Rightarrow> m\<lparr>im_entries := (im_entries m)[it := (fst (im_entries m ! it), f (snd (im_entries m ! it)))]\<rparr>
      | None \<Rightarrow> m\<lparr>im_buf := buf_update f (im_buf m) i\<rparr>)"

definition update_offset :: "u64 \<Rightarrow> u32 \<Rightarrow> IndexManager \<Rightarrow> IndexManager" where
  "update_offset new_offset i m = im_update (\<lambda>e. e\<lparr>ie_page_offset := new_offset\<rparr>) m i"

definition update_slot :: "u32 \<Rightarrow> u32 \<Rightarrow> IndexManager \<Rightarrow> IndexManager" where
  "update_slot new_slot i m = im_update (\<lambda>e. e\<lparr>ie_row_slot := new_slot\<rparr>) m i"

definition ids_for_page :: "IndexManager \<Rightarrow> u32 \<Rightarrow> u32 list option" where
  "ids_for_page m pid = im_page_to_ids m pid"

definition update_offsets_for_page :: "u32 \<Rightarrow> u64 \<Rightarrow> IndexManager \<Rightarrow> IndexManager" where
  "update_offsets_for_page pid new_offset m =
     (case im_page_to_ids m pid of None \<Rightarrow> m
      | Some is \<Rightarrow> fold (update_offset new_offset) is m)"

definition im_empty :: "IndexManager \<Rightarrow> bool" where
  "im_empty m \<longleftrightarrow> im_entries m = [] \<and> im_buf m = []"

definition im_size :: "IndexManager \<Rightarrow> nat" where
  "im_size m = length (im_entries m) + length (im_buf m)"

definition im_prepare :: "IndexManager \<Rightarrow> IndexManager" where
  "im_prepare m = (if im_buf m \<noteq> [] then im_merge m else m)\<lparr>im_prepared := True\<rparr>"

text \<open>\<open>for_each\<close> visits the sorted part, then the buffer.\<close>

definition im_for_each :: "IndexManager \<Rightarrow> index_pair list" where
  "im_for_each m = im_entries m @ im_buf m"

section \<open>Invariant and abstraction\<close>

text \<open>The map an index stands for.\<close>

definition im_map :: "IndexManager \<Rightarrow> u32 \<rightharpoonup> IndexEntry" where
  "im_map m = map_of (im_entries m @ im_buf m)"

definition im_inv :: "IndexManager \<Rightarrow> bool" where
  "im_inv m \<longleftrightarrow>
     sorted_wrt (<) (map fst (im_entries m))
     \<and> distinct (map fst (im_entries m @ im_buf m))
     \<and> set (im_buf_ids m) = fst ` set (im_buf m)
     \<and> (\<not> im_prepared m \<longrightarrow> im_entries m = [])
     \<and> (\<forall>pid i. i \<in> set (page_ids (im_page_to_ids m) pid) \<longleftrightarrow>
          (\<exists>e. im_map m i = Some e \<and> ie_page_id e = pid))
     \<and> (\<forall>pid. distinct (page_ids (im_page_to_ids m) pid))"

lemma im_invD:
  assumes "im_inv m"
  shows "sorted_wrt (<) (map fst (im_entries m))"
    and "distinct (map fst (im_entries m @ im_buf m))"
    and "set (im_buf_ids m) = fst ` set (im_buf m)"
    and "\<not> im_prepared m \<Longrightarrow> im_entries m = []"
    and "\<And>pid i. i \<in> set (page_ids (im_page_to_ids m) pid) \<longleftrightarrow>
          (\<exists>e. im_map m i = Some e \<and> ie_page_id e = pid)"
    and "\<And>pid. distinct (page_ids (im_page_to_ids m) pid)"
  using assms by (simp_all add: im_inv_def)

lemma im_inv_init: "im_inv index_manager" "im_map index_manager = Map.empty"
  by (simp_all add: im_inv_def index_manager_def im_map_def page_ids_def)

lemma partitioned_pairs:
  "sorted_wrt (<) (map fst es) \<Longrightarrow> partitioned (\<lambda>p. fst p < (i::u32)) es"
  by (induction es) (auto simp: partitioned_def)

text \<open>Locating an id in the sorted vector, by recursion on the vector.\<close>

lemma locate_prefix:
  "sorted_wrt (<) (map fst es) \<Longrightarrow>
   (let it = length (takeWhile (\<lambda>p. fst p < i) es)
    in if it \<noteq> length es \<and> fst (es ! it) = i
       then map_of es i = Some (snd (es ! it)) \<and> it < length es \<and> es ! it = (i, snd (es ! it))
       else map_of es i = None)" for i :: u32
proof (induction es)
  case Nil
  then show ?case by simp
next
  case (Cons p es)
  consider "fst p < i" | "fst p = i" | "i < fst p" using less_linear by blast
  then show ?case
  proof cases
    case 1
    then show ?thesis using Cons by (cases p) (auto simp: Let_def split: if_splits)
  next
    case 2
    then show ?thesis by (cases p) (simp add: Let_def)
  next
    case 3
    then have "i \<notin> fst ` set es" using Cons.prems by (auto dest: less_trans)
    then show ?thesis using 3 by (cases p) (auto simp: Let_def map_of_eq_None_iff)
  qed
qed

lemma im_locate_cases:
  assumes "sorted_wrt (<) (map fst (im_entries m))"
  obtains it where "im_locate m i = Some it" "it < length (im_entries m)"
      "im_entries m ! it = (i, snd (im_entries m ! it))"
      "map_of (im_entries m) i = Some (snd (im_entries m ! it))"
  | "im_locate m i = None" "map_of (im_entries m) i = None"
proof -
  have lb: "im_lower_bound m i = length (takeWhile (\<lambda>p. fst p < i) (im_entries m))"
    unfolding im_lower_bound_def by (rule lower_bound_takeWhile [OF partitioned_pairs [OF assms]])
  show thesis
    using locate_prefix [OF assms, of i] that
    by (auto simp: im_locate_def lb Let_def split: if_splits)
qed

lemma buf_find_map_of: "buf_find ps i = map_of ps i"
  by (induction ps) auto

lemma map_of_in_keys: "map_of xs i = Some e \<Longrightarrow> i \<in> fst ` set xs"
  by (metis map_of_eq_None_iff option.distinct(1))

lemma im_map_lookup:
  "im_map m i = (case map_of (im_entries m) i of Some e \<Rightarrow> Some e | None \<Rightarrow> map_of (im_buf m) i)"
  by (simp add: im_map_def map_add_def)

lemma im_map_of:
  "map_of (im_entries m) = E \<Longrightarrow> map_of (im_buf m) = B \<Longrightarrow>
   im_map m = (\<lambda>i. case E i of Some e \<Rightarrow> Some e | None \<Rightarrow> B i)"
  by (auto simp: im_map_lookup)

lemma im_find_map:
  assumes "im_inv m" shows "im_find m i = im_map m i"
proof -
  note d = im_invD [OF assms]
  have buf: "(if i \<notin> set (im_buf_ids m) then None else buf_find (im_buf m) i) = map_of (im_buf m) i"
    using map_of_eq_None_iff [of "im_buf m" i] by (auto simp: d(3) buf_find_map_of)
  show ?thesis
  proof (cases rule: im_locate_cases [OF d(1), of i])
    case (1 it)
    then have "im_prepared m" using d(4) by force
    then show ?thesis using 1 by (simp add: im_find_def im_map_lookup)
  next
    case 2
    then show ?thesis using buf by (simp add: im_find_def im_map_lookup)
  qed
qed

lemma im_find_fun: "im_inv m \<Longrightarrow> im_find m = im_map m"
  by (rule ext) (rule im_find_map)

section \<open>Effect of the operations on the map\<close>

lemma set_merge_pairs: "set (merge_pairs xs ys) = set xs \<union> set ys"
  by (induction xs ys rule: merge_pairs.induct) auto

lemma sorted_merge_pairs:
  "sorted (map fst xs) \<Longrightarrow> sorted (map fst ys) \<Longrightarrow> sorted (map fst (merge_pairs xs ys))"
  by (induction xs ys rule: merge_pairs.induct) (auto simp: set_merge_pairs)

lemma distinct_merge_pairs:
  "distinct (map fst (xs @ ys)) \<Longrightarrow> distinct (map fst (merge_pairs xs ys))"
  by (induction xs ys rule: merge_pairs.induct) (auto simp: set_merge_pairs)

lemma distinct_map_sort_key: "distinct (map fst (sort_key fst xs)) = distinct (map fst xs)"
  by (simp add: distinct_map)

lemma im_merge_inv:
  assumes "im_inv m" and "im_prepared m \<or> prep"
  shows "im_inv ((im_merge m)\<lparr>im_prepared := prep \<or> im_prepared m\<rparr>)" and "im_map (im_merge m) = im_map m"
proof -
  note d = im_invD [OF assms(1)]
  let ?es = "merge_pairs (im_entries m) (sort_key fst (im_buf m))"
  have dist: "distinct (map fst ?es)"
    using d(2) by (intro distinct_merge_pairs) (auto simp: distinct_map_sort_key)
  have "sorted (map fst ?es)"
    using d(1) by (intro sorted_merge_pairs) (simp_all add: strict_sorted_iff)
  then have sorted: "sorted_wrt (<) (map fst ?es)" using dist by (simp add: strict_sorted_iff)
  have "map_of ?es = map_of (im_entries m @ im_buf m)"
    using dist d(2) by (subst map_of_inject_set) (auto simp: set_merge_pairs)
  then show map: "im_map (im_merge m) = im_map m"
    by (simp add: im_map_def im_merge_def)
  have "page_ids (im_page_to_ids (im_merge m)) = page_ids (im_page_to_ids m)"
    by (simp add: im_merge_def)
  then show "im_inv ((im_merge m)\<lparr>im_prepared := prep \<or> im_prepared m\<rparr>)"
    using d assms(2) dist sorted map by (auto simp: im_inv_def im_merge_def im_map_def)
qed

lemma page_ids_upd [simp]:
  "page_ids (page_ids_insert pid i p2i) pid' = (if pid' = pid then List.insert i (page_ids p2i pid) else page_ids p2i pid')"
  "page_ids (page_ids_erase pid i p2i) pid' = (if pid' = pid then removeAll i (page_ids p2i pid) else page_ids p2i pid')"
  by (simp_all add: page_ids_def page_ids_insert_def page_ids_erase_def)

lemma im_push_inv:
  assumes "im_inv m" and new: "im_map m i = None"
  shows "im_map (im_push i e m) = (im_map m)(i \<mapsto> e)" and "im_inv (im_push i e m)"
proof -
  note d = im_invD [OF assms(1)]
  have keys: "i \<notin> fst ` set (im_entries m @ im_buf m)"
    using new by (simp only: im_map_def map_of_eq_None_iff) simp
  show map: "im_map (im_push i e m) = (im_map m)(i \<mapsto> e)"
  proof
    fix j
    have "map_of (im_buf m) i = None" "map_of (im_entries m) i = None"
      using keys by (auto simp: map_of_eq_None_iff)
    then show "im_map (im_push i e m) j = ((im_map m)(i \<mapsto> e)) j"
      by (auto simp: im_push_def im_map_def map_add_def split: option.splits)
  qed
  have "j \<in> set (page_ids (im_page_to_ids (im_push i e m)) pid) \<longleftrightarrow>
      (\<exists>e'. im_map (im_push i e m) j = Some e' \<and> ie_page_id e' = pid)" for pid j
    unfolding map using d(5) [of j pid] new by (auto simp: im_push_def)
  then show "im_inv (im_push i e m)"
    unfolding im_inv_def using d(1-4,6) keys by (auto simp: im_push_def)
qed

text \<open>The state after the periodic merge at the start of \<open>insert\<close>.\<close>

definition im_settled :: "IndexManager \<Rightarrow> IndexManager" where
  "im_settled m = (if im_prepared m \<and> length (im_buf m) \<ge> MERGE_THRESHOLD then im_merge m else m)"

lemma im_settled_inv:
  assumes "im_inv m" shows "im_inv (im_settled m)" and "im_map (im_settled m) = im_map m"
proof -
  have "(im_merge m)\<lparr>im_prepared := True\<rparr> = im_merge m" if "im_prepared m"
    using that by (simp add: im_merge_def)
  then show "im_inv (im_settled m)" and "im_map (im_settled m) = im_map m"
    using im_merge_inv [OF assms, of False] assms by (auto simp: im_settled_def)
qed

lemma im_insert_settled:
  "im_insert i e m = (if im_prepared (im_settled m) \<and> im_locate (im_settled m) i \<noteq> None
       \<or> i \<in> set (im_buf_ids (im_settled m)) then (Inl DuplicateKeyError, im_settled m)
     else (Inr (), im_push i e (im_settled m)))"
  unfolding im_insert_def Let_def im_settled_def by (auto simp del: not_None_eq)

lemma im_present_iff:
  assumes "im_inv m"
  shows "im_prepared m \<and> im_locate m i \<noteq> None \<or> i \<in> set (im_buf_ids m) \<longleftrightarrow> im_map m i \<noteq> None"
proof (cases rule: im_locate_cases [OF im_invD(1) [OF assms], of i])
  case (1 it)
  then have "im_prepared m" using im_invD(4) [OF assms] by force
  then show ?thesis using 1 by (simp add: im_map_lookup)
next
  case 2
  then show ?thesis
    using im_invD(3) [OF assms] map_of_eq_None_iff [of "im_buf m" i] by (simp add: im_map_lookup)
qed

lemma im_insert_new:
  assumes "im_inv m" and "im_map m i = None"
  shows "im_insert i e m = (Inr (), im_push i e (im_settled m))"
    and "im_inv (im_push i e (im_settled m))"
    and "im_map (im_push i e (im_settled m)) = (im_map m)(i \<mapsto> e)"
  using im_present_iff [OF im_settled_inv(1) [OF assms(1)], of i] im_settled_inv [OF assms(1)] assms(2)
    im_push_inv [of "im_settled m" i e]
  by (simp_all only: im_insert_settled if_False simp_thms)

lemma im_insert_duplicate:
  assumes "im_inv m" and "im_map m i \<noteq> None"
  shows "im_insert i e m = (Inl DuplicateKeyError, im_settled m)"
  using im_present_iff [OF im_settled_inv(1) [OF assms(1)], of i] im_settled_inv [OF assms(1)] assms(2)
  by (simp only: im_insert_settled if_True simp_thms)


section \<open>Removal\<close>

lemma buf_remove_map:
  "distinct (map fst ps) \<Longrightarrow>
   (case buf_remove ps i of
      None \<Rightarrow> map_of ps i = None
    | Some (e, qs) \<Rightarrow> map_of ps i = Some e \<and> map_of qs = (map_of ps)(i := None)
        \<and> fst ` set qs = fst ` set ps - {i} \<and> distinct (map fst qs))"
proof (induction ps)
  case Nil
  then show ?case by simp
next
  case (Cons p ps)
  obtain j x where p: "p = (j, x)" by (cases p)
  show ?case
  proof (cases "j = i")
    case True
    then have "map_of ps i = None" using Cons.prems p by (simp add: map_of_eq_None_iff image_iff)
    then show ?thesis using True p Cons.prems by (auto simp: fun_eq_iff)
  next
    case False
    then show ?thesis using p Cons by (auto simp: fun_eq_iff split: option.splits)
  qed
qed

lemma map_of_remove_nth:
  assumes "distinct (map fst es)" and "it < length es" and "fst (es ! it) = i"
  shows "map_of (take it es @ drop (Suc it) es) = (map_of es)(i := None)"
proof -
  have es: "es = take it es @ es ! it # drop (Suc it) es" using assms(2) by (rule id_take_nth_drop)
  have "distinct (map fst (take it es @ es ! it # drop (Suc it) es))" using assms(1) es by simp
  then have "i \<notin> fst ` set (take it es)" and "i \<notin> fst ` set (drop (Suc it) es)"
    using assms(3) by auto
  then have none: "map_of (take it es) i = None" "map_of (drop (Suc it) es) i = None"
    by (auto simp: map_of_eq_None_iff)
  have "map_of es = map_of (take it es @ es ! it # drop (Suc it) es)" using es by simp
  then show ?thesis using none assms(3) by (cases "es ! it") (auto simp: fun_eq_iff map_add_def split: option.splits)
qed

text \<open>What a removal does to the invariant, whichever vector the entry is in.\<close>

lemma im_inv_removed:
  assumes inv: "im_inv m" and e: "im_map m i = Some e"
    and map: "im_map m' = (im_map m)(i := None)"
    and p2i: "im_page_to_ids m' = page_ids_erase (ie_page_id e) i (im_page_to_ids m)"
    and "sorted_wrt (<) (map fst (im_entries m'))" and "distinct (map fst (im_entries m' @ im_buf m'))"
    and "set (im_buf_ids m') = fst ` set (im_buf m')" and "\<not> im_prepared m' \<longrightarrow> im_entries m' = []"
  shows "im_inv m'"
proof -
  note d = im_invD [OF inv]
  have "j \<in> set (page_ids (im_page_to_ids m') pid) \<longleftrightarrow> (\<exists>e'. im_map m' j = Some e' \<and> ie_page_id e' = pid)" for pid j
    unfolding map p2i using d(5) [of j pid] e by auto
  moreover have "distinct (page_ids (im_page_to_ids m') pid)" for pid
    unfolding p2i using d(6) by (simp add: distinct_removeAll)
  ultimately show ?thesis using assms(5-8) by (simp add: im_inv_def)
qed

lemma sorted_wrt_remove_nth:
  "sorted_wrt P xs \<Longrightarrow> sorted_wrt P (take n xs @ drop (Suc n) xs)"
  using sorted_wrt_append [of P "take n xs" "drop n xs"]
  by (auto simp: sorted_wrt_append sorted_wrt_take sorted_wrt_drop dest: in_set_dropD)
     (metis in_set_dropD append_take_drop_id drop_drop plus_1_eq_Suc)

lemma im_remove_absent:
  assumes "im_inv m" and "im_map m i = None"
  shows "im_remove m i = (False, m)"
proof (cases rule: im_locate_cases [OF im_invD(1) [OF assms(1)], of i])
  case (1 it)
  then show ?thesis using assms by (simp add: im_map_lookup)
next
  case 2
  then have "map_of (im_buf m) i = None" using assms by (simp add: im_map_lookup)
  then have "buf_remove (im_buf m) i = None"
    using buf_remove_map [of "im_buf m" i] im_invD(2) [OF assms(1)] by (auto split: option.splits)
  then show ?thesis using 2 by (simp add: im_remove_def)
qed

lemma distinct_keys_subset:
  "set es' \<subseteq> set es \<Longrightarrow> distinct (map fst es') \<Longrightarrow> distinct (map fst (es @ bs)) \<Longrightarrow>
   distinct (map fst (es' @ bs))"
  by auto

lemma im_remove_present:
  assumes "im_inv m" and "im_map m i = Some e"
  shows "fst (im_remove m i)" and "im_map (snd (im_remove m i)) = (im_map m)(i := None)"
    and "im_inv (snd (im_remove m i))"
proof -
  note d = im_invD [OF assms(1)]
  let ?m' = "snd (im_remove m i)"
  have "fst (im_remove m i) \<and> im_map ?m' = (im_map m)(i := None) \<and> im_inv ?m'"
  proof (cases rule: im_locate_cases [OF d(1), of i])
    case (1 it)
    define es where "es = take it (im_entries m) @ drop (Suc it) (im_entries m)"
    have prep: "im_prepared m" using 1(2) d(4) by force
    have e: "snd (im_entries m ! it) = e" using 1 assms by (simp add: im_map_lookup)
    have m': "im_remove m i = (True, m\<lparr>im_page_to_ids := page_ids_erase (ie_page_id e) i (im_page_to_ids m),
        im_entries := es\<rparr>)"
      using 1 prep e by (simp add: im_remove_def es_def)
    have fsti: "fst (im_entries m ! it) = i" using 1(3) by (metis fst_conv)
    have map_es: "map_of es = (map_of (im_entries m))(i := None)"
      unfolding es_def using d(2) by (intro map_of_remove_nth [OF _ 1(2) fsti]) simp
    have "i \<notin> fst ` set (im_buf m)" using d(2) 1(4) map_of_in_keys [of "im_entries m" i] by auto
    then have "map_of (im_buf m) i = None" by (simp add: map_of_eq_None_iff)
    then have map: "im_map ?m' = (im_map m)(i := None)"
      by (subst im_map_of [where E = "(map_of (im_entries m))(i := None)" and B = "map_of (im_buf m)"])
        (use m' map_es in \<open>auto simp: im_map_lookup\<close>)
    have sorted: "sorted_wrt (<) (map fst es)"
      using sorted_wrt_remove_nth [OF d(1)] by (simp add: es_def take_map drop_map)
    have sub: "set es \<subseteq> set (im_entries m)" by (auto simp: es_def dest: in_set_takeD in_set_dropD)
    have "distinct (map fst es)" using sorted by (simp only: strict_sorted_iff)
    from distinct_keys_subset [OF sub this d(2)]
    have dist: "distinct (map fst (es @ im_buf m))" .
    have "im_inv ?m'"
      by (rule im_inv_removed [OF assms map]) (use m' prep sorted dist d(3) in simp_all)
    then show ?thesis using map m' by simp
  next
    case 2
    then have be: "map_of (im_buf m) i = Some e" using assms by (simp add: im_map_lookup)
    then obtain buf' where b: "buf_remove (im_buf m) i = Some (e, buf')"
      "map_of buf' = (map_of (im_buf m))(i := None)" "fst ` set buf' = fst ` set (im_buf m) - {i}"
      "distinct (map fst buf')"
      using buf_remove_map [of "im_buf m" i] d(2) by (auto split: option.splits)
    have m': "im_remove m i = (True, m\<lparr>im_page_to_ids := page_ids_erase (ie_page_id e) i (im_page_to_ids m),
        im_buf_ids := removeAll i (im_buf_ids m), im_buf := buf'\<rparr>)"
      using 2 b(1) by (simp add: im_remove_def)
    have map: "im_map ?m' = (im_map m)(i := None)"
      unfolding m' im_map_def using b(2) 2(2) by (simp add: fun_eq_iff map_add_def split: option.splits)
    have dist: "distinct (map fst (im_entries m @ buf'))"
      using d(2) b(3,4) by (auto simp only: map_append distinct_append set_map)
    have "im_inv ?m'"
      by (rule im_inv_removed [OF assms map]) (use m' d(1,3,4) dist b(3) in auto)
    then show ?thesis using map m' by simp
  qed
  then show "fst (im_remove m i)" and "im_map ?m' = (im_map m)(i := None)" and "im_inv ?m'" by blast+
qed

section \<open>Updates in place\<close>

lemma buf_update_map: "map_of (buf_update f ps i) = (map_of ps)(i := map_option f (map_of ps i))"
  by (induction ps) (auto simp: fun_eq_iff)

lemma buf_update_keys [simp]: "map fst (buf_update f ps i) = map fst ps"
  by (induction ps) auto

lemma buf_update_key_set [simp]: "fst ` set (buf_update f ps i) = fst ` set ps"
  by (metis buf_update_keys set_map)

lemma map_of_list_update:
  assumes "distinct (map fst es)" and "it < length es" and "fst (es ! it) = i"
  shows "map_of (es[it := (i, v)]) = (map_of es)(i \<mapsto> v)"
proof -
  have es: "es = take it es @ es ! it # drop (Suc it) es" using assms(2) by (rule id_take_nth_drop)
  have "distinct (map fst (take it es @ es ! it # drop (Suc it) es))" using assms(1) es by simp
  then have none: "map_of (take it es) i = None" using assms(3) by (auto simp: map_of_eq_None_iff)
  have "map_of es = map_of (take it es @ es ! it # drop (Suc it) es)" using es by simp
  then show ?thesis using none assms(2,3)
    by (cases "es ! it") (auto simp: upd_conv_take_nth_drop fun_eq_iff map_add_def split: option.splits)
qed

lemma im_update_map:
  assumes "im_inv m"
  shows "im_map (im_update f m i) = (im_map m)(i := map_option f (im_map m i))"
    and "map fst (im_entries (im_update f m i)) = map fst (im_entries m)"
    and "map fst (im_buf (im_update f m i)) = map fst (im_buf m)"
proof -
  note d = im_invD [OF assms]
  have "im_map (im_update f m i) = (im_map m)(i := map_option f (im_map m i))
    \<and> map fst (im_entries (im_update f m i)) = map fst (im_entries m)
    \<and> map fst (im_buf (im_update f m i)) = map fst (im_buf m)"
  proof (cases rule: im_locate_cases [OF d(1), of i])
    case (1 it)
    let ?es = "(im_entries m)[it := (i, f (snd (im_entries m ! it)))]"
    have prep: "im_prepared m" using 1(2) d(4) by force
    have fsti: "fst (im_entries m ! it) = i" using 1(3) by (metis fst_conv)
    have m': "im_update f m i = m\<lparr>im_entries := ?es\<rparr>" using 1 prep fsti by (simp add: im_update_def)
    have es: "map_of ?es = (map_of (im_entries m))(i \<mapsto> f (snd (im_entries m ! it)))"
      using d(2) by (intro map_of_list_update [OF _ 1(2) fsti]) simp
    have "i \<notin> fst ` set (im_buf m)" using d(2) 1(4) map_of_in_keys [of "im_entries m" i] by auto
    then have "map_of (im_buf m) i = None" by (simp add: map_of_eq_None_iff)
    then have "im_map (im_update f m i) = (im_map m)(i := map_option f (im_map m i))"
      by (subst im_map_of [where E = "(map_of (im_entries m))(i \<mapsto> f (snd (im_entries m ! it)))" and B = "map_of (im_buf m)"])
        (use m' es 1(4) in \<open>auto simp: im_map_lookup\<close>)
    moreover have "map fst ?es = map fst (im_entries m)"
      using 1(2) fsti by (simp add: map_update list_update_same_conv)
    ultimately show ?thesis using m' by simp
  next
    case 2
    then have m': "im_update f m i = m\<lparr>im_buf := buf_update f (im_buf m) i\<rparr>" by (simp add: im_update_def)
    have "im_map (im_update f m i) = (im_map m)(i := map_option f (im_map m i))"
      unfolding m' im_map_def using 2(2) by (auto simp: buf_update_map fun_eq_iff map_add_def split: option.splits)
    then show ?thesis using m' by simp
  qed
  then show "im_map (im_update f m i) = (im_map m)(i := map_option f (im_map m i))"
    and "map fst (im_entries (im_update f m i)) = map fst (im_entries m)"
    and "map fst (im_buf (im_update f m i)) = map fst (im_buf m)" by blast+
qed

lemma im_update_frame [simp]:
  "im_page_to_ids (im_update f m i) = im_page_to_ids m"
  "im_buf_ids (im_update f m i) = im_buf_ids m"
  "im_prepared (im_update f m i) = im_prepared m"
  by (simp_all add: im_update_def split: option.split)

lemma im_update_inv:
  assumes "im_inv m" and "\<And>e. ie_page_id (f e) = ie_page_id e"
  shows "im_inv (im_update f m i)"
proof -
  note d = im_invD [OF assms(1)] and u = im_update_map [OF assms(1), of f i]
  have "j \<in> set (page_ids (im_page_to_ids m) pid) \<longleftrightarrow>
      (\<exists>e'. im_map (im_update f m i) j = Some e' \<and> ie_page_id e' = pid)" for pid j
    unfolding u(1) using d(5) [of j pid] assms(2) by auto
  moreover have "im_entries (im_update f m i) = [] \<longleftrightarrow> im_entries m = []"
    using u(2) by (metis map_is_Nil_conv)
  moreover have "fst ` set (im_buf (im_update f m i)) = fst ` set (im_buf m)"
    using u(3) by (metis set_map)
  ultimately show ?thesis
    using d by (simp add: im_inv_def u(2,3))
qed

lemma im_prepare_inv:
  assumes "im_inv m"
  shows "im_inv (im_prepare m)" and "im_map (im_prepare m) = im_map m" and "im_buf (im_prepare m) = []"
    and "im_prepared (im_prepare m)"
proof -
  have eq: "im_prepare m = (im_merge m)\<lparr>im_prepared := True \<or> im_prepared m\<rparr>"
    by (simp add: im_prepare_def im_merge_def)
  show "im_inv (im_prepare m)" unfolding eq by (rule im_merge_inv [OF assms]) simp
  have "im_map (im_prepare m) = im_map (im_merge m)" unfolding eq by (simp add: im_map_def)
  then show "im_map (im_prepare m) = im_map m" using im_merge_inv(2) [OF assms, of True] by simp
qed (simp_all add: im_prepare_def im_merge_def)

section \<open>The contract of a primary index\<close>

text \<open>
  What the database relies on: a finite map from row ids to locations whose insertion
  refuses a present key, with removal and in-place updates that keep the page of an entry.
\<close>

locale primary_index =
  fixes inv :: "'s \<Rightarrow> bool"
    and lookup :: "'s \<Rightarrow> 'k \<Rightarrow> 'e option"
    and ins :: "'k \<Rightarrow> 'e \<Rightarrow> ('s, unit) prog"
    and rem :: "'s \<Rightarrow> 'k \<Rightarrow> bool \<times> 's"
    and upd :: "('e \<Rightarrow> 'e) \<Rightarrow> 's \<Rightarrow> 'k \<Rightarrow> 's"
    and keeps :: "('e \<Rightarrow> 'e) \<Rightarrow> bool"
  assumes ins_new: "inv m \<Longrightarrow> lookup m k = None \<Longrightarrow>
      fst (ins k e m) = Inr () \<and> inv (snd (ins k e m)) \<and> lookup (snd (ins k e m)) = (lookup m)(k \<mapsto> e)"
    and ins_present: "inv m \<Longrightarrow> lookup m k \<noteq> None \<Longrightarrow>
      fst (ins k e m) = Inl DuplicateKeyError \<and> inv (snd (ins k e m)) \<and> lookup (snd (ins k e m)) = lookup m"
    and rem_law: "inv m \<Longrightarrow>
      fst (rem m k) = (lookup m k \<noteq> None) \<and> inv (snd (rem m k)) \<and> lookup (snd (rem m k)) = (lookup m)(k := None)"
    and upd_law: "inv m \<Longrightarrow> keeps f \<Longrightarrow>
      inv (upd f m k) \<and> lookup (upd f m k) = (lookup m)(k := map_option f (lookup m k))"
begin

text \<open>Loading a sequence of entries keeps the first entry of every key.\<close>

lemma load_first_wins:
  "inv m \<Longrightarrow>
   inv (fold (\<lambda>(k, e) m. snd (ins k e m)) kes m) \<and>
   lookup (fold (\<lambda>(k, e) m. snd (ins k e m)) kes m) =
     (\<lambda>k. case lookup m k of Some e \<Rightarrow> Some e | None \<Rightarrow> map_of kes k)"
proof (induction kes arbitrary: m)
  case Nil
  then show ?case by (auto simp: fun_eq_iff split: option.splits)
next
  case (Cons p kes)
  obtain k e where p: "p = (k, e)" by (cases p)
  show ?case
  proof (cases "lookup m k")
    case None
    then show ?thesis
      using Cons.IH [of "snd (ins k e m)"] ins_new [OF Cons.prems None, of e] p
      by (auto simp: fun_eq_iff split: option.splits)
  next
    case (Some e')
    then have "lookup m k \<noteq> None" by simp
    then show ?thesis
      using Cons.IH [of "snd (ins k e m)"] ins_present [OF Cons.prems, of k e] p Some
      by (auto simp: fun_eq_iff split: option.splits)
  qed
qed

lemma upd_all:
  "inv m \<Longrightarrow> keeps f \<Longrightarrow> distinct ks \<Longrightarrow>
   inv (fold (\<lambda>k m. upd f m k) ks m) \<and>
   lookup (fold (\<lambda>k m. upd f m k) ks m) = (\<lambda>k. if k \<in> set ks then map_option f (lookup m k) else lookup m k)"
proof (induction ks arbitrary: m)
  case Nil
  then show ?case by simp
next
  case (Cons k ks)
  have u: "inv (upd f m k)" "lookup (upd f m k) = (lookup m)(k := map_option f (lookup m k))"
    using upd_law [OF Cons.prems(1,2)] by auto
  show ?case using Cons.IH [OF u(1) Cons.prems(2)] Cons.prems(3) by (auto simp: u(2) fun_eq_iff)
qed

end

interpretation pix: primary_index im_inv im_find im_insert im_remove im_update
  "\<lambda>f. \<forall>e. ie_page_id (f e) = ie_page_id e"
proof (unfold_locales, goal_cases)
  case (1 m k e)
  then show ?case
    using im_insert_new [of m k e] by (simp add: im_find_fun)
next
  case (2 m k e)
  then show ?case
    using im_insert_duplicate [of m k e] im_settled_inv [of m] by (simp add: im_find_fun)
next
  case (3 m k)
  then show ?case
    using im_remove_absent [of m k] im_remove_present [of m k]
    by (cases "im_map m k") (auto simp: im_find_map fun_eq_iff)
next
  case (4 m f k)
  then show ?case
    using im_update_map(1) [of m f k] im_update_inv [of m f k] by (auto simp: im_find_fun fun_eq_iff)
qed

section \<open>Traces of operations refine a finite map\<close>

datatype index_op =
    OpInsert u32 IndexEntry
  | OpRemove u32
  | OpUpdateOffset u32 u64
  | OpUpdateSlot u32 u32
  | OpUpdatePage u32 u64
  | OpPrepare

text \<open>One call on the index; the observation is whether it succeeded.\<close>

fun im_step :: "index_op \<Rightarrow> IndexManager \<Rightarrow> bool \<times> IndexManager" where
  "im_step (OpInsert i e) m = (case im_insert i e m of (Inr _, m') \<Rightarrow> (True, m') | (Inl _, m') \<Rightarrow> (False, m'))"
| "im_step (OpRemove i) m = im_remove m i"
| "im_step (OpUpdateOffset i off) m = (True, update_offset off i m)"
| "im_step (OpUpdateSlot i slot) m = (True, update_slot slot i m)"
| "im_step (OpUpdatePage pid off) m = (True, update_offsets_for_page pid off m)"
| "im_step OpPrepare m = (True, im_prepare m)"

fun im_run :: "index_op list \<Rightarrow> IndexManager \<Rightarrow> bool list \<times> IndexManager" where
  "im_run [] m = ([], m)"
| "im_run (oper # ops) m =
     (let (ok, m1) = im_step oper m; (oks, m2) = im_run ops m1 in (ok # oks, m2))"

text \<open>The same calls on a mathematical map.\<close>

fun map_step :: "index_op \<Rightarrow> (u32 \<rightharpoonup> IndexEntry) \<Rightarrow> bool \<times> (u32 \<rightharpoonup> IndexEntry)" where
  "map_step (OpInsert i e) f = (if f i = None then (True, f(i \<mapsto> e)) else (False, f))"
| "map_step (OpRemove i) f = (f i \<noteq> None, f(i := None))"
| "map_step (OpUpdateOffset i off) f = (True, f(i := map_option (\<lambda>e. e\<lparr>ie_page_offset := off\<rparr>) (f i)))"
| "map_step (OpUpdateSlot i slot) f = (True, f(i := map_option (\<lambda>e. e\<lparr>ie_row_slot := slot\<rparr>) (f i)))"
| "map_step (OpUpdatePage pid off) f =
     (True, \<lambda>i. map_option (\<lambda>e. if ie_page_id e = pid then e\<lparr>ie_page_offset := off\<rparr> else e) (f i))"
| "map_step OpPrepare f = (True, f)"

fun map_run :: "index_op list \<Rightarrow> (u32 \<rightharpoonup> IndexEntry) \<Rightarrow> bool list \<times> (u32 \<rightharpoonup> IndexEntry)" where
  "map_run [] f = ([], f)"
| "map_run (oper # ops) f =
     (let (ok, f1) = map_step oper f; (oks, f2) = map_run ops f1 in (ok # oks, f2))"

lemma update_offsets_for_page_fold:
  "update_offsets_for_page pid off m =
     fold (\<lambda>i m. im_update (\<lambda>e. e\<lparr>ie_page_offset := off\<rparr>) m i) (page_ids (im_page_to_ids m) pid) m"
proof -
  have "update_offset off = (\<lambda>i m. im_update (\<lambda>e. e\<lparr>ie_page_offset := off\<rparr>) m i)"
    by (simp add: update_offset_def fun_eq_iff)
  then show ?thesis by (simp add: update_offsets_for_page_def page_ids_def split: option.split)
qed

lemma im_update_page:
  assumes "im_inv m"
  shows "im_inv (update_offsets_for_page pid off m)"
    and "im_find (update_offsets_for_page pid off m) = snd (map_step (OpUpdatePage pid off) (im_find m))"
proof -
  have "\<forall>e. ie_page_id (e\<lparr>ie_page_offset := off\<rparr>) = ie_page_id e" by simp
  note u = pix.upd_all [OF assms this im_invD(6) [OF assms], of pid]
  show "im_inv (update_offsets_for_page pid off m)" using u by (simp add: update_offsets_for_page_fold)
  have "(if i \<in> set (page_ids (im_page_to_ids m) pid)
         then map_option (\<lambda>e. e\<lparr>ie_page_offset := off\<rparr>) (im_find m i) else im_find m i)
      = snd (map_step (OpUpdatePage pid off) (im_find m)) i" for i
    using im_invD(5) [OF assms, of i pid] by (cases "im_map m i") (auto simp: im_find_fun [OF assms])
  then show "im_find (update_offsets_for_page pid off m) = snd (map_step (OpUpdatePage pid off) (im_find m))"
    using u by (simp add: update_offsets_for_page_fold fun_eq_iff)
qed

lemma im_step_refines:
  assumes "im_inv m"
  shows "im_inv (snd (im_step oper m))"
    and "fst (im_step oper m) = fst (map_step oper (im_find m))"
    and "im_find (snd (im_step oper m)) = snd (map_step oper (im_find m))"
proof -
  have "im_inv (snd (im_step oper m)) \<and> fst (im_step oper m) = fst (map_step oper (im_find m))
    \<and> im_find (snd (im_step oper m)) = snd (map_step oper (im_find m))"
  proof (cases oper)
    case (OpInsert i e)
    then show ?thesis
      using pix.ins_new [OF assms, of i e] pix.ins_present [OF assms, of i e]
      by (cases "im_find m i"; cases "im_insert i e m") auto
  next
    case (OpRemove i)
    then show ?thesis using pix.rem_law [OF assms, of i] by simp
  next
    case (OpUpdateOffset i off)
    then show ?thesis
      using pix.upd_law [OF assms, of "\<lambda>e. e\<lparr>ie_page_offset := off\<rparr>" i] by (simp add: update_offset_def)
  next
    case (OpUpdateSlot i slot)
    then show ?thesis
      using pix.upd_law [OF assms, of "\<lambda>e. e\<lparr>ie_row_slot := slot\<rparr>" i] by (simp add: update_slot_def)
  next
    case (OpUpdatePage pid off)
    then show ?thesis using im_update_page [OF assms, of pid off] by simp
  next
    case OpPrepare
    then show ?thesis using im_prepare_inv [OF assms] assms by (simp add: im_find_fun)
  qed
  then show "im_inv (snd (im_step oper m))" and "fst (im_step oper m) = fst (map_step oper (im_find m))"
    and "im_find (snd (im_step oper m)) = snd (map_step oper (im_find m))" by blast+
qed

lemma im_run_refines:
  "im_inv m \<Longrightarrow> im_inv (snd (im_run ops m)) \<and> fst (im_run ops m) = fst (map_run ops (im_find m))
     \<and> im_find (snd (im_run ops m)) = snd (map_run ops (im_find m))"
proof (induction ops arbitrary: m)
  case Nil
  then show ?case by simp
next
  case (Cons oper ops)
  show ?case
    using Cons.IH [OF im_step_refines(1) [OF Cons.prems]] im_step_refines(2,3) [OF Cons.prems, of oper]
    by (simp add: Let_def split_beta)
qed

lemma im_size_card:
  assumes "im_inv m" shows "im_size m = card (dom (im_find m))"
proof -
  have "dom (im_map m) = set (map fst (im_entries m @ im_buf m))"
    by (simp only: im_map_def dom_map_of_conv_image_fst set_map)
  then have "card (dom (im_map m)) = length (map fst (im_entries m @ im_buf m))"
    using distinct_card [OF im_invD(2) [OF assms]] by (simp only:)
  then show ?thesis using assms by (simp add: im_size_def im_find_fun)
qed

lemma im_find_init: "im_find index_manager = Map.empty"
  by (simp add: im_find_fun im_inv_init)

section \<open>Properties\<close>

text \<open>
  C14: Any sequence of calls on a fresh primary index (insert, remove, the three updates, and
  \<open>prepare\<close>, with the periodic merges of the write buffer in between) answers like the same
  sequence on a mathematical map: the same inserts and removals succeed, and afterwards \<open>find\<close>
  is the map's lookup. In particular a duplicate insert is refused, and changes nothing.
\<close>

theorem index_refines_map:
  "fst (im_run ops index_manager) = fst (map_run ops Map.empty)
   \<and> im_find (snd (im_run ops index_manager)) = snd (map_run ops Map.empty)"
  using im_run_refines [OF im_inv_init(1), of ops] by (simp add: im_find_init)

text \<open>
  C15: After any sequence of calls the reverse mapping is exact: \<open>ids_for_page\<close> lists, once
  each, precisely the ids whose entry is on that page, and \<open>size\<close> counts the indexed ids.
\<close>

theorem reverse_mapping_exact:
  "(let m = snd (im_run ops index_manager); l = (case ids_for_page m pid of Some l \<Rightarrow> l | None \<Rightarrow> [])
    in set l = {i. \<exists>e. im_find m i = Some e \<and> ie_page_id e = pid}
       \<and> distinct l \<and> im_size m = card (dom (im_find m)))"
proof -
  have inv: "im_inv (snd (im_run ops index_manager))"
    using im_run_refines [OF im_inv_init(1), of ops] by simp
  have "(case ids_for_page m pid of Some l \<Rightarrow> l | None \<Rightarrow> []) = page_ids (im_page_to_ids m) pid" for m
    by (simp add: ids_for_page_def page_ids_def)
  then show ?thesis
    using im_invD(5,6) [OF inv] im_size_card [OF inv] by (auto simp: Let_def im_find_fun [OF inv])
qed

end
