(* ===== verification/Compression.thy ===== *)
theory Compression
  imports Serialise Xdl_Types
begin

text \<open>
  \<open>src/compression.cpp\<close>: the bundled LZ4 block compressor and decompressor (the build
  without a system \<open>lz4.h\<close>) and \<open>CompressionEngine\<close>. Pointers into the source are
  positions, the destination is the list of bytes written so far, and a null pointer of
  the hash table is \<open>None\<close>. The functions return \<open>None\<close> where the C functions return
  their failure code, and \<open>UndefinedBehaviour\<close> for a read outside the source, a write past
  the destination capacity, a modulo by zero and an overlapping \<open>memcpy\<close>. The host is
  little-endian.
\<close>

section \<open>LZ4 helpers\<close>

definition MINMATCH :: nat where "MINMATCH = 4"
definition HASHLOG :: nat where "HASHLOG = 12"
definition LASTLITERALS :: nat where "LASTLITERALS = 5"
definition MFLIMIT :: nat where "MFLIMIT = MINMATCH + LASTLITERALS"

definition LZ4_hash4 :: "u32 \<Rightarrow> u32" where
  "LZ4_hash4 v = drop_bit (32 - HASHLOG) (v * 2654435761)"

definition LZ4_read32 :: "bytes \<Rightarrow> nat \<Rightarrow> u32 result" where
  "LZ4_read32 src p = read_u32 (ptr_at src p)"

definition LZ4_write16 :: "u16 \<Rightarrow> bytes" where
  "LZ4_write16 v = write_u16 v"

definition LZ4_read16 :: "bytes \<Rightarrow> u16 result" where
  "LZ4_read16 p = read_u16 p"

definition LZ4_compressBound :: "nat \<Rightarrow> nat" where
  "LZ4_compressBound isize = isize + isize div 255 + 16"

section \<open>Compressor\<close>

text \<open>
  The search loop: \<open>None\<close> is the jump to \<open>_last_literals\<close>, otherwise the position of the
  match's copy, the match, and the hash table.
\<close>

function lz4_search ::
    "bytes \<Rightarrow> nat \<Rightarrow> (u32 \<rightharpoonup> nat) \<Rightarrow> nat \<Rightarrow> nat \<Rightarrow> nat \<Rightarrow> (nat \<times> nat \<times> (u32 \<rightharpoonup> nat)) option result" where
  "lz4_search src mflimit htable forwardip step searchMatchNb =
     bindR (LZ4_read32 src forwardip) (\<lambda>v.
       let h = LZ4_hash4 v;
           match = htable h;
           htable' = htable(h \<mapsto> forwardip);
           ip = forwardip;
           forwardip' = forwardip + step;
           step' = searchMatchNb div 64 + 1
       in if mflimit < forwardip' then Inr None
          else case match of
              None \<Rightarrow> lz4_search src mflimit htable' forwardip' step' (searchMatchNb + 1)
            | Some mt \<Rightarrow>
                if mt + 65535 < ip
                then lz4_search src mflimit htable' forwardip' step' (searchMatchNb + 1)
                else bindR (LZ4_read32 src mt) (\<lambda>vm.
                     bindR (LZ4_read32 src ip) (\<lambda>vi.
                       if vm \<noteq> vi
                       then lz4_search src mflimit htable' forwardip' step' (searchMatchNb + 1)
                       else Inr (Some (ip, mt, htable')))))"
  by pat_completeness auto
termination
  by (relation "measure (\<lambda>(src, mflimit, ht, fip, step, nb). 2 * (Suc mflimit - fip) + (if step = 0 then 1 else 0))") auto

declare lz4_search.simps [simp del]

fun lz4_catch_up :: "bytes \<Rightarrow> nat \<Rightarrow> nat \<Rightarrow> nat \<Rightarrow> (nat \<times> nat) result" where
  "lz4_catch_up src anchor ip mt =
     (if anchor < ip \<and> 0 < mt
      then bindR (vec_index src (ip - 1)) (\<lambda>a.
           bindR (vec_index src (mt - 1)) (\<lambda>b.
             if a = b then lz4_catch_up src anchor (ip - 1) (mt - 1) else Inr (ip, mt)))
      else Inr (ip, mt))"

declare lz4_catch_up.simps [simp del]

text \<open>The match length beyond \<open>MINMATCH\<close>: the end of the match and the count \<open>ml\<close>.\<close>

function lz4_extend :: "bytes \<Rightarrow> nat \<Rightarrow> nat \<Rightarrow> nat \<Rightarrow> (nat \<times> nat) result" where
  "lz4_extend src mp ipe ml =
     (if ipe + LASTLITERALS < length src
      then bindR (vec_index src mp) (\<lambda>a.
           bindR (vec_index src ipe) (\<lambda>b.
             if a = b then lz4_extend src (Suc mp) (Suc ipe) (Suc ml) else Inr (ipe, ml)))
      else Inr (ipe, ml))"
  by pat_completeness auto
termination
  by (relation "measure (\<lambda>(src, mp, ipe, ml). length src - ipe)") auto

declare lz4_extend.simps [simp del]

text \<open>\<open>while (n >= 255) { *op++ = 255; n -= 255; } *op++ = (uint8_t)n;\<close>\<close>

fun lz4_len_ext :: "nat \<Rightarrow> bytes" where
  "lz4_len_ext n = (if 255 \<le> n then 255 # lz4_len_ext (n - 255) else [word_of_nat n])"

declare lz4_len_ext.simps [simp del]

definition lz4_nibble :: "nat \<Rightarrow> byte" where
  "lz4_nibble n = (if 15 \<le> n then 15 else word_of_nat n)"

definition lz4_ext :: "nat \<Rightarrow> bytes" where
  "lz4_ext n = (if 15 \<le> n then lz4_len_ext (n - 15) else [])"

text \<open>The bytes of one sequence, in the order of the output.\<close>

definition lz4_sequence :: "bytes \<Rightarrow> nat \<Rightarrow> nat \<Rightarrow> bytes" where
  "lz4_sequence literals offset ml =
     [push_bit 4 (lz4_nibble (length literals)) OR lz4_nibble ml]
     @ lz4_ext (length literals) @ literals
     @ LZ4_write16 (word_of_nat offset) @ lz4_ext ml"

definition lz4_last_literals :: "bytes \<Rightarrow> nat \<Rightarrow> nat \<Rightarrow> bytes \<Rightarrow> bytes option result" where
  "lz4_last_literals src dstCapacity anchor out =
     (let ll = length src - anchor
      in if length out + ll + 1 + ll div 256 + 4 > dstCapacity then Inr None
         else let out' = out @ [push_bit 4 (lz4_nibble ll)] @ lz4_ext ll @ drop anchor src
              in if length out' > dstCapacity then Inl UndefinedBehaviour else Inr (Some out'))"

lemma lz4_search_ge:
  "lz4_search src mflimit ht fip step nb = Inr (Some (ip, mt, ht')) \<Longrightarrow> fip \<le> ip"
proof (induction src mflimit ht fip step nb rule: lz4_search.induct)
  case (1 src mflimit ht fip step nb)
  show ?case
    using "1.prems" "1.IH"
    by (subst (asm) lz4_search.simps)
       (fastforce simp: bindR_eq_Inr Let_def split: if_splits option.splits)
qed

lemma lz4_catch_up_ge:
  "lz4_catch_up src anchor ip mt = Inr (ip', mt') \<Longrightarrow> anchor \<le> ip \<Longrightarrow> anchor \<le> ip'"
proof (induction src anchor ip mt rule: lz4_catch_up.induct)
  case (1 src anchor ip mt)
  show ?case
    using "1.prems" "1.IH"
    by (subst (asm) lz4_catch_up.simps) (fastforce simp: bindR_eq_Inr split: if_splits)
qed

lemma lz4_extend_ge: "lz4_extend src mp ipe ml = Inr (ipe', ml') \<Longrightarrow> ipe \<le> ipe'"
proof (induction src mp ipe ml rule: lz4_extend.induct)
  case (1 src mp ipe ml)
  show ?case
    using "1.prems" "1.IH"
    by (subst (asm) lz4_extend.simps) (fastforce simp: bindR_eq_Inr split: if_splits)
qed

text \<open>
  The main loop. At its head \<open>ip\<close> is always \<open>anchor + 1\<close>: before the first round, and after
  a match, where \<open>anchor = ip\<close> is followed by \<open>ip++\<close>.
\<close>

function lz4_loop :: "bytes \<Rightarrow> nat \<Rightarrow> (u32 \<rightharpoonup> nat) \<Rightarrow> nat \<Rightarrow> bytes \<Rightarrow> bytes option result" where
  "lz4_loop src dstCapacity htable anchor out =
     bindR (lz4_search src (length src - MFLIMIT) htable (anchor + 1) 1 1) (\<lambda>found.
       case found of
         None \<Rightarrow> lz4_last_literals src dstCapacity anchor out
       | Some (ip0, mt0, htable1) \<Rightarrow>
           bindR (lz4_catch_up src anchor ip0 mt0) (\<lambda>(ip, mt).
             let literal_len = ip - anchor
             in if length out + 1 + literal_len + (2 + 1 + LASTLITERALS) + literal_len div 256 > dstCapacity
                then Inr None
                else bindR (lz4_extend src (mt + MINMATCH) (ip + MINMATCH) 0) (\<lambda>(ipe, ml).
                  let out' = out @ lz4_sequence (take literal_len (drop anchor src)) (ip - mt) ml
                  in if length out' > dstCapacity then Inl UndefinedBehaviour
                     else if length src - MFLIMIT < ipe then lz4_last_literals src dstCapacity ipe out'
                     else bindR (LZ4_read32 src (ipe - 2)) (\<lambda>v.
                       lz4_loop src dstCapacity (htable1(LZ4_hash4 v \<mapsto> ipe - 2)) ipe out'))))"
  by pat_completeness auto
termination
proof (relation "measure (\<lambda>(src, cap, ht, anchor, out). length src - anchor)", goal_cases)
  case 1
  show ?case by simp
next
  case (2 src cap ht anchor out found p ip0 q mt0 ht1 r ip mt literal_len s ipe ml out' v)
  then have "anchor + 1 \<le> ip0" using lz4_search_ge by auto
  then have "anchor \<le> ip" using 2 lz4_catch_up_ge by auto
  moreover have "ip + MINMATCH \<le> ipe" using 2 lz4_extend_ge by auto
  moreover have "ipe \<le> length src - MFLIMIT" using 2 by auto
  ultimately show ?case by (simp add: MINMATCH_def MFLIMIT_def LASTLITERALS_def)
qed

declare lz4_loop.simps [simp del]

definition LZ4_compress_default :: "bytes \<Rightarrow> nat \<Rightarrow> bytes option result" where
  "LZ4_compress_default src dstCapacity =
     (if length src < MFLIMIT then lz4_last_literals src dstCapacity 0 []
      else lz4_loop src dstCapacity Map.empty 0 [])"

section \<open>Decompressor\<close>

text \<open>\<open>do { s = *ip++; n += s; } while (s == 255 && ip < iend)\<close> on the bytes from \<open>ip\<close> to \<open>iend\<close>.\<close>

fun lz4_read_ext :: "bytes \<Rightarrow> nat \<Rightarrow> (nat \<times> bytes) result" where
  "lz4_read_ext [] n = Inl UndefinedBehaviour"
| "lz4_read_ext (s # ip) n =
     (if s = 255 \<and> ip \<noteq> [] then lz4_read_ext ip (n + unat s) else Inr (n + unat s, ip))"

definition lz4_read_len :: "nat \<Rightarrow> nat \<Rightarrow> bytes \<Rightarrow> (nat \<times> bytes) result" where
  "lz4_read_len mx n ip = (if n = mx then lz4_read_ext ip n else Inr (n, ip))"

text \<open>The match copy: the \<open>match[i % offset]\<close> loop or one \<open>memcpy\<close>.\<close>

definition lz4_copy_match :: "bytes \<Rightarrow> u16 \<Rightarrow> nat \<Rightarrow> bytes result" where
  "lz4_copy_match out offset ml =
     (let mt = length out - unat offset
      in if offset < word_of_nat ml
         then if offset = 0 then Inl UndefinedBehaviour
              else Inr (out @ map (\<lambda>i. out ! (mt + i mod unat offset)) [0..<ml])
         else if unat offset < ml then Inl UndefinedBehaviour
              else Inr (out @ take ml (drop mt out)))"

lemma lz4_read_ext_le: "lz4_read_ext ip n = Inr (n', ip') \<Longrightarrow> length ip' < length ip"
  by (induction ip n rule: lz4_read_ext.induct) (auto split: if_splits)

lemma lz4_read_len_le: "lz4_read_len mx n ip = Inr (n', ip') \<Longrightarrow> length ip' \<le> length ip"
  by (auto simp: lz4_read_len_def less_imp_le dest: lz4_read_ext_le split: if_splits)

function lz4_dec :: "nat \<Rightarrow> bytes \<Rightarrow> bytes \<Rightarrow> bytes option result" where
  "lz4_dec dstCapacity [] out = Inl UndefinedBehaviour"
| "lz4_dec dstCapacity (token # ip) out =
     bindR (lz4_read_len 15 (unat (drop_bit 4 token)) ip) (\<lambda>(ll, ip).
       if length out + ll > dstCapacity \<or> ll > length ip then Inr None
       else let out = out @ take ll ip; ip = drop ll ip
            in if ip = [] then Inr (Some out)
               else bindR (LZ4_read16 ip) (\<lambda>offset.
                 let ip = drop 2 ip
                 in if length out < unat offset then Inr None
                    else bindR (lz4_read_len (MINMATCH + 15) (unat (token AND 15) + MINMATCH) ip) (\<lambda>(ml, ip).
                      if length out + ml > dstCapacity then Inr None
                      else bindR (lz4_copy_match out offset ml) (\<lambda>out. lz4_dec dstCapacity ip out))))"
  by pat_completeness auto
termination
proof (relation "measure (\<lambda>(cap, ip, out). length ip)", goal_cases)
  case 1
  show ?case by simp
next
  case (2 cap token ip out r ll ip1 out1 ip2 offset ip3 s ml ip4 out2)
  then show ?case by (auto dest!: lz4_read_len_le)
qed

declare lz4_dec.simps [simp del]

definition LZ4_decompress_safe :: "bytes \<Rightarrow> nat \<Rightarrow> bytes option result" where
  "LZ4_decompress_safe src dstCapacity = lz4_dec dstCapacity src []"

section \<open>\<open>CompressionEngine\<close>\<close>

definition max_compressed_size :: "CompressionType \<Rightarrow> nat \<Rightarrow> nat" where
  "max_compressed_size t src_size =
     (case t of CNone \<Rightarrow> src_size | CLZ4 \<Rightarrow> LZ4_compressBound src_size | COther _ \<Rightarrow> src_size)"

text \<open>
  The conversions of the sizes to \<open>int\<close> and the sum in \<open>LZ4_compressBound\<close> overflow for a source of
  almost 2 GiB. The scratch buffer only lends its storage: its first \<open>result\<close> bytes are copied out.
\<close>

definition INT_MAX :: nat where "INT_MAX = 2147483647"

definition compress :: "CompressionType \<Rightarrow> bytes \<Rightarrow> bytes result" where
  "compress t src =
     (if t = CNone then Inr src
      else let bound = max_compressed_size t (length src)
           in if bound > INT_MAX then Inl UndefinedBehaviour
              else bindR (LZ4_compress_default src bound) (\<lambda>r.
                case r of None \<Rightarrow> Inl CompressionError
                        | Some dst \<Rightarrow> if dst = [] then Inl CompressionError else Inr dst))"

definition decompress :: "CompressionType \<Rightarrow> bytes \<Rightarrow> nat \<Rightarrow> bytes result" where
  "decompress t src expected_size =
     (if t = CNone
      then if length src \<noteq> expected_size then Inl CompressionError else Inr src
      else bindR (LZ4_decompress_safe src expected_size) (\<lambda>r.
             case r of None \<Rightarrow> Inl CompressionError
                     | Some out \<Rightarrow> if length out \<noteq> expected_size then Inl CompressionError else Inr out))"

definition compression_name :: "CompressionType \<Rightarrow> string" where
  "compression_name t = (case t of CNone \<Rightarrow> ''none'' | CLZ4 \<Rightarrow> ''lz4'' | COther _ \<Rightarrow> ''unknown'')"

section \<open>Length codes\<close>

lemma lz4_len_ext_nonempty: "lz4_len_ext n \<noteq> []"
  by (subst lz4_len_ext.simps) simp

lemma lz4_read_len_ext: "lz4_read_ext (lz4_len_ext n @ rest) acc = Inr (acc + n, rest)"
proof (induction n arbitrary: acc rule: lz4_len_ext.induct)
  case (1 n)
  show ?case
  proof (cases "255 \<le> n")
    case True
    then have eq: "lz4_len_ext n = 255 # lz4_len_ext (n - 255)" by (subst lz4_len_ext.simps) simp
    show ?thesis using "1.IH" [OF True] True by (simp add: eq lz4_len_ext_nonempty)
  next
    case False
    then have eq: "lz4_len_ext n = [word_of_nat n]" by (subst lz4_len_ext.simps) simp
    have "(word_of_nat n :: byte) \<noteq> 255"
    proof
      assume "(word_of_nat n :: byte) = 255"
      then have "unat (word_of_nat n :: byte) = unat (255 :: byte)" by simp
      then show False using False by (simp add: unat_of_nat)
    qed
    then show ?thesis using False by (simp add: eq unat_of_nat)
  qed
qed

lemma length_lz4_len_ext: "length (lz4_len_ext n) = n div 255 + 1"
proof (induction n rule: lz4_len_ext.induct)
  case (1 n)
  show ?case
  proof (cases "255 \<le> n")
    case True
    then have eq: "lz4_len_ext n = 255 # lz4_len_ext (n - 255)" by (subst lz4_len_ext.simps) simp
    have "n div 255 = (n - 255) div 255 + 1" using True by (simp add: le_div_geq)
    then show ?thesis using "1.IH" [OF True] by (simp add: eq)
  next
    case False
    then have eq: "lz4_len_ext n = [word_of_nat n]" by (subst lz4_len_ext.simps) simp
    then show ?thesis using False by simp
  qed
qed

lemma unat_lz4_nibble: "unat (lz4_nibble n) = min n 15"
  by (simp add: lz4_nibble_def unat_of_nat)

lemma lz4_token_table:
  "\<forall>i \<in> set [0..<16]. \<forall>j \<in> set [0..<16].
     unat (drop_bit 4 (push_bit 4 (word_of_nat i) OR word_of_nat j :: byte)) = i
     \<and> unat ((push_bit 4 (word_of_nat i) OR word_of_nat j :: byte) AND 15) = j"
  by code_simp

lemma lz4_token_split:
  "unat (drop_bit 4 (push_bit 4 (lz4_nibble m) OR lz4_nibble n)) = min m 15"
  "unat ((push_bit 4 (lz4_nibble m) OR lz4_nibble n) AND 15) = min n 15"
proof -
  have nib: "lz4_nibble k = word_of_nat (min k 15)" for k by (simp add: lz4_nibble_def min_def)
  have "min m 15 \<in> set [0..<16]" and "min n 15 \<in> set [0..<16]" by auto
  from lz4_token_table [rule_format, OF this]
  show "unat (drop_bit 4 (push_bit 4 (lz4_nibble m) OR lz4_nibble n)) = min m 15"
    and "unat ((push_bit 4 (lz4_nibble m) OR lz4_nibble n) AND 15) = min n 15" by (simp_all only: nib)
qed

lemma lz4_read_literal_len: "lz4_read_len 15 (min n 15) (lz4_ext n @ rest) = Inr (n, rest)"
  by (simp add: lz4_read_len_def lz4_ext_def lz4_read_len_ext min_def)

lemma lz4_read_match_len:
  "lz4_read_len (MINMATCH + 15) (min n 15 + MINMATCH) (lz4_ext n @ rest) = Inr (n + MINMATCH, rest)"
  by (simp add: lz4_read_len_def lz4_ext_def lz4_read_len_ext min_def MINMATCH_def)

section \<open>Decoding one sequence\<close>

text \<open>The bytes a match of a given offset stands for.\<close>

definition match_bytes :: "bytes \<Rightarrow> nat \<Rightarrow> nat \<Rightarrow> bytes" where
  "match_bytes out offset ml = map (\<lambda>i. out ! (length out - offset + i mod offset)) [0..<ml]"

lemma lz4_copy_match_bytes:
  assumes "0 < offset" and "offset < 65536" and "ml < 65536" and "offset \<le> length out"
  shows "lz4_copy_match out (word_of_nat offset) ml = Inr (out @ match_bytes out offset ml)"
proof (cases "offset < ml")
  case True
  then have "(word_of_nat offset :: u16) < word_of_nat ml" and "(word_of_nat offset :: u16) \<noteq> 0"
    using assms by (simp_all add: word_less_nat_alt unat_of_nat flip: unat_eq_0)
  then show ?thesis using assms by (simp add: lz4_copy_match_def match_bytes_def)
next
  case False
  then have "\<not> (word_of_nat offset :: u16) < word_of_nat ml"
    using assms by (simp add: word_less_nat_alt unat_of_nat)
  moreover have "take ml (drop (length out - offset) out) = match_bytes out offset ml"
    using False assms by (intro nth_equalityI) (auto simp: match_bytes_def)
  ultimately show ?thesis using False assms by (simp add: lz4_copy_match_def)
qed

lemma lz4_dec_sequence:
  assumes "rest \<noteq> []" and "0 < offset" and "offset < 65536" and "ml + MINMATCH < 65536"
    and "offset \<le> length (out @ lits)" and "length (out @ lits) + (ml + MINMATCH) \<le> cap"
  shows "lz4_dec cap (lz4_sequence lits offset ml @ rest) out =
    lz4_dec cap rest ((out @ lits) @ match_bytes (out @ lits) offset (ml + MINMATCH))"
proof -
  define token where "token = push_bit 4 (lz4_nibble (length lits)) OR lz4_nibble ml"
  define tail where "tail = LZ4_write16 (word_of_nat offset) @ lz4_ext ml @ rest"
  have tok: "unat (drop_bit 4 token) = min (length lits) 15" "unat (token AND 15) = min ml 15"
    unfolding token_def by (rule lz4_token_split)+
  have "length (LZ4_write16 (word_of_nat offset)) = 2"
    by (simp add: LZ4_write16_def codec_length)
  then have tail: "drop 2 tail = lz4_ext ml @ rest" "tail \<noteq> []" by (auto simp: tail_def)
  have read: "LZ4_read16 tail = Inr (word_of_nat offset)"
    by (simp add: tail_def LZ4_read16_def LZ4_write16_def codec_simps)
  have "lz4_sequence lits offset ml @ rest = token # lz4_ext (length lits) @ lits @ tail"
    by (simp add: lz4_sequence_def token_def tail_def)
  then show ?thesis
    using assms tail read tok
    by (simp add: lz4_dec.simps(2) lz4_read_literal_len lz4_read_match_len lz4_copy_match_bytes Let_def)
qed

lemma lz4_dec_last:
  assumes "length (out @ lits) \<le> cap"
  shows "lz4_dec cap ([push_bit 4 (lz4_nibble (length lits))] @ lz4_ext (length lits) @ lits) out = Inr (Some (out @ lits))"
proof -
  define token where "token = push_bit 4 (lz4_nibble (length lits))"
  have "unat (drop_bit 4 token) = min (length lits) 15"
    using lz4_token_split(1) [of "length lits" 0] by (simp add: lz4_nibble_def token_def)
  then show ?thesis
    unfolding token_def [symmetric] using assms lz4_read_literal_len [of "length lits" lits]
    by (simp add: lz4_dec.simps(2) Let_def)
qed

section \<open>The parts of the compressor\<close>

lemma LZ4_read32_in_bounds:
  assumes "p + 4 \<le> length src"
  obtains v where "LZ4_read32 src p = Inr v" and "write_u32 v = take 4 (drop p src)"
proof -
  have "4 \<le> length (drop p src)" using assms by simp
  then obtain v where v: "read_u32 (drop p src) = Inr v" using read_u32_total by blast
  then have "take 4 (drop p src) = take 4 (write_u32 v @ drop 4 (drop p src))"
    using write_read_u32 by metis
  then have "write_u32 v = take 4 (drop p src)" by simp
  then show thesis using that v by (simp add: LZ4_read32_def ptr_at_def)
qed

text \<open>Equal bytes at two positions of the source.\<close>

definition same_run :: "bytes \<Rightarrow> nat \<Rightarrow> nat \<Rightarrow> nat \<Rightarrow> bool" where
  "same_run src mt ip len \<longleftrightarrow> (\<forall>k < len. src ! (mt + k) = src ! (ip + k))"

lemma same_run_of_windows:
  assumes "take 4 (drop mt src) = take 4 (drop ip src)" and "mt + 4 \<le> length src" and "ip + 4 \<le> length src"
  shows "same_run src mt ip 4"
  unfolding same_run_def
proof (intro allI impI)
  fix k :: nat assume "k < 4"
  then have "take 4 (drop mt src) ! k = src ! (mt + k)" "take 4 (drop ip src) ! k = src ! (ip + k)"
    using assms(2,3) by simp_all
  then show "src ! (mt + k) = src ! (ip + k)" using assms(1) by simp
qed

text \<open>What the search hands to the rest of the loop.\<close>

definition found_match :: "bytes \<Rightarrow> nat \<Rightarrow> (nat \<times> nat \<times> (u32 \<rightharpoonup> nat)) option \<Rightarrow> bool" where
  "found_match src fip r \<longleftrightarrow> (case r of None \<Rightarrow> True
     | Some (ip, mt, ht) \<Rightarrow> mt < ip \<and> fip \<le> ip \<and> ip + MFLIMIT < length src \<and> ip \<le> mt + 65535
         \<and> same_run src mt ip 4 \<and> (\<forall>h p. ht h = Some p \<longrightarrow> p \<le> ip))"

lemma found_match_mono: "found_match src fip' r \<Longrightarrow> fip \<le> fip' \<Longrightarrow> found_match src fip r"
  by (auto simp: found_match_def split: option.splits)

lemma lz4_search_correct:
  assumes "mflimit = length src - MFLIMIT" and "MFLIMIT \<le> length src" and "fip + 4 \<le> length src"
    and "1 \<le> step" and "\<forall>h p. ht h = Some p \<longrightarrow> p < fip"
  shows "\<exists>r. lz4_search src mflimit ht fip step nb = Inr r \<and> found_match src fip r"
  using assms
proof (induction src mflimit ht fip step nb rule: lz4_search.induct)
  case (1 src mflimit ht fip step nb)
  obtain v where v: "LZ4_read32 src fip = Inr v" "write_u32 v = take 4 (drop fip src)"
    using LZ4_read32_in_bounds [OF "1.prems"(3)] by blast
  let ?ht = "ht(LZ4_hash4 v \<mapsto> fip)"
  note unf = lz4_search.simps [of src mflimit ht fip step nb] and lim = MFLIMIT_def MINMATCH_def LASTLITERALS_def
  show ?case
  proof (cases "mflimit < fip + step")
    case True
    then show ?thesis by (simp add: unf v Let_def found_match_def)
  next
    case False
    then have next_ok: "fip + step + 4 \<le> length src" "fip + MFLIMIT < length src"
      using "1.prems"(1,2,4) by (simp_all add: lim)
    have ht': "\<forall>h p. ?ht h = Some p \<longrightarrow> p < fip + step" using "1.prems"(4,5)
      by (auto simp: trans_less_add1 split: if_splits)
    let ?rest = "lz4_search src mflimit ?ht (fip + step) (nb div 64 + 1) (nb + 1)"
    have continue: "\<exists>r. ?rest = Inr r \<and> found_match src fip r"
      if "\<exists>r. ?rest = Inr r \<and> found_match src (fip + step) r"
      using that found_match_mono by (metis le_add1)
    show ?thesis
    proof (cases "ht (LZ4_hash4 v)")
      case None
      have "\<exists>r. ?rest = Inr r \<and> found_match src (fip + step) r"
        by (rule "1.IH"(1) [OF v(1) refl refl refl refl refl refl False None "1.prems"(1,2) next_ok(1) _ ht']) simp
      then show ?thesis using continue None False by (simp add: unf v Let_def)
    next
      case (Some mt)
      show ?thesis
      proof (cases "mt + 65535 < fip")
        case True
        have "\<exists>r. ?rest = Inr r \<and> found_match src (fip + step) r"
          by (rule "1.IH"(2) [OF v(1) refl refl refl refl refl refl False Some True "1.prems"(1,2) next_ok(1) _ ht']) simp
        then show ?thesis using continue Some False True by (simp add: unf v Let_def)
      next
        case near: False
        have mt: "mt < fip" using Some "1.prems"(5) by blast
        then have "mt + 4 \<le> length src" using "1.prems"(3) by simp
        then obtain vm where vm: "LZ4_read32 src mt = Inr vm" "write_u32 vm = take 4 (drop mt src)"
          using LZ4_read32_in_bounds by blast
        show ?thesis
        proof (cases "vm = v")
          case True
          then have "same_run src mt fip 4"
            using same_run_of_windows vm(2) v(2) \<open>mt + 4 \<le> length src\<close> "1.prems"(3) by metis
          moreover have "\<forall>h p. ?ht h = Some p \<longrightarrow> p \<le> fip" using "1.prems"(5) by (simp add: less_imp_le)
          ultimately have "found_match src fip (Some (fip, mt, ?ht))"
            using mt near next_ok(2) by (simp add: found_match_def)
          then show ?thesis using Some False near True by (simp add: unf v vm Let_def)
        next
          case differ: False
          have "\<exists>r. ?rest = Inr r \<and> found_match src (fip + step) r"
            by (rule "1.IH"(3) [OF v(1) refl refl refl refl refl refl False Some near vm(1) v(1) differ "1.prems"(1,2) next_ok(1) _ ht']) simp
          then show ?thesis using continue Some False near differ by (simp add: unf v vm Let_def)
        qed
      qed
    qed
  qed
qed

lemma same_run_pred:
  assumes "same_run src mt ip len" and "src ! (ip - 1) = src ! (mt - 1)" and "0 < mt" and "mt < ip"
  shows "same_run src (mt - 1) (ip - 1) (Suc len)"
  unfolding same_run_def
proof (intro allI impI)
  fix k assume "k < Suc len"
  then show "src ! (mt - 1 + k) = src ! (ip - 1 + k)" using assms by (cases k) (auto simp: same_run_def)
qed

lemma lz4_catch_up_correct:
  assumes "mt < ip" and "ip \<le> length src" and "anchor \<le> ip" and "same_run src mt ip len"
  shows "\<exists>ip' mt'. lz4_catch_up src anchor ip mt = Inr (ip', mt') \<and> mt' < ip' \<and> anchor \<le> ip' \<and> ip' \<le> ip
    \<and> ip' - mt' = ip - mt \<and> same_run src mt' ip' (len + (ip - ip'))"
  using assms
proof (induction src anchor ip mt arbitrary: len rule: lz4_catch_up.induct)
  case (1 src anchor ip mt)
  note unf = lz4_catch_up.simps [of src anchor ip mt]
  show ?case
  proof (cases "anchor < ip \<and> 0 < mt \<and> src ! (ip - 1) = src ! (mt - 1)")
    case True
    then have bounds: "ip - 1 < length src" "mt - 1 < length src" using "1.prems"(1,2) by auto
    have run: "same_run src (mt - 1) (ip - 1) (Suc len)"
      using True "1.prems"(1) by (intro same_run_pred "1.prems"(4)) auto
    have "\<exists>ip' mt'. lz4_catch_up src anchor (ip - 1) (mt - 1) = Inr (ip', mt') \<and> mt' < ip' \<and> anchor \<le> ip'
        \<and> ip' \<le> ip - 1 \<and> ip' - mt' = (ip - 1) - (mt - 1) \<and> same_run src mt' ip' (Suc len + (ip - 1 - ip'))"
      using True bounds "1.prems" by (intro "1.IH" [OF _ vec_index_Inr vec_index_Inr _ _ _ _ run]) auto
    then obtain ip' mt' where r: "lz4_catch_up src anchor (ip - 1) (mt - 1) = Inr (ip', mt')" "mt' < ip'"
      "anchor \<le> ip'" "ip' \<le> ip - 1" "ip' - mt' = (ip - 1) - (mt - 1)" "same_run src mt' ip' (Suc len + (ip - 1 - ip'))"
      by blast
    moreover have "(ip - 1) - (mt - 1) = ip - mt" and "ip - 1 \<le> ip" and "Suc len + (ip - 1 - ip') = len + (ip - ip')"
      using True r(4) by linarith+
    moreover have "lz4_catch_up src anchor ip mt = Inr (ip', mt')" using True bounds r(1) by (simp add: unf)
    ultimately show ?thesis by (metis le_trans)
  next
    case False
    then have "lz4_catch_up src anchor ip mt = Inr (ip, mt)" using "1.prems"(1,2) by (auto simp: unf)
    then show ?thesis using "1.prems" by simp
  qed
qed

lemma same_run_Suc:
  "same_run src mt ip len \<Longrightarrow> src ! (mt + len) = src ! (ip + len) \<Longrightarrow> same_run src mt ip (Suc len)"
  by (auto simp: same_run_def less_Suc_eq)

lemma lz4_extend_correct:
  assumes "same_run src mt ip (MINMATCH + ml)" and "mt < ip" and "ip + MINMATCH + ml + LASTLITERALS \<le> length src"
  shows "\<exists>ml'. lz4_extend src (mt + MINMATCH + ml) (ip + MINMATCH + ml) ml = Inr (ip + MINMATCH + ml', ml')
    \<and> same_run src mt ip (MINMATCH + ml') \<and> ip + MINMATCH + ml' + LASTLITERALS \<le> length src
    \<and> (\<forall>l. same_run src mt ip l \<and> ip + l + LASTLITERALS \<le> length src \<longrightarrow> l \<le> MINMATCH + ml')"
  using assms
proof (induction "length src - (ip + MINMATCH + ml)" arbitrary: ml)
  case 0
  then show ?case by (simp add: LASTLITERALS_def)
next
  case (Suc n)
  note unf = lz4_extend.simps [of src "mt + MINMATCH + ml" "ip + MINMATCH + ml" ml]
  show ?case
  proof (cases "ip + MINMATCH + ml + LASTLITERALS < length src \<and> src ! (mt + MINMATCH + ml) = src ! (ip + MINMATCH + ml)")
    case True
    have run: "same_run src mt ip (MINMATCH + Suc ml)"
      using same_run_Suc [OF Suc.prems(1)] True by (simp add: add.assoc)
    have "n = length src - (ip + MINMATCH + Suc ml)" using Suc.hyps(2) by simp
    from Suc.hyps(1) [OF this run Suc.prems(2)] True Suc.prems(2)
    show ?thesis by (simp add: unf)
  next
    case False
    then have "lz4_extend src (mt + MINMATCH + ml) (ip + MINMATCH + ml) ml = Inr (ip + MINMATCH + ml, ml)"
      using Suc.prems(2) by (auto simp: unf)
    moreover have "l \<le> MINMATCH + ml" if "same_run src mt ip l" "ip + l + LASTLITERALS \<le> length src" for l
    proof (rule ccontr)
      assume "\<not> l \<le> MINMATCH + ml"
      then have "MINMATCH + ml < l" by simp
      then have "src ! (mt + (MINMATCH + ml)) = src ! (ip + (MINMATCH + ml))"
        using that(1) unfolding same_run_def by blast
      then show False using False that(2) \<open>MINMATCH + ml < l\<close> by (simp add: add.assoc)
    qed
    ultimately show ?thesis using Suc.prems by auto
  qed
qed

lemma same_run_periodic:
  assumes "same_run src mt ip len" and "mt < ip" and "k < len"
  shows "src ! (ip + k) = src ! (mt + k mod (ip - mt))"
  using assms(3)
proof (induction k rule: less_induct)
  case (less k)
  show ?case
  proof (cases "k < ip - mt")
    case True
    then show ?thesis using assms(1) less.prems by (simp add: same_run_def)
  next
    case False
    then have "src ! (ip + k) = src ! (ip + (k - (ip - mt)))"
      using assms(1,2) less.prems by (auto simp: same_run_def add.commute)
    also have "\<dots> = src ! (mt + (k - (ip - mt)) mod (ip - mt))"
      using less.IH [of "k - (ip - mt)"] less.prems assms(2) False by simp
    also have "(k - (ip - mt)) mod (ip - mt) = k mod (ip - mt)" using False by (simp add: le_mod_geq)
    finally show ?thesis .
  qed
qed

lemma match_bytes_source:
  assumes "same_run src mt ip len" and "mt < ip" and "ip + len \<le> length src"
  shows "match_bytes (take ip src) (ip - mt) len = take len (drop ip src)"
proof (rule nth_equalityI)
  show "length (match_bytes (take ip src) (ip - mt) len) = length (take len (drop ip src))"
    using assms(3) by (simp add: match_bytes_def)
next
  fix k assume "k < length (match_bytes (take ip src) (ip - mt) len)"
  then have k: "k < len" by (simp add: match_bytes_def)
  have "k mod (ip - mt) < ip - mt" using assms(2) by simp
  then have "mt + k mod (ip - mt) < ip" by linarith
  then show "match_bytes (take ip src) (ip - mt) len ! k = take len (drop ip src) ! k"
    using k assms same_run_periodic [OF assms(1,2) k] by (simp add: match_bytes_def)
qed

section \<open>The compressor is correct and stays within its bound\<close>

lemma length_lz4_ext: "length (lz4_ext n) = (if 15 \<le> n then (n - 15) div 255 + 1 else 0)"
  by (simp add: lz4_ext_def length_lz4_len_ext)

lemma lz4_ext_le_div: "length (lz4_ext n) \<le> n div 255 + 1"
  by (simp add: length_lz4_ext div_le_mono)

lemma lz4_ext_le: "length (lz4_ext n) \<le> n"
proof (cases "15 \<le> n")
  case True
  have "(n - 15) div 255 \<le> n - 15" by (rule div_le_dividend)
  then show ?thesis using True by (simp add: length_lz4_ext)
qed (simp add: length_lz4_ext)

lemma length_lz4_sequence:
  "length (lz4_sequence lits offset ml) \<le> length lits + MINMATCH + ml + length lits div 255"
  using lz4_ext_le_div [of "length lits"] lz4_ext_le [of ml]
  by (simp add: lz4_sequence_def LZ4_write16_def MINMATCH_def)

lemma div_255_add: "a div 255 + b div 255 \<le> (a + b) div (255 :: nat)"
  using div_add1_eq [of a b 255] by linarith

text \<open>
  The invariant of the output: decoding it, followed by anything, continues from the source up
  to the anchor; and its size stays within the share of the bound for those bytes.
\<close>

definition lz4_progress :: "bytes \<Rightarrow> nat \<Rightarrow> bytes \<Rightarrow> bool" where
  "lz4_progress src anchor out \<longleftrightarrow>
     length out \<le> anchor + anchor div 255 \<and> anchor \<le> length src
     \<and> (\<forall>rest. rest \<noteq> [] \<longrightarrow> lz4_dec (length src) (out @ rest) [] = lz4_dec (length src) rest (take anchor src))"

definition lz4_result_ok :: "bytes \<Rightarrow> nat \<Rightarrow> bytes option result \<Rightarrow> bool" where
  "lz4_result_ok src cap r \<longleftrightarrow> (\<exists>out. r = Inr (Some out) \<and> out \<noteq> [] \<and> length out \<le> cap
     \<and> lz4_dec (length src) out [] = Inr (Some src))"

lemma lz4_last_literals_ok:
  assumes "lz4_progress src anchor out" and "LZ4_compressBound (length src) \<le> cap"
  shows "lz4_result_ok src cap (lz4_last_literals src cap anchor out)"
proof -
  define ll where "ll = length src - anchor"
  let ?tail = "[push_bit 4 (lz4_nibble ll)] @ lz4_ext ll @ drop anchor src"
  from assms(1) have p: "length out \<le> anchor + anchor div 255" "anchor \<le> length src"
    "lz4_dec (length src) (out @ ?tail) [] = lz4_dec (length src) ?tail (take anchor src)"
    by (simp_all add: lz4_progress_def)
  have len: "length (drop anchor src) = ll" and sum: "anchor + ll = length src" using p(2) by (simp_all add: ll_def)
  have dec: "lz4_dec (length src) (out @ ?tail) [] = Inr (Some src)"
    unfolding p(3) using lz4_dec_last [of "take anchor src" "drop anchor src" "length src"] len by simp
  have "ll div 256 \<le> ll div 255" by (rule div_le_mono2) simp_all
  moreover have "anchor div 255 + ll div 255 \<le> length src div 255" using div_255_add [of anchor ll] sum by simp
  ultimately have cap: "length out + ll + 1 + ll div 256 + 4 \<le> cap" "length out + ll + 1 + length (lz4_ext ll) \<le> cap"
    using p(1) sum assms(2) lz4_ext_le_div [of ll] by (simp_all add: LZ4_compressBound_def)
  then have "lz4_last_literals src cap anchor out = Inr (Some (out @ ?tail))"
    using len by (simp add: lz4_last_literals_def Let_def flip: ll_def)
  then show ?thesis using dec cap len by (simp add: lz4_result_ok_def)
qed

lemma lz4_progress_sequence:
  assumes prog: "lz4_progress src anchor out" and run: "same_run src mt ip (MINMATCH + ml)"
    and "mt < ip" and "ip \<le> mt + 65535" and "anchor \<le> ip" and "length src < 65536"
    and "ip + MINMATCH + ml \<le> length src"
  shows "lz4_progress src (ip + MINMATCH + ml) (out @ lz4_sequence (take (ip - anchor) (drop anchor src)) (ip - mt) ml)"
proof -
  let ?lits = "take (ip - anchor) (drop anchor src)" and ?cap = "length src"
  have lits: "take anchor src @ ?lits = take ip src"
    using \<open>anchor \<le> ip\<close> by (metis le_add_diff_inverse take_add)
  have len: "length ?lits = ip - anchor" using assms(5,7) by simp
  have p: "length out \<le> anchor + anchor div 255"
    "\<And>rest. rest \<noteq> [] \<Longrightarrow> lz4_dec ?cap (out @ rest) [] = lz4_dec ?cap rest (take anchor src)"
    using prog by (auto simp: lz4_progress_def)
  have bytes: "match_bytes (take ip src) (ip - mt) (ml + MINMATCH) = take (ml + MINMATCH) (drop ip src)"
    using match_bytes_source [OF run \<open>mt < ip\<close>] assms(7) by (simp add: ac_simps)
  have "lz4_dec ?cap ((out @ lz4_sequence ?lits (ip - mt) ml) @ rest) [] = lz4_dec ?cap rest (take (ip + MINMATCH + ml) src)"
    if "rest \<noteq> []" for rest
  proof -
    have "lz4_dec ?cap (out @ lz4_sequence ?lits (ip - mt) ml @ rest) []
        = lz4_dec ?cap (lz4_sequence ?lits (ip - mt) ml @ rest) (take anchor src)"
      using that by (intro p(2)) simp
    also have "\<dots> = lz4_dec ?cap rest ((take anchor src @ ?lits) @ match_bytes (take anchor src @ ?lits) (ip - mt) (ml + MINMATCH))"
      using that assms by (intro lz4_dec_sequence) (simp_all only: lits, auto)
    also have "\<dots> = lz4_dec ?cap rest (take (ip + MINMATCH + ml) src)"
      unfolding lits bytes by (simp add: ac_simps take_add [symmetric])
    finally show ?thesis by simp
  qed
  moreover have "length (out @ lz4_sequence ?lits (ip - mt) ml) \<le> (ip + MINMATCH + ml) + (ip + MINMATCH + ml) div 255"
  proof -
    have "anchor div 255 + (ip - anchor) div 255 \<le> ip div 255"
      using div_255_add [of anchor "ip - anchor"] \<open>anchor \<le> ip\<close> by simp
    also have "\<dots> \<le> (ip + MINMATCH + ml) div 255" by (rule div_le_mono) simp
    finally show ?thesis
      using p(1) length_lz4_sequence [of ?lits "ip - mt" ml] \<open>anchor \<le> ip\<close>
      unfolding len length_append by linarith
  qed
  ultimately show ?thesis using assms(7) by (simp add: lz4_progress_def)
qed

text \<open>A match that the search found, extended backwards and forwards.\<close>

lemma lz4_match_extended:
  assumes "found_match src (anchor + 1) (Some (ip0, mt0, ht1))"
  obtains ip mt ml where "lz4_catch_up src anchor ip0 mt0 = Inr (ip, mt)" and "mt < ip" and "anchor \<le> ip" and "ip \<le> ip0" and "ip \<le> mt + 65535"
    and "lz4_extend src (mt + MINMATCH) (ip + MINMATCH) 0 = Inr (ip + MINMATCH + ml, ml)" and "same_run src mt ip (MINMATCH + ml)"
    and "ip + MINMATCH + ml + LASTLITERALS \<le> length src" and "ip0 + MINMATCH \<le> ip + MINMATCH + ml"
proof -
  note lim = MFLIMIT_def MINMATCH_def LASTLITERALS_def
  have f: "mt0 < ip0" "anchor + 1 \<le> ip0" "ip0 + MFLIMIT < length src" "ip0 \<le> mt0 + 65535" "same_run src mt0 ip0 4"
    using assms by (auto simp: found_match_def)
  obtain ip mt where c: "lz4_catch_up src anchor ip0 mt0 = Inr (ip, mt)" "mt < ip" "anchor \<le> ip" "ip \<le> ip0"
    "ip - mt = ip0 - mt0" "same_run src mt ip (4 + (ip0 - ip))"
    using lz4_catch_up_correct [OF f(1) _ _ f(5), of anchor] f(2,3) by auto
  have "same_run src mt ip (MINMATCH + 0)" using c(6) by (simp add: same_run_def MINMATCH_def)
  then have "\<exists>ml'. lz4_extend src (mt + MINMATCH + 0) (ip + MINMATCH + 0) 0 = Inr (ip + MINMATCH + ml', ml')
      \<and> same_run src mt ip (MINMATCH + ml') \<and> ip + MINMATCH + ml' + LASTLITERALS \<le> length src
      \<and> (\<forall>l. same_run src mt ip l \<and> ip + l + LASTLITERALS \<le> length src \<longrightarrow> l \<le> MINMATCH + ml')"
    using c f(3) by (intro lz4_extend_correct) (simp_all add: lim)
  then obtain ml where e: "lz4_extend src (mt + MINMATCH) (ip + MINMATCH) 0 = Inr (ip + MINMATCH + ml, ml)"
    "same_run src mt ip (MINMATCH + ml)" "ip + MINMATCH + ml + LASTLITERALS \<le> length src"
    "\<And>l. same_run src mt ip l \<Longrightarrow> ip + l + LASTLITERALS \<le> length src \<Longrightarrow> l \<le> MINMATCH + ml" by auto
  have "4 + (ip0 - ip) \<le> MINMATCH + ml" using f(3) c(4) by (intro e(4) [OF c(6)]) (simp add: lim)
  then have "ip0 + MINMATCH \<le> ip + MINMATCH + ml" using c(4) by (simp add: lim)
  moreover have "ip \<le> mt + 65535" using c(2,5) f(1,4) by linarith
  ultimately show thesis using that c(1-4) e(1-3) by blast
qed

text \<open>Neither check of the remaining room fails when the buffer has the size the bound asks for.\<close>

lemma lz4_room:
  assumes "LZ4_compressBound (length src) \<le> cap" and "lz4_progress src anchor out" and "anchor \<le> ip" and "ip + 9 \<le> length src"
  shows "\<not> length out + 1 + (ip - anchor) + (2 + 1 + LASTLITERALS) + (ip - anchor) div 256 > cap"
proof -
  let ?ll = "ip - anchor"
  have "?ll div 256 \<le> ?ll div 255" by (rule div_le_mono2) simp_all
  moreover have "anchor div 255 + ?ll div 255 \<le> length src div 255"
    using div_255_add [of anchor ?ll] assms(3) div_le_mono [of ip "length src" 255] assms(4) by simp
  moreover have "length out \<le> anchor + anchor div 255" using assms(2) by (simp add: lz4_progress_def)
  moreover have "anchor + ?ll + 9 \<le> length src" using assms(3,4) by simp
  ultimately show ?thesis using assms(1) unfolding LZ4_compressBound_def LASTLITERALS_def by linarith
qed

lemma lz4_progress_fits:
  assumes "LZ4_compressBound (length src) \<le> cap" and "lz4_progress src ip out" and "ip \<le> length src"
  shows "\<not> length out > cap"
proof -
  have "ip div 255 \<le> length src div 255" using assms(3) by (rule div_le_mono)
  moreover have "length out \<le> ip + ip div 255" using assms(2) by (simp add: lz4_progress_def)
  ultimately show ?thesis using assms(1,3) unfolding LZ4_compressBound_def by linarith
qed

lemma lz4_loop_ok:
  assumes "LZ4_compressBound (length src) \<le> cap" and "length src < 65536"
    and "lz4_progress src anchor out" and "anchor + MFLIMIT \<le> length src"
    and "\<forall>h p. ht h = Some p \<longrightarrow> p \<le> anchor"
  shows "lz4_result_ok src cap (lz4_loop src cap ht anchor out)"
  using assms(3-)
proof (induction "length src - anchor" arbitrary: ht anchor out rule: less_induct)
  case less
  note lim = MFLIMIT_def MINMATCH_def LASTLITERALS_def and unf = lz4_loop.simps [of src cap ht anchor out]
  obtain r where r: "lz4_search src (length src - MFLIMIT) ht (anchor + 1) 1 1 = Inr r" "found_match src (anchor + 1) r"
    using lz4_search_correct [of "length src - MFLIMIT" src "anchor + 1" 1 ht 1] less.prems
    by (auto simp: lim less_Suc_eq_le)
  show ?case
  proof (cases r)
    case None
    then show ?thesis using lz4_last_literals_ok [OF less.prems(1) assms(1)] r by (simp add: unf)
  next
    case (Some t)
    then obtain ip0 mt0 ht1 where t: "r = Some (ip0, mt0, ht1)" by (cases t) auto
    then obtain ip mt ml where c: "lz4_catch_up src anchor ip0 mt0 = Inr (ip, mt)" "mt < ip" "anchor \<le> ip" "ip \<le> ip0" "ip \<le> mt + 65535"
      and e: "lz4_extend src (mt + MINMATCH) (ip + MINMATCH) 0 = Inr (ip + MINMATCH + ml, ml)" "same_run src mt ip (MINMATCH + ml)"
        "ip + MINMATCH + ml + LASTLITERALS \<le> length src" "ip0 + MINMATCH \<le> ip + MINMATCH + ml"
      using lz4_match_extended r(2) by metis
    let ?ipe = "ip + MINMATCH + ml" and ?ll = "ip - anchor"
    let ?out = "out @ lz4_sequence (take ?ll (drop anchor src)) (ip - mt) ml"
    have prog: "lz4_progress src ?ipe ?out"
      using c e(3) by (intro lz4_progress_sequence [OF less.prems(1) e(2)] assms(2)) auto
    have room: "\<not> length out + 1 + ?ll + (2 + 1 + LASTLITERALS) + ?ll div 256 > cap"
      using e(3) by (intro lz4_room [OF assms(1) less.prems(1) c(3)]) (simp add: lim)
    have fits: "\<not> length ?out > cap" using e(3) by (intro lz4_progress_fits [OF assms(1) prog]) simp
    have step: "lz4_loop src cap ht anchor out =
        (if length src - MFLIMIT < ?ipe then lz4_last_literals src cap ?ipe ?out
         else bindR (LZ4_read32 src (?ipe - 2)) (\<lambda>v. lz4_loop src cap (ht1(LZ4_hash4 v \<mapsto> ?ipe - 2)) ?ipe ?out))"
      using room fits unfolding unf r(1) t c(1) bindR_Inr Let_def option.case prod.case e(1) by simp
    show ?thesis
    proof (cases "length src - MFLIMIT < ?ipe")
      case True
      then show ?thesis using lz4_last_literals_ok [OF prog assms(1)] step by simp
    next
      case False
      then have "?ipe + MFLIMIT \<le> length src" using less.prems(2) by simp
      then obtain v where v: "LZ4_read32 src (?ipe - 2) = Inr v"
        using LZ4_read32_in_bounds [of "?ipe - 2" src] by (auto simp: lim)
      have "\<forall>h p. (ht1(LZ4_hash4 v \<mapsto> ?ipe - 2)) h = Some p \<longrightarrow> p \<le> ?ipe"
        using r(2) t e(4) by (auto simp: found_match_def intro: order_trans [of _ ip0])
      then have "lz4_result_ok src cap (lz4_loop src cap (ht1(LZ4_hash4 v \<mapsto> ?ipe - 2)) ?ipe ?out)"
        using less.prems(2) c(3) by (intro less.hyps prog \<open>?ipe + MFLIMIT \<le> length src\<close>) (simp_all add: lim)
      then show ?thesis using False v step by simp
    qed
  qed
qed

lemma LZ4_compress_ok:
  assumes "length src < 65536" and "LZ4_compressBound (length src) \<le> cap"
  shows "lz4_result_ok src cap (LZ4_compress_default src cap)"
proof -
  have init: "lz4_progress src 0 []" by (simp add: lz4_progress_def)
  show ?thesis
  proof (cases "length src < MFLIMIT")
    case True
    then show ?thesis using lz4_last_literals_ok [OF init assms(2)] by (simp add: LZ4_compress_default_def)
  next
    case False
    then show ?thesis using lz4_loop_ok [OF assms(2,1) init, of Map.empty] by (simp add: LZ4_compress_default_def)
  qed
qed

lemma compress_then_decompress:
  assumes "length src < 65536" and "t \<in> {CNone, CLZ4}"
  shows "\<exists>dst. compress t src = Inr dst \<and> length dst \<le> max_compressed_size t (length src)
    \<and> decompress t dst (length src) = Inr src"
proof (cases t)
  case CLZ4
  have "LZ4_compressBound (length src) \<le> INT_MAX"
    using assms(1) div_le_mono [of "length src" 65536 255] by (simp add: LZ4_compressBound_def INT_MAX_def)
  then show ?thesis
    using LZ4_compress_ok [OF assms(1) order_refl] CLZ4
    by (auto simp: compress_def decompress_def max_compressed_size_def lz4_result_ok_def LZ4_decompress_safe_def Let_def)
qed (use assms in \<open>auto simp: compress_def decompress_def max_compressed_size_def\<close>)

section \<open>Properties\<close>

text \<open>
  C16: For every source below 64 KiB and both compression types, \<open>CompressionEngine::compress\<close>
  succeeds within \<open>max_compressed_size\<close> bytes, and \<open>decompress\<close> of its result with the
  original size returns the source. No step reads outside its input or writes past the bound.
\<close>

theorem compress_decompress_roundtrip:
  assumes "length src < 65536" and "t \<in> {CNone, CLZ4}"
  shows "\<exists>dst. compress t src = Inr dst \<and> length dst \<le> max_compressed_size t (length src)
    \<and> decompress t dst (length src) = Inr src"
  by (rule compress_then_decompress [OF assms])

theorem compress_decompress_roundtrip_witness:
  "length (replicate 100 7 :: bytes) < 65536 \<and> CLZ4 \<in> {CNone, CLZ4}
   \<and> (\<exists>dst. compress CLZ4 (replicate 100 7) = Inr dst \<and> length dst \<le> max_compressed_size CLZ4 (length (replicate 100 7 :: bytes))
        \<and> decompress CLZ4 dst (length (replicate 100 7 :: bytes)) = Inr (replicate 100 7))"
  using compress_decompress_roundtrip [of "replicate 100 7" CLZ4] by simp

section \<open>Incompressible pages grow\<close>

text \<open>A source without a repeated four-byte window is emitted as one run of literals.\<close>

lemma lz4_no_match:
  assumes "MFLIMIT \<le> length src" and "\<And>mt ip. mt < ip \<Longrightarrow> ip + 4 \<le> length src \<Longrightarrow> \<not> same_run src mt ip 4"
  shows "LZ4_compress_default src cap = lz4_last_literals src cap 0 []"
proof -
  obtain r where r: "lz4_search src (length src - MFLIMIT) Map.empty (0 + 1) 1 1 = Inr r" "found_match src 1 r"
    using lz4_search_correct [of "length src - MFLIMIT" src 1 1 Map.empty 1] assms(1)
    by (auto simp: MFLIMIT_def MINMATCH_def LASTLITERALS_def)
  have "r = None"
  proof (rule ccontr)
    assume "r \<noteq> None"
    then obtain ip mt ht where "r = Some (ip, mt, ht)" by (metis option.exhaust surj_pair)
    then show False using r(2) assms(2) by (auto simp: found_match_def MFLIMIT_def MINMATCH_def)
  qed
  then show ?thesis using r assms(1) lz4_loop.simps [of src cap Map.empty 0 "[]"]
    by (simp add: LZ4_compress_default_def)
qed

text \<open>A page that counts: the high byte of the counter has its top bit set, the low byte has not.\<close>

definition counting_byte :: "nat \<Rightarrow> nat" where
  "counting_byte j = (if even j then 128 + j div 256 else (j div 2) mod 128)"

definition counting_page :: bytes where
  "counting_page = map (\<lambda>j. word_of_nat (counting_byte j)) [0..<8192]"

lemma counting_byte_eq_parity:
  "counting_byte a = counting_byte b \<Longrightarrow> even a \<longleftrightarrow> even b"
  by (auto simp: counting_byte_def split: if_splits)

lemma counting_byte_pair:
  assumes "even a" and "even b" and "counting_byte a = counting_byte b" and "counting_byte (Suc a) = counting_byte (Suc b)"
  shows "a = b"
proof -
  obtain x y where xy: "a = 2 * x" "b = 2 * y" using assms(1,2) by (elim evenE)
  have "x div 128 = y div 128" "x mod 128 = y mod 128"
    using assms(3,4) by (simp_all add: counting_byte_def xy div_mult2_eq [of "2 * _" 2 128, simplified])
  then have "x = y" by (metis div_mult_mod_eq)
  then show ?thesis by (simp add: xy)
qed

lemma counting_page_run:
  assumes "same_run counting_page mt ip 4" and "ip + 4 \<le> 8192" and "mt < ip"
  shows False
proof -
  have byte: "counting_byte (mt + k) = counting_byte (ip + k)" if "k < 4" for k
  proof -
    have small: "counting_byte j < 256" if "j < 8192" for j
      using that by (auto simp: counting_byte_def less_mult_imp_div_less)
    have "(word_of_nat (counting_byte (mt + k)) :: byte) = word_of_nat (counting_byte (ip + k))"
      using assms that unfolding same_run_def counting_page_def by auto
    from arg_cong [OF this, of unat] have "counting_byte (mt + k) mod 256 = counting_byte (ip + k) mod 256"
      by (simp add: unat_of_nat)
    then show ?thesis using small [of "mt + k"] small [of "ip + k"] assms(2,3) that by simp
  qed
  show False
  proof (cases "even mt")
    case True
    moreover have "even ip" using True counting_byte_eq_parity [of mt ip] byte [of 0] by simp
    ultimately have "mt = ip" using counting_byte_pair [of mt ip] byte [of 0] byte [of 1] by simp
    then show False using assms(3) by simp
  next
    case False
    moreover have "odd ip" using False counting_byte_eq_parity [of mt ip] byte [of 0] by simp
    ultimately have "Suc mt = Suc ip"
      using counting_byte_pair [of "Suc mt" "Suc ip"] byte [of 1] byte [of 2] by simp
    then show False using assms(3) by simp
  qed
qed

lemma length_counting_page [simp]: "length counting_page = 8192"
  by (simp add: counting_page_def)

lemma compress_counting_page:
  "compress CLZ4 counting_page = Inr ([push_bit 4 (lz4_nibble 8192)] @ lz4_ext 8192 @ counting_page)"
proof -
  have "LZ4_compress_default counting_page cap = lz4_last_literals counting_page cap 0 []" for cap
    using counting_page_run by (intro lz4_no_match) (auto simp: MFLIMIT_def MINMATCH_def LASTLITERALS_def)
  then show ?thesis
    by (simp add: compress_def max_compressed_size_def LZ4_compressBound_def INT_MAX_def Let_def
        lz4_last_literals_def length_lz4_ext)
qed

text \<open>
  \<open>compress\<close> can make a page larger: there is a page of \<open>PAGE_SIZE\<close> bytes whose compressed
  form is longer than the page and its 20-byte header together, so a caller that reserves
  \<open>PAGE_SIZE\<close> bytes for every compressed page does not have room for it.
\<close>

theorem compress_may_expand:
  "\<exists>src dst. length src = unat PAGE_SIZE \<and> compress CLZ4 src = Inr dst \<and> unat PAGE_SIZE + 20 < length dst"
proof -
  have "unat PAGE_SIZE + 20 < length ([push_bit 4 (lz4_nibble 8192)] @ lz4_ext 8192 @ counting_page)"
    by (simp add: length_lz4_ext)
  then show ?thesis using compress_counting_page length_counting_page by (metis unat_PAGE_SIZE)
qed

text \<open>
  \<open>decompress\<close> is not safe on arbitrary bytes: a block of three zero bytes asks for a match
  of offset zero, and the copy loop computes \<open>i % 0\<close>.
\<close>

lemma decompress_offset_zero:
  "decompress CLZ4 [0, 0, 0] (unat PAGE_SIZE) = Inl UndefinedBehaviour"
  by (simp add: decompress_def LZ4_decompress_safe_def lz4_dec.simps lz4_read_len_def LZ4_read16_def
      lz4_copy_match_def MINMATCH_def PAGE_SIZE_def Let_def word_less_nat_alt)

end
