(* ===== verification/Wal.thy ===== *)
theory Wal
  imports Serialise Xdl_Types
begin

text \<open>
  The write-ahead log of \<open>src/wal.cpp\<close> (POSIX branch): CRC-32, the buffered record writer,
  replay and clear. The state of the model is the object's fields together with its file:
  the file's contents (\<open>None\<close> when the file does not exist), the contents known to survive a
  crash, and the file position of the descriptor.

  The kernel is a script of system call results: a call takes the next entry, and succeeds in
  full when the script is empty. A negative entry fails the call; a positive entry bounds the
  bytes that one \<open>write\<close> or \<open>read\<close> transfers, and zero transfers nothing.
\<close>

section \<open>Constants and records\<close>

definition WAL_HEADER_SIZE :: nat where "WAL_HEADER_SIZE = 32"
definition WAL_VERSION :: u32 where "WAL_VERSION = 1"
definition WAL_BUFFER_SIZE :: nat where "WAL_BUFFER_SIZE = 256 * 1024"

datatype WALType = INSERT | COMMIT | CHECKPOINT | ROLLBACK | DELETE | OtherRecord byte

fun wal_type_byte :: "WALType \<Rightarrow> byte" where
  "wal_type_byte INSERT = 0"
| "wal_type_byte COMMIT = 1"
| "wal_type_byte CHECKPOINT = 2"
| "wal_type_byte ROLLBACK = 3"
| "wal_type_byte DELETE = 4"
| "wal_type_byte (OtherRecord b) = b"

definition wal_type_of_byte :: "byte \<Rightarrow> WALType" where
  "wal_type_of_byte b =
     (if b = 0 then INSERT else if b = 1 then COMMIT else if b = 2 then CHECKPOINT
      else if b = 3 then ROLLBACK else if b = 4 then DELETE else OtherRecord b)"

record WALRecord =
  wr_type :: WALType
  wr_row_id :: u32
  wr_page_id :: u32
  wr_row_slot :: u32
  wr_row_data :: bytes

record WAL =
  wal_file :: "bytes option"
  wal_durable :: bytes
  wal_pos :: nat
  wal_fd :: bool
  wal_is_open :: bool
  wal_buf :: bytes
  wal_buf_dirty :: bool
  wal_offset :: u64
  wal_script :: "int list"

text \<open>A fresh object on a path whose file has the given contents.\<close>

definition wal_object :: "bytes option \<Rightarrow> int list \<Rightarrow> WAL" where
  "wal_object f script =
     \<lparr>wal_file = f, wal_durable = (case f of None \<Rightarrow> [] | Some c \<Rightarrow> c), wal_pos = 0, wal_fd = False, wal_is_open = False,
      wal_buf = [], wal_buf_dirty = False, wal_offset = 0, wal_script = script\<rparr>"

section \<open>System calls\<close>

definition next_result :: "(WAL, int option) prog" where
  "next_result w = (case wal_script w of
       [] \<Rightarrow> (Inr None, w)
     | r # rs \<Rightarrow> (Inr (Some r), w\<lparr>wal_script := rs\<rparr>))"

definition wal_contents :: "WAL \<Rightarrow> bytes" where
  "wal_contents w = (case wal_file w of None \<Rightarrow> [] | Some c \<Rightarrow> c)"

text \<open>\<open>write(2)\<close>: the number of bytes accepted; a failing call returns \<open>-1\<close>.\<close>

definition sys_write :: "bytes \<Rightarrow> (WAL, int) prog" where
  "sys_write bs = bindS next_result (\<lambda>r.
     case r of
       Some n \<Rightarrow>
         if n < 0 then returnS (-1)
         else bindS (modifyS (\<lambda>w. w\<lparr>wal_file := Some (file_put (wal_pos w) (take (nat n) bs) (wal_contents w)),
                                    wal_pos := wal_pos w + min (nat n) (length bs)\<rparr>))
                (\<lambda>_. returnS (int (min (nat n) (length bs))))
     | None \<Rightarrow>
         bindS (modifyS (\<lambda>w. w\<lparr>wal_file := Some (file_put (wal_pos w) bs (wal_contents w)),
                              wal_pos := wal_pos w + length bs\<rparr>))
           (\<lambda>_. returnS (int (length bs))))"

definition sys_fsync :: "(WAL, unit) prog" where
  "sys_fsync = bindS next_result (\<lambda>r.
     case r of Some n \<Rightarrow> if n < 0 then returnS () else modifyS (\<lambda>w. w\<lparr>wal_durable := wal_contents w\<rparr>)
             | None \<Rightarrow> modifyS (\<lambda>w. w\<lparr>wal_durable := wal_contents w\<rparr>))"

text \<open>\<open>open\<close>, \<open>fstat\<close> and \<open>unlink\<close> only succeed or fail.\<close>

definition sys_ok :: "(WAL, bool) prog" where
  "sys_ok = bindS next_result (\<lambda>r. returnS (case r of None \<Rightarrow> True | Some n \<Rightarrow> 0 \<le> n))"

section \<open>CRC-32\<close>

definition crc_bit_step :: "u32 \<Rightarrow> u32" where
  "crc_bit_step crc = (if bit crc 0 then drop_bit 1 crc XOR 0xEDB88320 else drop_bit 1 crc)"

definition crc32_entry :: "nat \<Rightarrow> u32" where
  "crc32_entry i = (crc_bit_step ^^ 8) (word_of_nat i)"

definition crc32_table :: "u32 list" where
  "crc32_table = map crc32_entry [0..<256]"

definition crc_step :: "u32 \<Rightarrow> byte \<Rightarrow> u32" where
  "crc_step crc b = crc32_table ! unat ((crc XOR ucast b) AND 0xFF) XOR drop_bit 8 crc"

definition compute_crc :: "bytes \<Rightarrow> u32" where
  "compute_crc data = fold (\<lambda>b crc. crc_step crc b) data WAL_CHECKSUM_SEED"

section \<open>Writing\<close>

text \<open>
  \<open>safe_write\<close>: the loop over short writes. Every round consumes a script entry or writes the
  rest, so the length of the script bounds the number of rounds.
\<close>

primrec safe_write_loop :: "nat \<Rightarrow> bytes \<Rightarrow> (WAL, unit) prog" where
  "safe_write_loop 0 bs = throwS UndefinedBehaviour"
| "safe_write_loop (Suc fuel) bs =
     (if bs = [] then returnS ()
      else bindS (sys_write bs) (\<lambda>n.
        if n \<le> 0 then throwS IOError else safe_write_loop fuel (drop (nat n) bs)))"

definition safe_write :: "bytes \<Rightarrow> (WAL, unit) prog" where
  "safe_write bs w = safe_write_loop (length (wal_script w) + 2) bs w"

definition flush_write_buffer :: "(WAL, unit) prog" where
  "flush_write_buffer w =
     (if wal_buf w = [] then (Inr (), w)
      else bindS (safe_write (take (unat (word_of_nat (length (wal_buf w)) :: u32)) (wal_buf w)))
             (\<lambda>_. modifyS (\<lambda>w. w\<lparr>wal_offset := wal_offset w + word_of_nat (length (wal_buf w)),
                                 wal_buf := [], wal_buf_dirty := True\<rparr>)) w)"

definition fsync_if_dirty :: "(WAL, unit) prog" where
  "fsync_if_dirty w =
     (if wal_buf_dirty w then bindS sys_fsync (\<lambda>_. modifyS (\<lambda>w. w\<lparr>wal_buf_dirty := False\<rparr>)) w
      else (Inr (), w))"

definition wal_header :: bytes where
  "wal_header =
     (let head = write_u64 WAL_MAGIC @ write_u32 WAL_VERSION
      in head @ write_u32 PAGE_SIZE @ write_u32 (compute_crc head) @ replicate 12 0)"

definition wal_open :: "(WAL, unit) prog" where
  "wal_open w =
     (if wal_is_open w then (Inr (), w)
      else bindS sys_ok (\<lambda>opened.
        if \<not> opened then bindS (modifyS (\<lambda>w. w\<lparr>wal_fd := False\<rparr>)) (\<lambda>_. throwS IOError)
        else bindS (modifyS (\<lambda>w. w\<lparr>wal_file := Some (wal_contents w), wal_pos := 0, wal_fd := True\<rparr>)) (\<lambda>_.
             bindS sys_ok (\<lambda>statted.
             if \<not> statted then bindS (modifyS (\<lambda>w. w\<lparr>wal_fd := False\<rparr>)) (\<lambda>_. throwS IOError)
             else bindS (getS wal_contents) (\<lambda>c.
                  bindS (if c = []
                         then bindS (safe_write wal_header) (\<lambda>_.
                              bindS sys_fsync (\<lambda>_.
                              modifyS (\<lambda>w. w\<lparr>wal_offset := word_of_nat WAL_HEADER_SIZE\<rparr>)))
                         else modifyS (\<lambda>w. w\<lparr>wal_offset := word_of_nat (length c), wal_pos := length c\<rparr>)) (\<lambda>_.
                  modifyS (\<lambda>w. w\<lparr>wal_is_open := True\<rparr>)))))) w)"

definition wal_close :: "(WAL, unit) prog" where
  "wal_close w =
     (if \<not> wal_is_open w then (Inr (), w)
      else bindS (if wal_fd w then bindS flush_write_buffer (\<lambda>_. modifyS (\<lambda>w. w\<lparr>wal_fd := False\<rparr>))
                  else returnS ())
             (\<lambda>_. modifyS (\<lambda>w. w\<lparr>wal_is_open := False\<rparr>)) w)"

definition wal_file_size :: "(WAL, u64) prog" where
  "wal_file_size = bindS sys_ok (\<lambda>ok. if ok then getS (\<lambda>w. word_of_nat (length (wal_contents w))) else throwS IOError)"

definition ensure_buffer_space :: "nat \<Rightarrow> (WAL, unit) prog" where
  "ensure_buffer_space needed w =
     (if length (wal_buf w) + needed > WAL_BUFFER_SIZE then flush_write_buffer w else (Inr (), w))"

text \<open>The body after the checksum, and the whole record.\<close>

definition record_body :: "WALType \<Rightarrow> bytes \<Rightarrow> u32 \<Rightarrow> u32 \<Rightarrow> u32 \<Rightarrow> bytes" where
  "record_body t payload rid pid slot =
     write_u32 (17 + word_of_nat (length payload)) @ write_u8 (wal_type_byte t)
     @ write_u32 rid @ write_u32 pid @ write_u32 slot @ payload"

text \<open>
  \<open>write_record\<close>: \<open>payload_len\<close> is the length of the payload. A payload whose record size does
  not fit 32 bits makes the buffer too small for what is copied into it.
\<close>

definition write_record :: "WALType \<Rightarrow> bytes \<Rightarrow> u32 \<Rightarrow> u32 \<Rightarrow> u32 \<Rightarrow> (WAL, u64) prog" where
  "write_record t payload rid pid slot w =
     (if \<not> wal_is_open w then (Inl IOError, w)
      else if 2 ^ 32 \<le> length payload + 21 then (Inl UndefinedBehaviour, w)
      else bindS (ensure_buffer_space (4 + 17 + length payload)) (\<lambda>_.
           bindS (getS (\<lambda>w. wal_offset w + word_of_nat (length (wal_buf w)))) (\<lambda>record_offset.
           let body = record_body t payload rid pid slot
           in bindS (modifyS (\<lambda>w. w\<lparr>wal_buf := wal_buf w @ write_u32 (compute_crc body) @ body\<rparr>)) (\<lambda>_.
              returnS record_offset))) w)"

definition wal_sync :: "(WAL, unit) prog" where
  "wal_sync w = (if \<not> wal_is_open w then (Inr (), w) else bindS flush_write_buffer (\<lambda>_. fsync_if_dirty) w)"

definition log_insert :: "u32 \<Rightarrow> u32 \<Rightarrow> u32 \<Rightarrow> bytes \<Rightarrow> bool \<Rightarrow> (WAL, u64) prog" where
  "log_insert rid pid slot row_data sync_now =
     bindS (write_record INSERT row_data rid pid slot) (\<lambda>offset.
     bindS (if sync_now then wal_sync else returnS ()) (\<lambda>_. returnS offset))"

definition log_insert_direct :: "u32 \<Rightarrow> u32 \<Rightarrow> u32 \<Rightarrow> bytes \<Rightarrow> bool \<Rightarrow> (WAL, u64) prog" where
  "log_insert_direct rid pid slot row_data sync_now =
     bindS (write_record INSERT row_data rid pid slot) (\<lambda>offset.
     bindS (if sync_now then wal_sync else returnS ()) (\<lambda>_. returnS offset))"

definition log_delete :: "u32 \<Rightarrow> u32 \<Rightarrow> u32 \<Rightarrow> bool \<Rightarrow> (WAL, u64) prog" where
  "log_delete rid pid slot sync_now =
     bindS (write_record DELETE [] rid pid slot) (\<lambda>offset.
     bindS (if sync_now then wal_sync else returnS ()) (\<lambda>_. returnS offset))"

definition log_commit :: "(WAL, unit) prog" where
  "log_commit = bindS (write_record COMMIT [] 0 0 0) (\<lambda>_. returnS ())"

definition log_checkpoint :: "(WAL, unit) prog" where
  "log_checkpoint =
     bindS (write_record CHECKPOINT [] 0 0 0) (\<lambda>_.
     bindS flush_write_buffer (\<lambda>_. fsync_if_dirty))"

section \<open>Replay\<close>

text \<open>
  One round of the parsing loop on the bytes from \<open>pos\<close> to the end: the record and the bytes
  after it, or \<open>None\<close> where the loop breaks off.
\<close>

definition parse_one :: "bytes \<Rightarrow> (WALRecord \<times> bytes) option result" where
  "parse_one data =
     (if length data < 4 then Inr None
      else bindR (read_u32 data) (\<lambda>stored_crc.
      if length (drop 4 data) < 4 then Inr None
      else bindR (read_u32 (drop 4 data)) (\<lambda>record_len.
      let rest = drop 8 data; remaining = unat record_len - 4
      in if record_len < 17 \<or> length rest < remaining then Inr None
         else if compute_crc (take 4 (drop 4 data) @ take remaining rest) \<noteq> stored_crc then Inr None
         else bindR (read_u8 rest) (\<lambda>type_byte.
              bindR (read_u32 (drop 1 rest)) (\<lambda>rid.
              bindR (read_u32 (drop 5 rest)) (\<lambda>pid.
              bindR (read_u32 (drop 9 rest)) (\<lambda>slot.
              Inr (Some (\<lparr>wr_type = wal_type_of_byte type_byte, wr_row_id = rid, wr_page_id = pid, wr_row_slot = slot,
                          wr_row_data = (if 17 < record_len then take (unat record_len - 17) (drop 13 rest) else [])\<rparr>,
                         drop remaining rest)))))))))"

lemma parse_one_less: "parse_one data = Inr (Some (r, rest)) \<Longrightarrow> length rest < length data"
  by (auto simp: parse_one_def bindR_eq_Inr Let_def split: if_splits)

function parse_records :: "bytes \<Rightarrow> WALRecord list result" where
  "parse_records data =
     bindR (parse_one data) (\<lambda>r. case r of
         None \<Rightarrow> Inr []
       | Some (r, rest) \<Rightarrow> bindR (parse_records rest) (\<lambda>rs. Inr (r # rs)))"
  by pat_completeness auto
termination
  by (relation "measure length") (auto dest: parse_one_less)

declare parse_records.simps [simp del]

text \<open>
  The reading loop: one \<open>read(2)\<close> at the file position, repeated until all bytes arrived or a
  call returns none.
\<close>

definition sys_read :: "nat \<Rightarrow> (WAL, bytes) prog" where
  "sys_read len = bindS next_result (\<lambda>r.
     bindS (getS (\<lambda>w. take (case r of None \<Rightarrow> len | Some n \<Rightarrow> min len (nat n)) (drop (wal_pos w) (wal_contents w)))) (\<lambda>chunk.
     bindS (modifyS (\<lambda>w. w\<lparr>wal_pos := wal_pos w + length chunk\<rparr>)) (\<lambda>_. returnS chunk)))"

primrec read_loop :: "nat \<Rightarrow> nat \<Rightarrow> bytes \<Rightarrow> (WAL, bytes) prog" where
  "read_loop 0 data_size got = throwS UndefinedBehaviour"
| "read_loop (Suc fuel) data_size got =
     (if data_size \<le> length got then returnS got
      else bindS (sys_read (unat (word_of_nat (data_size - length got) :: u32))) (\<lambda>chunk.
        if chunk = [] then returnS got else read_loop fuel data_size (got @ chunk)))"

declare read_loop.simps [simp del]

definition wal_replay :: "(WAL, WALRecord list) prog" where
  "wal_replay w =
     (if \<not> wal_is_open w then (Inl IOError, w)
      else bindS flush_write_buffer (\<lambda>_.
           bindS fsync_if_dirty (\<lambda>_.
           bindS wal_file_size (\<lambda>fsize.
           if unat fsize < WAL_HEADER_SIZE then returnS []
           else bindS (modifyS (\<lambda>w. w\<lparr>wal_pos := WAL_HEADER_SIZE\<rparr>)) (\<lambda>_.
                bindS (\<lambda>w. read_loop (length (wal_script w) + 2) (unat fsize - WAL_HEADER_SIZE) [] w) (\<lambda>data.
                if length data < unat fsize - WAL_HEADER_SIZE then returnS []
                else liftR (parse_records data)))))) w)"

definition wal_clear :: "(WAL, unit) prog" where
  "wal_clear w =
     bindS (if wal_is_open w then bindS flush_write_buffer (\<lambda>_. wal_close) else returnS ()) (\<lambda>_.
     bindS sys_ok (\<lambda>ok.
       if \<not> ok then throwS IOError
       else bindS (modifyS (\<lambda>w. w\<lparr>wal_file := None, wal_durable := []\<rparr>)) (\<lambda>_. wal_open))) w"

section \<open>CRC-32 detects a changed byte\<close>

lemma crc_bit_step_xor: "crc_bit_step (x XOR y) = crc_bit_step x XOR crc_bit_step y"
  by (auto simp: crc_bit_step_def bit_simps intro!: bit_word_eqI)

lemma bit_u32_high: "32 \<le> n \<Longrightarrow> \<not> bit x n" for x :: u32
  using bit_imp_le_length [of x n] by auto

lemma u32_xor_cancel: "x XOR y = 0 \<longleftrightarrow> x = y" "c XOR x = c XOR y \<longleftrightarrow> x = y" "x XOR c = y XOR c \<longleftrightarrow> x = y"
  for x y c :: u32
  by (simp_all add: bit_eq_iff bit_simps) blast+

lemma crc_bit_step_zero: "crc_bit_step x = 0 \<longleftrightarrow> x = 0"
proof
  assume zero: "crc_bit_step x = 0"
  have "\<not> bit (drop_bit 1 x) 31" by (simp add: bit_simps bit_u32_high)
  moreover have "bit (0xEDB88320 :: u32) 31" by (simp add: bit_simps)
  ultimately have "bit (drop_bit 1 x XOR 0xEDB88320) 31" by (simp add: bit_xor_iff)
  then have "drop_bit 1 x XOR 0xEDB88320 \<noteq> 0" by (metis bit_0_eq bot_apply bot_bool_def)
  then have low: "\<not> bit x 0" and shift: "drop_bit 1 x = 0" using zero by (auto simp: crc_bit_step_def split: if_splits)
  have "\<not> bit x n" for n
  proof (cases n)
    case (Suc k)
    have "bit (drop_bit 1 x) k \<longleftrightarrow> bit x (Suc k)" by (simp add: bit_simps)
    then show ?thesis using shift Suc by simp
  qed (use low in simp)
  then show "x = 0" by (intro bit_word_eqI) simp
qed (simp add: crc_bit_step_def)

definition crc_byte_fun :: "u32 \<Rightarrow> u32" where
  "crc_byte_fun = crc_bit_step ^^ 8"

lemma crc_pow_xor: "(crc_bit_step ^^ n) (x XOR y) = (crc_bit_step ^^ n) x XOR (crc_bit_step ^^ n) y"
  by (induction n) (simp_all add: crc_bit_step_xor)

lemma crc_pow_zero: "(crc_bit_step ^^ n) x = 0 \<longleftrightarrow> x = 0"
  by (induction n) (simp_all add: crc_bit_step_zero)

lemma crc_byte_fun_inj: "crc_byte_fun x = crc_byte_fun y \<longleftrightarrow> x = y"
proof -
  have "crc_byte_fun x = crc_byte_fun y \<longleftrightarrow> crc_byte_fun (x XOR y) = 0"
    by (simp only: crc_byte_fun_def crc_pow_xor u32_xor_cancel)
  also have "\<dots> \<longleftrightarrow> x XOR y = 0" by (simp add: crc_byte_fun_def crc_pow_zero)
  also have "\<dots> \<longleftrightarrow> x = y" by (rule u32_xor_cancel)
  finally show ?thesis .
qed

lemma crc_pow_high:
  "\<forall>i < n. \<not> bit x i \<Longrightarrow> (crc_bit_step ^^ n) x = drop_bit n x"
proof (induction n)
  case (Suc n)
  then have "(crc_bit_step ^^ Suc n) x = crc_bit_step (drop_bit n x)" by simp
  also have "\<dots> = drop_bit 1 (drop_bit n x)" using Suc.prems by (simp add: crc_bit_step_def bit_simps)
  finally show ?case by simp
qed simp

text \<open>The table-driven step is eight steps of the bitwise algorithm.\<close>

lemma crc_step_bitwise: "crc_step crc b = crc_byte_fun (crc XOR ucast b)"
proof -
  define y where "y = crc XOR ucast b"
  have lt: "unat (y AND 0xFF) < 256"
    using unsigned_take_bit_eq [of 8 y, where ?'a = nat] take_bit_nat_less_exp [of 8 "unat y"]
    by (simp add: and_byte_mask)
  have entry: "crc32_table ! unat (y AND 0xFF) = crc_byte_fun (y AND 0xFF)"
    using lt by (simp add: crc32_table_def crc32_entry_def crc_byte_fun_def)
  have split: "y = (y AND 0xFF) XOR push_bit 8 (drop_bit 8 y)"
    unfolding and_byte_mask by (auto intro!: bit_word_eqI simp: bit_simps)
  have "crc_byte_fun (push_bit 8 (drop_bit 8 y)) = drop_bit 8 (push_bit 8 (drop_bit 8 y))"
    unfolding crc_byte_fun_def by (rule crc_pow_high) (simp add: bit_simps)
  also have "\<dots> = drop_bit 8 crc"
  proof (rule bit_word_eqI)
    fix n assume "n < LENGTH(32)"
    have "bit crc (8 + n) \<Longrightarrow> n < 24" using bit_u32_high [of "8 + n" crc] by linarith
    then show "bit (drop_bit 8 (push_bit 8 (drop_bit 8 y))) n = bit (drop_bit 8 crc) n"
      unfolding y_def by (auto simp: bit_simps bit_byte_high)
  qed
  finally have "crc_byte_fun y = crc_byte_fun (y AND 0xFF) XOR drop_bit 8 crc"
    by (subst split) (simp only: crc_byte_fun_def crc_pow_xor)
  then show ?thesis using entry by (simp add: crc_step_def y_def)
qed

lemma crc_step_inj:
  "crc_step c b = crc_step c' b \<longleftrightarrow> c = c'"
  "crc_step c b = crc_step c b' \<longleftrightarrow> b = b'"
proof -
  show "crc_step c b = crc_step c' b \<longleftrightarrow> c = c'" by (simp add: crc_step_bitwise crc_byte_fun_inj u32_xor_cancel)
  have "unat (ucast x :: u32) = unat x" for x :: byte
    using unsigned_less [of x, where ?'a = nat] by (simp add: unsigned_ucast_eq take_bit_nat_eq_self)
  then have "(ucast b :: u32) = ucast b' \<longleftrightarrow> b = b'" by (metis word_unat_eq_iff)
  then show "crc_step c b = crc_step c b' \<longleftrightarrow> b = b'" by (simp add: crc_step_bitwise crc_byte_fun_inj u32_xor_cancel)
qed

lemma crc_fold_inj:
  "fold (\<lambda>b crc. crc_step crc b) bs c = fold (\<lambda>b crc. crc_step crc b) bs c' \<longleftrightarrow> c = c'"
  by (induction bs arbitrary: c c') (simp_all add: crc_step_inj)

lemma crc_list_update:
  assumes "i < length bs" and "b \<noteq> bs ! i"
  shows "fold (\<lambda>b crc. crc_step crc b) (bs[i := b]) c \<noteq> fold (\<lambda>b crc. crc_step crc b) bs c"
proof -
  let ?f = "fold (\<lambda>b crc. crc_step crc b)"
  have "?f bs c = ?f (take i bs @ bs ! i # drop (Suc i) bs) c"
    using arg_cong [OF id_take_nth_drop [OF assms(1)]] by metis
  then have "?f bs c = ?f (drop (Suc i) bs) (crc_step (?f (take i bs) c) (bs ! i))" by simp
  moreover have "?f (bs[i := b]) c = ?f (drop (Suc i) bs) (crc_step (?f (take i bs) c) b)"
    by (simp add: upd_conv_take_nth_drop [OF assms(1)])
  ultimately show ?thesis using assms(2) by (simp add: crc_fold_inj crc_step_inj)
qed

text \<open>The checksum tells apart any two different endings of up to four bytes.\<close>

fun le_bytes :: "bytes \<Rightarrow> u32" where
  "le_bytes [] = 0"
| "le_bytes (b # bs) = ucast b XOR push_bit 8 (le_bytes bs)"

lemma le_bytes_high: "8 * length bs \<le> i \<Longrightarrow> \<not> bit (le_bytes bs) i"
  by (induction bs arbitrary: i) (auto simp: bit_simps bit_byte_high)

lemma le_bytes_inj: "length bs = length bs' \<Longrightarrow> length bs \<le> 4 \<Longrightarrow> le_bytes bs = le_bytes bs' \<Longrightarrow> bs = bs'"
proof (induction bs bs' rule: list_induct2)
  case (Cons b bs b' bs')
  have eq: "bit (le_bytes (b # bs)) i = bit (le_bytes (b' # bs')) i" for i using Cons.prems(2) by simp
  have "bit b i = bit b' i" if "i < 8" for i using eq [of i] that by (simp add: bit_simps)
  then have "b = b'" by (intro bit_word_eqI) simp
  have "bit (le_bytes bs) i = bit (le_bytes bs') i" if "i < 24" for i
    using eq [of "8 + i"] that by (simp add: bit_simps bit_byte_high)
  moreover have "bit (le_bytes bs) i = bit (le_bytes bs') i" if "24 \<le> i" for i
    using le_bytes_high [of bs i] le_bytes_high [of bs' i] Cons.hyps Cons.prems(1) that by simp
  ultimately have "le_bytes bs = le_bytes bs'" by (intro bit_word_eqI) (metis not_le)
  then show ?case using \<open>b = b'\<close> Cons.IH Cons.prems(1) by simp
qed simp

lemma crc_step_xor: "crc_step c b XOR y = crc_byte_fun (c XOR ucast b XOR push_bit 8 y)" if "\<forall>i \<ge> 24. \<not> bit y i"
proof -
  have "crc_byte_fun (push_bit 8 y) = drop_bit 8 (push_bit 8 y)"
    unfolding crc_byte_fun_def by (rule crc_pow_high) (simp add: bit_simps)
  also have "\<dots> = y" using that by (intro bit_word_eqI) (auto simp: bit_simps not_le [symmetric])
  finally show ?thesis unfolding crc_step_bitwise by (simp only: crc_byte_fun_def crc_pow_xor xor.assoc)
qed

lemma crc_fold_xor:
  "length bs = length bs' \<Longrightarrow> length bs \<le> 4 \<Longrightarrow>
     fold (\<lambda>b crc. crc_step crc b) bs c = fold (\<lambda>b crc. crc_step crc b) bs' c' \<longleftrightarrow> c XOR le_bytes bs = c' XOR le_bytes bs'"
proof (induction bs bs' arbitrary: c c' rule: list_induct2)
  case (Cons b bs b' bs')
  have high: "\<forall>i \<ge> 24. \<not> bit (le_bytes bs) i" "\<forall>i \<ge> 24. \<not> bit (le_bytes bs') i"
    using le_bytes_high [of bs] le_bytes_high [of bs'] Cons.hyps Cons.prems by auto
  have "fold (\<lambda>b crc. crc_step crc b) (b # bs) c = fold (\<lambda>b crc. crc_step crc b) (b' # bs') c'
      \<longleftrightarrow> crc_step c b XOR le_bytes bs = crc_step c' b' XOR le_bytes bs'" using Cons.IH Cons.prems by simp
  then show ?case unfolding crc_step_xor [OF high(1)] crc_step_xor [OF high(2)] crc_byte_fun_inj by (simp add: xor.assoc)
qed simp

lemma crc_burst:
  assumes "length bs = length bs'" and "length bs \<le> 4" and "bs \<noteq> bs'"
  shows "compute_crc (data @ bs) \<noteq> compute_crc (data @ bs')"
proof -
  have cancel: "c XOR a = c XOR b \<Longrightarrow> a = b" for a b c :: u32
    by (intro bit_word_eqI) (metis bit_xor_iff)
  show ?thesis using crc_fold_xor [OF assms(1,2)] le_bytes_inj [OF assms(1,2)] assms(3) cancel unfolding compute_crc_def fold_append comp_apply by blast
qed

section \<open>Encoded records parse back\<close>

definition encode_record :: "WALRecord \<Rightarrow> bytes" where
  "encode_record r =
     (let body = record_body (wr_type r) (wr_row_data r) (wr_row_id r) (wr_page_id r) (wr_row_slot r)
      in write_u32 (compute_crc body) @ body)"

definition encode_records :: "WALRecord list \<Rightarrow> bytes" where
  "encode_records rs = concat (map encode_record rs)"

definition wf_record :: "WALRecord \<Rightarrow> bool" where
  "wf_record r \<longleftrightarrow> length (wr_row_data r) + 21 < 2 ^ 32 \<and> wal_type_of_byte (wal_type_byte (wr_type r)) = wr_type r"

lemma encode_records_simps [simp]:
  "encode_records [] = []"
  "encode_records (r # rs) = encode_record r @ encode_records rs"
  "encode_records (rs @ rs') = encode_records rs @ encode_records rs'"
  by (simp_all add: encode_records_def)

lemma length_encode_record: "length (encode_record r) = 21 + length (wr_row_data r)"
  by (simp add: encode_record_def record_body_def Let_def)

lemma record_len_word:
  assumes "n + 21 < 2 ^ 32"
  shows "unat (17 + word_of_nat n :: u32) = 17 + n"
    and "\<not> (17 + word_of_nat n :: u32) < 17"
    and "17 < (17 + word_of_nat n :: u32) \<longleftrightarrow> 0 < n"
proof -
  show eq: "unat (17 + word_of_nat n :: u32) = 17 + n"
    using assms unat_u32_of_nat [of "17 + n"] by simp
  show "\<not> (17 + word_of_nat n :: u32) < 17" unfolding word_less_nat_alt eq by simp
  show "17 < (17 + word_of_nat n :: u32) \<longleftrightarrow> 0 < n" unfolding word_less_nat_alt eq by simp
qed

text \<open>The fields a parsed record is read from, for a record whose payload has been replaced.\<close>

lemma parse_one_fields:
  assumes "length pay + 21 < 2 ^ 32"
  shows "parse_one (write_u32 crc @ record_body t pay rid pid slot @ rest) =
    (if compute_crc (record_body t pay rid pid slot) \<noteq> crc then Inr None
     else Inr (Some (\<lparr>wr_type = wal_type_of_byte (wal_type_byte t), wr_row_id = rid, wr_page_id = pid, wr_row_slot = slot,
                      wr_row_data = pay\<rparr>, rest)))"
proof -
  define len where "len = (17 + word_of_nat (length pay) :: u32)"
  note l = record_len_word [OF assms, folded len_def]
  define meta where "meta = write_u8 (wal_type_byte t) @ write_u32 rid @ write_u32 pid @ write_u32 slot @ pay"
  have body: "record_body t pay rid pid slot = write_u32 len @ meta" by (simp add: record_body_def len_def meta_def)
  define mr where "mr = meta @ rest"
  have drops: "read_u32 (drop 1 mr) = Inr rid" "read_u32 (drop 5 mr) = Inr pid" "read_u32 (drop 9 mr) = Inr slot"
    "take (length pay) (drop 13 mr) = pay" "read_u8 mr = Inr (wal_type_byte t)"
    by (simp_all add: meta_def mr_def)
  have "length meta = 13 + length pay" by (simp add: meta_def)
  then have split: "take (unat len - 4) mr = meta" "drop (unat len - 4) mr = rest"
    "\<not> length mr < unat len - 4" using l(1) by (simp_all add: mr_def)
  have pay: "(if 17 < len then take (unat len - 17) (drop 13 mr) else []) = pay"
    using l(1,3) drops(4) by auto
  have "parse_one (write_u32 crc @ write_u32 len @ mr) =
      (if compute_crc (write_u32 len @ meta) \<noteq> crc then Inr None
       else Inr (Some (\<lparr>wr_type = wal_type_of_byte (wal_type_byte t), wr_row_id = rid, wr_page_id = pid, wr_row_slot = slot,
                        wr_row_data = (if 17 < len then take (unat len - 17) (drop 13 mr) else [])\<rparr>, rest)))"
    unfolding parse_one_def using l(2) split drops by (simp add: Let_def)
  then show ?thesis unfolding body pay by (simp add: mr_def)
qed

lemma parse_one_encode:
  "wf_record r \<Longrightarrow> parse_one (encode_record r @ rest) = Inr (Some (r, rest))"
  using parse_one_fields [of "wr_row_data r" "compute_crc (record_body (wr_type r) (wr_row_data r) (wr_row_id r) (wr_page_id r) (wr_row_slot r))"]
  by (simp add: wf_record_def encode_record_def Let_def)

lemma parse_records_encode:
  "\<forall>r \<in> set rs. wf_record r \<Longrightarrow>
   parse_records (encode_records rs @ tail) = bindR (parse_records tail) (\<lambda>ts. Inr (rs @ ts))"
proof (induction rs)
  case Nil
  then show ?case by (cases "parse_records tail") simp_all
next
  case (Cons r rs)
  then show ?case
    by (subst parse_records.simps) (simp add: parse_one_encode bindR_assoc)
qed

lemma parse_records_stop: "parse_one data = Inr None \<Longrightarrow> parse_records data = Inr []"
  by (subst parse_records.simps) simp

text \<open>
  A record cut short anywhere, even with other bytes after it that do not make up what is
  missing, ends the replay.
\<close>

lemma parse_one_torn:
  assumes "wf_record r" and "n < length (encode_record r)" and "8 \<le> n \<or> junk = []"
    and "n + length junk < length (encode_record r)"
  shows "parse_one (take n (encode_record r) @ junk) = Inr None"
proof (cases "8 \<le> n")
  case False
  then have "length (take n (encode_record r) @ junk) < 8" and "junk = []" using assms(3) by auto
  then show ?thesis
    using read_u32_total [of "take n (encode_record r)"] by (auto simp: parse_one_def not_less)
next
  case True
  define len where "len = (17 + word_of_nat (length (wr_row_data r)) :: u32)"
  obtain crc meta where enc: "encode_record r = write_u32 crc @ write_u32 len @ meta"
    by (auto simp: encode_record_def record_body_def Let_def len_def)
  have l: "unat len = 17 + length (wr_row_data r)"
    using record_len_word(1) [of "length (wr_row_data r)"] assms(1) by (simp add: len_def wf_record_def)
  have "take n (encode_record r) @ junk = write_u32 crc @ write_u32 len @ take (n - 8) meta @ junk"
    using True by (simp add: enc)
  moreover have "length (take (n - 8) meta @ junk) < unat len - 4"
    using assms(2,4) True l length_encode_record [of r] enc by simp
  ultimately show ?thesis by (simp add: parse_one_def Let_def)
qed

text \<open>A torn record filled up with other bytes fails its checksum, unless these happen to fit.\<close>

definition filled :: "WALRecord \<Rightarrow> nat \<Rightarrow> bytes \<Rightarrow> bytes" where
  "filled r n junk = take n (encode_record r) @ take (length (encode_record r) - n) junk"

lemma parse_one_filled:
  assumes "wf_record r" and "8 \<le> n" and "n \<le> length (encode_record r)" and "length (encode_record r) \<le> n + length junk"
    and "compute_crc (drop 4 (filled r n junk)) \<noteq> compute_crc (drop 4 (encode_record r))"
  shows "parse_one (take n (encode_record r) @ junk) = Inr None"
proof -
  define len where "len = (17 + word_of_nat (length (wr_row_data r)) :: u32)"
  obtain meta where enc: "encode_record r = write_u32 (compute_crc (write_u32 len @ meta)) @ write_u32 len @ meta"
    by (auto simp: encode_record_def record_body_def Let_def len_def)
  note l = record_len_word [of "length (wr_row_data r)", folded len_def]
  have short: "length (wr_row_data r) + 21 < 2 ^ 32" using assms(1) by (simp add: wf_record_def)
  have lm: "length meta = unat len - 4" using l(1) [OF short] length_encode_record [of r] enc by simp
  let ?rest = "take (n - 8) meta @ junk"
  have data: "take n (encode_record r) @ junk = write_u32 (compute_crc (write_u32 len @ meta)) @ write_u32 len @ ?rest"
    using assms(2) by (simp add: enc)
  have "n - 8 \<le> length meta" "length meta - (n - 8) \<le> length junk" using assms(2-4) by (simp_all add: enc)
  then have "take (unat len - 4) ?rest = take (n - 8) meta @ take (length meta - (n - 8)) junk" "unat len - 4 \<le> length ?rest"
    by (simp_all add: lm [symmetric])
  moreover have "drop 4 (filled r n junk) = write_u32 len @ take (n - 8) meta @ take (length meta - (n - 8)) junk"
    using assms(2) by (simp add: filled_def enc add.commute)
  ultimately show ?thesis using assms(5) l(2) [OF short] unfolding data by (simp add: parse_one_def Let_def enc)
qed

section \<open>The log under a kernel that makes progress\<close>

text \<open>System calls may transfer fewer bytes than asked for, but none fails or transfers none.\<close>

definition good_script :: "int list \<Rightarrow> bool" where
  "good_script s \<longleftrightarrow> (\<forall>n \<in> set s. 0 < n)"

lemma next_result_good:
  assumes "good_script (wal_script w)"
  obtains s where "good_script s" "next_result w = (Inr None, w\<lparr>wal_script := s\<rparr>)" "s = []" "wal_script w = []"
  | n s where "good_script s" "next_result w = (Inr (Some n), w\<lparr>wal_script := s\<rparr>)" "0 < n" "wal_script w = n # s"
proof (cases "wal_script w")
  case Nil
  then have "next_result w = (Inr None, w\<lparr>wal_script := []\<rparr>)" by (simp add: next_result_def)
  then show thesis using that(1) [of "[]"] Nil by (simp add: good_script_def)
next
  case (Cons n s)
  then show thesis using that(2) assms by (simp add: next_result_def good_script_def)
qed

lemma sys_ok_good:
  assumes "good_script (wal_script w)"
  obtains s where "good_script s" "sys_ok w = (Inr True, w\<lparr>wal_script := s\<rparr>)"
  using assms by (cases rule: next_result_good) (auto simp: sys_ok_def bindS_def)

lemma sys_fsync_good:
  assumes "good_script (wal_script w)"
  obtains s where "good_script s" "sys_fsync w = (Inr (), w\<lparr>wal_durable := wal_contents w, wal_script := s\<rparr>)"
  using assms by (cases rule: next_result_good) (auto simp: sys_fsync_def bindS_def wal_contents_def)

text \<open>Writing at the end of the file appends.\<close>

lemma sys_write_append:
  assumes "good_script (wal_script w)" and "wal_file w = Some c" and "wal_pos w = length c" and "bs \<noteq> []"
  obtains n s where "sys_write bs w = (Inr (int n), w\<lparr>wal_file := Some (c @ take n bs), wal_pos := length c + n, wal_script := s\<rparr>)"
    "0 < n" "n \<le> length bs" "good_script s" "n < length bs \<Longrightarrow> length s < length (wal_script w)" "length s \<le> length (wal_script w)"
  using assms(1)
proof (cases rule: next_result_good)
  case (1 s)
  then show thesis
    using that [of "length bs" s] assms by (simp add: sys_write_def bindS_def wal_contents_def file_put_def)
next
  case (2 n s)
  have "min (nat n) (length bs) \<noteq> 0" using 2(3) assms(4) by (simp add: min_def)
  moreover have "take (nat n) bs = take (min (nat n) (length bs)) bs" by (simp add: min_def)
  ultimately show thesis
    using that [of "min (nat n) (length bs)" s] assms 2 by (simp add: sys_write_def bindS_def wal_contents_def file_put_def)
qed

lemma safe_write_loop_append:
  assumes "good_script (wal_script w)" and "wal_file w = Some c" and "wal_pos w = length c"
    and "length (wal_script w) + 2 \<le> fuel"
  shows "\<exists>s. safe_write_loop fuel bs w = (Inr (), w\<lparr>wal_file := Some (c @ bs), wal_pos := length c + length bs, wal_script := s\<rparr>)
    \<and> good_script s"
  using assms
proof (induction fuel arbitrary: bs w c)
  case (Suc fuel)
  show ?case
  proof (cases "bs = []")
    case True
    then show ?thesis using Suc.prems by (intro exI [of _ "wal_script w"]) (simp flip: Suc.prems(2,3))
  next
    case False
    obtain n s where step: "sys_write bs w = (Inr (int n), w\<lparr>wal_file := Some (c @ take n bs), wal_pos := length c + n, wal_script := s\<rparr>)"
      "0 < n" "n \<le> length bs" "good_script s" "n < length bs \<Longrightarrow> length s < length (wal_script w)" "length s \<le> length (wal_script w)"
      using sys_write_append [OF Suc.prems(1-3) False] by metis
    let ?w = "w\<lparr>wal_file := Some (c @ take n bs), wal_pos := length c + n, wal_script := s\<rparr>"
    have unf: "safe_write_loop (Suc fuel) bs w = safe_write_loop fuel (drop n bs) ?w"
      using False step(1,2) by (simp add: bindS_apply)
    show ?thesis
    proof (cases "n = length bs")
      case True
      obtain k where "fuel = Suc k" using Suc.prems(4) by (cases fuel) auto
      then have "safe_write_loop fuel (drop n bs) ?w = (Inr (), ?w)" using True by simp
      then show ?thesis unfolding unf using True step(4) by auto
    next
      case False
      then have "length s + 2 \<le> fuel" using step(3,5) Suc.prems(4) by simp
      then have "\<exists>s'. safe_write_loop fuel (drop n bs) ?w = (Inr (), ?w\<lparr>wal_file := Some ((c @ take n bs) @ drop n bs),
          wal_pos := length (c @ take n bs) + length (drop n bs), wal_script := s'\<rparr>) \<and> good_script s'"
        using step(3,4) by (intro Suc.IH) simp_all
      then show ?thesis unfolding unf using step(3) by simp
    qed
  qed
qed simp

lemma safe_write_append:
  assumes "good_script (wal_script w)" and "wal_file w = Some c" and "wal_pos w = length c"
  obtains s where "safe_write bs w = (Inr (), w\<lparr>wal_file := Some (c @ bs), wal_pos := length c + length bs, wal_script := s\<rparr>)"
    "good_script s"
  using safe_write_loop_append [OF assms order_refl, of bs] by (auto simp: safe_write_def)

text \<open>
  The state of a log opened on a file with contents \<open>base\<close> (for a new file, the header) that has
  then been given the records \<open>rs\<close>: the first \<open>k\<close> are in the
  file, the first \<open>m\<close> of those survive a crash, and the rest are in the buffer.
\<close>

definition wal_holds :: "bytes \<Rightarrow> WAL \<Rightarrow> WALRecord list \<Rightarrow> nat \<Rightarrow> nat \<Rightarrow> bool" where
  "wal_holds base w rs k m \<longleftrightarrow>
     wal_is_open w \<and> wal_fd w \<and> good_script (wal_script w)
     \<and> m \<le> k \<and> k \<le> length rs
     \<and> wal_file w = Some (base @ encode_records (take k rs))
     \<and> wal_pos w = length (base @ encode_records (take k rs))
     \<and> wal_offset w = word_of_nat (length (base @ encode_records (take k rs)))
     \<and> wal_buf w = encode_records (drop k rs) \<and> length (wal_buf w) < 2 ^ 32
     \<and> wal_durable w = base @ encode_records (take m rs) \<and> (\<not> wal_buf_dirty w \<longrightarrow> m = k)
     \<and> (\<forall>r \<in> set rs. wf_record r)"

lemma length_wal_header: "length wal_header = 32"
  by (simp add: wal_header_def Let_def)

lemma flush_holds:
  assumes "wal_holds base w rs k m"
  obtains w' where "flush_write_buffer w = (Inr (), w')" "wal_holds base w' rs (length rs) m"
    "wal_buf_dirty w \<Longrightarrow> wal_buf_dirty w'"
proof (cases "wal_buf w = []")
  case True
  have "encode_record r \<noteq> []" for r using length_encode_record [of r] by auto
  then have "drop k rs = []" using True assms by (cases "drop k rs") (auto simp: wal_holds_def)
  then have "k = length rs" using assms by (simp add: wal_holds_def)
  then show thesis using that [of w] True assms by (simp add: flush_write_buffer_def)
next
  case False
  let ?c = "base @ encode_records (take k rs)"
  have h: "good_script (wal_script w)" "wal_file w = Some ?c" "wal_pos w = length ?c" "wal_buf w = encode_records (drop k rs)"
    "length (wal_buf w) < 2 ^ 32"
    using assms unfolding wal_holds_def by blast+
  have whole: "take (unat (word_of_nat (length (wal_buf w)) :: u32)) (wal_buf w) = wal_buf w"
    using h(5) by simp
  have app: "?c @ encode_records (drop k rs) = base @ encode_records rs"
    by (simp flip: encode_records_simps(3))
  obtain s where s: "safe_write (wal_buf w) w = (Inr (), w\<lparr>wal_file := Some (?c @ wal_buf w), wal_pos := length ?c + length (wal_buf w), wal_script := s\<rparr>)"
    "good_script s" using safe_write_append [OF h(1-3)] by metis
  let ?w = "w\<lparr>wal_file := Some (base @ encode_records rs), wal_pos := length (base @ encode_records rs), wal_script := s,
      wal_offset := word_of_nat (length (base @ encode_records rs)), wal_buf := [], wal_buf_dirty := True\<rparr>"
  have len: "length ?c + length (wal_buf w) = length (base @ encode_records rs)"
    using arg_cong [OF app, of length] h(4) by simp
  have "wal_offset w + word_of_nat (length (wal_buf w)) = word_of_nat (length (base @ encode_records rs))"
    using assms unfolding len [symmetric] by (simp add: wal_holds_def)
  moreover have "safe_write (take (unat (word_of_nat (length (wal_buf w)) :: u32)) (wal_buf w)) w =
      (Inr (), w\<lparr>wal_file := Some (base @ encode_records rs), wal_pos := length (base @ encode_records rs), wal_script := s\<rparr>)"
    unfolding whole using s(1) unfolding len by (simp only: h(4) app)
  ultimately have "flush_write_buffer w = (Inr (), ?w)"
    using False unfolding flush_write_buffer_def by (simp add: bindS_apply)
  moreover have "wal_holds base ?w rs (length rs) m" using assms s(2) by (simp add: wal_holds_def)
  ultimately show thesis using that by simp
qed

lemma fsync_holds:
  assumes "wal_holds base w rs (length rs) m"
  obtains w' where "fsync_if_dirty w = (Inr (), w')" "wal_holds base w' rs (length rs) (length rs)"
proof (cases "wal_buf_dirty w")
  case True
  obtain s where s: "good_script s" "sys_fsync w = (Inr (), w\<lparr>wal_durable := wal_contents w, wal_script := s\<rparr>)"
    using sys_fsync_good assms by (metis wal_holds_def)
  have "wal_contents w = base @ encode_records rs" using assms by (simp add: wal_contents_def wal_holds_def)
  then show thesis
    using that True s assms by (simp add: fsync_if_dirty_def bindS_def wal_holds_def)
next
  case False
  then show thesis using that [of w] assms by (auto simp: fsync_if_dirty_def wal_holds_def)
qed

lemma wal_sync_holds:
  assumes "wal_holds base w rs k m"
  obtains w' where "wal_sync w = (Inr (), w')" "wal_holds base w' rs (length rs) (length rs)"
proof -
  obtain w1 where w1: "flush_write_buffer w = (Inr (), w1)" "wal_holds base w1 rs (length rs) m"
    using flush_holds [OF assms] by metis
  obtain w2 where "fsync_if_dirty w1 = (Inr (), w2)" "wal_holds base w2 rs (length rs) (length rs)"
    using fsync_holds [OF w1(2)] by metis
  then show thesis using that w1 assms by (simp add: wal_sync_def bindS_def wal_holds_def)
qed

lemma ensure_space_holds:
  assumes "wal_holds base w rs k m" and "needed < 2 ^ 32"
  obtains w' k' where "ensure_buffer_space needed w = (Inr (), w')" "wal_holds base w' rs k' m"
    "length (wal_buf w') + needed < 2 ^ 32"
proof (cases "length (wal_buf w) + needed > WAL_BUFFER_SIZE")
  case True
  obtain w' where w': "flush_write_buffer w = (Inr (), w')" "wal_holds base w' rs (length rs) m"
    using flush_holds [OF assms(1)] by metis
  then have "wal_buf w' = []" by (simp add: wal_holds_def)
  then show thesis using that [of w' "length rs"] w' True assms(2) by (simp add: ensure_buffer_space_def)
next
  case False
  then show thesis using that [of w k] assms(1) by (simp add: ensure_buffer_space_def WAL_BUFFER_SIZE_def)
qed

definition make_record :: "WALType \<Rightarrow> bytes \<Rightarrow> u32 \<Rightarrow> u32 \<Rightarrow> u32 \<Rightarrow> WALRecord" where
  "make_record t payload rid pid slot =
     \<lparr>wr_type = t, wr_row_id = rid, wr_page_id = pid, wr_row_slot = slot, wr_row_data = payload\<rparr>"

lemma write_record_holds:
  assumes "wal_holds base w rs k m" and "wf_record (make_record t payload rid pid slot)"
  obtains w' k' where
    "write_record t payload rid pid slot w = (Inr (word_of_nat (length base + length (encode_records rs))), w')"
    "wal_holds base w' (rs @ [make_record t payload rid pid slot]) k' m"
proof -
  let ?r = "make_record t payload rid pid slot"
  have small: "length payload + 21 < 2 ^ 32" using assms(2) by (simp add: wf_record_def make_record_def)
  then have "4 + 17 + length payload < 2 ^ 32" by simp
  from ensure_space_holds [OF assms(1) this]
  obtain w1 k1 where w1: "ensure_buffer_space (4 + 17 + length payload) w = (Inr (), w1)" "wal_holds base w1 rs k1 m"
    "length (wal_buf w1) + (4 + 17 + length payload) < 2 ^ 32" by metis
  have enc: "encode_record ?r = write_u32 (compute_crc (record_body t payload rid pid slot)) @ record_body t payload rid pid slot"
    by (simp add: encode_record_def make_record_def Let_def)
  let ?w = "w1\<lparr>wal_buf := wal_buf w1 @ encode_record ?r\<rparr>"
  have h: "k1 \<le> length rs" "wal_buf w1 = encode_records (drop k1 rs)"
    "wal_offset w1 = word_of_nat (length (base @ encode_records (take k1 rs)))"
    using w1(2) unfolding wal_holds_def by blast+
  have "encode_records rs = encode_records (take k1 rs) @ encode_records (drop k1 rs)"
    by (simp flip: encode_records_simps(3))
  then have off: "wal_offset w1 + word_of_nat (length (wal_buf w1)) = word_of_nat (length base + length (encode_records rs))"
    unfolding h(2,3) by simp
  have "\<not> 2 ^ 32 \<le> length payload + 21" using small by simp
  moreover have "wal_is_open w" using assms(1) by (simp add: wal_holds_def)
  ultimately have "write_record t payload rid pid slot w = (Inr (word_of_nat (length base + length (encode_records rs))), ?w)"
    using w1(1) unfolding write_record_def by (simp add: bindS_def Let_def off enc)
  moreover have "wal_holds base ?w (rs @ [?r]) k1 m"
  proof -
    have "length (wal_buf w1 @ encode_record ?r) < 2 ^ 32"
      using w1(3) length_encode_record [of ?r] by (simp add: make_record_def)
    then show ?thesis using w1(2) h(1) assms(2) by (simp add: wal_holds_def)
  qed
  ultimately show thesis by (rule that)
qed

section \<open>Sequences of log calls\<close>

datatype wal_op =
    LogInsert u32 u32 u32 bytes bool
  | LogInsertDirect u32 u32 u32 bytes bool
  | LogDelete u32 u32 u32 bool
  | LogCommit
  | LogCheckpoint
  | LogSync

fun wal_call :: "wal_op \<Rightarrow> (WAL, unit) prog" where
  "wal_call (LogInsert rid pid slot row_data sync) = bindS (log_insert rid pid slot row_data sync) (\<lambda>_. returnS ())"
| "wal_call (LogInsertDirect rid pid slot row_data sync) = bindS (log_insert_direct rid pid slot row_data sync) (\<lambda>_. returnS ())"
| "wal_call (LogDelete rid pid slot sync) = bindS (log_delete rid pid slot sync) (\<lambda>_. returnS ())"
| "wal_call LogCommit = log_commit"
| "wal_call LogCheckpoint = log_checkpoint"
| "wal_call LogSync = wal_sync"

primrec wal_calls :: "wal_op list \<Rightarrow> (WAL, unit) prog" where
  "wal_calls [] = returnS ()"
| "wal_calls (c # cs) = bindS (wal_call c) (\<lambda>_. wal_calls cs)"

fun op_records :: "wal_op \<Rightarrow> WALRecord list" where
  "op_records (LogInsert rid pid slot row_data sync) = [make_record INSERT row_data rid pid slot]"
| "op_records (LogInsertDirect rid pid slot row_data sync) = [make_record INSERT row_data rid pid slot]"
| "op_records (LogDelete rid pid slot sync) = [make_record DELETE [] rid pid slot]"
| "op_records LogCommit = [make_record COMMIT [] 0 0 0]"
| "op_records LogCheckpoint = [make_record CHECKPOINT [] 0 0 0]"
| "op_records LogSync = []"

text \<open>The calls that return only once everything logged so far is on disk.\<close>

fun op_syncs :: "wal_op \<Rightarrow> bool" where
  "op_syncs (LogInsert rid pid slot row_data sync) = sync"
| "op_syncs (LogInsertDirect rid pid slot row_data sync) = sync"
| "op_syncs (LogDelete rid pid slot sync) = sync"
| "op_syncs LogCommit = False"
| "op_syncs LogCheckpoint = True"
| "op_syncs LogSync = True"

fun op_ok :: "wal_op \<Rightarrow> bool" where
  "op_ok (LogInsert rid pid slot row_data sync) = (length row_data + 21 < 2 ^ 32)"
| "op_ok (LogInsertDirect rid pid slot row_data sync) = (length row_data + 21 < 2 ^ 32)"
| "op_ok _ = True"

definition logged :: "wal_op list \<Rightarrow> WALRecord list" where
  "logged cs = concat (map op_records cs)"

lemma op_records_wf: "op_ok c \<Longrightarrow> r \<in> set (op_records c) \<Longrightarrow> wf_record r"
  by (cases c) (auto simp: wf_record_def make_record_def wal_type_of_byte_def)

text \<open>Writing one record and then possibly synchronising, the shape of all logging calls.\<close>

lemma logging_holds:
  assumes "wal_holds base w rs k m" and "wf_record (make_record t payload rid pid slot)"
  obtains off w' k' m' where
    "bindS (write_record t payload rid pid slot) (\<lambda>off. bindS (if sync then wal_sync else returnS ()) (\<lambda>_. returnS off)) w
       = (Inr off, w')"
    "wal_holds base w' (rs @ [make_record t payload rid pid slot]) k' m'" "m \<le> m'" "sync \<Longrightarrow> m' = length rs + 1"
proof -
  obtain off w1 k1 where w1: "write_record t payload rid pid slot w = (Inr off, w1)"
    "wal_holds base w1 (rs @ [make_record t payload rid pid slot]) k1 m"
    using write_record_holds [OF assms] by metis
  show thesis
  proof (cases sync)
    case True
    obtain w2 where "wal_sync w1 = (Inr (), w2)" "wal_holds base w2 (rs @ [make_record t payload rid pid slot]) (length rs + 1) (length rs + 1)"
      using wal_sync_holds [OF w1(2)] by (metis length_append_singleton Suc_eq_plus1)
    moreover have "m \<le> length rs + 1" using w1(2) by (simp add: wal_holds_def)
    ultimately show thesis using that [of off w2 "length rs + 1" "length rs + 1"] w1(1) True by (simp add: bindS_def)
  next
    case False
    then show thesis using that [of off w1 k1 m] w1 by (simp add: bindS_def)
  qed
qed

lemma wal_call_holds:
  assumes "wal_holds base w rs k m" and "op_ok c"
  shows "\<exists>w' k' m'. wal_call c w = (Inr (), w') \<and> wal_holds base w' (rs @ op_records c) k' m' \<and> m \<le> m'
    \<and> (op_syncs c \<longrightarrow> m' = length (rs @ op_records c))"
proof -
  have wf: "\<And>r. r \<in> set (op_records c) \<Longrightarrow> wf_record r" using op_records_wf assms(2) by blast
  note lg = logging_holds [OF assms(1)]
  show ?thesis
  proof (cases c)
    case (LogInsert rid pid slot row_data sync)
    show ?thesis
      by (rule lg [of INSERT row_data rid pid slot sync]) (use wf LogInsert in \<open>auto simp: log_insert_def bindS_def\<close>)
  next
    case (LogInsertDirect rid pid slot row_data sync)
    show ?thesis
      by (rule lg [of INSERT row_data rid pid slot sync]) (use wf LogInsertDirect in \<open>auto simp: log_insert_direct_def bindS_def\<close>)
  next
    case (LogDelete rid pid slot sync)
    show ?thesis
      by (rule lg [of DELETE "[]" rid pid slot sync]) (use wf LogDelete in \<open>auto simp: log_delete_def bindS_def\<close>)
  next
    case LogCommit
    show ?thesis
      by (rule lg [of COMMIT "[]" 0 0 0 False]) (use wf LogCommit in \<open>auto simp: log_commit_def bindS_def split: prod.splits sum.splits\<close>)
  next
    case LogCheckpoint
    obtain off w1 k1 where w1: "write_record CHECKPOINT [] 0 0 0 w = (Inr off, w1)"
      "wal_holds base w1 (rs @ [make_record CHECKPOINT [] 0 0 0]) k1 m"
      using write_record_holds [OF assms(1)] wf LogCheckpoint by (metis list.set_intros(1) op_records.simps(5))
    obtain w2 where "wal_sync w1 = (Inr (), w2)" "wal_holds base w2 (rs @ [make_record CHECKPOINT [] 0 0 0]) (length rs + 1) (length rs + 1)"
      using wal_sync_holds [OF w1(2)] by (metis length_append_singleton Suc_eq_plus1)
    moreover have "m \<le> length rs + 1" "wal_is_open w1" using w1(2) by (simp_all add: wal_holds_def)
    ultimately show ?thesis using w1(1) LogCheckpoint by (auto simp: log_checkpoint_def wal_sync_def bindS_def)
  next
    case LogSync
    obtain w2 where "wal_sync w = (Inr (), w2)" "wal_holds base w2 rs (length rs) (length rs)"
      using wal_sync_holds [OF assms(1)] by metis
    moreover have "m \<le> length rs" using assms(1) by (simp add: wal_holds_def)
    ultimately show ?thesis using LogSync by auto
  qed
qed

lemma wal_calls_snoc: "wal_calls (cs @ [c]) w = bindS (wal_calls cs) (\<lambda>_. wal_call c) w"
proof (induction cs arbitrary: w)
  case Nil
  show ?case by (cases "wal_call c w"; cases "fst (wal_call c w)") (auto simp: bindS_def)
next
  case (Cons d cs)
  show ?case by (simp add: bindS_def Cons [unfolded bindS_def] split: prod.split sum.split)
qed

text \<open>The calls up to the last one that synchronised.\<close>

definition acked :: "wal_op list \<Rightarrow> wal_op list" where
  "acked cs = rev (dropWhile (\<lambda>c. \<not> op_syncs c) (rev cs))"

lemma acked_snoc: "acked (cs @ [c]) = (if op_syncs c then cs @ [c] else acked cs)"
  by (simp add: acked_def)

lemma wal_calls_holds:
  assumes "wal_holds base w [] k0 m0" and "\<forall>c \<in> set cs. op_ok c"
  shows "\<exists>w' k m. wal_calls cs w = (Inr (), w') \<and> wal_holds base w' (logged cs) k m \<and> length (logged (acked cs)) \<le> m"
  using assms(2)
proof (induction cs rule: rev_induct)
  case Nil
  then show ?case using assms(1) by (auto simp: logged_def acked_def)
next
  case (snoc c cs)
  then obtain w1 k1 m1 where w1: "wal_calls cs w = (Inr (), w1)" "wal_holds base w1 (logged cs) k1 m1" "length (logged (acked cs)) \<le> m1"
    by auto
  have "op_ok c" using snoc.prems by simp
  from wal_call_holds [OF w1(2) this]
  obtain w2 k2 m2 where "wal_call c w1 = (Inr (), w2)" "wal_holds base w2 (logged cs @ op_records c) k2 m2" "m1 \<le> m2"
    "op_syncs c \<longrightarrow> m2 = length (logged cs @ op_records c)" by blast
  moreover have "logged (cs @ [c]) = logged cs @ op_records c" by (simp add: logged_def)
  moreover have "length (logged (acked (cs @ [c]))) \<le> m2"
    using calculation w1(3) by (auto simp: acked_snoc)
  ultimately show ?case using w1(1) by (auto simp: wal_calls_snoc bindS_def)
qed

lemma wal_contents_file: "wal_file w = Some c \<Longrightarrow> wal_contents w = c"
  by (simp add: wal_contents_def)

lemma wal_open_empty:
  assumes "good_script (wal_script w0)" and "\<not> wal_is_open w0" and "wal_contents w0 = []" and "wal_buf w0 = []"
  obtains w where "wal_open w0 = (Inr (), w)" "wal_holds wal_header w [] 0 0"
proof -
  obtain s1 where s1: "good_script s1" "sys_ok w0 = (Inr True, w0\<lparr>wal_script := s1\<rparr>)"
    using sys_ok_good [OF assms(1)] by blast
  let ?w1 = "w0\<lparr>wal_script := s1, wal_file := Some [], wal_pos := 0, wal_fd := True\<rparr>"
  obtain s2 where s2: "good_script s2" "sys_ok ?w1 = (Inr True, ?w1\<lparr>wal_script := s2\<rparr>)"
    using sys_ok_good [of ?w1] s1(1) by auto
  let ?w2 = "?w1\<lparr>wal_script := s2\<rparr>"
  obtain s3 where s3: "good_script s3"
    "safe_write wal_header ?w2 = (Inr (), ?w2\<lparr>wal_file := Some wal_header, wal_pos := length wal_header, wal_script := s3\<rparr>)"
    using safe_write_append [of ?w2 "[]" wal_header] s2(1) by auto
  let ?w3 = "?w2\<lparr>wal_file := Some wal_header, wal_pos := length wal_header, wal_script := s3\<rparr>"
  obtain s4 where s4: "good_script s4" "sys_fsync ?w3 = (Inr (), ?w3\<lparr>wal_durable := wal_contents ?w3, wal_script := s4\<rparr>)"
    using sys_fsync_good [of ?w3] s3(1) by auto
  let ?w4 = "?w3\<lparr>wal_durable := wal_header, wal_script := s4, wal_offset := 32, wal_is_open := True\<rparr>"
  have c: "wal_contents (w0\<lparr>wal_script := s1\<rparr>) = []" using assms(3) by (simp add: wal_contents_def)
  have "wal_open w0 = (Inr (), ?w4)"
    using s1(2) s2(2) s3(2) s4(2) assms(2) c
    by (simp add: wal_open_def bindS_def wal_contents_file WAL_HEADER_SIZE_def)
  moreover have "wal_holds wal_header ?w4 [] 0 0"
    using s4(1) assms(4) by (simp add: wal_holds_def length_wal_header)
  ultimately show thesis by (rule that)
qed

lemma wal_open_new:
  assumes "good_script s"
  obtains w where "wal_open (wal_object None s) = (Inr (), w)" "wal_holds wal_header w [] 0 0"
  by (rule wal_open_empty [of "wal_object None s"]) (use assms in \<open>simp_all add: wal_object_def wal_contents_def\<close>)

lemma wal_open_file:
  assumes "good_script (wal_script w0)" and "\<not> wal_is_open w0" and "wal_file w0 = Some c" and "c \<noteq> []"
  obtains s where "good_script s" "wal_open w0 = (Inr (), w0\<lparr>wal_script := s, wal_file := Some c, wal_fd := True,
    wal_offset := word_of_nat (length c), wal_pos := length c, wal_is_open := True\<rparr>)"
proof -
  obtain s1 where s1: "good_script s1" "sys_ok w0 = (Inr True, w0\<lparr>wal_script := s1\<rparr>)"
    using sys_ok_good [OF assms(1)] by blast
  let ?w1 = "w0\<lparr>wal_script := s1, wal_file := Some c, wal_pos := 0, wal_fd := True\<rparr>"
  obtain s2 where s2: "good_script s2" "sys_ok ?w1 = (Inr True, ?w1\<lparr>wal_script := s2\<rparr>)"
    using sys_ok_good [of ?w1] s1(1) by auto
  show thesis
    by (rule that [OF s2(1)]) (use s1(2) s2(2) assms(2,3,4) in \<open>simp add: wal_open_def bindS_def wal_contents_def\<close>)
qed

lemma wal_open_existing:
  assumes "good_script s" and "c \<noteq> []"
  obtains w where "wal_open (wal_object (Some c) s) = (Inr (), w)" "wal_is_open w" "good_script (wal_script w)"
    "wal_file w = Some c" "wal_buf w = []" "wal_pos w = length c" "wal_fd w" "\<not> wal_buf_dirty w" "wal_durable w = c"
    "wal_offset w = word_of_nat (length c)"
  by (rule wal_open_file [of "wal_object (Some c) s" c]) (use assms that in \<open>simp_all add: wal_object_def\<close>)

lemma wal_holds_opened:
  assumes "wal_is_open w" and "good_script (wal_script w)" and "wal_file w = Some c" and "wal_buf w = []"
    and "wal_pos w = length c" and "wal_fd w" and "wal_durable w = c" and "wal_offset w = word_of_nat (length c)"
  shows "wal_holds c w [] 0 0"
  using assms by (simp add: wal_holds_def)

section \<open>Reading the log back\<close>

lemma sys_read_good:
  assumes "good_script (wal_script w)" and "0 < len" and "wal_pos w < length (wal_contents w)"
  obtains n s where "sys_read len w = (Inr (take n (drop (wal_pos w) (wal_contents w))),
      w\<lparr>wal_pos := wal_pos w + min n (length (wal_contents w) - wal_pos w), wal_script := s\<rparr>)"
    "0 < n" "n \<le> len" "good_script s" "n < len \<Longrightarrow> length s < length (wal_script w)" "length s \<le> length (wal_script w)"
  using assms(1)
proof (cases rule: next_result_good)
  case (1 s)
  then show thesis
    using that [of len s] assms by (simp add: sys_read_def bindS_def wal_contents_def min.commute)
next
  case (2 n s)
  have "min len (nat n) \<noteq> 0" using 2(3) assms(2) by (simp add: min_def)
  then show thesis
    using that [of "min len (nat n)" s] assms 2 by (simp add: sys_read_def bindS_def wal_contents_def min.commute)
qed

lemma read_loop_all:
  assumes "good_script (wal_script w)" and "wal_file w = Some c" and "wal_pos w = base + length got" and "base \<le> length c"
    and "got = take (length got) (drop base c)" and "length c < 2 ^ 32"
    and "length (wal_script w) + 2 \<le> fuel"
  shows "\<exists>s. read_loop fuel (length c - base) got w = (Inr (drop base c), w\<lparr>wal_pos := length c, wal_script := s\<rparr>) \<and> good_script s"
  using assms
proof (induction fuel arbitrary: got w)
  case (Suc fuel)
  have got_le: "length got \<le> length c - base" using Suc.prems(5) by (metis length_drop length_take min.cobounded1 min.commute)
  show ?case
  proof (cases "length c - base \<le> length got")
    case True
    then have "got = drop base c" by (metis Suc.prems(5) length_drop take_all)
    then show ?thesis
      using True Suc.prems(1,3,4) got_le by (intro exI [of _ "wal_script w"]) (simp add: read_loop.simps)
  next
    case False
    let ?need = "length c - base - length got"
    have need: "unat (word_of_nat ?need :: u32) = ?need" using Suc.prems(6) by simp
    have "0 < ?need" "wal_pos w < length (wal_contents w)" using False Suc.prems(2-4) by (simp_all add: wal_contents_def)
    from sys_read_good [OF Suc.prems(1) this]
    obtain n s where r: "sys_read ?need w = (Inr (take n (drop (wal_pos w) (wal_contents w))),
        w\<lparr>wal_pos := wal_pos w + min n (length (wal_contents w) - wal_pos w), wal_script := s\<rparr>)"
      "0 < n" "n \<le> ?need" "good_script s" "n < ?need \<Longrightarrow> length s < length (wal_script w)" "length s \<le> length (wal_script w)"
      by metis
    let ?chunk = "take n (drop (wal_pos w) c)" and ?w = "w\<lparr>wal_pos := wal_pos w + n, wal_script := s\<rparr>"
    have avail: "n \<le> length c - wal_pos w" using r(3) Suc.prems(3) by simp
    have chunk: "?chunk \<noteq> []" "length ?chunk = n" using r(2) avail by auto
    have "take (length got + n) (drop base c) = take (length got) (drop base c) @ take n (drop (length got) (drop base c))"
      by (rule take_add)
    then have got': "got @ ?chunk = take (length (got @ ?chunk)) (drop base c)"
      using Suc.prems(3) chunk(2) by (simp only: Suc.prems(5) [symmetric] drop_drop length_append add.commute)
    have step: "read_loop (Suc fuel) (length c - base) got w = read_loop fuel (length c - base) (got @ ?chunk) ?w"
    proof -
      have "wal_contents w = c" using Suc.prems(2) by (simp add: wal_contents_def)
      then have "sys_read (unat (word_of_nat ?need :: u32)) w = (Inr ?chunk, ?w)"
        unfolding need using r(1) avail by simp
      then show ?thesis using False chunk(1) unfolding read_loop.simps(2) by (simp only: if_False bindS_apply(1))
    qed
    have "\<exists>s'. read_loop fuel (length c - base) (got @ ?chunk) ?w = (Inr (drop base c), ?w\<lparr>wal_pos := length c, wal_script := s'\<rparr>) \<and> good_script s'"
    proof (cases "n < ?need")
      case True
      then show ?thesis
        using r Suc.prems chunk by (intro Suc.IH got') simp_all
    next
      case False
      then have "length (got @ ?chunk) = length c - base" using chunk(2) r(3) got_le by simp
      moreover obtain f where "fuel = Suc f" using Suc.prems(7) by (cases fuel) auto
      moreover have "wal_pos w + n = length c" using False r(3) Suc.prems(3,4) got_le by simp
      ultimately show ?thesis using got' r(4) by (intro exI [of _ s]) (simp add: read_loop.simps)
    qed
    then show ?thesis unfolding step by simp
  qed
qed simp

lemma wal_replay_quiet:
  assumes "wal_is_open w" and "good_script (wal_script w)" and "wal_file w = Some c" and "wal_buf w = []"
    and "32 \<le> length c" and "length c < 2 ^ 32"
  shows "\<exists>s. good_script s \<and> wal_replay w = (parse_records (drop 32 c),
    w\<lparr>wal_durable := if wal_buf_dirty w then c else wal_durable w, wal_buf_dirty := False, wal_script := s, wal_pos := length c\<rparr>)"
proof -
  have flush: "flush_write_buffer w = (Inr (), w)" using assms(4) by (simp add: flush_write_buffer_def)
  define d where "d = (if wal_buf_dirty w then c else wal_durable w)"
  obtain s where w1: "fsync_if_dirty w = (Inr (), w\<lparr>wal_durable := d, wal_buf_dirty := False, wal_script := s\<rparr>)" "good_script s"
  proof (cases "wal_buf_dirty w")
    case True
    obtain s where "good_script s" "sys_fsync w = (Inr (), w\<lparr>wal_durable := wal_contents w, wal_script := s\<rparr>)"
      using sys_fsync_good [OF assms(2)] by metis
    then show thesis using that [of s] True assms(3) by (simp add: fsync_if_dirty_def bindS_def d_def wal_contents_def)
  next
    case False
    then show thesis using that [of "wal_script w"] assms(2) by (simp add: fsync_if_dirty_def d_def)
  qed
  let ?w1 = "w\<lparr>wal_durable := d, wal_buf_dirty := False, wal_script := s\<rparr>"
  obtain s2 where s2: "sys_ok ?w1 = (Inr True, ?w1\<lparr>wal_script := s2\<rparr>)" "good_script s2"
    using sys_ok_good [of ?w1] w1(2) by auto
  have size: "unat (word_of_nat (length c) :: u64) = length c" using assms(6) by (simp add: unat_of_nat)
  let ?w2 = "?w1\<lparr>wal_script := s2, wal_pos := WAL_HEADER_SIZE\<rparr>"
  obtain s3 where "read_loop (length s2 + 2) (length c - 32) [] ?w2 = (Inr (drop 32 c), ?w2\<lparr>wal_pos := length c, wal_script := s3\<rparr>)"
    "good_script s3" using read_loop_all [of ?w2 c 32 "[]" "length s2 + 2"] s2(2) assms(3,5,6) by (auto simp: WAL_HEADER_SIZE_def)
  then show ?thesis
    using assms(1,3,5) flush w1(1) s2(1) size unfolding d_def [symmetric]
    by (intro exI [of _ s3]) (simp add: wal_replay_def bindS_def wal_file_size_def wal_contents_def WAL_HEADER_SIZE_def)
qed

lemma wal_replay_holds:
  assumes "wal_holds base w rs k m" and "32 \<le> length base" and "length (base @ encode_records rs) < 2 ^ 32"
  obtains w' where "wal_replay w = (parse_records (drop 32 (base @ encode_records rs)), w')" "wal_holds base w' rs (length rs) (length rs)"
proof -
  obtain w2 where w2: "flush_write_buffer w = (Inr (), w2)" "wal_holds base w2 rs (length rs) m"
    using flush_holds [OF assms(1)] by metis
  have h: "wal_is_open w" "wal_is_open w2" "good_script (wal_script w2)" "wal_buf w2 = []" "wal_file w2 = Some (base @ encode_records rs)"
    using assms(1) w2(2) by (simp_all add: wal_holds_def)
  have "flush_write_buffer w2 = (Inr (), w2)" using h(4) by (simp add: flush_write_buffer_def)
  then have same: "wal_replay w = wal_replay w2" using w2(1) h(1,2) by (simp add: wal_replay_def bindS_def)
  obtain s where s: "good_script s" "wal_replay w2 = (parse_records (drop 32 (base @ encode_records rs)),
      w2\<lparr>wal_durable := if wal_buf_dirty w2 then base @ encode_records rs else wal_durable w2, wal_buf_dirty := False,
        wal_script := s, wal_pos := length (base @ encode_records rs)\<rparr>)"
    using wal_replay_quiet [OF h(2,3,5,4)] assms(2,3) by auto
  show thesis by (rule that, unfold same, rule s(2)) (use w2(2) s(1) in \<open>auto simp: wal_holds_def\<close>)
qed

text \<open>Closing leaves every record in the file; clearing starts an empty log.\<close>

lemma wal_close_holds:
  assumes "wal_holds base w rs k m"
  obtains w' where "wal_close w = (Inr (), w')" "wal_file w' = Some (base @ encode_records rs)" "good_script (wal_script w')"
    "\<not> wal_is_open w'" "wal_buf w' = []" "wal_durable w' = base @ encode_records (take m rs)"
proof -
  obtain w1 where w1: "flush_write_buffer w = (Inr (), w1)" "wal_holds base w1 rs (length rs) m" using flush_holds [OF assms] by metis
  have opened: "wal_is_open w" "wal_fd w" using assms by (simp_all add: wal_holds_def)
  show thesis
    by (rule that [of "w1\<lparr>wal_fd := False, wal_is_open := False\<rparr>"])
       (use opened w1 in \<open>simp_all add: wal_close_def bindS_def wal_holds_def\<close>)
qed

lemma wal_clear_holds:
  assumes "wal_holds base w rs k m"
  obtains w' where "wal_clear w = (Inr (), w')" "wal_holds wal_header w' [] 0 0"
proof -
  obtain w1 where w1: "flush_write_buffer w = (Inr (), w1)" "wal_holds base w1 rs (length rs) m" using flush_holds [OF assms] by metis
  obtain w2 where w2: "wal_close w1 = (Inr (), w2)" "good_script (wal_script w2)" "\<not> wal_is_open w2" "wal_buf w2 = []"
    by (rule wal_close_holds [OF w1(2)])
  obtain s where s: "good_script s" "sys_ok w2 = (Inr True, w2\<lparr>wal_script := s\<rparr>)" using sys_ok_good [OF w2(2)] by blast
  let ?w3 = "w2\<lparr>wal_script := s, wal_file := None, wal_durable := []\<rparr>"
  obtain w' where w': "wal_open ?w3 = (Inr (), w')" "wal_holds wal_header w' [] 0 0"
    by (rule wal_open_empty [of ?w3]) (use s(1) w2(3,4) in \<open>simp_all add: wal_contents_def\<close>)
  have "wal_clear w = (Inr (), w')"
    using assms w1(1) w2(1) s(2) w'(1) by (simp add: wal_clear_def bindS_def wal_holds_def)
  then show thesis using that w'(2) by blast
qed

text \<open>Logging on any file and then replaying it parses what the file and the new records make up.\<close>

lemma wal_calls_then_replay:
  assumes "wal_holds base w0 [] 0 0" and "\<forall>c \<in> set cs. op_ok c"
    and "length (base @ encode_records (logged cs)) < 2 ^ 32" and "32 \<le> length base"
  shows "\<exists>w. bindS (wal_calls cs) (\<lambda>_. wal_replay) w0 = (parse_records (drop 32 (base @ encode_records (logged cs))), w)"
proof -
  obtain w1 k m where w1: "wal_calls cs w0 = (Inr (), w1)" "wal_holds base w1 (logged cs) k m"
    using wal_calls_holds [OF assms(1,2)] by blast
  show ?thesis by (rule wal_replay_holds [OF w1(2) assms(4,3)]) (use w1(1) in \<open>auto simp: bindS_apply\<close>)
qed

section \<open>The contract of a framed log\<close>

text \<open>
  A log of self-delimiting records: a decoder takes whole records off the front and stops
  quietly at a record that is cut short. Then a log cut at any byte decodes to the records
  that are whole.
\<close>

locale framed_log =
  fixes wf :: "'r \<Rightarrow> bool" and enc :: "'r \<Rightarrow> bytes" and dec :: "bytes \<Rightarrow> 'r list result"
  assumes dec_nil: "dec [] = Inr []"
    and dec_step: "wf r \<Longrightarrow> dec (enc r @ rest) = bindR (dec rest) (\<lambda>rs. Inr (r # rs))"
    and dec_torn: "wf r \<Longrightarrow> n < length (enc r) \<Longrightarrow> dec (take n (enc r)) = Inr []"
begin

lemma dec_all: "\<forall>r \<in> set rs. wf r \<Longrightarrow> dec (concat (map enc rs)) = Inr rs"
  by (induction rs) (simp_all add: dec_nil dec_step)

lemma dec_cut:
  "\<forall>r \<in> set rs. wf r \<Longrightarrow>
   \<exists>j \<le> length rs. dec (take n (concat (map enc rs))) = Inr (take j rs)
     \<and> (\<forall>i \<le> length rs. length (concat (map enc (take i rs))) \<le> n \<longleftrightarrow> i \<le> j)"
proof (induction rs arbitrary: n)
  case Nil
  then show ?case by (simp add: dec_nil)
next
  case (Cons r rs)
  show ?case
  proof (cases "n < length (enc r)")
    case True
    have "length (concat (map enc (take i (r # rs)))) \<le> n \<longleftrightarrow> i = 0" for i
      using True by (cases i) auto
    then show ?thesis using True Cons.prems by (intro exI [of _ 0]) (auto simp: dec_torn)
  next
    case False
    obtain j where j: "j \<le> length rs" "dec (take (n - length (enc r)) (concat (map enc rs))) = Inr (take j rs)"
      "\<forall>i \<le> length rs. length (concat (map enc (take i rs))) \<le> n - length (enc r) \<longleftrightarrow> i \<le> j"
      using Cons.IH [of "n - length (enc r)"] Cons.prems by auto
    have "length (concat (map enc (take i (r # rs)))) \<le> n \<longleftrightarrow> i \<le> Suc j" if "i \<le> length (r # rs)" for i
    proof (cases i)
      case (Suc k)
      then have "length (concat (map enc (take k rs))) \<le> n - length (enc r) \<longleftrightarrow> k \<le> j" using j(3) that by simp
      then show ?thesis using Suc False by (simp add: Nat.le_diff_conv2 add.commute)
    qed simp
    then show ?thesis
      using False j(1,2) Cons.prems by (intro exI [of _ "Suc j"]) (auto simp: dec_step)
  qed
qed

end

interpretation wal_log: framed_log wf_record encode_record parse_records
proof (unfold_locales, goal_cases)
  case 1
  show ?case by (rule parse_records_stop) (simp add: parse_one_def)
next
  case (2 r rest)
  then show ?case using parse_records_encode [of "[r]" rest] by simp
next
  case (3 r n)
  then show ?case using parse_one_torn [of r n "[]"] by (intro parse_records_stop) simp
qed

section \<open>Properties\<close>

text \<open>
  C12: replay returns what was logged. On a fresh log, any sequence of logging calls (with or
  without synchronisation, across buffer flushes) followed by \<open>replay\<close> returns exactly the
  records of those calls, in order, with every field and payload intact; system calls that
  transfer only part of what was asked for make no difference.
\<close>

theorem wal_replay_returns_logged:
  assumes "good_script s" and "\<forall>c \<in> set cs. op_ok c" and "32 + length (encode_records (logged cs)) < 2 ^ 32"
  shows "\<exists>w. bindS wal_open (\<lambda>_. bindS (wal_calls cs) (\<lambda>_. wal_replay)) (wal_object None s) = (Inr (logged cs), w)"
proof -
  obtain w0 where w0: "wal_open (wal_object None s) = (Inr (), w0)" "wal_holds wal_header w0 [] 0 0"
    using wal_open_new [OF assms(1)] by metis
  have "length (wal_header @ encode_records (logged cs)) < 2 ^ 32" "32 \<le> length wal_header"
    using assms(3) by (simp_all add: length_wal_header)
  from wal_calls_then_replay [OF w0(2) assms(2) this] obtain w where
    w: "bindS (wal_calls cs) (\<lambda>_. wal_replay) w0 = (parse_records (drop 32 (wal_header @ encode_records (logged cs))), w)" by blast
  have "\<forall>r \<in> set (logged cs). wf_record r" using assms(2) op_records_wf by (fastforce simp: logged_def)
  then have "parse_records (drop 32 (wal_header @ encode_records (logged cs))) = Inr (logged cs)"
    using wal_log.dec_all by (simp add: length_wal_header encode_records_def)
  then show ?thesis using w0(1) w by (simp add: bindS_apply)
qed

theorem wal_replay_returns_logged_witness:
  "\<exists>w. bindS wal_open (\<lambda>_. bindS (wal_calls [LogInsert 7 1 0 [65, 66] True, LogDelete 7 1 0 False, LogCheckpoint]) (\<lambda>_. wal_replay))
     (wal_object None [1, 1, 9, 20]) =
   (Inr [make_record INSERT [65, 66] 7 1 0, make_record DELETE [] 7 1 0, make_record CHECKPOINT [] 0 0 0], w)"
  using wal_replay_returns_logged [of "[1, 1, 9, 20]" "[LogInsert 7 1 0 [65, 66] True, LogDelete 7 1 0 False, LogCheckpoint]"]
  by (simp add: good_script_def logged_def make_record_def length_encode_record)

text \<open>
  C11: a crash loses no synchronised record. After any sequence of logging calls, let the
  machine stop and leave any prefix of the log file that contains what has reached the disk.
  Opening that file and replaying it returns a prefix of the logged records which includes every
  record logged up to the last call that synchronised; a record cut in the middle is ignored.
\<close>

theorem wal_crash_recovery:
  assumes "good_script s" and "good_script s'" and "\<forall>c \<in> set cs. op_ok c"
    and "32 + length (encode_records (logged cs)) < 2 ^ 32"
  shows "\<exists>w. bindS wal_open (\<lambda>_. wal_calls cs) (wal_object None s) = (Inr (), w)
    \<and> (\<forall>n \<ge> length (wal_durable w).
         \<exists>j w'. bindS wal_open (\<lambda>_. wal_replay) (wal_object (Some (take n (wal_contents w))) s') = (Inr (take j (logged cs)), w')
           \<and> length (logged (acked cs)) \<le> j)"
proof -
  obtain w0 where w0: "wal_open (wal_object None s) = (Inr (), w0)" "wal_holds wal_header w0 [] 0 0"
    using wal_open_new [OF assms(1)] by metis
  obtain w k m where w: "wal_calls cs w0 = (Inr (), w)" "wal_holds wal_header w (logged cs) k m" "length (logged (acked cs)) \<le> m"
    using wal_calls_holds [OF w0(2) assms(3)] by blast
  let ?rs = "logged cs"
  have h: "m \<le> k" "k \<le> length ?rs" "wal_contents w = wal_header @ encode_records (take k ?rs)"
    "wal_durable w = wal_header @ encode_records (take m ?rs)" "\<forall>r \<in> set (take k ?rs). wf_record r"
    using w(2) by (auto simp: wal_holds_def wal_contents_def dest: in_set_takeD)
  have len_k: "length (encode_records (take k ?rs)) \<le> length (encode_records ?rs)"
    by (metis append_take_drop_id encode_records_simps(3) le_add1 length_append)
  have "\<exists>j w'. bindS wal_open (\<lambda>_. wal_replay) (wal_object (Some (take n (wal_contents w))) s') = (Inr (take j ?rs), w')
      \<and> length (logged (acked cs)) \<le> j" if n: "length (wal_durable w) \<le> n" for n
  proof -
    let ?c = "take n (wal_contents w)" and ?n = "n - 32"
    have n32: "32 \<le> n" using n h(4) by (simp add: length_wal_header)
    have c: "drop 32 ?c = take ?n (encode_records (take k ?rs))" "32 \<le> length ?c" "length ?c < 2 ^ 32"
      using n32 h(3) assms(4) len_k by (auto simp: length_wal_header drop_take)
    obtain j where j: "j \<le> length (take k ?rs)" "parse_records (take ?n (encode_records (take k ?rs))) = Inr (take j (take k ?rs))"
      "\<forall>i \<le> length (take k ?rs). length (encode_records (take i (take k ?rs))) \<le> ?n \<longrightarrow> i \<le> j"
      using wal_log.dec_cut [OF h(5), of ?n] by (auto simp: encode_records_def)
    have "m \<le> j" using j(3) h(1,2,4) n by (simp add: length_wal_header)
    have "?c \<noteq> []" using c(2) by auto
    then obtain w1 where "wal_open (wal_object (Some ?c) s') = (Inr (), w1)" "wal_is_open w1" "good_script (wal_script w1)"
      "wal_file w1 = Some ?c" "wal_buf w1 = []"
      using wal_open_existing [OF assms(2)] by metis
    moreover from this obtain w2 where "wal_replay w1 = (parse_records (drop 32 ?c), w2)"
      using wal_replay_quiet [of w1 ?c] c(2,3) by blast
    moreover have "take j (take k ?rs) = take j ?rs" using j(1) by simp
    ultimately have "bindS wal_open (\<lambda>_. wal_replay) (wal_object (Some ?c) s') = (Inr (take j ?rs), w2)"
      using c(1) j(2) by (simp add: bindS_def)
    moreover have "length (logged (acked cs)) \<le> j" using w(3) \<open>m \<le> j\<close> by simp
    ultimately show ?thesis by blast
  qed
  then show ?thesis using w0(1) w(1) by (auto simp: bindS_def)
qed

theorem wal_crash_recovery_witness:
  "let cs = [LogInsert 7 1 0 [65, 66] True, LogDelete 7 1 0 False] in
   \<exists>w. bindS wal_open (\<lambda>_. wal_calls cs) (wal_object None []) = (Inr (), w)
     \<and> (\<forall>n \<ge> length (wal_durable w).
          \<exists>j w'. bindS wal_open (\<lambda>_. wal_replay) (wal_object (Some (take n (wal_contents w))) [5]) = (Inr (take j (logged cs)), w')
            \<and> 1 \<le> j)"
  using wal_crash_recovery [of "[]" "[5]" "[LogInsert 7 1 0 [65, 66] True, LogDelete 7 1 0 False]"]
  by (simp add: good_script_def logged_def acked_def make_record_def length_encode_record Let_def)

text \<open>
  C13: a damaged record stops the replay. If one byte of a record after its length field is
  changed, whatever the new value, its checksum no longer matches: replay returns the records before
  it and neither the damaged record nor anything after it.
\<close>

theorem wal_corruption_detected:
  assumes "\<forall>r \<in> set rs. wf_record r" and "wf_record r"
    and "8 \<le> i" and "i < length (encode_record r)" and "b \<noteq> encode_record r ! i"
  shows "parse_records (encode_records rs @ (encode_record r)[i := b] @ rest) = Inr rs"
proof -
  let ?body = "record_body (wr_type r) (wr_row_data r) (wr_row_id r) (wr_page_id r) (wr_row_slot r)"
  define len where "len = (17 + word_of_nat (length (wr_row_data r)) :: u32)"
  define meta where "meta = drop 4 ?body"
  have body: "?body = write_u32 len @ meta" by (simp add: meta_def record_body_def len_def)
  have enc: "encode_record r = write_u32 (compute_crc ?body) @ write_u32 len @ meta"
    by (simp add: encode_record_def Let_def flip: body)
  have lm: "length meta = unat len - 4" "i - 8 < length meta"
    using assms(2,3,4) record_len_word(1) [of "length (wr_row_data r)"] length_encode_record [of r] enc
    by (simp_all add: len_def wf_record_def)
  let ?meta = "meta[i - 8 := b]"
  have upd: "(encode_record r)[i := b] = write_u32 (compute_crc ?body) @ write_u32 len @ ?meta"
  proof -
    have "\<not> i - 4 < 4" using assms(3) by simp
    then show ?thesis using assms(3) by (simp add: enc list_update_append)
  qed
  have "\<not> i < 4" "\<not> i - 4 < 4" using assms(3) by simp_all
  then have "b \<noteq> meta ! (i - 8)" using assms(5) by (simp add: enc nth_append)
  then have "compute_crc (write_u32 len @ ?meta) \<noteq> compute_crc (write_u32 len @ meta)"
    using crc_list_update [OF lm(2)] by (simp add: compute_crc_def)
  then have "parse_one ((encode_record r)[i := b] @ rest) = Inr None"
    using lm record_len_word(2) [of "length (wr_row_data r)"] assms(2)
    by (simp add: upd parse_one_def Let_def body len_def wf_record_def)
  then show ?thesis using parse_records_encode [OF assms(1)] parse_records_stop by simp
qed

theorem wal_corruption_detected_witness:
  "let good = make_record DELETE [] 4 1 2; bad = make_record INSERT [10, 20, 30] 5 1 3
   in parse_records (encode_records [good] @ (encode_record bad)[22 := encode_record bad ! 22 + 1] @ encode_record good) = Inr [good]"
  using wal_corruption_detected [of "[make_record DELETE [] 4 1 2]" "make_record INSERT [10, 20, 30] 5 1 3" 22
      "encode_record (make_record INSERT [10, 20, 30] 5 1 3) ! 22 + 1" "encode_record (make_record DELETE [] 4 1 2)"]
  by (simp add: wf_record_def make_record_def wal_type_of_byte_def length_encode_record Let_def)

text \<open>
  C25: records logged behind a torn tail are lost. When the file ends in a record that a crash cut short after its checksum and length,
  \<open>open\<close> leaves the fragment in place and appends behind it, and a later replay reads the new bytes as the missing part of the old record. It
  stops there, before all synchronised records logged since, whenever the new bytes are too few to fill the fragment up, or the missing part is at most four bytes and differs from the
  new ones, or in general the fragment filled up in this way fails its checksum.
\<close>

theorem wal_append_behind_torn_tail_lost:
  assumes "\<forall>r \<in> set rs. wf_record r" and "wf_record r" and "8 \<le> n" and "n < length (encode_record r)" and "\<forall>c \<in> set cs. op_ok c" and "good_script s"
    and "new = encode_records (logged cs)"
    and "n + length new < length (encode_record r)
      \<or> length (encode_record r) \<le> n + 4 \<and> filled r n new \<noteq> encode_record r
      \<or> compute_crc (drop 4 (filled r n new)) \<noteq> compute_crc (drop 4 (encode_record r))"
    and "32 + length (encode_records rs) + length (encode_record r) + length new < 2 ^ 32"
  shows "\<exists>w. bindS wal_open (\<lambda>_. bindS (wal_calls cs) (\<lambda>_. wal_replay))
      (wal_object (Some (wal_header @ encode_records rs @ take n (encode_record r))) s) = (Inr rs, w)"
proof -
  let ?base = "wal_header @ encode_records rs @ take n (encode_record r)"
  have "?base \<noteq> []" using length_wal_header by auto
  then obtain w0 where w0: "wal_open (wal_object (Some ?base) s) = (Inr (), w0)" "wal_holds ?base w0 [] 0 0"
    using wal_open_existing [OF assms(6)] by (metis (no_types, lifting) wal_holds_opened)
  have "length (?base @ encode_records (logged cs)) < 2 ^ 32" "32 \<le> length ?base"
    using assms(4,7,9) by (simp_all add: length_wal_header)
  from wal_calls_then_replay [OF w0(2) assms(5) this] obtain w where
    w: "bindS (wal_calls cs) (\<lambda>_. wal_replay) w0 = (parse_records (drop 32 (?base @ new)), w)" unfolding assms(7) by blast
  have "parse_one (take n (encode_record r) @ new) = Inr None"
  proof (cases "n + length new < length (encode_record r)")
    case True
    then show ?thesis using assms(2-4) by (intro parse_one_torn) simp_all
  next
    case False
    have split: "drop 4 (filled r n new) = drop 4 (take n (encode_record r)) @ take (length (encode_record r) - n) new"
      "drop 4 (encode_record r) = drop 4 (take n (encode_record r)) @ drop n (encode_record r)"
      using assms(3,4) append_take_drop_id [of n "encode_record r"] drop_append [of 4 "take n (encode_record r)" "drop n (encode_record r)"]
      by (simp_all add: filled_def)
    have "filled r n new \<noteq> encode_record r \<Longrightarrow> take (length (encode_record r) - n) new \<noteq> drop n (encode_record r)"
      using append_take_drop_id [of n "encode_record r"] by (auto simp: filled_def)
    then have "compute_crc (drop 4 (filled r n new)) \<noteq> compute_crc (drop 4 (encode_record r))"
      using False assms(4,8) le_diff_conv [of "length (encode_record r)" n 4] crc_burst [of "take (length (encode_record r) - n) new" "drop n (encode_record r)" "drop 4 (take n (encode_record r))"]
      unfolding split by (auto simp: add.commute)
    then show ?thesis using False assms(2-4) by (intro parse_one_filled) simp_all
  qed
  then have "parse_records (drop 32 (?base @ new)) = Inr rs"
    using parse_records_encode [OF assms(1)] parse_records_stop by (simp add: length_wal_header)
  then show ?thesis using w0(1) w by (simp add: bindS_apply)
qed

text \<open>
  The witness is a deletion that lost its last byte, the highest one of its slot, with an insertion logged and synchronised behind it. That byte is zero or one here, and one of the
  two differs from the first byte of the insertion.
\<close>

theorem wal_append_behind_torn_tail_lost_witness:
  "let rs = [make_record DELETE [] 4 1 2] in
   \<exists>slot \<in> {0, 0x1000000}. \<exists>w. bindS wal_open (\<lambda>_. bindS (wal_calls [LogInsert 9 1 0 [65, 66] True]) (\<lambda>_. wal_replay))
      (wal_object (Some (wal_header @ encode_records rs @ take 20 (encode_record (make_record DELETE [] 8 1 slot)))) []) = (Inr rs, w)"
proof -
  let ?cs = "[LogInsert 9 1 0 [65, 66] True]"
  let ?new = "encode_records (logged ?cs)"
  define slot where "slot = (if take 1 ?new = [0] then 0x1000000 else 0 :: u32)"
  let ?r = "make_record DELETE [] 8 1 slot"
  have len: "length (encode_record ?r) = 21" "length ?new = 23" by (simp_all add: length_encode_record make_record_def logged_def)
  have "drop 20 (encode_record ?r) = [if take 1 ?new = [0] then 1 else 0]"
    by (simp add: encode_record_def record_body_def make_record_def write_u32_def write_u8_def Let_def slot_def)
  then have "take 1 ?new \<noteq> drop 20 (encode_record ?r)" by auto
  then have "filled ?r 20 ?new \<noteq> encode_record ?r"
    using len unfolding filled_def by (metis append_take_drop_id diff_add_inverse numeral_plus_one same_append_eq semiring_norm(5))
  then have "\<exists>w. bindS wal_open (\<lambda>_. bindS (wal_calls ?cs) (\<lambda>_. wal_replay))
      (wal_object (Some (wal_header @ encode_records [make_record DELETE [] 4 1 2] @ take 20 (encode_record ?r))) []) = (Inr [make_record DELETE [] 4 1 2], w)"
    by (intro wal_append_behind_torn_tail_lost [OF _ _ _ _ _ _ refl])
       (use len in \<open>simp_all add: wf_record_def make_record_def wal_type_of_byte_def length_encode_record good_script_def\<close>)
  then show ?thesis unfolding Let_def by (intro bexI [of _ slot]) (auto simp: slot_def)
qed

end
