(* ===== verification/Migrate.thy ===== *)
theory Migrate
  imports Serialise Xdl_Types
begin

text \<open>
  \<open>src/migrate.cpp\<close>: the schema codec used by the storage layer, and \<open>SchemaMigrator\<close>. The
  cursor of the decoder is the list of the bytes not yet read.
\<close>

section \<open>Schema codec\<close>

definition serialise_field :: "FieldDef \<Rightarrow> bytes" where
  "serialise_field f =
     (let nlen = (if 0xFFFF < length (fd_name f) then 0xFFFF else length (fd_name f))
      in write_u16 (word_of_nat nlen) @ string_bytes (take nlen (fd_name f)) @ write_u8 (field_type_code (fd_type f)))"

definition serialise_schema :: "Schema \<Rightarrow> bytes" where
  "serialise_schema schema =
     write_u32 (s_version schema) @ write_u32 (word_of_nat (length (s_fields schema)))
     @ concat (map serialise_field (s_fields schema))"

definition schema_read_u32 :: "bytes \<Rightarrow> (u32 \<times> bytes) result" where
  "schema_read_u32 p =
     (if length p < 4 then Inl CorruptionError
      else bindR (read_u32 p) (\<lambda>v. Inr (v, drop 4 p)))"

definition schema_read_u16 :: "bytes \<Rightarrow> (u16 \<times> bytes) result" where
  "schema_read_u16 p =
     (if length p < 2 then Inl CorruptionError
      else bindR (read_u16 p) (\<lambda>v. Inr (v, drop 2 p)))"

definition deserialise_field :: "bytes \<Rightarrow> (FieldDef \<times> bytes) result" where
  "deserialise_field p =
     bindR (schema_read_u16 p) (\<lambda>(nlen, p).
       if length p < unat nlen + 1 then Inl CorruptionError
       else bindR (mem_read (unat nlen) p) (\<lambda>name.
            let p = drop (unat nlen) p
            in bindR (read_u8 p) (\<lambda>ty.
                 Inr (\<lparr>fd_name = bytes_string name, fd_type = field_type_of_code ty\<rparr>, drop 1 p))))"

primrec deserialise_fields :: "nat \<Rightarrow> bytes \<Rightarrow> FieldDef list result" where
  "deserialise_fields 0 p = Inr []"
| "deserialise_fields (Suc n) p =
     bindR (deserialise_field p) (\<lambda>(f, p). bindR (deserialise_fields n p) (\<lambda>fs. Inr (f # fs)))"

definition deserialise_schema :: "bytes \<Rightarrow> Schema result" where
  "deserialise_schema p =
     bindR (schema_read_u32 p) (\<lambda>(ver, p).
     bindR (schema_read_u32 p) (\<lambda>(count, p).
       if count = 0 \<or> 1024 < count then Inl CorruptionError
       else bindR (deserialise_fields (unat count) p) (\<lambda>fs.
            Inr \<lparr>s_fields = fs, s_version = ver\<rparr>)))"

section \<open>Migrations\<close>

datatype MigrateOp = ADD | DROP | RENAME

record MigrateEntry =
  me_op :: MigrateOp
  me_field_name :: string
  me_new_name :: string
  me_type :: FieldType
  me_default :: FieldValue

record SchemaMigrate =
  sm_from :: u32
  sm_to :: u32
  sm_ops :: "MigrateEntry list"

text \<open>The first loop: fields present in both schemas, by name; the others get the default value.\<close>

definition copy_field :: "Row \<Rightarrow> Schema \<Rightarrow> FieldDef \<Rightarrow> FieldValue result" where
  "copy_field old_row old_schema nf =
     (let oi = field_index old_schema (fd_name nf)
      in if 0 \<le> oi then vec_index (row_fields old_row) (nat oi) else Inr (VUint32 0))"

fun copy_fields :: "Row \<Rightarrow> Schema \<Rightarrow> FieldDef list \<Rightarrow> FieldValue list result" where
  "copy_fields old_row old_schema [] = Inr []"
| "copy_fields old_row old_schema (nf # nfs) =
     bindR (copy_field old_row old_schema nf) (\<lambda>v.
     bindR (copy_fields old_row old_schema nfs) (\<lambda>vs. Inr (v # vs)))"

definition apply_op :: "Row \<Rightarrow> Schema \<Rightarrow> Schema \<Rightarrow> MigrateEntry \<Rightarrow> FieldValue list \<Rightarrow> FieldValue list result" where
  "apply_op old_row old_schema new_schema oper new_fields =
     (case me_op oper of
        RENAME \<Rightarrow>
          let ni = field_index new_schema (me_new_name oper); oi = field_index old_schema (me_field_name oper)
          in if 0 \<le> ni \<and> 0 \<le> oi
             then bindR (vec_index (row_fields old_row) (nat oi)) (\<lambda>v. Inr (new_fields[nat ni := v]))
             else Inr new_fields
      | ADD \<Rightarrow>
          let ni = field_index new_schema (me_field_name oper)
          in if 0 \<le> ni \<and> ni < int (length new_fields) then Inr (new_fields[nat ni := me_default oper]) else Inr new_fields
      | DROP \<Rightarrow> Inr new_fields)"

fun apply_ops :: "Row \<Rightarrow> Schema \<Rightarrow> Schema \<Rightarrow> MigrateEntry list \<Rightarrow> FieldValue list \<Rightarrow> FieldValue list result" where
  "apply_ops old_row old_schema new_schema [] vs = Inr vs"
| "apply_ops old_row old_schema new_schema (e # es) vs =
     bindR (apply_op old_row old_schema new_schema e vs) (apply_ops old_row old_schema new_schema es)"

definition apply_to_row :: "Row \<Rightarrow> Schema \<Rightarrow> Schema \<Rightarrow> SchemaMigrate \<Rightarrow> Row result" where
  "apply_to_row old_row old_schema new_schema migration =
     bindR (copy_fields old_row old_schema (s_fields new_schema)) (\<lambda>vs.
     bindR (apply_ops old_row old_schema new_schema (sm_ops migration) vs) (\<lambda>vs.
     Inr \<lparr>row_id = row_id old_row, row_fields = vs\<rparr>))"

definition is_compatible :: "Schema \<Rightarrow> Schema \<Rightarrow> SchemaMigrate \<Rightarrow> bool" where
  "is_compatible old_schema new_schema migration =
     list_all (\<lambda>nf. 0 \<le> field_index old_schema (fd_name nf)
         \<or> list_ex (\<lambda>e. me_op e = ADD \<and> me_field_name e = fd_name nf) (sm_ops migration))
       (s_fields new_schema)"

section \<open>The codec\<close>

definition wf_field :: "FieldDef \<Rightarrow> bool" where
  "wf_field f \<longleftrightarrow> length (fd_name f) \<le> 65535 \<and> field_type_of_code (field_type_code (fd_type f)) = fd_type f"

lemma deserialise_serialise_field:
  assumes "wf_field f"
  shows "deserialise_field (serialise_field f @ rest) = Inr (f, rest)"
proof -
  let ?n = "length (fd_name f)"
  have n: "?n \<le> 65535" and t: "field_type_of_code (field_type_code (fd_type f)) = fd_type f"
    using assms by (simp_all add: wf_field_def)
  have u: "unat (word_of_nat ?n :: u16) = ?n" using n by simp
  have bytes: "serialise_field f @ rest = write_u16 (word_of_nat ?n) @ string_bytes (fd_name f) @ write_u8 (field_type_code (fd_type f)) @ rest"
    using n by (simp add: serialise_field_def Let_def)
  have "schema_read_u16 (serialise_field f @ rest) =
      Inr (word_of_nat ?n, string_bytes (fd_name f) @ write_u8 (field_type_code (fd_type f)) @ rest)"
    by (simp add: bytes schema_read_u16_def)
  then show ?thesis
    using t by (simp add: deserialise_field_def u mem_read_append Let_def)
qed

lemma deserialise_serialise_fields:
  "\<forall>f \<in> set fs. wf_field f \<Longrightarrow>
   deserialise_fields (length fs) (concat (map serialise_field fs) @ rest) = Inr fs"
  by (induction fs) (simp_all add: deserialise_serialise_field)

lemma deserialise_serialise_schema:
  assumes "s_fields s \<noteq> []" and "length (s_fields s) \<le> 1024"
    and "\<forall>f \<in> set (s_fields s). length (fd_name f) \<le> 65535 \<and> is_enumerator (fd_type f)"
  shows "deserialise_schema (serialise_schema s @ rest) = Inr s"
proof -
  let ?n = "length (s_fields s)"
  have "\<forall>f \<in> set (s_fields s). wf_field f" using assms(3) by (simp add: wf_field_def)
  moreover have "unat (word_of_nat ?n :: u32) = ?n" using assms(2) by simp
  moreover have "(word_of_nat ?n :: u32) \<noteq> 0" "\<not> 1024 < (word_of_nat ?n :: u32)"
    using assms(1,2) calculation(2) by (auto simp: word_less_nat_alt simp flip: unat_eq_0)
  ultimately show ?thesis
    by (simp add: deserialise_schema_def serialise_schema_def schema_read_u32_def deserialise_serialise_fields)
qed

text \<open>Whatever the bytes, the decoder either returns or reports corruption; it never reads past the end.\<close>

lemma schema_read_only_fails:
  "only_fails {CorruptionError} (schema_read_u32 p)" "only_fails {CorruptionError} (schema_read_u16 p)"
  by (cases p rule: read_u32.cases; simp add: schema_read_u32_def)
     (cases p rule: read_u16.cases; simp add: schema_read_u16_def)

lemma deserialise_field_only_fails: "only_fails {CorruptionError} (deserialise_field p)"
  unfolding deserialise_field_def
proof (rule only_fails_bindR [OF schema_read_only_fails(2)])
  fix r assume "schema_read_u16 p = Inr r"
  obtain nlen q where r: "r = (nlen, q)" by (cases r)
  have "\<exists>v. read_u8 (drop (unat nlen) q) = Inr v" if "\<not> length q < unat nlen + 1"
    using that by (cases "drop (unat nlen) q") auto
  then show "only_fails {CorruptionError} (case r of (nlen, p) \<Rightarrow>
      if length p < unat nlen + 1 then Inl CorruptionError
      else bindR (mem_read (unat nlen) p) (\<lambda>name. let p = drop (unat nlen) p
        in bindR (read_u8 p) (\<lambda>ty. Inr (\<lparr>fd_name = bytes_string name, fd_type = field_type_of_code ty\<rparr>, drop 1 p))))"
    by (auto simp: r mem_read_def Let_def)
qed

lemma deserialise_fields_only_fails: "only_fails {CorruptionError} (deserialise_fields n p)"
proof (induction n arbitrary: p)
  case (Suc n)
  show ?case
    by (auto intro!: only_fails_bindR deserialise_field_only_fails Suc.IH split: prod.split)
qed simp

section \<open>Migrated rows\<close>

text \<open>What the entries of a migration have to satisfy for its rows to fit the new schema.\<close>

definition migration_typed :: "Schema \<Rightarrow> Schema \<Rightarrow> SchemaMigrate \<Rightarrow> bool" where
  "migration_typed old new mig \<longleftrightarrow>
     (\<forall>nf \<in> set (s_fields new). \<forall>f \<in> set (s_fields old). fd_name f = fd_name nf \<longrightarrow> fd_type f = fd_type nf)
     \<and> (\<forall>e \<in> set (sm_ops mig). \<forall>nf \<in> set (s_fields new).
          (me_op e = ADD \<and> me_field_name e = fd_name nf \<longrightarrow> value_has_type (fd_type nf) (me_default e))
          \<and> (me_op e = RENAME \<and> me_new_name e = fd_name nf \<longrightarrow>
               (\<forall>f \<in> set (s_fields old). fd_name f = me_field_name e \<longrightarrow> fd_type f = fd_type nf)))"

lemma old_value_typed:
  assumes "row_typed old r" and "0 \<le> field_index old name"
  obtains f v where "f \<in> set (s_fields old)" "fd_name f = name"
    "vec_index (row_fields r) (nat (field_index old name)) = Inr v" "value_has_type (fd_type f) v"
proof -
  note i = field_index_nonneg [OF assms(2)]
  have "value_has_type (fd_type (s_fields old ! nat (field_index old name))) (row_fields r ! nat (field_index old name))"
    using row_typed_nth [OF assms(1)] i by blast
  then show thesis using that i row_typed_length [OF assms(1)] by (metis nth_mem vec_index_Inr)
qed

lemma copy_fields_typed:
  assumes "row_typed old r"
    and "\<forall>nf \<in> set nfs. \<forall>f \<in> set (s_fields old). fd_name f = fd_name nf \<longrightarrow> fd_type f = fd_type nf"
  shows "\<exists>vs. copy_fields r old nfs = Inr vs \<and> length vs = length nfs
    \<and> (\<forall>i < length nfs. 0 \<le> field_index old (fd_name (nfs ! i)) \<longrightarrow> value_has_type (fd_type (nfs ! i)) (vs ! i))"
  using assms(2)
proof (induction nfs)
  case (Cons nf nfs)
  have "\<forall>nf \<in> set nfs. \<forall>f \<in> set (s_fields old). fd_name f = fd_name nf \<longrightarrow> fd_type f = fd_type nf" using Cons.prems by simp
  from Cons.IH [OF this] obtain vs where vs: "copy_fields r old nfs = Inr vs" "length vs = length nfs"
    "\<forall>i < length nfs. 0 \<le> field_index old (fd_name (nfs ! i)) \<longrightarrow> value_has_type (fd_type (nfs ! i)) (vs ! i)" by blast
  obtain v where v: "copy_field r old nf = Inr v" "0 \<le> field_index old (fd_name nf) \<longrightarrow> value_has_type (fd_type nf) v"
  proof (cases "0 \<le> field_index old (fd_name nf)")
    case True
    from old_value_typed [OF assms(1) this] obtain f v where f: "f \<in> set (s_fields old)" "fd_name f = fd_name nf"
      and v: "vec_index (row_fields r) (nat (field_index old (fd_name nf))) = Inr v" "value_has_type (fd_type f) v" .
    have "fd_type f = fd_type nf" using Cons.prems f by simp
    then show thesis using that [of v] v True by (simp add: copy_field_def)
  next
    case False
    then show thesis using that by (simp add: copy_field_def)
  qed
  have "value_has_type (fd_type ((nf # nfs) ! i)) ((v # vs) ! i)"
    if "i < length (nf # nfs)" "0 \<le> field_index old (fd_name ((nf # nfs) ! i))" for i
    using that v(2) vs(3) by (cases i) auto
  then show ?case using v(1) vs(1,2) by auto
qed simp

abbreviation typed_at :: "Schema \<Rightarrow> FieldValue list \<Rightarrow> nat \<Rightarrow> bool" where
  "typed_at s vs i \<equiv> value_has_type (fd_type (s_fields s ! i)) (vs ! i)"

lemma apply_op_typed:
  assumes "row_typed old r" and "migration_typed old new mig" and "e \<in> set (sm_ops mig)"
    and "length vs = length (s_fields new)" and "distinct (map fd_name (s_fields new))"
  shows "\<exists>vs'. apply_op r old new e vs = Inr vs' \<and> length vs' = length vs
    \<and> (\<forall>i < length vs. typed_at new vs i \<longrightarrow> typed_at new vs' i)
    \<and> (\<forall>i < length vs. me_op e = ADD \<and> me_field_name e = fd_name (s_fields new ! i) \<longrightarrow> typed_at new vs' i)"
proof (cases "me_op e")
  case ADD
  let ?ni = "field_index new (me_field_name e)"
  show ?thesis
  proof (cases "0 \<le> ?ni")
    case True
    note i = field_index_nonneg [OF True]
    then have "value_has_type (fd_type (s_fields new ! nat ?ni)) (me_default e)"
      using assms(2,3) ADD unfolding migration_typed_def by (metis nth_mem)
    moreover have "j = nat ?ni" if "j < length vs" "me_field_name e = fd_name (s_fields new ! j)" for j
      using that i assms(4,5) by (metis distinct_conv_nth length_map nth_map)
    moreover have "?ni < int (length vs)" using i assms(4) True by linarith
    ultimately show ?thesis using ADD True by (auto simp: apply_op_def Let_def nth_list_update)
  next
    case False
    then have "me_field_name e \<noteq> fd_name (s_fields new ! j)" if "j < length vs" for j
      using that field_index_neg_iff [of new "me_field_name e"] assms(4) by auto
    then show ?thesis using ADD False by (auto simp: apply_op_def Let_def)
  qed
next
  case RENAME
  let ?ni = "field_index new (me_new_name e)" and ?oi = "field_index old (me_field_name e)"
  show ?thesis
  proof (cases "0 \<le> ?ni \<and> 0 \<le> ?oi")
    case True
    then obtain f v where v: "f \<in> set (s_fields old)" "fd_name f = me_field_name e"
      "vec_index (row_fields r) (nat ?oi) = Inr v" "value_has_type (fd_type f) v"
      using old_value_typed [OF assms(1)] by metis
    have i: "nat ?ni < length (s_fields new)" "fd_name (s_fields new ! nat ?ni) = me_new_name e"
      using field_index_nonneg [of new "me_new_name e"] True by auto
    then have "fd_type f = fd_type (s_fields new ! nat ?ni)"
      using assms(2,3) RENAME v(1,2) unfolding migration_typed_def by (metis nth_mem)
    then have typed: "typed_at new (vs[nat ?ni := v]) i" if "i < length vs" "typed_at new vs i" for i
      using that v(4) by (cases "i = nat ?ni") simp_all
    show ?thesis
      by (rule exI [of _ "vs[nat ?ni := v]"]) (use RENAME True v(3) typed in \<open>simp add: apply_op_def Let_def\<close>)
  next
    case False
    then show ?thesis using RENAME by (auto simp: apply_op_def Let_def)
  qed
next
  case DROP
  then show ?thesis by (simp add: apply_op_def)
qed

lemma apply_ops_typed:
  assumes "row_typed old r" and "migration_typed old new mig" and "distinct (map fd_name (s_fields new))"
    and "set es \<subseteq> set (sm_ops mig)" and "length vs = length (s_fields new)"
  shows "\<exists>vs'. apply_ops r old new es vs = Inr vs' \<and> length vs' = length vs
    \<and> (\<forall>i < length vs. typed_at new vs i \<or> (\<exists>e \<in> set es. me_op e = ADD \<and> me_field_name e = fd_name (s_fields new ! i))
         \<longrightarrow> typed_at new vs' i)"
  using assms(4,5)
proof (induction es arbitrary: vs)
  case (Cons e es)
  have "e \<in> set (sm_ops mig)" using Cons.prems(1) by simp
  from apply_op_typed [OF assms(1,2) this Cons.prems(2) assms(3)]
  obtain vs1 where vs1: "apply_op r old new e vs = Inr vs1" "length vs1 = length vs"
    "\<forall>i < length vs. typed_at new vs i \<longrightarrow> typed_at new vs1 i"
    "\<forall>i < length vs. me_op e = ADD \<and> me_field_name e = fd_name (s_fields new ! i) \<longrightarrow> typed_at new vs1 i" by blast
  have "set es \<subseteq> set (sm_ops mig)" "length vs1 = length (s_fields new)" using Cons.prems vs1(2) by auto
  from Cons.IH [OF this] obtain vs2 where "apply_ops r old new es vs1 = Inr vs2" "length vs2 = length vs1"
    "\<forall>i < length vs1. typed_at new vs1 i \<or> (\<exists>e \<in> set es. me_op e = ADD \<and> me_field_name e = fd_name (s_fields new ! i))
       \<longrightarrow> typed_at new vs2 i" by blast
  then show ?case using vs1 by (intro exI [of _ vs2]) auto
qed simp

section \<open>Properties\<close>

text \<open>
  C29: a schema with at most 1024 fields, names of at most 65535 bytes and enumerator types is
  read back unchanged from its serialised form, whatever bytes follow it.
\<close>

theorem schema_codec_roundtrip:
  assumes "s_fields s \<noteq> []" and "length (s_fields s) \<le> 1024"
    and "\<forall>f \<in> set (s_fields s). length (fd_name f) \<le> 65535 \<and> is_enumerator (fd_type f)"
  shows "deserialise_schema (serialise_schema s @ rest) = Inr s"
  using assms by (rule deserialise_serialise_schema)

theorem schema_codec_roundtrip_witness:
  "let s = \<lparr>s_fields = [\<lparr>fd_name = ''name'', fd_type = STRING\<rparr>, \<lparr>fd_name = ''age'', fd_type = UINT32\<rparr>], s_version = 3\<rparr>
   in deserialise_schema (serialise_schema s @ [1, 2, 3]) = Inr s"
  using schema_codec_roundtrip [of "\<lparr>s_fields = [\<lparr>fd_name = ''name'', fd_type = STRING\<rparr>, \<lparr>fd_name = ''age'', fd_type = UINT32\<rparr>], s_version = 3\<rparr>" "[1, 2, 3]"]
  by (simp add: Let_def)

text \<open>
  C30: \<open>deserialise_schema\<close> is safe on arbitrary bytes: it returns a schema or throws
  \<open>CorruptionError\<close>, and never reads outside its buffer.
\<close>

theorem deserialise_schema_safe:
  "deserialise_schema p = Inl CorruptionError \<or> (\<exists>s. deserialise_schema p = Inr s)"
proof -
  have "only_fails {CorruptionError} (deserialise_schema p)"
    unfolding deserialise_schema_def
    by (auto intro!: only_fails_bindR schema_read_only_fails deserialise_fields_only_fails split: prod.split)
  then show ?thesis by (cases "deserialise_schema p") simp_all
qed

text \<open>
  A valid schema (distinct names, at least one field) with more than 1024 fields is written
  by \<open>serialise_schema\<close> but refused by \<open>deserialise_schema\<close>.
\<close>

theorem wide_schema_unreadable:
  assumes "validate s = Inr ()" and "1024 < length (s_fields s)" and "length (s_fields s) < 2 ^ 32"
  shows "deserialise_schema (serialise_schema s) = Inl CorruptionError"
proof -
  have "1024 < (word_of_nat (length (s_fields s)) :: u32)" using assms(2,3) by (simp add: word_less_nat_alt)
  then show ?thesis by (simp add: deserialise_schema_def serialise_schema_def schema_read_u32_def)
qed

theorem wide_schema_unreadable_witness:
  "let s = \<lparr>s_fields = map (\<lambda>n. \<lparr>fd_name = replicate n (CHR ''x''), fd_type = BOOL\<rparr>) [0..<1025], s_version = 0\<rparr>
   in validate s = Inr () \<and> deserialise_schema (serialise_schema s) = Inl CorruptionError"
proof -
  let ?s = "\<lparr>s_fields = map (\<lambda>n. \<lparr>fd_name = replicate n (CHR ''x''), fd_type = BOOL\<rparr>) [0..<1025], s_version = 0\<rparr>"
  have "inj_on (\<lambda>n. replicate n (CHR ''x'')) A" for A by (metis inj_onI length_replicate)
  then have "validate ?s = Inr ()"
    by (simp add: validate_ok_iff comp_def distinct_map)
  then show ?thesis using wide_schema_unreadable [of ?s] by (simp add: Let_def)
qed

text \<open>
  C31: migrating rows preserves typing. Given a row of the old schema, a new schema with distinct
  names, a migration that \<open>is_compatible\<close> accepts, and agreeing types (of fields kept by name, of
  renamed fields, and of the defaults of added fields), \<open>apply_to_row\<close> succeeds and its row
  has the same id and one value of the declared type for every field of the new schema.
\<close>

theorem apply_to_row_typed:
  assumes "row_typed old r" and "is_compatible old new mig" and "migration_typed old new mig"
    and "distinct (map fd_name (s_fields new))"
  shows "\<exists>r'. apply_to_row r old new mig = Inr r' \<and> row_id r' = row_id r \<and> row_typed new r'"
proof -
  obtain vs where vs: "copy_fields r old (s_fields new) = Inr vs" "length vs = length (s_fields new)"
    "\<forall>i < length (s_fields new). 0 \<le> field_index old (fd_name (s_fields new ! i)) \<longrightarrow> typed_at new vs i"
    using copy_fields_typed [OF assms(1)] assms(3) unfolding migration_typed_def by blast
  obtain vs' where vs': "apply_ops r old new (sm_ops mig) vs = Inr vs'" "length vs' = length vs"
    "\<forall>i < length vs. typed_at new vs i \<or> (\<exists>e \<in> set (sm_ops mig). me_op e = ADD \<and> me_field_name e = fd_name (s_fields new ! i))
       \<longrightarrow> typed_at new vs' i"
    using apply_ops_typed [OF assms(1,3,4) order_refl vs(2)] by blast
  have "typed_at new vs' i" if "i < length (s_fields new)" for i
  proof -
    have "s_fields new ! i \<in> set (s_fields new)" using that by simp
    then have "0 \<le> field_index old (fd_name (s_fields new ! i))
        \<or> (\<exists>e \<in> set (sm_ops mig). me_op e = ADD \<and> me_field_name e = fd_name (s_fields new ! i))"
      using assms(2) unfolding is_compatible_def list_all_iff list_ex_iff by blast
    then show ?thesis using vs(2,3) vs'(3) that by metis
  qed
  then have "row_typed new \<lparr>row_id = row_id r, row_fields = vs'\<rparr>"
    using vs(2) vs'(2) by (simp add: row_typed_def list_all2_conv_all_nth)
  then show ?thesis using vs(1) vs'(1) by (simp add: apply_to_row_def)
qed

definition people_v1 :: Schema where
  "people_v1 = \<lparr>s_fields = [\<lparr>fd_name = ''name'', fd_type = STRING\<rparr>, \<lparr>fd_name = ''age'', fd_type = UINT32\<rparr>], s_version = 1\<rparr>"

definition people_v2 :: Schema where
  "people_v2 = \<lparr>s_fields = [\<lparr>fd_name = ''age'', fd_type = UINT32\<rparr>, \<lparr>fd_name = ''vip'', fd_type = BOOL\<rparr>], s_version = 2\<rparr>"

definition add_vip :: SchemaMigrate where
  "add_vip = \<lparr>sm_from = 1, sm_to = 2, sm_ops =
     [\<lparr>me_op = ADD, me_field_name = ''vip'', me_new_name = '''', me_type = BOOL, me_default = VBool False\<rparr>]\<rparr>"

theorem apply_to_row_typed_witness:
  "let r = \<lparr>row_id = 4, row_fields = [VString ''Ann'', VUint32 30]\<rparr> in
   row_typed people_v1 r \<and> is_compatible people_v1 people_v2 add_vip
   \<and> (\<exists>r'. apply_to_row r people_v1 people_v2 add_vip = Inr r' \<and> row_id r' = 4 \<and> row_typed people_v2 r')"
proof -
  let ?r = "\<lparr>row_id = 4, row_fields = [VString ''Ann'', VUint32 30]\<rparr>"
  have t: "row_typed people_v1 ?r" by (simp add: row_typed_def people_v1_def)
  have c: "is_compatible people_v1 people_v2 add_vip"
    by (simp add: is_compatible_def people_v1_def people_v2_def add_vip_def field_index_def)
  have m: "migration_typed people_v1 people_v2 add_vip"
    by (simp add: migration_typed_def people_v1_def people_v2_def add_vip_def)
  have d: "distinct (map fd_name (s_fields people_v2))" by (simp add: people_v2_def)
  show ?thesis using apply_to_row_typed [OF t c m d] t c by (simp add: Let_def)
qed

text \<open>
  \<open>is_compatible\<close> refuses every migration that renames a field to a new name, although
  \<open>apply_to_row\<close> carries the values of renamed fields over: a target of a rename is neither a
  field of the old schema nor added.
\<close>

theorem rename_is_incompatible:
  assumes "nf \<in> set (s_fields new)" and "fd_name nf \<notin> fd_name ` set (s_fields old)"
    and "\<forall>e \<in> set (sm_ops mig). me_op e = RENAME"
  shows "\<not> is_compatible old new mig"
proof -
  have "field_index old (fd_name nf) < 0" using assms(2) field_index_neg_iff by blast
  then show ?thesis using assms(1,3) by (fastforce simp: is_compatible_def list_all_iff list_ex_iff)
qed

theorem rename_is_incompatible_witness:
  "let new = \<lparr>s_fields = [\<lparr>fd_name = ''full_name'', fd_type = STRING\<rparr>], s_version = 2\<rparr>;
       mig = \<lparr>sm_from = 1, sm_to = 2, sm_ops = [\<lparr>me_op = RENAME, me_field_name = ''name'', me_new_name = ''full_name'',
                me_type = STRING, me_default = VUint32 0\<rparr>]\<rparr>
   in \<not> is_compatible people_v1 new mig
      \<and> apply_to_row \<lparr>row_id = 4, row_fields = [VString ''Ann'', VUint32 30]\<rparr> people_v1 new mig
          = Inr \<lparr>row_id = 4, row_fields = [VString ''Ann'']\<rparr>"
proof -
  let ?new = "\<lparr>s_fields = [\<lparr>fd_name = ''full_name'', fd_type = STRING\<rparr>], s_version = 2\<rparr>"
  let ?mig = "\<lparr>sm_from = 1, sm_to = 2, sm_ops = [\<lparr>me_op = RENAME, me_field_name = ''name'', me_new_name = ''full_name'',
                me_type = STRING, me_default = VUint32 0\<rparr>]\<rparr>"
  have "\<not> is_compatible people_v1 ?new ?mig"
    using rename_is_incompatible [of "\<lparr>fd_name = ''full_name'', fd_type = STRING\<rparr>" ?new people_v1 ?mig]
    by (simp add: people_v1_def)
  then show ?thesis
    by (simp add: Let_def apply_to_row_def copy_field_def apply_op_def people_v1_def field_index_def)
qed

end
