(* ===== verification/Scan_Filter.thy ===== *)
theory Scan_Filter
  imports Page BPTree
begin

text \<open>
  \<open>ScanFilter\<close> of \<open>include/xdl/db.h\<close> and \<open>src/db.cpp\<close>: constraints on named fields, tested on a
  decoded row (\<open>matches\<close>) or directly on the serialised bytes (\<open>matches_raw\<close>). The unordered map
  of constraints is an association list with distinct keys, in iteration order.
\<close>

section \<open>Constraints\<close>

record FieldConstraint =
  eq_uint :: "u32 option"
  eq_str :: "string option"
  eq_float :: "u32 option"
  eq_bool :: "bool option"
  eq_int64 :: "u64 option"
  min_uint :: "u32 option"
  max_uint :: "u32 option"
  min_int64 :: "u64 option"
  max_int64 :: "u64 option"
  min_float :: "u32 option"
  max_float :: "u32 option"
  str_prefix :: "string option"

type_synonym ScanFilter = "(string \<times> FieldConstraint) list"

definition no_constraint :: FieldConstraint where
  "no_constraint = \<lparr>eq_uint = None, eq_str = None, eq_float = None, eq_bool = None, eq_int64 = None,
     min_uint = None, max_uint = None, min_int64 = None, max_int64 = None, min_float = None, max_float = None,
     str_prefix = None\<rparr>"

text \<open>\<open>constraints[field]\<close>, updated: \<open>operator[]\<close> creates an empty constraint.\<close>

fun constrain :: "string \<Rightarrow> (FieldConstraint \<Rightarrow> FieldConstraint) \<Rightarrow> ScanFilter \<Rightarrow> ScanFilter" where
  "constrain field f [] = [(field, f no_constraint)]"
| "constrain field f ((k, c) # cs) = (if k = field then (k, f c) # cs else (k, c) # constrain field f cs)"

definition filter_eq :: "ScanFilter \<Rightarrow> string \<Rightarrow> FieldValue \<Rightarrow> ScanFilter" where
  "filter_eq flt field v = constrain field (\<lambda>c. case v of
       VUint32 x \<Rightarrow> c\<lparr>eq_uint := Some x\<rparr>
     | VString s \<Rightarrow> c\<lparr>eq_str := Some s\<rparr>
     | VFloat x \<Rightarrow> c\<lparr>eq_float := Some x\<rparr>
     | VBool b \<Rightarrow> c\<lparr>eq_bool := Some b\<rparr>
     | VInt64 x \<Rightarrow> c\<lparr>eq_int64 := Some x\<rparr>) flt"

datatype numeric = NUint u32 | NInt64 u64 | NFloat u32

definition filter_min :: "ScanFilter \<Rightarrow> string \<Rightarrow> numeric \<Rightarrow> ScanFilter" where
  "filter_min flt field v = constrain field (\<lambda>c. case v of
       NUint x \<Rightarrow> c\<lparr>min_uint := Some x\<rparr> | NInt64 x \<Rightarrow> c\<lparr>min_int64 := Some x\<rparr> | NFloat x \<Rightarrow> c\<lparr>min_float := Some x\<rparr>) flt"

definition filter_max :: "ScanFilter \<Rightarrow> string \<Rightarrow> numeric \<Rightarrow> ScanFilter" where
  "filter_max flt field v = constrain field (\<lambda>c. case v of
       NUint x \<Rightarrow> c\<lparr>max_uint := Some x\<rparr> | NInt64 x \<Rightarrow> c\<lparr>max_int64 := Some x\<rparr> | NFloat x \<Rightarrow> c\<lparr>max_float := Some x\<rparr>) flt"

definition filter_starts :: "ScanFilter \<Rightarrow> string \<Rightarrow> string \<Rightarrow> ScanFilter" where
  "filter_starts flt field v = constrain field (\<lambda>c. c\<lparr>str_prefix := Some v\<rparr>) flt"

section \<open>Tests on one value\<close>

text \<open>\<open>if (c.x && bad) return false;\<close>: a bound that is set and violated.\<close>

definition violated :: "'a option \<Rightarrow> ('a \<Rightarrow> bool) \<Rightarrow> bool" where
  "violated bound bad = (case bound of None \<Rightarrow> False | Some x \<Rightarrow> bad x)"

definition uint_ok :: "FieldConstraint \<Rightarrow> u32 \<Rightarrow> bool" where
  "uint_ok c v \<longleftrightarrow> \<not> violated (eq_uint c) (\<lambda>x. v \<noteq> x) \<and> \<not> violated (min_uint c) (\<lambda>x. v < x)
     \<and> \<not> violated (max_uint c) (\<lambda>x. v > x)"

definition int64_ok :: "FieldConstraint \<Rightarrow> u64 \<Rightarrow> bool" where
  "int64_ok c v \<longleftrightarrow> \<not> violated (eq_int64 c) (\<lambda>x. v \<noteq> x) \<and> \<not> violated (min_int64 c) (\<lambda>x. sint v < sint x)
     \<and> \<not> violated (max_int64 c) (\<lambda>x. sint v > sint x)"

definition float_ok :: "FieldConstraint \<Rightarrow> u32 \<Rightarrow> bool" where
  "float_ok c v \<longleftrightarrow> \<not> violated (eq_float c) (\<lambda>x. \<not> f32_equal v x) \<and> \<not> violated (min_float c) (\<lambda>x. f32_less v x)
     \<and> \<not> violated (max_float c) (\<lambda>x. f32_less x v)"

definition bool_ok :: "FieldConstraint \<Rightarrow> bool \<Rightarrow> bool" where
  "bool_ok c v \<longleftrightarrow> \<not> violated (eq_bool c) (\<lambda>x. v \<noteq> x)"

definition string_ok :: "FieldConstraint \<Rightarrow> string \<Rightarrow> bool" where
  "string_ok c s \<longleftrightarrow> \<not> violated (eq_str c) (\<lambda>x. s \<noteq> x)
     \<and> \<not> violated (str_prefix c) (\<lambda>x. length s < length x \<or> take (length x) s \<noteq> x)"

section \<open>The two tests on a row\<close>

definition skip_field :: "bytes \<Rightarrow> FieldType \<Rightarrow> bytes result" where
  "skip_field src ft = (case ft of
       UINT32 \<Rightarrow> Inr (drop 4 src)
     | INT64 \<Rightarrow> Inr (drop 8 src)
     | FLOAT32 \<Rightarrow> Inr (drop 4 src)
     | BOOL \<Rightarrow> Inr (drop 1 src)
     | STRING \<Rightarrow> bindR (read_u16 src) (\<lambda>len. Inr (drop (2 + unat len) src))
     | OtherType _ \<Rightarrow> Inr src)"

definition raw_field_ok :: "FieldConstraint \<Rightarrow> FieldType \<Rightarrow> bytes \<Rightarrow> bool result" where
  "raw_field_ok c ft src = (case ft of
       UINT32 \<Rightarrow> bindR (read_u32 src) (\<lambda>v. Inr (uint_ok c v))
     | INT64 \<Rightarrow> bindR (read_u64 src) (\<lambda>v. Inr (int64_ok c v))
     | FLOAT32 \<Rightarrow> bindR (read_f32 src) (\<lambda>v. Inr (float_ok c v))
     | BOOL \<Rightarrow> bindR (read_u8 src) (\<lambda>b. Inr (bool_ok c (b \<noteq> 0)))
     | STRING \<Rightarrow> bindR (read_u16 src) (\<lambda>len. bindR (mem_read (unat len) (drop 2 src)) (\<lambda>sv. Inr (string_ok c (bytes_string sv))))
     | OtherType _ \<Rightarrow> Inr True)"

fun matches_raw_fields :: "ScanFilter \<Rightarrow> FieldDef list \<Rightarrow> bytes \<Rightarrow> bool result" where
  "matches_raw_fields flt [] src = Inr True"
| "matches_raw_fields flt (fd # fds) src =
     bindR (case map_of flt (fd_name fd) of None \<Rightarrow> Inr True | Some c \<Rightarrow> raw_field_ok c (fd_type fd) src) (\<lambda>ok.
       if \<not> ok then Inr False
       else bindR (skip_field src (fd_type fd)) (matches_raw_fields flt fds))"

definition matches_raw :: "ScanFilter \<Rightarrow> bytes \<Rightarrow> Schema \<Rightarrow> bool result" where
  "matches_raw flt row_data schema =
     (if flt = [] then Inr True else matches_raw_fields flt (s_fields schema) (drop 8 row_data))"

definition value_ok :: "FieldConstraint \<Rightarrow> FieldType \<Rightarrow> FieldValue \<Rightarrow> bool result" where
  "value_ok c ft fv = (case ft of
       UINT32 \<Rightarrow> bindR (get_u32_value fv) (\<lambda>v. Inr (uint_ok c v))
     | INT64 \<Rightarrow> bindR (get_int64_value fv) (\<lambda>v. Inr (int64_ok c v))
     | FLOAT32 \<Rightarrow> bindR (get_float_value fv) (\<lambda>v. Inr (float_ok c v))
     | BOOL \<Rightarrow> bindR (get_bool_value fv) (\<lambda>v. Inr (bool_ok c v))
     | STRING \<Rightarrow> bindR (get_string_value fv) (\<lambda>s. Inr (string_ok c s))
     | OtherType _ \<Rightarrow> Inr True)"

fun matches :: "ScanFilter \<Rightarrow> Row \<Rightarrow> Schema \<Rightarrow> bool result" where
  "matches [] row schema = Inr True"
| "matches ((name, c) # cs) row schema =
     (let idx = field_index schema name
      in if idx < 0 then matches cs row schema
         else bindR (vec_at (row_fields row) (nat idx)) (\<lambda>fv.
              bindR (vec_index (s_fields schema) (nat idx)) (\<lambda>fd.
              bindR (value_ok c (fd_type fd) fv) (\<lambda>ok.
                if ok then matches cs row schema else Inr False))))"

section \<open>Both tests decide the same predicate\<close>

text \<open>
  The specification, in terms of the values alone: numbers by their value, floats by IEEE comparison (a NaN equals nothing and violates no bound), strings as
  lists of characters. Every constraint on a field of the schema holds of the row's value.
\<close>

fun meets :: "FieldConstraint \<Rightarrow> FieldValue \<Rightarrow> bool" where
  "meets c (VUint32 v) \<longleftrightarrow> pred_option (\<lambda>x. unat v = unat x) (eq_uint c) \<and> pred_option (\<lambda>x. unat x \<le> unat v) (min_uint c)
     \<and> pred_option (\<lambda>x. unat v \<le> unat x) (max_uint c)"
| "meets c (VInt64 v) \<longleftrightarrow> pred_option (\<lambda>x. sint v = sint x) (eq_int64 c) \<and> pred_option (\<lambda>x. sint x \<le> sint v) (min_int64 c)
     \<and> pred_option (\<lambda>x. sint v \<le> sint x) (max_int64 c)"
| "meets c (VFloat v) \<longleftrightarrow> pred_option (\<lambda>x. f32_equal v x) (eq_float c) \<and> pred_option (\<lambda>x. \<not> f32_less v x) (min_float c)
     \<and> pred_option (\<lambda>x. \<not> f32_less x v) (max_float c)"
| "meets c (VBool v) \<longleftrightarrow> pred_option (\<lambda>x. v = x) (eq_bool c)"
| "meets c (VString s) \<longleftrightarrow> pred_option (\<lambda>x. s = x) (eq_str c) \<and> pred_option (\<lambda>x. \<exists>t. s = x @ t) (str_prefix c)"

definition satisfies :: "ScanFilter \<Rightarrow> Schema \<Rightarrow> Row \<Rightarrow> bool" where
  "satisfies flt schema row \<longleftrightarrow>
     (\<forall>i < length (s_fields schema). \<forall>c. map_of flt (fd_name (s_fields schema ! i)) = Some c \<longrightarrow>
        meets c (row_fields row ! i))"

lemma violated_iff: "\<not> violated bound bad \<longleftrightarrow> pred_option (\<lambda>x. \<not> bad x) bound"
  by (cases bound) (simp_all add: violated_def)

lemma prefix_iff: "\<not> (length s < length x \<or> take (length x) s \<noteq> x) \<longleftrightarrow> (\<exists>t. s = x @ t)"
  by (auto simp: not_less) (metis append_take_drop_id)

lemmas prefix_alt = prefix_iff [unfolded de_Morgan_disj not_less not_not]

lemma word_values_eq: "unat v = unat w \<longleftrightarrow> v = w" "sint v = sint w \<longleftrightarrow> v = w" for v w :: "'a::len word"
  by (simp add: word_unat_eq_iff, metis signed_word_eqI)

lemma value_ok_typed: "value_has_type t v \<Longrightarrow> value_ok c t v = Inr (meets c v)"
  by (cases t; cases v)
     (simp_all add: value_ok_def uint_ok_def int64_ok_def float_ok_def bool_ok_def string_ok_def violated_iff prefix_alt
       not_less word_le_nat_alt word_values_eq)

lemma raw_field_ok_typed:
  "value_has_type t v \<Longrightarrow> raw_field_ok c t (enc_field v @ p) = value_ok c t v"
  by (cases t; cases v) (simp_all add: value_ok_def raw_field_ok_def codec_simps)

lemma skip_field_typed:
  "value_has_type t v \<Longrightarrow> skip_field (enc_field v @ p) t = Inr p"
  by (cases t; cases v) (simp_all add: skip_field_def codec_simps)

lemma matches_raw_fields_typed:
  "list_all2 (\<lambda>fd v. value_has_type (fd_type fd) v) fds vs \<Longrightarrow>
   matches_raw_fields flt fds (concat (map enc_field vs) @ p) =
     Inr (\<forall>i < length fds. \<forall>c. map_of flt (fd_name (fds ! i)) = Some c \<longrightarrow> meets c (vs ! i))"
proof (induction fds vs rule: list_all2_induct)
  case Nil
  then show ?case by simp
next
  case (Cons fd fds v vs)
  let ?ok = "\<forall>c. map_of flt (fd_name fd) = Some c \<longrightarrow> meets c v"
  have head: "(case map_of flt (fd_name fd) of None \<Rightarrow> Inr True | Some c \<Rightarrow> raw_field_ok c (fd_type fd) (enc_field v @ q)) = Inr ?ok" for q
    by (cases "map_of flt (fd_name fd)") (auto simp: raw_field_ok_typed [OF Cons.hyps(1)] value_ok_typed [OF Cons.hyps(1)])
  show ?case
    using Cons.IH by (simp add: head skip_field_typed [OF Cons.hyps(1)] All_less_Suc2)
qed

lemma matches_typed:
  assumes "row_typed schema row" and "distinct (map fst flt)"
  shows "matches flt row schema = Inr (\<forall>(name, c) \<in> set flt. 0 \<le> field_index schema name \<longrightarrow>
    meets c (row_fields row ! nat (field_index schema name)))"
  using assms(2)
proof (induction flt)
  case Nil
  then show ?case by simp
next
  case (Cons p flt)
  obtain name c where p: "p = (name, c)" by (cases p)
  show ?case
  proof (cases "field_index schema name < 0")
    case True
    then show ?thesis using Cons p by simp
  next
    case False
    let ?i = "nat (field_index schema name)"
    have i: "?i < length (s_fields schema)" using field_index_nonneg [of schema name] False by simp
    have "value_ok c (fd_type (s_fields schema ! ?i)) (row_fields row ! ?i) = Inr (meets c (row_fields row ! ?i))"
      by (rule value_ok_typed [OF row_typed_nth [OF assms(1) i]])
    then show ?thesis using Cons p False i row_typed_length [OF assms(1)] by (simp add: vec_at_def Let_def)
  qed
qed

lemma satisfies_iff:
  assumes "distinct (map fd_name (s_fields schema))" and "distinct (map fst flt)"
  shows "satisfies flt schema row \<longleftrightarrow> (\<forall>(name, c) \<in> set flt. 0 \<le> field_index schema name \<longrightarrow>
    meets c (row_fields row ! nat (field_index schema name)))"
proof -
  have mem: "map_of flt name = Some c \<longleftrightarrow> (name, c) \<in> set flt" for name c
    using assms(2) by (simp add: map_of_eq_Some_iff)
  let ?good = "\<lambda>c i. meets c (row_fields row ! i)"
  show ?thesis
    unfolding satisfies_def mem
  proof (intro iffI ballI allI impI; (clarify)?)
    fix name c
    assume "\<forall>i < length (s_fields schema). \<forall>c. (fd_name (s_fields schema ! i), c) \<in> set flt \<longrightarrow> ?good c i"
      "(name, c) \<in> set flt" "0 \<le> field_index schema name"
    then show "?good c (nat (field_index schema name))" using field_index_nonneg [of schema name] by auto
  next
    fix i c
    assume all: "\<forall>(name, c) \<in> set flt. 0 \<le> field_index schema name \<longrightarrow> ?good c (nat (field_index schema name))"
      and "i < length (s_fields schema)" and "(fd_name (s_fields schema ! i), c) \<in> set flt"
    then show "?good c i" using bspec [OF all, of "(fd_name (s_fields schema ! i), c)"] field_index_distinct [OF assms(1)] by auto
  qed
qed

lemma constrain_keys: "distinct (map fst flt) \<Longrightarrow> distinct (map fst (constrain field f flt))"
proof -
  have "fst ` set (constrain field f flt) = insert field (fst ` set flt)" for flt
    by (induction field f flt rule: constrain.induct) auto
  then show "distinct (map fst flt) \<Longrightarrow> distinct (map fst (constrain field f flt))"
    by (induction field f flt rule: constrain.induct) auto
qed

section \<open>Properties\<close>



end
