(* ===== verification/Storage.thy ===== *)
theory Storage
  imports Page Migrate
begin

text \<open>
  \<open>StorageEngine\<close> of \<open>src/storage.cpp\<close> (POSIX branch): the database file, its header, the
  stored schema and the raw page slots. The state is the object's fields together with the file: its
  contents (\<open>None\<close> when it does not exist) and the contents at the last \<open>fsync\<close>. The transfer loops take
  the limits of the single system calls as an argument; the engine runs them with the kernel that
  transfers what it is asked for, and the loops' lemmas show that shorter transfers give the same. Of
  the failures of the kernel, the model has a closed descriptor, reading at or past the end of the file,
  a negative file offset, and a file that cannot be opened. With the kernel that
  transfers everything a failing write has not changed the file.
\<close>

section \<open>Headers\<close>

record DBHeader =
  dh_magic :: u32
  dh_version :: u32
  dh_page_size :: u32
  dh_page_count :: u32
  dh_compression :: byte
  dh_pad :: "byte \<times> byte \<times> byte"

record PageHeader =
  ph_page_id :: u32
  ph_compressed_size :: u32
  ph_uncompressed_size :: u32
  ph_row_count :: u32
  ph_compression_type :: byte
  ph_pad :: "byte \<times> byte \<times> byte"

definition header_bytes :: "u32 \<Rightarrow> u32 \<Rightarrow> u32 \<Rightarrow> u32 \<Rightarrow> byte \<Rightarrow> byte \<times> byte \<times> byte \<Rightarrow> bytes" where
  "header_bytes a b c d e pad =
     write_u32 a @ write_u32 b @ write_u32 c @ write_u32 d @ write_u8 e @ (case pad of (x, y, z) \<Rightarrow> [x, y, z])"

text \<open>The packed structures, as they lie in memory and on disk.\<close>

definition DBHeader_bytes :: "DBHeader \<Rightarrow> bytes" where
  "DBHeader_bytes h = header_bytes (dh_magic h) (dh_version h) (dh_page_size h) (dh_page_count h) (dh_compression h) (dh_pad h)"

definition PageHeader_bytes :: "PageHeader \<Rightarrow> bytes" where
  "PageHeader_bytes h = header_bytes (ph_page_id h) (ph_compressed_size h) (ph_uncompressed_size h) (ph_row_count h)
     (ph_compression_type h) (ph_pad h)"

definition read_header :: "bytes \<Rightarrow> (u32 \<times> u32 \<times> u32 \<times> u32 \<times> byte \<times> byte \<times> byte \<times> byte) result" where
  "read_header p =
     bindR (read_u32 p) (\<lambda>a. bindR (read_u32 (drop 4 p)) (\<lambda>b. bindR (read_u32 (drop 8 p)) (\<lambda>c.
     bindR (read_u32 (drop 12 p)) (\<lambda>d. bindR (read_u8 (drop 16 p)) (\<lambda>e. bindR (read_u8 (drop 17 p)) (\<lambda>x.
     bindR (read_u8 (drop 18 p)) (\<lambda>y. bindR (read_u8 (drop 19 p)) (\<lambda>z. Inr (a, b, c, d, e, x, y, z)))))))))"

definition DBHeader_of_bytes :: "bytes \<Rightarrow> DBHeader result" where
  "DBHeader_of_bytes p = bindR (read_header p) (\<lambda>(a, b, c, d, e, pad).
     Inr \<lparr>dh_magic = a, dh_version = b, dh_page_size = c, dh_page_count = d, dh_compression = e, dh_pad = pad\<rparr>)"

definition PageHeader_of_bytes :: "bytes \<Rightarrow> PageHeader result" where
  "PageHeader_of_bytes p = bindR (read_header p) (\<lambda>(a, b, c, d, e, pad).
     Inr \<lparr>ph_page_id = a, ph_compressed_size = b, ph_uncompressed_size = c, ph_row_count = d, ph_compression_type = e,
          ph_pad = pad\<rparr>)"

definition sizeof_header :: nat where "sizeof_header = 20"

section \<open>Transfer loops\<close>

text \<open>
  One round transfers at most the limit of its system call, what is left to transfer, and, when
  reading, what the file has. \<open>off_t\<close> is signed, so an offset from \<open>2 ^ 63\<close> on fails.
\<close>

fun call_limit :: "nat list \<Rightarrow> nat \<Rightarrow> nat" where
  "call_limit [] count = count"
| "call_limit (l # ls) count = min l count"

function safe_pread_loop :: "nat list \<Rightarrow> bytes \<Rightarrow> nat \<Rightarrow> nat \<Rightarrow> bytes result" where
  "safe_pread_loop limits c offset count =
     (if count = 0 then Inr []
      else let n = (if 2 ^ 63 \<le> offset then 0 else min (call_limit limits count) (length c - offset))
           in if n = 0 then Inl IOError
              else bindR (safe_pread_loop (tl limits) c (offset + n) (count - n)) (\<lambda>rest.
                     Inr (file_get offset n c @ rest)))"
  by pat_completeness auto
termination
  by (relation "measure (\<lambda>(limits, c, offset, count). count)") (auto simp: Let_def)

declare safe_pread_loop.simps [simp del]

function safe_pwrite_loop :: "nat list \<Rightarrow> bytes \<Rightarrow> nat \<Rightarrow> bytes \<Rightarrow> bytes result" where
  "safe_pwrite_loop limits buf offset c =
     (if buf = [] then Inr c
      else let n = (if 2 ^ 63 \<le> offset then 0 else call_limit limits (length buf))
           in if n = 0 then Inl IOError
              else safe_pwrite_loop (tl limits) (drop n buf) (offset + n) (file_put offset (take n buf) c))"
  by pat_completeness auto
termination
  by (relation "measure (\<lambda>(limits, buf, offset, c). length buf)") (auto simp: Let_def)

declare safe_pwrite_loop.simps [simp del]

section \<open>The engine\<close>

record StorageEngine =
  se_file :: "bytes option"
  se_durable :: bytes
  se_can_open :: bool
  se_compression :: CompressionType
  se_fd :: bool
  se_is_open :: bool

definition storage_engine :: "bytes option \<Rightarrow> CompressionType \<Rightarrow> StorageEngine" where
  "storage_engine f ct =
     \<lparr>se_file = f, se_durable = (case f of None \<Rightarrow> [] | Some c \<Rightarrow> c), se_can_open = True, se_compression = ct,
      se_fd = False, se_is_open = False\<rparr>"

definition se_contents :: "StorageEngine \<Rightarrow> bytes" where
  "se_contents s = (case se_file s of None \<Rightarrow> [] | Some c \<Rightarrow> c)"

definition safe_pread :: "nat \<Rightarrow> u64 \<Rightarrow> (StorageEngine, bytes) prog" where
  "safe_pread count offset s =
     (if 0 < count \<and> \<not> se_fd s then Inl IOError else safe_pread_loop [] (se_contents s) (unat offset) count, s)"

definition safe_pwrite :: "bytes \<Rightarrow> u64 \<Rightarrow> (StorageEngine, unit) prog" where
  "safe_pwrite buf offset s =
     (if buf \<noteq> [] \<and> \<not> se_fd s then (Inl IOError, s)
      else case safe_pwrite_loop [] buf (unat offset) (se_contents s) of
        Inl e \<Rightarrow> (Inl e, s)
      | Inr c \<Rightarrow> (Inr (), s\<lparr>se_file := Some c\<rparr>))"

definition se_fsync :: "(StorageEngine, unit) prog" where
  "se_fsync = modifyS (\<lambda>s. if se_fd s then s\<lparr>se_durable := se_contents s\<rparr> else s)"

definition write_db_header :: "DBHeader \<Rightarrow> (StorageEngine, unit) prog" where
  "write_db_header hdr = bindS (safe_pwrite (DBHeader_bytes hdr) 0) (\<lambda>_. se_fsync)"

definition read_db_header :: "(StorageEngine, DBHeader) prog" where
  "read_db_header =
     bindS (safe_pread sizeof_header 0) (\<lambda>p.
     bindS (liftR (DBHeader_of_bytes p)) (\<lambda>hdr.
       if dh_magic hdr \<noteq> XDL_MAGIC then throwS CorruptionError else returnS hdr))"

definition initial_db_header :: "CompressionType \<Rightarrow> DBHeader" where
  "initial_db_header ct =
     \<lparr>dh_magic = XDL_MAGIC, dh_version = XDL_VERSION, dh_page_size = PAGE_SIZE, dh_page_count = 0,
      dh_compression = compression_code ct, dh_pad = (0, 0, 0)\<rparr>"

definition se_open :: "(StorageEngine, unit) prog" where
  "se_open s =
     (if se_is_open s then (Inr (), s)
      else bindS (if se_file s \<noteq> None
             then modifyS (\<lambda>s. s\<lparr>se_fd := se_can_open s\<rparr>)
             else if \<not> se_can_open s then throwS IOError
             else bindS (modifyS (\<lambda>s. s\<lparr>se_fd := True, se_file := Some []\<rparr>)) (\<lambda>_.
                  bindS (getS se_compression) (\<lambda>ct. write_db_header (initial_db_header ct)))) (\<lambda>_.
           bindS (getS se_fd) (\<lambda>fd.
             if \<not> fd then throwS IOError else modifyS (\<lambda>s. s\<lparr>se_is_open := True\<rparr>))) s)"

definition se_close :: "(StorageEngine, unit) prog" where
  "se_close s =
     (if \<not> se_is_open s then (Inr (), s)
      else bindS (if se_fd s then bindS se_fsync (\<lambda>_. modifyS (\<lambda>s. s\<lparr>se_fd := False\<rparr>)) else returnS ())
             (\<lambda>_. modifyS (\<lambda>s. s\<lparr>se_is_open := False\<rparr>)) s)"

definition file_size :: "(StorageEngine, u64) prog" where
  "file_size s = (if se_fd s then Inr (word_of_nat (length (se_contents s))) else Inl IOError, s)"

definition read_page_raw :: "u64 \<Rightarrow> (StorageEngine, PageHeader \<times> bytes) prog" where
  "read_page_raw offset =
     bindS (safe_pread sizeof_header offset) (\<lambda>p.
     bindS (liftR (PageHeader_of_bytes p)) (\<lambda>hdr.
     bindS (safe_pread (unat (ph_compressed_size hdr)) (offset + word_of_nat sizeof_header)) (\<lambda>blob.
       returnS (hdr, blob))))"

definition append_page_raw :: "PageHeader \<Rightarrow> bytes \<Rightarrow> (StorageEngine, u64) prog" where
  "append_page_raw hdr blob =
     bindS file_size (\<lambda>offset.
     bindS (safe_pwrite (PageHeader_bytes hdr) offset) (\<lambda>_.
     bindS (safe_pwrite blob (offset + word_of_nat sizeof_header)) (\<lambda>_. returnS offset)))"

definition overwrite_page_raw :: "u64 \<Rightarrow> PageHeader \<Rightarrow> bytes \<Rightarrow> (StorageEngine, unit) prog" where
  "overwrite_page_raw offset hdr blob = safe_pwrite (PageHeader_bytes hdr @ blob) offset"

definition write_schema :: "Schema \<Rightarrow> (StorageEngine, unit) prog" where
  "write_schema schema =
     (let data = serialise_schema schema
      in bindS (safe_pwrite (write_u32 (word_of_nat (length data))) (word_of_nat sizeof_header)) (\<lambda>_.
         if data \<noteq> [] then safe_pwrite data (word_of_nat (sizeof_header + 4)) else returnS ()))"

definition read_schema :: "(StorageEngine, Schema) prog" where
  "read_schema =
     bindS (safe_pread 4 (word_of_nat sizeof_header)) (\<lambda>p.
     bindS (liftR (read_u32 p)) (\<lambda>len.
       if len = 0 \<or> 65536 < len then throwS CorruptionError
       else bindS (safe_pread (unat len) (word_of_nat (sizeof_header + 4))) (\<lambda>data.
            liftR (deserialise_schema data))))"

text \<open>A single \<open>pread\<close> of the length word: anything but four bytes means no schema.\<close>

definition data_start_offset :: "(StorageEngine, u64) prog" where
  "data_start_offset =
     bindS (getS (\<lambda>s. if se_fd s then file_get sizeof_header 4 (se_contents s) else [])) (\<lambda>p.
       if length p \<noteq> 4 then returnS (word_of_nat sizeof_header)
       else bindS (liftR (read_u32 p)) (\<lambda>schema_len.
         if 65536 < schema_len then returnS (word_of_nat sizeof_header)
         else returnS (word_of_nat sizeof_header + 4 + ucast schema_len)))"

section \<open>Transfers\<close>

lemma safe_pread_loop_whole:
  assumes "\<forall>l \<in> set limits. 0 < l" and "offset + count \<le> length c" and "length c < 2 ^ 63"
  shows "safe_pread_loop limits c offset count = Inr (file_get offset count c)"
  using assms(1,2)
proof (induction count arbitrary: limits offset rule: less_induct)
  case (less count)
  show ?case
  proof (cases "count = 0")
    case True
    then show ?thesis by (simp add: safe_pread_loop.simps file_get_def)
  next
    case False
    define n where "n = min (call_limit limits count) (length c - offset)"
    have n: "0 < n" "n \<le> count" using less.prems False by (cases limits; simp add: n_def)+
    have "safe_pread_loop (tl limits) c (offset + n) (count - n) = Inr (file_get (offset + n) (count - n) c)"
      using n less.prems False by (intro less.IH) (cases limits; auto)+
    moreover have "file_get offset n c @ file_get (offset + n) (count - n) c = file_get offset count c"
      using n(2) by (simp add: file_get_def add.commute flip: take_add drop_drop)
    moreover have "\<not> 2 ^ 63 \<le> offset" using less.prems(2) assms(3) by simp
    ultimately show ?thesis
      using n(1) False by (subst safe_pread_loop.simps) (simp add: Let_def flip: n_def)
  qed
qed

text \<open>Reading past the end of the file throws.\<close>

lemma safe_pread_loop_eof:
  assumes "length c < offset + count" and "0 < count"
  shows "safe_pread_loop limits c offset count = Inl IOError"
  using assms
proof (induction count arbitrary: limits offset rule: less_induct)
  case (less count)
  define n where "n = (if 2 ^ 63 \<le> offset then 0 else min (call_limit limits count) (length c - offset))"
  show ?case
  proof (cases "n = 0")
    case True
    then show ?thesis using less.prems(2) unfolding n_def by (subst safe_pread_loop.simps) (auto split: if_splits)
  next
    case False
    then have n: "0 < n" "n \<le> length c - offset" "n \<le> count"
      by (cases limits; auto simp: n_def split: if_splits)+
    then have "safe_pread_loop (tl limits) c (offset + n) (count - n) = Inl IOError"
      using less.prems by (intro less.IH) auto
    then show ?thesis using less.prems(2) False unfolding n_def by (subst safe_pread_loop.simps) (auto split: if_splits)
  qed
qed

lemma file_put_append:
  "file_put (offset + length xs) ys (file_put offset xs c) = file_put offset (xs @ ys) c" if "xs \<noteq> []"
proof (rule nth_equalityI)
  show "length (file_put (offset + length xs) ys (file_put offset xs c)) = length (file_put offset (xs @ ys) c)"
    using that by (auto simp: length_file_put)
  fix i assume i: "i < length (file_put (offset + length xs) ys (file_put offset xs c))"
  then have i2: "i < length (file_put offset (xs @ ys) c)" using that by (auto simp: length_file_put split: if_splits)
  show "file_put (offset + length xs) ys (file_put offset xs c) ! i = file_put offset (xs @ ys) c ! i"
    unfolding nth_file_put [OF i] nth_file_put [OF i2]
    using i that by (auto simp: nth_file_put length_file_put nth_append split: if_splits)
qed

lemma safe_pwrite_loop_whole:
  assumes "\<forall>l \<in> set limits. 0 < l" and "offset + length buf \<le> 2 ^ 63"
  shows "safe_pwrite_loop limits buf offset c = Inr (if buf = [] then c else file_put offset buf c)"
  using assms
proof (induction "length buf" arbitrary: limits buf offset c rule: less_induct)
  case less
  show ?case
  proof (cases "buf = []")
    case True
    then show ?thesis by (simp add: safe_pwrite_loop.simps)
  next
    case False
    define n where "n = call_limit limits (length buf)"
    have n: "0 < n" "n \<le> length buf" using less.prems False by (cases limits; simp add: n_def)+
    have "safe_pwrite_loop (tl limits) (drop n buf) (offset + n) (file_put offset (take n buf) c)
        = Inr (if drop n buf = [] then file_put offset (take n buf) c
               else file_put (offset + n) (drop n buf) (file_put offset (take n buf) c))"
      using n less.prems False by (intro less.hyps) (cases limits; auto)+
    moreover have "file_put (offset + n) (drop n buf) (file_put offset (take n buf) c) = file_put offset buf c"
      using file_put_append [of "take n buf" offset "drop n buf" c] n False by simp
    moreover have "\<not> 2 ^ 63 \<le> offset" using less.prems(2) False by (cases buf) auto
    ultimately show ?thesis
      using n False by (subst safe_pwrite_loop.simps) (auto simp: Let_def simp flip: n_def)
  qed
qed

lemma safe_pread_ok:
  "unat offset + n \<le> length (se_contents s) \<Longrightarrow> length (se_contents s) < 2 ^ 63 \<Longrightarrow> se_fd s \<Longrightarrow>
   safe_pread n offset s = (Inr (file_get (unat offset) n (se_contents s)), s)"
  using safe_pread_loop_whole [of "[]" "unat offset" n "se_contents s"] by (simp add: safe_pread_def)

lemma safe_pread_Inr:
  assumes "safe_pread n offset s = (Inr bs, s')" and "length (se_contents s) < 2 ^ 63"
  shows "s' = s" and "n = 0 \<or> unat offset + n \<le> length (se_contents s)"
    and "bs = file_get (unat offset) n (se_contents s)" and "0 < n \<Longrightarrow> se_fd s"
proof -
  show fd: "0 < n \<Longrightarrow> se_fd s" using assms(1) by (auto simp: safe_pread_def split: if_splits)
  show "s' = s" using assms(1) by (simp add: safe_pread_def)
  show bound: "n = 0 \<or> unat offset + n \<le> length (se_contents s)"
  proof (rule ccontr)
    assume "\<not> (n = 0 \<or> unat offset + n \<le> length (se_contents s))"
    then have "safe_pread_loop [] (se_contents s) (unat offset) n = Inl IOError" by (intro safe_pread_loop_eof) auto
    then show False using assms(1) by (auto simp: safe_pread_def split: if_splits)
  qed
  show "bs = file_get (unat offset) n (se_contents s)"
  proof (cases "n = 0")
    case True
    then show ?thesis using assms(1) by (simp add: safe_pread_def safe_pread_loop.simps file_get_def)
  next
    case False
    then show ?thesis using assms bound fd safe_pread_ok [of offset n s] by simp
  qed
qed

lemma safe_pwrite_ok:
  "unat offset + length buf \<le> 2 ^ 63 \<Longrightarrow> buf \<noteq> [] \<Longrightarrow> se_fd s \<Longrightarrow>
   safe_pwrite buf offset s = (Inr (), s\<lparr>se_file := Some (file_put (unat offset) buf (se_contents s))\<rparr>)"
  using safe_pwrite_loop_whole [of "[]" "unat offset" buf "se_contents s"] by (simp add: safe_pwrite_def)

lemma se_contents_update [simp]:
  "se_contents (s\<lparr>se_file := Some c\<rparr>) = c" "se_contents (s\<lparr>se_durable := d\<rparr>) = se_contents s"
  "se_contents (s\<lparr>se_is_open := b\<rparr>) = se_contents s" "se_contents (s\<lparr>se_fd := b\<rparr>) = se_contents s"
  by (simp_all add: se_contents_def)

section \<open>Header codecs\<close>

lemma length_header_bytes [simp, codec_length]: "length (header_bytes a b c d e pad) = 20"
  by (simp add: header_bytes_def split: prod.split)

lemma length_PageHeader_bytes [simp, codec_length]: "length (PageHeader_bytes h) = 20"
  by (simp add: PageHeader_bytes_def)

lemma PageHeader_bytes_not_Nil [simp]: "PageHeader_bytes h \<noteq> []"
  by (metis length_PageHeader_bytes list.size(3) zero_neq_numeral)

lemma length_DBHeader_bytes [simp, codec_length]: "length (DBHeader_bytes h) = 20"
  by (simp add: DBHeader_bytes_def)

lemma read_header_bytes: "read_header (header_bytes a b c d e (x, y, z) @ rest) = Inr (a, b, c, d, e, x, y, z)"
proof -
  define p where "p = header_bytes a b c d e (x, y, z) @ rest"
  have "read_u32 p = Inr a" "read_u32 (drop 4 p) = Inr b" "read_u32 (drop 8 p) = Inr c" "read_u32 (drop 12 p) = Inr d"
    "read_u8 (drop 16 p) = Inr e" "read_u8 (drop 17 p) = Inr x" "read_u8 (drop 18 p) = Inr y" "read_u8 (drop 19 p) = Inr z"
    by (simp_all add: p_def header_bytes_def write_u8_def)
  then show ?thesis by (simp add: read_header_def flip: p_def)
qed

lemma DBHeader_codec [simp, codec_simps]: "DBHeader_of_bytes (DBHeader_bytes h) = Inr h"
  using read_header_bytes [where rest = "[]"]
  by (cases h; cases "dh_pad h") (simp add: DBHeader_of_bytes_def DBHeader_bytes_def)

lemma PageHeader_codec [simp, codec_simps]: "PageHeader_of_bytes (PageHeader_bytes h) = Inr h"
  using read_header_bytes [where rest = "[]"]
  by (cases h; cases "ph_pad h") (simp add: PageHeader_of_bytes_def PageHeader_bytes_def)

section \<open>Raw pages\<close>

lemma unat_add_20:
  assumes "unat (offset :: u64) + 20 < 2 ^ 64" shows "unat (offset + word_of_nat sizeof_header) = unat offset + 20"
  using assms by (simp add: sizeof_header_def unat_word_ariths)

lemma read_page_raw_ok:
  assumes "length (se_contents s) < 2 ^ 63" and "unat offset + 20 + length blob \<le> length (se_contents s)"
    and "file_get (unat offset) 20 (se_contents s) = PageHeader_bytes h" and "unat (ph_compressed_size h) = length blob"
    and "file_get (unat offset + 20) (length blob) (se_contents s) = blob" and "se_fd s"
  shows "read_page_raw offset s = (Inr (h, blob), s)"
proof -
  have off: "unat (offset + word_of_nat sizeof_header) = unat offset + 20" using assms(1,2) by (intro unat_add_20) simp
  have "safe_pread sizeof_header offset s = (Inr (PageHeader_bytes h), s)"
    using safe_pread_ok [of offset sizeof_header s] assms(1-3,6) by (simp add: sizeof_header_def)
  moreover have "safe_pread (unat (ph_compressed_size h)) (offset + word_of_nat sizeof_header) s = (Inr blob, s)"
    using safe_pread_ok [of "offset + word_of_nat sizeof_header" "length blob" s] assms off by simp
  ultimately show ?thesis by (simp add: read_page_raw_def bindS_def)
qed

lemma read_page_raw_Inr:
  assumes "read_page_raw offset s = (Inr (h, blob), s')" and "length (se_contents s) < 2 ^ 63"
  shows "s' = s" and "unat offset + 20 + length blob \<le> length (se_contents s)"
    and "PageHeader_of_bytes (file_get (unat offset) 20 (se_contents s)) = Inr h"
    and "unat (ph_compressed_size h) = length blob" and "file_get (unat offset + 20) (length blob) (se_contents s) = blob"
    and "se_fd s"
proof -
  let ?c = "se_contents s"
  obtain p s1 where p: "safe_pread sizeof_header offset s = (Inr p, s1)"
    using assms(1) by (cases "safe_pread sizeof_header offset s"; cases "fst (safe_pread sizeof_header offset s)")
      (auto simp: read_page_raw_def bindS_def)
  note p1 = safe_pread_Inr [OF p assms(2)]
  show "se_fd s" using p1(4) by (simp add: sizeof_header_def)
  have b1: "unat offset + 20 \<le> length ?c" using p1(2) by (simp add: sizeof_header_def)
  then have off: "unat (offset + word_of_nat sizeof_header) = unat offset + 20" using assms(2) by (intro unat_add_20) simp
  obtain h' where h': "PageHeader_of_bytes p = Inr h'"
    using assms(1) p by (cases "PageHeader_of_bytes p") (auto simp: read_page_raw_def bindS_def)
  obtain q s2 where q: "safe_pread (unat (ph_compressed_size h')) (offset + word_of_nat sizeof_header) s = (Inr q, s2)"
    using assms(1) p p1(1) h'
    by (cases "safe_pread (unat (ph_compressed_size h')) (offset + word_of_nat sizeof_header) s";
        cases "fst (safe_pread (unat (ph_compressed_size h')) (offset + word_of_nat sizeof_header) s)")
      (auto simp: read_page_raw_def bindS_def)
  note q1 = safe_pread_Inr [OF q assms(2)]
  have res: "h' = h" "q = blob" "s2 = s'" using assms(1) p p1(1) h' q by (auto simp: read_page_raw_def bindS_def)
  show "s' = s" using res q1(1) by simp
  show "PageHeader_of_bytes (file_get (unat offset) 20 ?c) = Inr h" using h' res(1) p1(3) by (simp add: sizeof_header_def)
  have len: "length blob = unat (ph_compressed_size h)"
    using q1(2,3) res off by (auto simp: file_get_def)
  then show "unat (ph_compressed_size h) = length blob" by simp
  show "unat offset + 20 + length blob \<le> length ?c" using q1(2) res(1) off b1 len by auto
  show "file_get (unat offset + 20) (length blob) ?c = blob" using q1(3) res off len by simp
qed

lemma overwrite_page_raw_ok:
  assumes "unat offset + 20 + length blob \<le> 2 ^ 63" and "se_fd s"
  shows "overwrite_page_raw offset h blob s
    = (Inr (), s\<lparr>se_file := Some (file_put (unat offset) (PageHeader_bytes h @ blob) (se_contents s))\<rparr>)"
  using safe_pwrite_ok [of offset "PageHeader_bytes h @ blob" s] assms by (simp add: overwrite_page_raw_def)

lemma file_get_split: "file_get pos (m + n) c = file_get pos m c @ file_get (pos + m) n c"
  by (simp add: file_get_def take_add add.commute)

lemma overwrite_then_read:
  assumes "unat offset + 20 + length blob < 2 ^ 63" and "length (se_contents s) < 2 ^ 63"
    and "unat (ph_compressed_size h) = length blob" and "se_fd s"
  shows "read_page_raw offset (snd (overwrite_page_raw offset h blob s)) = (Inr (h, blob), snd (overwrite_page_raw offset h blob s))"
proof -
  let ?buf = "PageHeader_bytes h @ blob" and ?off = "unat offset"
  let ?c = "file_put ?off ?buf (se_contents s)"
  have s': "snd (overwrite_page_raw offset h blob s) = s\<lparr>se_file := Some ?c\<rparr>"
    using overwrite_page_raw_ok [of offset blob s h] assms(1,4) by simp
  have "file_get ?off (20 + length blob) ?c = ?buf" by (rule file_get_put_same) simp
  then have "file_get ?off 20 ?c @ file_get (?off + 20) (length blob) ?c = PageHeader_bytes h @ blob"
    by (simp only: file_get_split)
  moreover have len: "?off + 20 + length blob \<le> length ?c" by (auto simp: length_file_put)
  then have "length (file_get ?off 20 ?c) = 20" by (simp add: file_get_def)
  ultimately have "file_get ?off 20 ?c = PageHeader_bytes h" "file_get (?off + 20) (length blob) ?c = blob"
    by (auto simp: append_eq_append_conv)
  moreover have "length ?c < 2 ^ 63" using assms(1,2) by (auto simp: length_file_put)
  ultimately show ?thesis unfolding s' using len assms(3,4) by (intro read_page_raw_ok) simp_all
qed

lemma overwrite_keeps_other:
  assumes "unat offset + 20 + length blob < 2 ^ 63" and "length (se_contents s) < 2 ^ 63"
    and "read_page_raw offset' s = (Inr (h', blob'), s)"
    and "unat offset' + 20 + length blob' \<le> unat offset \<or> unat offset + 20 + length blob \<le> unat offset'"
  shows "fst (read_page_raw offset' (snd (overwrite_page_raw offset h blob s))) = Inr (h', blob')"
proof -
  let ?c = "file_put (unat offset) (PageHeader_bytes h @ blob) (se_contents s)"
  let ?s = "s\<lparr>se_file := Some ?c\<rparr>"
  note r = read_page_raw_Inr [OF assms(3,2)]
  have s': "snd (overwrite_page_raw offset h blob s) = ?s"
    using overwrite_page_raw_ok [of offset blob s h] assms(1) r(6) by simp
  have len: "length (se_contents s) \<le> length ?c" "length ?c < 2 ^ 63" using assms(1,2) by (auto simp: length_file_put)
  have g1: "file_get (unat offset') 20 ?c = file_get (unat offset') 20 (se_contents s)"
    using assms(4) r(2) by (intro file_get_put_other) auto
  have g2: "file_get (unat offset' + 20) (length blob') ?c = blob'"
    using assms(4) r(2,5) by (subst file_get_put_other) auto
  have "safe_pread sizeof_header offset' ?s = (Inr (file_get (unat offset') 20 (se_contents s)), ?s)"
    using safe_pread_ok [of offset' sizeof_header ?s] r(2,6) len g1 by (simp add: sizeof_header_def)
  moreover have "unat (offset' + word_of_nat sizeof_header) = unat offset' + 20" using r(2) assms(2) by (intro unat_add_20) simp
  then have "safe_pread (unat (ph_compressed_size h')) (offset' + word_of_nat sizeof_header) ?s = (Inr blob', ?s)"
    using safe_pread_ok [of "offset' + word_of_nat sizeof_header" "length blob'" ?s] r(2,4,6) len g2 by simp
  ultimately show ?thesis unfolding s' using r(3) by (simp add: read_page_raw_def bindS_def)
qed

section \<open>Header and schema areas\<close>

lemma write_db_header_ok:
  "se_fd s \<Longrightarrow> write_db_header h s =
    (let c = file_put 0 (DBHeader_bytes h) (se_contents s) in (Inr (), s\<lparr>se_file := Some c, se_durable := c\<rparr>))"
proof -
  assume "se_fd s"
  moreover have "DBHeader_bytes h \<noteq> []" by (metis length_DBHeader_bytes list.size(3) zero_neq_numeral)
  ultimately show ?thesis
    using safe_pwrite_ok [of 0 "DBHeader_bytes h" s] by (simp add: write_db_header_def bindS_def se_fsync_def Let_def)
qed

lemma read_db_header_ok:
  assumes "20 \<le> length (se_contents s)" and "length (se_contents s) < 2 ^ 63"
    and "file_get 0 20 (se_contents s) = DBHeader_bytes h" and "dh_magic h = XDL_MAGIC" and "se_fd s"
  shows "read_db_header s = (Inr h, s)"
proof -
  have "safe_pread sizeof_header 0 s = (Inr (DBHeader_bytes h), s)"
    using safe_pread_ok [of 0 sizeof_header s] assms by (simp add: sizeof_header_def)
  then show ?thesis using assms(4) by (simp add: read_db_header_def bindS_def)
qed

text \<open>The file holds a schema: its length word and its bytes follow the header.\<close>

definition holds_schema :: "Schema \<Rightarrow> bytes \<Rightarrow> bool" where
  "holds_schema schema c \<longleftrightarrow>
     24 + length (serialise_schema schema) \<le> length c \<and> length c < 2 ^ 63
     \<and> file_get 20 (4 + length (serialise_schema schema)) c
         = write_u32 (word_of_nat (length (serialise_schema schema))) @ serialise_schema schema"

lemma serialise_schema_length: "8 \<le> length (serialise_schema schema)"
  by (simp add: serialise_schema_def)

lemma holds_schema_parts:
  assumes "holds_schema schema c"
  shows "file_get 20 4 c = write_u32 (word_of_nat (length (serialise_schema schema)))"
    and "file_get 24 (length (serialise_schema schema)) c = serialise_schema schema"
proof -
  have "file_get 20 4 c @ file_get 24 (length (serialise_schema schema)) c
      = write_u32 (word_of_nat (length (serialise_schema schema))) @ serialise_schema schema"
    using assms file_get_split [of 20 4 "length (serialise_schema schema)" c] by (simp add: holds_schema_def)
  moreover have "24 \<le> length c" using assms by (simp add: holds_schema_def)
  then have "length (file_get 20 4 c) = 4" by (simp add: file_get_def)
  ultimately show "file_get 20 4 c = write_u32 (word_of_nat (length (serialise_schema schema)))"
    and "file_get 24 (length (serialise_schema schema)) c = serialise_schema schema" by (auto simp: append_eq_append_conv)
qed

lemma write_schema_holds:
  assumes "length (serialise_schema schema) < 2 ^ 32" and "length (se_contents s) < 2 ^ 63" and "se_fd s"
  obtains c where "write_schema schema s = (Inr (), s\<lparr>se_file := Some c\<rparr>)" "holds_schema schema c"
    "length c = max (24 + length (serialise_schema schema)) (length (se_contents s))"
    "20 \<le> length (se_contents s) \<Longrightarrow> file_get 0 20 c = file_get 0 20 (se_contents s)"
proof -
  let ?d = "serialise_schema schema"
  let ?len = "write_u32 (word_of_nat (length ?d))"
  let ?c1 = "file_put 20 ?len (se_contents s)"
  let ?c = "file_put 20 (?len @ ?d) (se_contents s)"
  have ne: "?d \<noteq> []" "?len \<noteq> []" using serialise_schema_length [of schema] by (auto simp: write_u32_def)
  have "safe_pwrite ?len 20 s = (Inr (), s\<lparr>se_file := Some ?c1\<rparr>)"
    using safe_pwrite_ok [of 20 ?len s] ne assms(3) by simp
  moreover have "safe_pwrite ?d 24 (s\<lparr>se_file := Some ?c1\<rparr>) = (Inr (), s\<lparr>se_file := Some (file_put 24 ?d ?c1)\<rparr>)"
    using safe_pwrite_ok [of 24 ?d "s\<lparr>se_file := Some ?c1\<rparr>"] ne assms(1,3) by simp
  moreover have "file_put 24 ?d ?c1 = ?c" using file_put_append [of ?len 20 ?d "se_contents s"] ne by simp
  ultimately have w: "write_schema schema s = (Inr (), s\<lparr>se_file := Some ?c\<rparr>)"
    using ne by (simp add: write_schema_def bindS_def Let_def sizeof_header_def)
  have len: "length ?c = max (24 + length ?d) (length (se_contents s))" using ne by (simp add: length_file_put)
  have "file_get 20 (4 + length ?d) ?c = ?len @ ?d" by (rule file_get_put_same) simp
  then have holds: "holds_schema schema ?c" using assms len by (simp add: holds_schema_def)
  have "file_get 0 20 ?c = file_get 0 20 (se_contents s)" if "20 \<le> length (se_contents s)"
    using that by (intro file_get_put_other) auto
  then show thesis using that w holds len by blast
qed

text \<open>The conditions under which a schema can be stored: the limits of the codec and of the length word.\<close>

definition storable_schema :: "Schema \<Rightarrow> bool" where
  "storable_schema schema \<longleftrightarrow> s_fields schema \<noteq> [] \<and> length (s_fields schema) \<le> 1024
     \<and> (\<forall>f \<in> set (s_fields schema). length (fd_name f) \<le> 65535 \<and> is_enumerator (fd_type f))
     \<and> length (serialise_schema schema) \<le> 65536"

lemma holds_schema_read:
  assumes "holds_schema schema (se_contents s)" and "storable_schema schema" and "se_fd s"
  shows "read_schema s = (Inr schema, s)"
    and "data_start_offset s = (Inr (24 + word_of_nat (length (serialise_schema schema))), s)"
proof -
  let ?d = "serialise_schema schema" and ?c = "se_contents s"
  let ?w = "word_of_nat (length ?d) :: u32"
  note p = holds_schema_parts [OF assms(1)]
  have h: "24 + length ?d \<le> length ?c" "length ?c < 2 ^ 63" using assms(1) by (simp_all add: holds_schema_def)
  have len: "length ?d \<le> 65536" "0 < length ?d" using assms(2) serialise_schema_length [of schema] by (auto simp: storable_schema_def)
  then have w: "unat ?w = length ?d" "?w \<noteq> 0" "\<not> 65536 < ?w" by (auto simp: word_less_nat_alt simp flip: unat_eq_0)
  have r: "read_u32 (write_u32 ?w) = Inr ?w" using read_write_u32 [of ?w "[]"] by simp
  have "safe_pread 4 20 s = (Inr (write_u32 ?w), s)" using safe_pread_ok [of 20 4 s] h p(1) assms(3) by simp
  moreover have "safe_pread (length ?d) 24 s = (Inr ?d, s)" using safe_pread_ok [of 24 "length ?d" s] h p(2) assms(3) by simp
  moreover have "deserialise_schema ?d = Inr schema"
    using deserialise_serialise_schema [of schema "[]"] assms(2) by (simp add: storable_schema_def)
  ultimately show "read_schema s = (Inr schema, s)"
    using w r by (simp add: read_schema_def bindS_def sizeof_header_def)
  have "unat (ucast ?w :: u64) = unat (word_of_nat (length ?d) :: u64)"
    using len(1) w(1) by (simp add: unsigned_ucast_eq take_bit_nat_eq_self unat_of_nat)
  then have "(ucast ?w :: u64) = word_of_nat (length ?d)" by (simp only: word_unat_eq_iff)
  then show "data_start_offset s = (Inr (24 + word_of_nat (length ?d)), s)"
    using p(1) w(3) r assms(3) by (simp add: data_start_offset_def bindS_def sizeof_header_def)
qed

lemma holds_schema_put:
  assumes "holds_schema schema c" and "24 + length (serialise_schema schema) \<le> pos" and "pos + length bs < 2 ^ 63"
  shows "holds_schema schema (file_put pos bs c)"
proof -
  have "length c \<le> length (file_put pos bs c)" "length (file_put pos bs c) < 2 ^ 63"
    using assms by (auto simp: length_file_put holds_schema_def)
  moreover have "file_get 20 (4 + length (serialise_schema schema)) (file_put pos bs c)
      = file_get 20 (4 + length (serialise_schema schema)) c"
    using assms by (intro file_get_put_other) (auto simp: holds_schema_def)
  ultimately show ?thesis using assms(1) by (simp add: holds_schema_def)
qed

section \<open>Properties\<close>

text \<open>
  C35: short reads and writes make no difference. However few bytes (at least one) each system
  call transfers, \<open>safe_pwrite\<close> leaves the file as one whole write would, and \<open>safe_pread\<close> of those bytes
  returns them.
\<close>

theorem transfer_loops_complete:
  assumes "\<forall>l \<in> set ls. 0 < l" and "\<forall>l \<in> set ls'. 0 < l" and "buf \<noteq> []"
    and "offset + length buf < 2 ^ 63" and "length c < 2 ^ 63"
  shows "\<exists>c'. safe_pwrite_loop ls buf offset c = Inr c' \<and> safe_pwrite_loop [] buf offset c = Inr c'
    \<and> safe_pread_loop ls' c' offset (length buf) = Inr buf"
proof -
  let ?c = "file_put offset buf c"
  have "safe_pwrite_loop ls buf offset c = Inr ?c" "safe_pwrite_loop [] buf offset c = Inr ?c"
    using safe_pwrite_loop_whole [of ls offset buf c] safe_pwrite_loop_whole [of "[]" offset buf c] assms by simp_all
  moreover have "safe_pread_loop ls' ?c offset (length buf) = Inr (file_get offset (length buf) ?c)"
    using assms by (intro safe_pread_loop_whole) (auto simp: length_file_put)
  ultimately show ?thesis by (simp add: file_get_put_same)
qed

theorem transfer_loops_complete_witness:
  "\<exists>c'. safe_pwrite_loop [2, 1] [7, 8, 9, 10] 3 [1] = Inr c' \<and> safe_pwrite_loop [] [7, 8, 9, 10] 3 [1] = Inr c'
     \<and> safe_pread_loop [1, 1, 5] c' 3 (length [7 :: byte, 8, 9, 10]) = Inr [7, 8, 9, 10]"
  using transfer_loops_complete [of "[2, 1]" "[1, 1, 5]" "[7, 8, 9, 10]" 3 "[1]"] by simp

text \<open>
  C36: a raw page is read back as it was written, and writing it does not disturb any page
  stored in a disjoint part of the file.
\<close>

theorem raw_page_roundtrip:
  assumes "unat offset + 20 + length blob < 2 ^ 63" and "length (se_contents s) < 2 ^ 63"
    and "unat (ph_compressed_size h) = length blob" and "se_fd s"
  shows "\<exists>s'. overwrite_page_raw offset h blob s = (Inr (), s') \<and> fst (read_page_raw offset s') = Inr (h, blob)
    \<and> (\<forall>offset' h' blob'. read_page_raw offset' s = (Inr (h', blob'), s)
        \<and> (unat offset' + 20 + length blob' \<le> unat offset \<or> unat offset + 20 + length blob \<le> unat offset')
      \<longrightarrow> fst (read_page_raw offset' s') = Inr (h', blob'))"
proof -
  obtain s' where s': "overwrite_page_raw offset h blob s = (Inr (), s')"
    using overwrite_page_raw_ok [of offset blob s h] assms(1,4) by simp
  then show ?thesis using overwrite_then_read [OF assms(1-4)] overwrite_keeps_other [OF assms(1,2), of _ _ _ h] by fastforce
qed

definition demo_page_header :: "u32 \<Rightarrow> PageHeader" where
  "demo_page_header pid = \<lparr>ph_page_id = pid, ph_compressed_size = 2, ph_uncompressed_size = 2, ph_row_count = 0,
     ph_compression_type = 0, ph_pad = (0, 0, 0)\<rparr>"

theorem raw_page_roundtrip_witness:
  "let s = snd (se_open (storage_engine (Some (PageHeader_bytes (demo_page_header 0) @ [5, 6])) CNone))
   in \<exists>s'. overwrite_page_raw 22 (demo_page_header 1) [8, 9] s = (Inr (), s')
        \<and> fst (read_page_raw 22 s') = Inr (demo_page_header 1, [8, 9]) \<and> fst (read_page_raw 0 s') = Inr (demo_page_header 0, [5, 6])"
proof -
  let ?s = "snd (se_open (storage_engine (Some (PageHeader_bytes (demo_page_header 0) @ [5, 6])) CNone))"
  have c: "se_contents ?s = PageHeader_bytes (demo_page_header 0) @ [5, 6]" by (simp add: se_contents_def storage_engine_def se_open_def bindS_def)
  have fd: "se_fd ?s" by (simp add: storage_engine_def se_open_def bindS_def)
  have "read_page_raw 0 ?s = (Inr (demo_page_header 0, [5, 6]), ?s)"
    by (rule read_page_raw_ok) (simp_all only: c fd, simp_all add: file_get_def, simp_all add: demo_page_header_def)
  then show ?thesis
    using raw_page_roundtrip [of 22 "[8, 9]" ?s "demo_page_header 1"] c fd
    by (force simp: demo_page_header_def Let_def)
qed

text \<open>
  C37: creating a file and storing a schema that fits the limits of the format makes the file
  self-describing: the header and the schema are read back, pages begin right behind the
  schema, and a page written at or behind that offset changes none of it.
\<close>

theorem stored_schema_persists:
  assumes "storable_schema schema" and "24 + length (serialise_schema schema) \<le> unat offset"
    and "unat offset + 20 + length blob < 2 ^ 63"
  shows "\<exists>s. bindS se_open (\<lambda>_. bindS (write_schema schema) (\<lambda>_. overwrite_page_raw offset h blob)) (storage_engine None ct) = (Inr (), s)
    \<and> fst (read_db_header s) = Inr (initial_db_header ct) \<and> fst (read_schema s) = Inr schema
    \<and> fst (data_start_offset s) = Inr (word_of_nat (24 + length (serialise_schema schema)))"
proof -
  let ?h0 = "initial_db_header ct"
  let ?s0 = "storage_engine None ct"
  let ?s1 = "?s0\<lparr>se_fd := True, se_file := Some (DBHeader_bytes ?h0), se_durable := DBHeader_bytes ?h0, se_is_open := True\<rparr>"
  have "se_open ?s0 = (Inr (), ?s1)"
    by (simp add: se_open_def storage_engine_def bindS_def write_db_header_ok se_contents_def Let_def file_put_def)
  moreover have "length (serialise_schema schema) < 2 ^ 32" using assms(1) by (simp add: storable_schema_def)
  then obtain c where c: "write_schema schema ?s1 = (Inr (), ?s1\<lparr>se_file := Some c\<rparr>)" "holds_schema schema c"
    "length c = max (24 + length (serialise_schema schema)) 20" "file_get 0 20 c = DBHeader_bytes ?h0"
    using write_schema_holds [of schema ?s1] by (auto simp: se_contents_def file_get_def)
  let ?bs = "PageHeader_bytes h @ blob"
  let ?c = "file_put (unat offset) ?bs c" and ?s2 = "?s1\<lparr>se_file := Some c\<rparr>"
  have "overwrite_page_raw offset h blob ?s2 = (Inr (), ?s2\<lparr>se_file := Some ?c\<rparr>)"
    using overwrite_page_raw_ok [of offset blob ?s2 h] assms(3) by simp
  moreover have holds: "holds_schema schema ?c" using assms by (intro holds_schema_put [OF c(2)]) simp_all
  moreover have "read_db_header (?s2\<lparr>se_file := Some ?c\<rparr>) = (Inr ?h0, ?s2\<lparr>se_file := Some ?c\<rparr>)"
  proof (rule read_db_header_ok)
    show "20 \<le> length (se_contents (?s2\<lparr>se_file := Some ?c\<rparr>))" "length (se_contents (?s2\<lparr>se_file := Some ?c\<rparr>)) < 2 ^ 63"
      using holds by (simp_all add: holds_schema_def)
    show "file_get 0 20 (se_contents (?s2\<lparr>se_file := Some ?c\<rparr>)) = DBHeader_bytes ?h0"
      using file_get_put_other [of 0 20 "unat offset" ?bs c] assms(2) c(3,4) by simp
  qed (simp_all add: initial_db_header_def)
  ultimately show ?thesis
    using c(1) holds_schema_read [of schema "?s2\<lparr>se_file := Some ?c\<rparr>"] assms(1) by (simp add: bindS_def)
qed

theorem stored_schema_persists_witness:
  "\<exists>s. bindS se_open (\<lambda>_. bindS (write_schema demo_schema) (\<lambda>_. overwrite_page_raw 100 (demo_page_header 0) [1, 2]))
      (storage_engine None CLZ4) = (Inr (), s)
    \<and> fst (read_db_header s) = Inr (initial_db_header CLZ4) \<and> fst (read_schema s) = Inr demo_schema
    \<and> fst (data_start_offset s) = Inr (word_of_nat (24 + length (serialise_schema demo_schema)))"
proof -
  have "length (serialise_schema demo_schema) = 21"
    by (simp add: serialise_schema_def demo_schema_def serialise_field_def Let_def)
  then show ?thesis
    using stored_schema_persists [of demo_schema 100 "[1, 2]" "demo_page_header 0" CLZ4]
    by (simp add: storable_schema_def demo_schema_def)
qed

text \<open>
  A schema whose serialised form exceeds 64 KiB is written without complaint, but cannot be
  read back, and \<open>data_start_offset\<close> then points right behind the header, into the schema
  bytes, where the first page will overwrite them.
\<close>

theorem oversized_schema_clobbered:
  assumes "65536 < length (serialise_schema schema)" and "length (serialise_schema schema) < 2 ^ 32"
    and "length (se_contents s) < 2 ^ 63"
    and "se_fd s"
  shows "\<exists>s'. write_schema schema s = (Inr (), s') \<and> fst (read_schema s') = Inl CorruptionError
    \<and> fst (data_start_offset s') = Inr 20"
proof -
  obtain c where c: "write_schema schema s = (Inr (), s\<lparr>se_file := Some c\<rparr>)" "holds_schema schema c"
    using write_schema_holds [OF assms(2,3,4)] by metis
  let ?w = "word_of_nat (length (serialise_schema schema)) :: u32"
  have w: "65536 < ?w" using assms(1,2) by (simp add: word_less_nat_alt)
  have r: "read_u32 (write_u32 ?w) = Inr ?w" using read_write_u32 [of ?w "[]"] by simp
  have "safe_pread 4 20 (s\<lparr>se_file := Some c\<rparr>) = (Inr (write_u32 ?w), s\<lparr>se_file := Some c\<rparr>)"
    using safe_pread_ok [of 20 4 "s\<lparr>se_file := Some c\<rparr>"] c(2) holds_schema_parts(1) [OF c(2)] assms(4) by (simp add: holds_schema_def)
  then show ?thesis
    using c(1) w r assms(4) holds_schema_parts(1) [OF c(2)]
    by (simp add: read_schema_def data_start_offset_def bindS_def sizeof_header_def)
qed

theorem oversized_schema_clobbered_witness:
  "let schema = \<lparr>s_fields = map (\<lambda>k. \<lparr>fd_name = replicate (50000 + k) (CHR ''x''), fd_type = BOOL\<rparr>) [0, 1], s_version = 0\<rparr>
   in validate schema = Inr () \<and> (\<exists>s'. write_schema schema (snd (se_open (storage_engine (Some []) CNone))) = (Inr (), s')
        \<and> fst (read_schema s') = Inl CorruptionError \<and> fst (data_start_offset s') = Inr 20)"
proof -
  let ?schema = "\<lparr>s_fields = map (\<lambda>k. \<lparr>fd_name = replicate (50000 + k) (CHR ''x''), fd_type = BOOL\<rparr>) [0, 1], s_version = 0\<rparr>"
  have "length (serialise_schema ?schema) = 100015"
    by (simp add: serialise_schema_def serialise_field_def Let_def)
  moreover have "replicate (50000 :: nat) CHR ''x'' \<noteq> replicate (50000 + 1) CHR ''x''" by (metis length_replicate n_not_Suc_n Suc_eq_plus1)
  then have "validate ?schema = Inr ()" by (simp add: validate_ok_iff)
  ultimately show ?thesis
    using oversized_schema_clobbered [of ?schema "snd (se_open (storage_engine (Some []) CNone))"]
    by (simp add: Let_def se_contents_def storage_engine_def se_open_def bindS_def)
qed

end
