(* ===== verification/Page_Cache.thy ===== *)
theory Page_Cache
  imports Page
begin

text \<open>
  \<open>PageCache\<close> of \<open>src/cache.cpp\<close>: the LRU buffer pool. The list \<open>lru_\<close> holds the pages,
  most recently used first; \<open>map_\<close> is its key set, the iterator of a key being the position of the
  page with that id. The eviction callback is a program on a client state \<open>'s\<close> that returns the
  page as the callback leaves it, so an operation of the cache is a program on the pair of both; a callback that throws
  leaves the page as it was. An iterator is found again by the id of its page. That is exact as long as no page changes its id while it is in the pool, which
  the properties of the pool require of the callback and of changes through pointers.
  The mutex makes every operation atomic.
\<close>

section \<open>State and operations\<close>

record PageCache =
  pc_lru :: "Page list"
  pc_keys :: "u32 list"
  pc_capacity :: nat

type_synonym 's eviction_cb = "(Page \<Rightarrow> ('s, Page) prog) option"

definition page_cache :: "nat \<Rightarrow> PageCache" where
  "page_cache capacity = \<lparr>pc_lru = [], pc_keys = [], pc_capacity = (if capacity = 0 then 1 else capacity)\<rparr>"

fun lru_find :: "u32 \<Rightarrow> Page list \<Rightarrow> Page option" where
  "lru_find pid [] = None"
| "lru_find pid (p # ps) = (if p_id p = pid then Some p else lru_find pid ps)"

fun lru_remove :: "u32 \<Rightarrow> Page list \<Rightarrow> Page list" where
  "lru_remove pid [] = []"
| "lru_remove pid (p # ps) = (if p_id p = pid then ps else p # lru_remove pid ps)"

text \<open>\<open>map_.find(page_id)\<close> and the page its iterator points to.\<close>

definition cache_find :: "PageCache \<Rightarrow> u32 \<Rightarrow> Page option" where
  "cache_find c pid = (if pid \<in> set (pc_keys c) then lru_find pid (pc_lru c) else None)"

text \<open>\<open>lru_.splice(lru_.begin(), lru_, it)\<close>.\<close>

definition lru_touch :: "Page \<Rightarrow> PageCache \<Rightarrow> PageCache" where
  "lru_touch p c = c\<lparr>pc_lru := p # lru_remove (p_id p) (pc_lru c)\<rparr>"

text \<open>
  \<open>get\<close>, \<open>get_shared\<close> and \<open>get_mut\<close> find a page and make it the most recently used one; they differ in
  handing out a copy, a shared view or a pointer. A change of the resident page \<open>pid\<close> through a pointer or a reference is \<open>cache_modify\<close>.
\<close>

definition cache_get :: "u32 \<Rightarrow> PageCache \<Rightarrow> Page option \<times> PageCache" where
  "cache_get pid c = (case cache_find c pid of None \<Rightarrow> (None, c) | Some p \<Rightarrow> (Some p, lru_touch p c))"

definition cache_get_shared :: "u32 \<Rightarrow> PageCache \<Rightarrow> Page option \<times> PageCache" where
  "cache_get_shared pid c = (case cache_find c pid of None \<Rightarrow> (None, c) | Some p \<Rightarrow> (Some p, lru_touch p c))"

definition cache_get_mut :: "u32 \<Rightarrow> PageCache \<Rightarrow> Page option \<times> PageCache" where
  "cache_get_mut pid c = (case cache_find c pid of None \<Rightarrow> (None, c) | Some p \<Rightarrow> (Some p, lru_touch p c))"

definition cache_modify :: "u32 \<Rightarrow> Page \<Rightarrow> PageCache \<Rightarrow> PageCache" where
  "cache_modify pid p c = c\<lparr>pc_lru := map (\<lambda>q. if p_id q = pid then p else q) (pc_lru c)\<rparr>"

definition run_evict :: "'s eviction_cb \<Rightarrow> Page \<Rightarrow> (PageCache \<times> 's, unit) prog" where
  "run_evict cb p cs =
     (case cb of
        Some f \<Rightarrow>
          if p_dirty p
          then (case f p (snd cs) of (Inl e, s) \<Rightarrow> (Inl e, (fst cs, s)) | (Inr p', s) \<Rightarrow> (Inr (), (cache_modify (p_id p) p' (fst cs), s)))
          else (Inr (), cs)
      | None \<Rightarrow> (Inr (), cs))"

definition evict_lru :: "'s eviction_cb \<Rightarrow> (PageCache \<times> 's, unit) prog" where
  "evict_lru cb cs =
     (if pc_lru (fst cs) = [] then (Inr (), cs)
      else let victim = last (pc_lru (fst cs))
           in bindS (run_evict cb victim) (\<lambda>_.
              modifyS (\<lambda>(c, s). (c\<lparr>pc_keys := removeAll (p_id (last (pc_lru c))) (pc_keys c), pc_lru := butlast (pc_lru c)\<rparr>, s))) cs)"

definition push_front :: "Page \<Rightarrow> PageCache \<Rightarrow> PageCache" where
  "push_front p c = c\<lparr>pc_lru := p # pc_lru c, pc_keys := List.insert (p_id p) (pc_keys c)\<rparr>"

definition make_room :: "'s eviction_cb \<Rightarrow> (PageCache \<times> 's, unit) prog" where
  "make_room cb cs = (if pc_capacity (fst cs) \<le> length (pc_lru (fst cs)) then evict_lru cb cs else (Inr (), cs))"

definition cache_put :: "'s eviction_cb \<Rightarrow> Page \<Rightarrow> (PageCache \<times> 's, unit) prog" where
  "cache_put cb page cs =
     (case cache_find (fst cs) (p_id page) of
        Some old \<Rightarrow>
          bindS (run_evict cb old) (\<lambda>_. modifyS (\<lambda>(c, s). (lru_touch page c, s))) cs
      | None \<Rightarrow> bindS (make_room cb) (\<lambda>_. modifyS (\<lambda>(c, s). (push_front page c, s))) cs)"

definition put_shared :: "'s eviction_cb \<Rightarrow> Page \<Rightarrow> (PageCache \<times> 's, Page) prog" where
  "put_shared cb page cs =
     (case cache_find (fst cs) (p_id page) of
        Some resident \<Rightarrow> (Inr resident, (lru_touch resident (fst cs), snd cs))
      | None \<Rightarrow> bindS (make_room cb) (\<lambda>_.
                 bindS (modifyS (\<lambda>(c, s). (push_front page c, s))) (\<lambda>_. returnS page)) cs)"

definition cache_evict :: "'s eviction_cb \<Rightarrow> u32 \<Rightarrow> (PageCache \<times> 's, unit) prog" where
  "cache_evict cb pid cs =
     (case cache_find (fst cs) pid of
        None \<Rightarrow> (Inr (), cs)
      | Some p \<Rightarrow> bindS (run_evict cb p) (\<lambda>_.
          modifyS (\<lambda>(c, s). (c\<lparr>pc_lru := lru_remove pid (pc_lru c), pc_keys := removeAll pid (pc_keys c)\<rparr>, s))) cs)"

fun run_evicts :: "'s eviction_cb \<Rightarrow> Page list \<Rightarrow> (PageCache \<times> 's, unit) prog" where
  "run_evicts cb [] = returnS ()"
| "run_evicts cb (p # ps) = bindS (run_evict cb p) (\<lambda>_. run_evicts cb ps)"

definition cache_flush_all :: "'s eviction_cb \<Rightarrow> (PageCache \<times> 's, unit) prog" where
  "cache_flush_all cb cs =
     bindS (run_evicts cb (pc_lru (fst cs))) (\<lambda>_. modifyS (\<lambda>(c, s). (c\<lparr>pc_lru := [], pc_keys := []\<rparr>, s))) cs"

definition cache_size :: "PageCache \<Rightarrow> nat" where
  "cache_size c = length (pc_keys c)"

text \<open>\<open>for_each_dirty\<close> collecting the ids, in the order of the key set.\<close>

definition dirty_ids :: "PageCache \<Rightarrow> u32 list" where
  "dirty_ids c = filter (\<lambda>pid. case cache_find c pid of Some p \<Rightarrow> p_dirty p | None \<Rightarrow> False) (pc_keys c)"

section \<open>Invariant\<close>

definition cache_inv :: "PageCache \<Rightarrow> bool" where
  "cache_inv c \<longleftrightarrow> distinct (map p_id (pc_lru c)) \<and> set (pc_keys c) = p_id ` set (pc_lru c) \<and> distinct (pc_keys c)
     \<and> length (pc_lru c) \<le> pc_capacity c \<and> 0 < pc_capacity c"

lemma cache_inv_init: "cache_inv (page_cache capacity)"
  by (simp add: cache_inv_def page_cache_def)

lemma lru_find_None_iff: "lru_find pid ps = None \<longleftrightarrow> pid \<notin> p_id ` set ps"
  by (induction ps) auto

lemma lru_find_Some: "lru_find pid ps = Some p \<Longrightarrow> p \<in> set ps \<and> p_id p = pid"
  by (induction ps) (auto split: if_splits)

lemma lru_find_unique: "distinct (map p_id ps) \<Longrightarrow> p \<in> set ps \<Longrightarrow> lru_find (p_id p) ps = Some p"
  by (induction ps) (auto simp: image_iff)

lemma cache_find_lru: "cache_inv c \<Longrightarrow> cache_find c pid = lru_find pid (pc_lru c)"
  using lru_find_None_iff [of pid "pc_lru c"] by (auto simp: cache_find_def cache_inv_def)

lemma set_lru_remove: "distinct (map p_id ps) \<Longrightarrow> set (lru_remove pid ps) = {p \<in> set ps. p_id p \<noteq> pid}"
  by (induction ps) (auto simp: image_iff)

lemma distinct_lru_remove: "distinct (map p_id ps) \<Longrightarrow> distinct (map p_id (lru_remove pid ps))"
  by (induction ps) (auto simp: set_lru_remove)

lemma length_lru_remove: "pid \<in> p_id ` set ps \<Longrightarrow> length (lru_remove pid ps) = length ps - 1"
proof (induction ps)
  case (Cons p ps)
  then show ?case by (cases ps) auto
qed simp

lemma length_lru_remove_le: "length (lru_remove pid ps) \<le> length ps"
  by (induction ps) auto

lemma lru_find_remove:
  "distinct (map p_id ps) \<Longrightarrow> lru_find q (lru_remove pid ps) = (if q = pid then None else lru_find q ps)"
proof (induction ps)
  case (Cons p ps)
  then show ?case using lru_find_None_iff [of pid ps] by auto
qed simp

lemma lru_find_modify:
  "lru_find q (map (\<lambda>x. if p_id x = p_id p then p else x) ps) = (if q = p_id p \<and> q \<in> p_id ` set ps then Some p else lru_find q ps)"
  by (induction ps) auto

lemma modify_ids: "map p_id (map (\<lambda>x. if p_id x = p_id p then p else x) ps) = map p_id ps"
  by auto

lemma cache_modify_inv:
  "cache_inv c \<Longrightarrow> p_id p = pid \<Longrightarrow> cache_inv (cache_modify pid p c)"
proof -
  assume inv: "cache_inv c" and "p_id p = pid"
  then have "map p_id (pc_lru (cache_modify pid p c)) = map p_id (pc_lru c)" by (auto simp: cache_modify_def)
  moreover from this have "p_id ` set (pc_lru (cache_modify pid p c)) = p_id ` set (pc_lru c)" by (metis set_map)
  moreover have "length (pc_lru (cache_modify pid p c)) = length (pc_lru c)" "pc_keys (cache_modify pid p c) = pc_keys c"
    "pc_capacity (cache_modify pid p c) = pc_capacity c" by (simp_all add: cache_modify_def)
  ultimately show "cache_inv (cache_modify pid p c)" using inv unfolding cache_inv_def by metis
qed

lemma lru_touch_inv:
  assumes "cache_inv c" and "p_id p \<in> p_id ` set (pc_lru c)" shows "cache_inv (lru_touch p c)"
proof -
  have d: "distinct (map p_id (pc_lru c))" using assms(1) by (simp add: cache_inv_def)
  have "length (lru_remove (p_id p) (pc_lru c)) = length (pc_lru c) - 1" by (rule length_lru_remove [OF assms(2)])
  moreover have "0 < length (pc_lru c)" using assms(2) by auto
  ultimately show ?thesis
    using assms distinct_lru_remove [OF d] by (auto simp: cache_inv_def lru_touch_def set_lru_remove [OF d])
qed

text \<open>A callback that leaves the id of the page alone, as \<open>map_.erase(victim->id)\<close> after the call needs it.\<close>

definition keeps_id :: "'s eviction_cb \<Rightarrow> bool" where
  "keeps_id cb \<longleftrightarrow> (\<forall>f p s p' s'. cb = Some f \<and> f p s = (Inr p', s') \<longrightarrow> p_id p' = p_id p)"

lemma run_evict_cases:
  obtains "snd (run_evict cb p cs) = cs" | s where "snd (run_evict cb p cs) = (fst cs, s)"
  | p' s where "snd (run_evict cb p cs) = (cache_modify (p_id p) p' (fst cs), s)" "keeps_id cb \<Longrightarrow> p_id p' = p_id p"
proof (cases cb)
  case None
  then show thesis using that(1) by (simp add: run_evict_def)
next
  case (Some f)
  show thesis
  proof (cases "p_dirty p")
    case True
    obtain r s where f: "f p (snd cs) = (r, s)" by (cases "f p (snd cs)")
    show thesis
    proof (cases r)
      case (Inr p')
      then have "keeps_id cb \<Longrightarrow> p_id p' = p_id p" using Some f by (auto simp: keeps_id_def)
      then show thesis using that(3) [of p' s] Inr f Some True by (simp add: run_evict_def)
    qed (use that(2) [of s] f Some True in \<open>simp add: run_evict_def\<close>)
  next
    case False
    then show thesis using that(1) Some by (simp add: run_evict_def)
  qed
qed

lemma run_evict_inv: "keeps_id cb \<Longrightarrow> cache_inv (fst cs) \<Longrightarrow> cache_inv (fst (snd (run_evict cb p cs)))"
  by (cases rule: run_evict_cases [of cb p cs]) (simp_all add: cache_modify_inv)

lemma run_evict_ids: "keeps_id cb \<Longrightarrow> map p_id (pc_lru (fst (snd (run_evict cb p cs)))) = map p_id (pc_lru (fst cs))"
  by (cases rule: run_evict_cases [of cb p cs]) (auto simp: cache_modify_def)

lemma run_evict_capacity: "pc_capacity (fst (snd (run_evict cb p cs))) = pc_capacity (fst cs)"
  by (cases rule: run_evict_cases [of cb p cs]) (simp_all add: cache_modify_def)

lemma cache_inv_butlast:
  assumes "cache_inv c" and "pc_lru c \<noteq> []"
  shows "cache_inv (c\<lparr>pc_keys := removeAll (p_id (last (pc_lru c))) (pc_keys c), pc_lru := butlast (pc_lru c)\<rparr>)"
proof -
  obtain ps v where lru: "pc_lru c = ps @ [v]" using assms(2) by (meson rev_exhaust)
  have "distinct (map p_id (ps @ [v]))" and "set (pc_keys c) = p_id ` set (ps @ [v])"
    using assms(1) by (simp_all add: cache_inv_def lru)
  then show ?thesis using assms(1) by (auto simp: cache_inv_def lru distinct_removeAll)
qed

lemma last_p_id: "map p_id xs = map p_id ys \<Longrightarrow> xs \<noteq> [] \<Longrightarrow> p_id (last xs) = p_id (last ys)"
  by (metis last_map map_is_Nil_conv)

lemma evict_lru_inv:
  assumes "keeps_id cb" and "cache_inv (fst cs)"
  shows "cache_inv (fst (snd (evict_lru cb cs)))"
    and "fst (evict_lru cb cs) = Inr () \<Longrightarrow> pc_lru (fst cs) \<noteq> [] \<Longrightarrow> length (pc_lru (fst (snd (evict_lru cb cs)))) < pc_capacity (fst cs)"
    and "pc_capacity (fst (snd (evict_lru cb cs))) = pc_capacity (fst cs)"
proof -
  let ?victim = "last (pc_lru (fst cs))"
  obtain r c s where run: "run_evict cb ?victim cs = (r, (c, s))" by (metis surj_pair)
  have c: "cache_inv c" "map p_id (pc_lru c) = map p_id (pc_lru (fst cs))" "pc_capacity c = pc_capacity (fst cs)"
    using run_evict_inv [OF assms, of ?victim] run_evict_ids [OF assms(1), of ?victim cs] run_evict_capacity [of cb ?victim cs] run by simp_all
  have len: "length (pc_lru c) = length (pc_lru (fst cs))" using c(2) by (metis length_map)
  have "cache_inv (fst (snd (evict_lru cb cs))) \<and> (fst (evict_lru cb cs) = Inr () \<longrightarrow> pc_lru (fst cs) \<noteq> [] \<longrightarrow>
      length (pc_lru (fst (snd (evict_lru cb cs)))) < pc_capacity (fst cs))
      \<and> pc_capacity (fst (snd (evict_lru cb cs))) = pc_capacity (fst cs)"
  proof (cases "pc_lru (fst cs) = []")
    case True
    then show ?thesis using assms(2) by (simp add: evict_lru_def)
  next
    case False
    then have ne: "pc_lru c \<noteq> []" using len by auto
    have "length (pc_lru c) \<le> pc_capacity (fst cs)" using c(1,3) by (simp add: cache_inv_def)
    moreover have "0 < length (pc_lru c)" using ne by simp
    ultimately have "length (butlast (pc_lru c)) < pc_capacity (fst cs)" unfolding length_butlast by linarith
    then show ?thesis
      using False run c(1,3) cache_inv_butlast [OF c(1) ne] by (cases r) (simp_all add: evict_lru_def bindS_def Let_def)
  qed
  then show "cache_inv (fst (snd (evict_lru cb cs)))"
    and "fst (evict_lru cb cs) = Inr () \<Longrightarrow> pc_lru (fst cs) \<noteq> [] \<Longrightarrow> length (pc_lru (fst (snd (evict_lru cb cs)))) < pc_capacity (fst cs)"
    and "pc_capacity (fst (snd (evict_lru cb cs))) = pc_capacity (fst cs)" by blast+
qed

lemma make_room_inv:
  assumes "keeps_id cb" and "cache_inv (fst cs)"
  shows "cache_inv (fst (snd (make_room cb cs)))"
    and "fst (make_room cb cs) = Inr () \<Longrightarrow> length (pc_lru (fst (snd (make_room cb cs)))) < pc_capacity (fst (snd (make_room cb cs)))"
proof -
  have "pc_lru (fst cs) \<noteq> []" if "pc_capacity (fst cs) \<le> length (pc_lru (fst cs))"
    using that assms(2) by (auto simp: cache_inv_def)
  then show "cache_inv (fst (snd (make_room cb cs)))"
    and "fst (make_room cb cs) = Inr () \<Longrightarrow> length (pc_lru (fst (snd (make_room cb cs)))) < pc_capacity (fst (snd (make_room cb cs)))"
    using evict_lru_inv [OF assms] assms by (auto simp: make_room_def)
qed

lemma make_room_ids: "keeps_id cb \<Longrightarrow> p_id ` set (pc_lru (fst (snd (make_room cb cs)))) \<subseteq> p_id ` set (pc_lru (fst cs))"
proof -
  assume keeps: "keeps_id cb"
  let ?v = "last (pc_lru (fst cs))"
  obtain r c s where run: "run_evict cb ?v cs = (r, (c, s))" by (metis surj_pair)
  then have "map p_id (pc_lru c) = map p_id (pc_lru (fst cs))" using run_evict_ids [OF keeps, of ?v cs] by simp
  then have ids: "p_id ` set (pc_lru c) = p_id ` set (pc_lru (fst cs))" by (metis set_map)
  have "p_id ` set (butlast (pc_lru c)) \<subseteq> p_id ` set (pc_lru c)" by (auto dest: in_set_butlastD)
  then show ?thesis using run ids by (cases r) (auto simp: make_room_def evict_lru_def bindS_def Let_def)
qed

lemma push_front_inv:
  "cache_inv c \<Longrightarrow> length (pc_lru c) < pc_capacity c \<Longrightarrow> p_id p \<notin> p_id ` set (pc_lru c) \<Longrightarrow> cache_inv (push_front p c)"
  by (auto simp: cache_inv_def push_front_def)

section \<open>The pool over a backing store\<close>

text \<open>
  The client of the cache writes evicted pages back. The pool as a whole then stands for a
  map from page ids to pages, the same whichever pages happen to be resident: a page in the
  cache, or else the stored one. Dirty flags are no part of that map.
\<close>

definition clean :: "Page \<Rightarrow> Page" where
  "clean p = p\<lparr>p_dirty := False\<rparr>"

lemma clean_simps [simp]:
  "p_id (clean p) = p_id p" "p_data (clean p) = p_data p" "p_row_count (clean p) = p_row_count p"
  "p_row_offsets (clean p) = p_row_offsets p" "\<not> p_dirty (clean p)" "clean (clean p) = clean p"
  "\<not> p_dirty p \<Longrightarrow> clean p = p" "clean (p\<lparr>p_dirty := b\<rparr>) = clean p"
  by (simp_all add: clean_def)

locale backing_store =
  fixes write_back :: "Page \<Rightarrow> ('s, Page) prog"
    and stored :: "'s \<Rightarrow> u32 \<rightharpoonup> Page"
    and store_ok :: "'s \<Rightarrow> bool"
    and fits :: "Page \<Rightarrow> bool"
  assumes write_back_law: "store_ok s \<Longrightarrow> fits p \<Longrightarrow> p_dirty p \<Longrightarrow>
      \<exists>s'. write_back p s = (Inr (clean p), s') \<and> store_ok s' \<and> stored s' = (stored s)(p_id p \<mapsto> clean p)"
    and fits_clean: "fits p \<Longrightarrow> fits (clean p)"
begin

definition view :: "PageCache \<times> 's \<Rightarrow> u32 \<rightharpoonup> Page" where
  "view cs pid = (case lru_find pid (pc_lru (fst cs)) of Some p \<Rightarrow> Some (clean p) | None \<Rightarrow> stored (snd cs) pid)"

definition pool_ok :: "PageCache \<times> 's \<Rightarrow> bool" where
  "pool_ok cs \<longleftrightarrow> cache_inv (fst cs) \<and> store_ok (snd cs)
     \<and> (\<forall>p \<in> set (pc_lru (fst cs)). fits p \<and> (\<not> p_dirty p \<longrightarrow> stored (snd cs) (p_id p) = Some (clean p)))"

lemma pool_okD:
  assumes "pool_ok cs"
  shows "cache_inv (fst cs)" and "store_ok (snd cs)" and "distinct (map p_id (pc_lru (fst cs)))"
    and "\<And>p. p \<in> set (pc_lru (fst cs)) \<Longrightarrow> fits p"
    and "\<And>p. p \<in> set (pc_lru (fst cs)) \<Longrightarrow> \<not> p_dirty p \<Longrightarrow> stored (snd cs) (p_id p) = Some (clean p)"
  using assms by (auto simp: pool_ok_def cache_inv_def)

text \<open>Writing one resident page back.\<close>

lemma run_evict_pool:
  assumes "pool_ok cs" and p: "p \<in> set (pc_lru (fst cs))"
  obtains cs' where "run_evict (Some write_back) p cs = (Inr (), cs')" "pool_ok cs'" "view cs' = view cs"
    "map p_id (pc_lru (fst cs')) = map p_id (pc_lru (fst cs))" "stored (snd cs') (p_id p) = Some (clean p)"
    "\<And>q. q \<noteq> p_id p \<Longrightarrow> stored (snd cs') q = stored (snd cs) q" "pc_capacity (fst cs') = pc_capacity (fst cs)"
proof (cases "p_dirty p")
  case False
  then show thesis using that [of cs] assms pool_okD(5) [OF assms(1) p False] by (simp add: run_evict_def)
next
  case True
  note d = pool_okD [OF assms(1)]
  obtain s' where s': "write_back p (snd cs) = (Inr (clean p), s')" "store_ok s'" "stored s' = (stored (snd cs))(p_id p \<mapsto> clean p)"
    using write_back_law [OF d(2) d(4) [OF p] True] by blast
  let ?c = "cache_modify (p_id p) (clean p) (fst cs)"
  have run: "run_evict (Some write_back) p cs = (Inr (), (?c, s'))" using True s'(1) by (simp add: run_evict_def)
  have ids: "map p_id (pc_lru ?c) = map p_id (pc_lru (fst cs))" by (simp add: cache_modify_def)
  have mem: "q = clean p \<or> (q \<in> set (pc_lru (fst cs)) \<and> p_id q \<noteq> p_id p)" if "q \<in> set (pc_lru ?c)" for q
    using that by (auto simp: cache_modify_def split: if_splits)
  have ok: "pool_ok (?c, s')"
    unfolding pool_ok_def using cache_modify_inv [OF d(1), of "clean p" "p_id p"] s'(2,3) mem d(4,5) fits_clean [OF d(4) [OF p]] by (fastforce dest: mem)
  have "lru_find (p_id p) (pc_lru (fst cs)) = Some p" by (rule lru_find_unique [OF d(3) p])
  then have "view (?c, s') q = view cs q" for q
    using lru_find_modify [of q "clean p" "pc_lru (fst cs)"] s'(3) p
    by (auto simp: view_def cache_modify_def split: option.splits dest: lru_find_Some)
  then show thesis
    using that [of "(?c, s')"] run ok ids s'(3) by (auto simp: cache_modify_def)
qed

lemma evict_lru_pool:
  assumes "pool_ok cs" and ne: "pc_lru (fst cs) \<noteq> []"
  obtains cs' where "evict_lru (Some write_back) cs = (Inr (), cs')" "pool_ok cs'" "view cs' = view cs"
    "map p_id (pc_lru (fst cs')) = butlast (map p_id (pc_lru (fst cs)))"
    "\<And>q. q \<notin> p_id ` set (pc_lru (fst cs)) \<Longrightarrow> stored (snd cs') q = stored (snd cs) q"
    "pc_capacity (fst cs') = pc_capacity (fst cs)"
proof -
  let ?v = "last (pc_lru (fst cs))"
  have v: "?v \<in> set (pc_lru (fst cs))" using ne by simp
  obtain cs1 where r1: "run_evict (Some write_back) ?v cs = (Inr (), cs1)" "pool_ok cs1" "view cs1 = view cs"
    "map p_id (pc_lru (fst cs1)) = map p_id (pc_lru (fst cs))" "stored (snd cs1) (p_id ?v) = Some (clean ?v)"
    "\<And>q. q \<noteq> p_id ?v \<Longrightarrow> stored (snd cs1) q = stored (snd cs) q" "pc_capacity (fst cs1) = pc_capacity (fst cs)"
    by (rule run_evict_pool [OF assms(1) v], rule that)
  obtain c s where cs1: "cs1 = (c, s)" by (cases cs1)
  note r = r1 [unfolded cs1 fst_conv snd_conv]
  have nec: "pc_lru c \<noteq> []" using r(4) ne by (metis map_is_Nil_conv)
  then obtain ps w where lru: "pc_lru c = ps @ [w]" by (meson rev_exhaust)
  have wid: "p_id w = p_id ?v" using last_p_id [OF r(4) nec] lru by simp
  let ?c = "c\<lparr>pc_keys := removeAll (p_id w) (pc_keys c), pc_lru := ps\<rparr>"
  have run: "evict_lru (Some write_back) cs = (Inr (), (?c, s))"
    using ne r(1) lru by (simp add: evict_lru_def bindS_def Let_def)
  note d = pool_okD [OF r(2), unfolded fst_conv snd_conv]
  have inv: "cache_inv ?c" using cache_inv_butlast [OF d(1) nec] unfolding lru by simp
  have ok: "pool_ok (?c, s)" using inv d(2) d(4,5) lru by (auto simp: pool_ok_def)
  have notin: "p_id w \<notin> p_id ` set ps" using d(3) lru by auto
  have find_app: "lru_find q (ps @ [w]) = (case lru_find q ps of Some p \<Rightarrow> Some p | None \<Rightarrow> if p_id w = q then Some w else None)" for q
    by (induction ps) auto
  have "view (c, s) (p_id w) = Some (clean w)" using lru_find_unique [OF d(3), of w] lru by (simp add: view_def)
  moreover have "view (c, s) (p_id w) = Some (clean ?v)"
    using r(3) lru_find_unique [OF pool_okD(3) [OF assms(1)] v] wid by (simp add: view_def)
  ultimately have "stored s (p_id w) = Some (clean w)" using r(5) wid by simp
  then have "view (?c, s) q = view (c, s) q" for q
    using notin lru_find_None_iff [of "p_id w" ps] by (auto simp: view_def lru find_app split: option.splits)
  then have same_view: "view (?c, s) = view cs" using r(3) by auto
  have ids: "map p_id ps = butlast (map p_id (pc_lru (fst cs)))" using r(4) lru by (metis butlast_snoc list.simps(8,9) map_append)
  have others: "stored s q = stored (snd cs) q" if "q \<notin> p_id ` set (pc_lru (fst cs))" for q
    using r(6) that v by blast
  show thesis by (rule that [of "(?c, s)"]) (use run ok same_view ids others r(7) in simp_all)
qed

lemma make_room_pool:
  assumes "pool_ok cs"
  obtains cs' where "make_room (Some write_back) cs = (Inr (), cs')" "pool_ok cs'" "view cs' = view cs"
    "set (map p_id (pc_lru (fst cs'))) \<subseteq> set (map p_id (pc_lru (fst cs)))" "length (pc_lru (fst cs')) < pc_capacity (fst cs')"
    "\<And>q. q \<notin> p_id ` set (pc_lru (fst cs)) \<Longrightarrow> stored (snd cs') q = stored (snd cs) q"
proof (cases "pc_capacity (fst cs) \<le> length (pc_lru (fst cs))")
  case True
  have inv: "cache_inv (fst cs)" using assms by (rule pool_okD)
  then have ne: "pc_lru (fst cs) \<noteq> []" using True by (auto simp: cache_inv_def)
  obtain cs' where e: "evict_lru (Some write_back) cs = (Inr (), cs')" "pool_ok cs'" "view cs' = view cs"
    "map p_id (pc_lru (fst cs')) = butlast (map p_id (pc_lru (fst cs)))"
    "\<And>q. q \<notin> p_id ` set (pc_lru (fst cs)) \<Longrightarrow> stored (snd cs') q = stored (snd cs) q"
    "pc_capacity (fst cs') = pc_capacity (fst cs)"
    by (rule evict_lru_pool [OF assms ne], rule that)
  have "length (pc_lru (fst cs')) < pc_capacity (fst cs')"
    using arg_cong [OF e(4), of length] e(6) ne inv by (cases "pc_lru (fst cs)") (simp_all add: cache_inv_def)
  moreover have "set (map p_id (pc_lru (fst cs'))) \<subseteq> set (map p_id (pc_lru (fst cs)))"
    unfolding e(4) by (auto dest: in_set_butlastD)
  ultimately show thesis using that [of cs'] e True by (simp add: make_room_def)
next
  case False
  then show thesis using that [of cs] assms by (simp add: make_room_def)
qed

lemma touch_pool:
  assumes "pool_ok cs" and "lru_find pid (pc_lru (fst cs)) = Some p"
  shows "pool_ok (lru_touch p (fst cs), snd cs)" and "view (lru_touch p (fst cs), snd cs) = view cs"
    and "lru_find pid (pc_lru (lru_touch p (fst cs))) = Some p"
    and "\<And>q. lru_find q (pc_lru (lru_touch p (fst cs))) = lru_find q (pc_lru (fst cs))"
proof -
  note d = pool_okD [OF assms(1)] and f = lru_find_Some [OF assms(2)]
  have find: "lru_find q (pc_lru (lru_touch p (fst cs))) = lru_find q (pc_lru (fst cs))" for q
    using assms(2) f by (auto simp: lru_touch_def lru_find_remove [OF d(3)])
  then show "\<And>q. lru_find q (pc_lru (lru_touch p (fst cs))) = lru_find q (pc_lru (fst cs))" .
  show "lru_find pid (pc_lru (lru_touch p (fst cs))) = Some p" using find assms(2) by simp
  have "cache_inv (lru_touch p (fst cs))" using f by (intro lru_touch_inv d(1)) auto
  moreover have "set (pc_lru (lru_touch p (fst cs))) \<subseteq> set (pc_lru (fst cs))"
    using f set_lru_remove [OF d(3)] by (auto simp: lru_touch_def)
  ultimately show "pool_ok (lru_touch p (fst cs), snd cs)" using d(2,4,5) by (auto simp: pool_ok_def)
  show "view (lru_touch p (fst cs), snd cs) = view cs" by (rule ext) (simp add: view_def find split: option.split)
qed

text \<open>Making a page resident that is not: a new page, or one just loaded.\<close>

lemma put_shared_pool:
  assumes "pool_ok cs" and "lru_find (p_id p) (pc_lru (fst cs)) = None" and "fits p"
    and "\<not> p_dirty p \<longrightarrow> stored (snd cs) (p_id p) = Some (clean p)"
  obtains cs' where "put_shared (Some write_back) p cs = (Inr p, cs')" "pool_ok cs'" "view cs' = (view cs)(p_id p \<mapsto> clean p)"
    "lru_find (p_id p) (pc_lru (fst cs')) = Some p"
proof -
  have inv: "cache_inv (fst cs)" using assms(1) by (rule pool_okD)
  have notin: "p_id p \<notin> p_id ` set (pc_lru (fst cs))" using assms(2) by (simp add: lru_find_None_iff)
  obtain cs1 where m: "make_room (Some write_back) cs = (Inr (), cs1)" "pool_ok cs1" "view cs1 = view cs"
    "set (map p_id (pc_lru (fst cs1))) \<subseteq> set (map p_id (pc_lru (fst cs)))" "length (pc_lru (fst cs1)) < pc_capacity (fst cs1)"
    "\<And>q. q \<notin> p_id ` set (pc_lru (fst cs)) \<Longrightarrow> stored (snd cs1) q = stored (snd cs) q"
    by (rule make_room_pool [OF assms(1)], rule that)
  obtain c s where cs1: "cs1 = (c, s)" by (cases cs1)
  note d = pool_okD [OF m(2)]
  have notin1: "p_id p \<notin> p_id ` set (pc_lru c)" using m(4) notin cs1 by auto
  let ?cs = "(push_front p c, s)"
  have "put_shared (Some write_back) p cs = (Inr p, ?cs)"
    using assms(2) m(1) cs1 by (simp add: put_shared_def cache_find_lru [OF inv] bindS_def)
  moreover have "pool_ok ?cs"
    using push_front_inv [of c p] d m(5) m(6) [OF notin] notin1 assms(3,4) cs1 by (auto simp: pool_ok_def push_front_def)
  moreover have "view ?cs = (view cs)(p_id p \<mapsto> clean p)"
    unfolding m(3) [symmetric] by (rule ext) (simp add: view_def push_front_def cs1 split: option.split)
  moreover have "lru_find (p_id p) (pc_lru (fst ?cs)) = Some p" by (simp add: push_front_def)
  ultimately show thesis by (rule that)
qed

text \<open>A change of a resident page through a pointer.\<close>

lemma modify_pool:
  assumes "pool_ok cs" and "lru_find (p_id p) (pc_lru (fst cs)) = Some old" and "fits p" and "p_dirty p"
  shows "pool_ok (cache_modify (p_id p) p (fst cs), snd cs)"
    and "view (cache_modify (p_id p) p (fst cs), snd cs) = (view cs)(p_id p \<mapsto> clean p)"
    and "lru_find (p_id p) (pc_lru (cache_modify (p_id p) p (fst cs))) = Some p"
proof -
  note d = pool_okD [OF assms(1)] and f = lru_find_Some [OF assms(2)]
  have find: "lru_find q (pc_lru (cache_modify (p_id p) p (fst cs))) = (if q = p_id p then Some p else lru_find q (pc_lru (fst cs)))" for q
  proof -
    have "p_id p \<in> p_id ` set (pc_lru (fst cs))" using f by (metis imageI)
    then show ?thesis using lru_find_modify [of q p "pc_lru (fst cs)"] by (auto simp: cache_modify_def)
  qed
  have "q = p \<or> q \<in> set (pc_lru (fst cs))" if "q \<in> set (pc_lru (cache_modify (p_id p) p (fst cs)))" for q
    using that by (auto simp: cache_modify_def split: if_splits)
  then show "pool_ok (cache_modify (p_id p) p (fst cs), snd cs)"
    using cache_modify_inv [OF d(1), of p "p_id p"] d(2,4,5) assms(3,4) by (fastforce simp: pool_ok_def)
  show "view (cache_modify (p_id p) p (fst cs), snd cs) = (view cs)(p_id p \<mapsto> clean p)" by (rule ext) (simp add: view_def find split: option.split)
  show "lru_find (p_id p) (pc_lru (cache_modify (p_id p) p (fst cs))) = Some p" by (simp add: find)
qed

end

section \<open>Properties\<close>

text \<open>The operations of the cache as calls with a callback that may also fail.\<close>

datatype cache_op =
    CGet u32 | CGetShared u32 | CGetMut u32 | CModify u32 Page | CPut Page | CPutShared Page | CEvict u32 | CFlushAll

fun cache_call :: "'s eviction_cb \<Rightarrow> cache_op \<Rightarrow> PageCache \<times> 's \<Rightarrow> PageCache \<times> 's" where
  "cache_call cb (CGet pid) cs = (snd (cache_get pid (fst cs)), snd cs)"
| "cache_call cb (CGetShared pid) cs = (snd (cache_get_shared pid (fst cs)), snd cs)"
| "cache_call cb (CGetMut pid) cs = (snd (cache_get_mut pid (fst cs)), snd cs)"
| "cache_call cb (CModify pid p) cs = (cache_modify pid p (fst cs), snd cs)"
| "cache_call cb (CPut p) cs = snd (cache_put cb p cs)"
| "cache_call cb (CPutShared p) cs = snd (put_shared cb p cs)"
| "cache_call cb (CEvict pid) cs = snd (cache_evict cb pid cs)"
| "cache_call cb CFlushAll cs = snd (cache_flush_all cb cs)"

lemma cache_find_mem: "cache_inv c \<Longrightarrow> cache_find c pid = Some p \<Longrightarrow> p_id p = pid \<and> pid \<in> p_id ` set (pc_lru c)"
  using lru_find_Some [of pid "pc_lru c" p] by (auto simp: cache_find_lru)

lemma push_after_room:
  assumes "keeps_id cb" and "cache_inv (fst cs)" and "cache_find (fst cs) (p_id p) = None"
  shows "cache_inv (fst (snd (bindS (make_room cb) (\<lambda>_. modifyS (\<lambda>(c, s). (push_front p c, s))) cs)))"
proof -
  obtain r c s where m: "make_room cb cs = (r, (c, s))" by (metis surj_pair)
  have inv: "cache_inv c" and room: "r = Inr () \<Longrightarrow> length (pc_lru c) < pc_capacity c"
    using make_room_inv [OF assms(1,2)] m by auto
  have "p_id ` set (pc_lru c) \<subseteq> p_id ` set (pc_lru (fst cs))"
    using make_room_ids [OF assms(1), of cs] m by simp
  moreover have "p_id p \<notin> p_id ` set (pc_lru (fst cs))"
    using assms(2,3) by (simp add: cache_find_lru lru_find_None_iff)
  ultimately have "p_id p \<notin> p_id ` set (pc_lru c)" by blast
  then show ?thesis using push_front_inv [OF inv] inv room m by (cases r) (simp_all add: bindS_def)
qed


lemma run_evicts_inv: "keeps_id cb \<Longrightarrow> cache_inv (fst cs) \<Longrightarrow> cache_inv (fst (snd (run_evicts cb ps cs)))"
proof (induction ps arbitrary: cs)
  case (Cons p ps)
  obtain r cs1 where r: "run_evict cb p cs = (r, cs1)" by (metis surj_pair)
  then have "cache_inv (fst cs1)" using run_evict_inv [OF Cons.prems, of p] by simp
  then show ?case using Cons.IH Cons.prems(1) r by (cases r) (simp_all add: bindS_def)
qed simp

lemma run_evicts_capacity: "pc_capacity (fst (snd (run_evicts cb ps cs))) = pc_capacity (fst cs)"
proof (induction ps arbitrary: cs)
  case (Cons p ps)
  obtain r cs1 where r: "run_evict cb p cs = (r, cs1)" by (metis surj_pair)
  then have "pc_capacity (fst cs1) = pc_capacity (fst cs)" using run_evict_capacity [of cb p cs] by simp
  then show ?case using Cons.IH r by (cases r) (simp_all add: bindS_def)
qed simp

lemma make_room_capacity: "pc_capacity (fst (snd (make_room cb cs))) = pc_capacity (fst cs)"
  using run_evict_capacity [of cb "last (pc_lru (fst cs))" cs]
  by (auto simp: make_room_def evict_lru_def bindS_def Let_def split: prod.splits sum.splits)

lemma bindS_capacity:
  assumes "pc_capacity (fst (snd (f cs))) = pc_capacity (fst cs)" and "\<And>x cs'. pc_capacity (fst (snd (g x cs'))) = pc_capacity (fst cs')"
  shows "pc_capacity (fst (snd (bindS f g cs))) = pc_capacity (fst cs)"
proof -
  obtain r cs1 where "f cs = (r, cs1)" by (cases "f cs")
  then show ?thesis using assms by (cases r) (simp_all add: bindS_def)
qed

lemma cache_call_capacity: "pc_capacity (fst (cache_call cb oper cs)) = pc_capacity (fst cs)"
proof (cases oper)
  case (CPut p)
  then show ?thesis
    by (cases "cache_find (fst cs) (p_id p)")
       (auto simp: cache_put_def lru_touch_def push_front_def make_room_capacity run_evict_capacity intro!: bindS_capacity)
next
  case (CPutShared p)
  then show ?thesis
    by (cases "cache_find (fst cs) (p_id p)")
       (auto simp: put_shared_def lru_touch_def push_front_def make_room_capacity intro!: bindS_capacity)
next
  case (CEvict pid)
  then show ?thesis
    by (cases "cache_find (fst cs) pid") (auto simp: cache_evict_def run_evict_capacity intro!: bindS_capacity)
next
  case CFlushAll
  then show ?thesis by (auto simp: cache_flush_all_def run_evicts_capacity intro!: bindS_capacity)
qed (simp_all add: cache_get_def cache_get_shared_def cache_get_mut_def cache_modify_def lru_touch_def split: option.split)

lemma touch_inv: "cache_inv c \<Longrightarrow> cache_find c pid = Some p \<Longrightarrow> cache_inv (lru_touch p c)"
  using cache_find_mem [of c pid p] lru_touch_inv [of c p] by auto

lemma cache_put_inv:
  assumes "keeps_id cb" and "cache_inv (fst cs)" shows "cache_inv (fst (snd (cache_put cb p cs)))"
proof (cases "cache_find (fst cs) (p_id p)")
  case None
  then show ?thesis using push_after_room [OF assms None] by (simp add: cache_put_def)
next
  case (Some old)
  obtain r c s where e: "run_evict cb old cs = (r, (c, s))" by (metis surj_pair)
  have "cache_inv c" "map p_id (pc_lru c) = map p_id (pc_lru (fst cs))"
    using run_evict_inv [OF assms, of old] run_evict_ids [OF assms(1), of old cs] e by simp_all
  moreover from this(2) have "p_id ` set (pc_lru c) = p_id ` set (pc_lru (fst cs))" by (metis set_map)
  moreover have "p_id p \<in> p_id ` set (pc_lru (fst cs))" using cache_find_mem [OF assms(2) Some] by simp
  ultimately show ?thesis using lru_touch_inv [of c p] Some e by (cases r) (simp_all add: cache_put_def bindS_def)
qed

lemma put_shared_inv:
  assumes "keeps_id cb" and "cache_inv (fst cs)" shows "cache_inv (fst (snd (put_shared cb p cs)))"
proof (cases "cache_find (fst cs) (p_id p)")
  case None
  then show ?thesis
    using push_after_room [OF assms None] by (auto simp: put_shared_def bindS_def split: prod.splits sum.splits)
next
  case (Some old)
  then show ?thesis using touch_inv [OF assms(2)] by (simp add: put_shared_def)
qed

lemma cache_evict_inv:
  assumes "keeps_id cb" and "cache_inv (fst cs)" shows "cache_inv (fst (snd (cache_evict cb pid cs)))"
proof (cases "cache_find (fst cs) pid")
  case None
  then show ?thesis using assms(2) by (simp add: cache_evict_def)
next
  case (Some p)
  obtain r c s where e: "run_evict cb p cs = (r, (c, s))" by (metis surj_pair)
  have inv: "cache_inv c" using run_evict_inv [OF assms, of p] e by simp
  then have d: "distinct (map p_id (pc_lru c))" by (simp add: cache_inv_def)
  have "length (lru_remove pid (pc_lru c)) \<le> length (pc_lru c)" by (rule length_lru_remove_le)
  then have "cache_inv (c\<lparr>pc_lru := lru_remove pid (pc_lru c), pc_keys := removeAll pid (pc_keys c)\<rparr>)"
    using inv distinct_lru_remove [OF d] by (auto simp: cache_inv_def set_lru_remove [OF d] distinct_removeAll)
  then show ?thesis using inv e Some by (cases r) (simp_all add: cache_evict_def bindS_def)
qed

lemma cache_flush_all_inv:
  assumes "keeps_id cb" and "cache_inv (fst cs)" shows "cache_inv (fst (snd (cache_flush_all cb cs)))"
proof -
  obtain r c s where e: "run_evicts cb (pc_lru (fst cs)) cs = (r, (c, s))" by (metis surj_pair)
  then have "cache_inv c" using run_evicts_inv [OF assms, of "pc_lru (fst cs)"] by simp
  then show ?thesis using e by (cases r) (auto simp: cache_flush_all_def bindS_def cache_inv_def)
qed

lemma cache_call_inv:
  assumes "keeps_id cb" and "cache_inv (fst cs)" and "\<And>pid p. oper = CModify pid p \<Longrightarrow> p_id p = pid"
  shows "cache_inv (fst (cache_call cb oper cs))"
  using assms(2,3) cache_put_inv [OF assms(1,2)] put_shared_inv [OF assms(1,2)] cache_evict_inv [OF assms(1,2)] cache_flush_all_inv [OF assms(1,2)]
    touch_inv [OF assms(2)] cache_modify_inv
  by (cases oper) (auto simp: cache_get_def cache_get_shared_def cache_get_mut_def split: option.split)

text \<open>
  C38: the buffer pool stays consistent and bounded. Whatever sequence of operations is called, with an eviction callback that may throw at any time and otherwise
  do anything but change the id of the page it gets, and with changes through pointers that keep the id, the pool never holds more pages
  than its capacity, never holds two pages with the same id, and its map has exactly the ids
  of the pages in the list.
\<close>

theorem cache_bounded:
  assumes "keeps_id cb" and "\<forall>pid p. CModify pid p \<in> set ops \<longrightarrow> p_id p = pid"
  shows "let c = fst (fold (cache_call cb) ops (page_cache capacity, s))
   in length (pc_lru c) \<le> max 1 capacity \<and> distinct (map p_id (pc_lru c)) \<and> set (pc_keys c) = p_id ` set (pc_lru c)
      \<and> cache_size c = length (pc_lru c)"
proof -
  have inv: "cache_inv (fst (fold (cache_call cb) ops cs))" if "cache_inv (fst cs)" for cs
    using that assms(2) by (induction ops arbitrary: cs) (simp_all add: cache_call_inv [OF assms(1)])
  have cap: "pc_capacity (fst (fold (cache_call cb) ops cs)) = pc_capacity (fst cs)" for cs
    by (induction ops arbitrary: cs) (simp_all add: cache_call_capacity)
  let ?c = "fst (fold (cache_call cb) ops (page_cache capacity, s))"
  have i: "cache_inv ?c" using inv [of "(page_cache capacity, s)"] cache_inv_init by simp
  have "pc_capacity ?c = max 1 capacity" using cap [of "(page_cache capacity, s)"] by (simp add: page_cache_def)
  moreover have "length (pc_keys ?c) = length (pc_lru ?c)"
  proof -
    have d: "distinct (pc_keys ?c)" "distinct (map p_id (pc_lru ?c))" "set (pc_keys ?c) = set (map p_id (pc_lru ?c))"
      using i by (simp_all add: cache_inv_def)
    then show ?thesis using distinct_card [OF d(1)] distinct_card [OF d(2)] by (metis length_map)
  qed
  ultimately show ?thesis using i by (simp add: cache_inv_def cache_size_def Let_def)
qed

text \<open>The witness has a callback that counts the pages it gets and cleans them, and throws on the third.\<close>

definition counting_cb :: "Page \<Rightarrow> (nat, Page) prog" where
  "counting_cb p n = (if n < 2 then (Inr (clean p), Suc n) else (Inl IOError, n))"

theorem cache_bounded_witness:
  "let ops = [CPut ((Page_of_id 1)\<lparr>p_dirty := True\<rparr>), CPut (Page_of_id 2), CModify 2 ((Page_of_id 2)\<lparr>p_dirty := True\<rparr>), CPut (Page_of_id 3), CFlushAll, CPut (Page_of_id 4)];
       c = fst (fold (cache_call (Some counting_cb)) ops (page_cache 1, 0))
   in keeps_id (Some counting_cb) \<and> map p_id (pc_lru c) = [4] \<and> cache_size c = 1 \<and> set (pc_keys c) = {4}"
proof -
  let ?ops = "[CPut ((Page_of_id 1)\<lparr>p_dirty := True\<rparr>), CPut (Page_of_id 2), CModify 2 ((Page_of_id 2)\<lparr>p_dirty := True\<rparr>), CPut (Page_of_id 3), CFlushAll, CPut (Page_of_id 4)]"
  let ?c = "fst (fold (cache_call (Some counting_cb)) ?ops (page_cache 1, 0))"
  have keeps: "keeps_id (Some counting_cb)" by (auto simp: keeps_id_def counting_cb_def split: if_splits)
  have "\<forall>pid p. CModify pid p \<in> set ?ops \<longrightarrow> p_id p = pid" by (simp add: Page_of_id_def)
  note b = cache_bounded [OF keeps this, of 1 0]
  have "map p_id (pc_lru ?c) = [4]"
    by (simp add: cache_put_def cache_find_def page_cache_def make_room_def evict_lru_def run_evict_def push_front_def counting_cb_def Page_of_id_def
        cache_modify_def cache_flush_all_def bindS_def Let_def)
  then show ?thesis using b keeps by (cases "pc_lru ?c") (auto simp: Let_def)
qed

end
