(* ===== verification/Pager.thy ===== *)
theory Pager
  imports Storage Page_Cache Index_Manager Compression
begin

text \<open>
  \<open>Pager\<close> of \<open>src/pager.cpp\<close>: the coordinator between the buffer pool, the database file, the
  compressor and the primary index. The object is the pair of its cache and the rest of its
  state, so that \<open>on_cache_evict\<close> is an eviction callback of the cache on that rest. The
  write-ahead log is a member the pager never uses. A page handed out by reference is a value
  here; \<open>write_page\<close> is the change of the resident page through the reference.

  The pager provides the interface \<open>backing_store\<close> of the cache: pages written back to their slot
  are read back as they were, so the pages the pager stands for (\<open>pool.view\<close>) do not depend on which
  of them are resident.
\<close>

section \<open>State\<close>

record PagerCore =
  pg_storage :: StorageEngine
  pg_index :: IndexManager
  pg_next_page_id :: u32
  pg_page_offsets :: "u32 \<rightharpoonup> u64"

type_synonym Pager = "PageCache \<times> PagerCore"

definition pager :: "StorageEngine \<Rightarrow> IndexManager \<Rightarrow> nat \<Rightarrow> Pager" where
  "pager storage index cache_capacity =
     (page_cache cache_capacity,
      \<lparr>pg_storage = storage, pg_index = index, pg_next_page_id = 0, pg_page_offsets = Map.empty\<rparr>)"

definition on_storage :: "(StorageEngine, 'a) prog \<Rightarrow> (PagerCore, 'a) prog" where
  "on_storage = zoomS pg_storage (\<lambda>s c. c\<lparr>pg_storage := s\<rparr>)"

definition on_index :: "(IndexManager, 'a) prog \<Rightarrow> (PagerCore, 'a) prog" where
  "on_index = zoomS pg_index (\<lambda>i c. c\<lparr>pg_index := i\<rparr>)"

definition on_core :: "(PagerCore, 'a) prog \<Rightarrow> (Pager, 'a) prog" where
  "on_core = zoomS snd (\<lambda>c p. (fst p, c))"

section \<open>Page slots\<close>

definition PAGE_SLOT_SIZE :: u64 where
  "PAGE_SLOT_SIZE = word_of_nat sizeof_header + ucast PAGE_SIZE"

definition page_file_offset :: "u64 \<Rightarrow> u32 \<Rightarrow> u64" where
  "page_file_offset data_start pid = data_start + ucast pid * PAGE_SLOT_SIZE"

text \<open>
  The loop of \<open>rebuild_row_offsets\<close>, with the rows still to visit. \<open>pos\<close> and \<open>pos + 4\<close> are 32 bits wide.
\<close>

primrec rebuild_loop :: "bytes \<Rightarrow> nat \<Rightarrow> u32 \<Rightarrow> u32 list \<Rightarrow> u32 list result" where
  "rebuild_loop d 0 pos offs = Inr offs"
| "rebuild_loop d (Suc n) pos offs =
     (if unat (pos + 4) > length d then Inl CorruptionError
      else bindR (read_u32 (ptr_at d (unat pos))) (\<lambda>row_len. rebuild_loop d n (pos + row_len) (offs @ [pos])))"

definition rebuild_row_offsets :: "Page \<Rightarrow> Page result" where
  "rebuild_row_offsets p =
     bindR (rebuild_loop (p_data p) (unat (p_row_count p)) 0 []) (\<lambda>offs. Inr (p\<lparr>p_row_offsets := offs\<rparr>))"

definition load_from_disk :: "u32 \<Rightarrow> (PagerCore, Page) prog" where
  "load_from_disk pid c =
     (case pg_page_offsets c pid of
        None \<Rightarrow> (Inl NotFoundError, c)
      | Some offset \<Rightarrow>
          bindS (on_storage (read_page_raw offset)) (\<lambda>(hdr, blob).
          bindS (liftR (decompress (compression_of_code (ph_compression_type hdr)) blob (unat (ph_uncompressed_size hdr)))) (\<lambda>d.
            liftR (rebuild_row_offsets ((Page_of_id pid)\<lparr>p_data := d, p_row_count := ph_row_count hdr, p_dirty := False\<rparr>)))) c)"

definition page_header_for :: "CompressionType \<Rightarrow> Page \<Rightarrow> nat \<Rightarrow> PageHeader" where
  "page_header_for ct p comp_size =
     \<lparr>ph_page_id = p_id p, ph_compressed_size = word_of_nat comp_size, ph_uncompressed_size = word_of_nat (length (p_data p)),
      ph_row_count = p_row_count p, ph_compression_type = compression_code ct, ph_pad = (0, 0, 0)\<rparr>"

definition write_page_to_disk :: "Page \<Rightarrow> (PagerCore, u64) prog" where
  "write_page_to_disk p =
     bindS (getS (\<lambda>c. se_compression (pg_storage c))) (\<lambda>ct.
     bindS (liftR (compress ct (p_data p))) (\<lambda>compressed.
     bindS (on_storage data_start_offset) (\<lambda>data_start.
     let offset = page_file_offset data_start (p_id p)
     in bindS (on_storage (overwrite_page_raw offset (page_header_for ct p (length compressed)) compressed)) (\<lambda>_.
        bindS (modifyS (\<lambda>c. c\<lparr>pg_page_offsets := (pg_page_offsets c)(p_id p \<mapsto> offset)\<rparr>)) (\<lambda>_. returnS offset)))))"

definition on_cache_evict :: "Page \<Rightarrow> (PagerCore, Page) prog" where
  "on_cache_evict p =
     (if p_dirty p then bindS (write_page_to_disk p) (\<lambda>_. returnS (p\<lparr>p_dirty := False\<rparr>)) else returnS p)"

section \<open>Pages\<close>

definition get_page :: "u32 \<Rightarrow> (Pager, Page) prog" where
  "get_page pid ps =
     (case cache_get_shared pid (fst ps) of
        (Some cached, c) \<Rightarrow> (Inr cached, (c, snd ps))
      | (None, c) \<Rightarrow> bindS (on_core (load_from_disk pid)) (put_shared (Some on_cache_evict)) (c, snd ps))"

definition get_mutable_page :: "u32 \<Rightarrow> (Pager, Page) prog" where
  "get_mutable_page pid ps =
     (case cache_get_mut pid (fst ps) of
        (Some cached, c) \<Rightarrow> (Inr cached, (c, snd ps))
      | (None, c) \<Rightarrow> bindS (on_core (load_from_disk pid)) (put_shared (Some on_cache_evict)) (c, snd ps))"

definition write_page :: "Page \<Rightarrow> (Pager, unit) prog" where
  "write_page p = modifyS (\<lambda>(c, s). (cache_modify (p_id p) p c, s))"

definition new_page :: "(Pager, Page) prog" where
  "new_page =
     bindS (getS (\<lambda>ps. pg_next_page_id (snd ps))) (\<lambda>pid.
     bindS (on_core (modifyS (\<lambda>c. c\<lparr>pg_next_page_id := pg_next_page_id c + 1\<rparr>))) (\<lambda>_.
       put_shared (Some on_cache_evict) ((Page_of_id pid)\<lparr>p_dirty := True\<rparr>)))"

definition mark_dirty :: "u32 \<Rightarrow> (Pager, unit) prog" where
  "mark_dirty pid ps =
     (case cache_get_mut pid (fst ps) of
        (Some p, c) \<Rightarrow> (Inr (), (cache_modify pid (p\<lparr>p_dirty := True\<rparr>) c, snd ps))
      | (None, c) \<Rightarrow> (Inr (), (c, snd ps)))"

definition page_count :: "Pager \<Rightarrow> u32" where
  "page_count ps = pg_next_page_id (snd ps)"

definition page_offset :: "u32 \<Rightarrow> Pager \<Rightarrow> u64" where
  "page_offset pid ps = (case pg_page_offsets (snd ps) pid of None \<Rightarrow> -1 | Some off \<Rightarrow> off)"

section \<open>Flushing\<close>

definition flush_page :: "u32 \<Rightarrow> (Pager, unit) prog" where
  "flush_page pid ps =
     (case cache_get_mut pid (fst ps) of
        (None, c) \<Rightarrow> (Inr (), (c, snd ps))
      | (Some p, c) \<Rightarrow>
          if \<not> p_dirty p then (Inr (), (c, snd ps))
          else bindS (on_core (write_page_to_disk p)) (\<lambda>new_offset.
               bindS (on_core (on_index (modifyS (update_offsets_for_page pid new_offset)))) (\<lambda>_.
                 write_page (p\<lparr>p_dirty := False\<rparr>))) (c, snd ps))"

text \<open>One round of the loop of \<open>flush_all\<close>.\<close>

definition flush_dirty_page :: "u32 \<Rightarrow> (Pager, unit) prog" where
  "flush_dirty_page pid ps =
     (case cache_get_mut pid (fst ps) of
        (None, c) \<Rightarrow> (Inr (), (c, snd ps))
      | (Some p, c) \<Rightarrow>
          if \<not> p_dirty p then (Inr (), (c, snd ps))
          else let old_offset = page_offset pid ps
               in bindS (on_core (write_page_to_disk p)) (\<lambda>new_offset.
                  bindS (on_core (on_index (modifyS (\<lambda>i.
                    if new_offset \<noteq> old_offset then update_offsets_for_page pid new_offset i else i)))) (\<lambda>_.
                    write_page (p\<lparr>p_dirty := False\<rparr>))) (c, snd ps))"

primrec flush_dirty_pages :: "u32 list \<Rightarrow> (Pager, unit) prog" where
  "flush_dirty_pages [] = returnS ()"
| "flush_dirty_pages (pid # pids) = bindS (flush_dirty_page pid) (\<lambda>_. flush_dirty_pages pids)"

definition flush_all :: "(Pager, unit) prog" where
  "flush_all =
     bindS (getS (\<lambda>ps. sort (dirty_ids (fst ps)))) (\<lambda>dirty_pages.
     bindS (flush_dirty_pages dirty_pages) (\<lambda>_.
     bindS (getS page_count) (\<lambda>next_page_id.
       on_core (on_storage (bindS read_db_header (\<lambda>dbhdr. write_db_header (dbhdr\<lparr>dh_page_count := next_page_id\<rparr>)))))))"

section \<open>Recovery\<close>

primrec recover_rows :: "Schema \<Rightarrow> Page \<Rightarrow> u64 \<Rightarrow> nat list \<Rightarrow> (PagerCore, unit) prog" where
  "recover_rows schema page offset [] = returnS ()"
| "recover_rows schema page offset (slot # slots) =
     bindS (liftR (get_row page (word_of_nat slot) schema)) (\<lambda>r.
     bindS (catchS (\<lambda>e. e = DuplicateKeyError)
              (on_index (im_insert (row_id r)
                 \<lparr>ie_page_id = p_id page, ie_page_offset = offset, ie_row_slot = word_of_nat slot\<rparr>))
              (returnS ())) (\<lambda>_.
       recover_rows schema page offset slots))"

definition recover_page :: "Schema \<Rightarrow> u64 \<Rightarrow> u32 \<Rightarrow> (PagerCore, unit) prog" where
  "recover_page schema offset pid =
     bindS (catchS any_exception (bindS (on_storage (read_page_raw offset)) (\<lambda>x. returnS (Some x))) (returnS None)) (\<lambda>raw.
     case raw of
       None \<Rightarrow> returnS ()
     | Some (hdr, blob) \<Rightarrow>
         if ph_page_id hdr \<noteq> pid then returnS ()
         else bindS (catchS any_exception
                (bindS (liftR (decompress (compression_of_code (ph_compression_type hdr)) blob (unat (ph_uncompressed_size hdr))))
                   (\<lambda>d. returnS (Some d))) (returnS None)) (\<lambda>uncompressed.
              case uncompressed of
                None \<Rightarrow> returnS ()
              | Some d \<Rightarrow>
                  bindS (liftR (rebuild_row_offsets ((Page_of_id (ph_page_id hdr))\<lparr>p_data := d, p_row_count := ph_row_count hdr\<rparr>))) (\<lambda>page.
                  bindS (recover_rows schema page offset [0..<unat (p_row_count page)]) (\<lambda>_.
                    modifyS (\<lambda>c. c\<lparr>pg_page_offsets := (pg_page_offsets c)(ph_page_id hdr \<mapsto> offset),
                                  pg_next_page_id := max (pg_next_page_id c) (ph_page_id hdr + 1)\<rparr>)))))"

primrec recover_pages :: "Schema \<Rightarrow> u64 \<Rightarrow> u64 \<Rightarrow> nat list \<Rightarrow> (PagerCore, unit) prog" where
  "recover_pages schema data_start file_sz [] = returnS ()"
| "recover_pages schema data_start file_sz (n # ns) =
     (let pid = word_of_nat n; offset = page_file_offset data_start pid
      in if offset + word_of_nat sizeof_header > file_sz then returnS ()
         else bindS (recover_page schema offset pid) (\<lambda>_. recover_pages schema data_start file_sz ns))"

definition recover :: "Schema \<Rightarrow> (Pager, unit) prog" where
  "recover schema =
     on_core (bindS (on_storage read_db_header) (\<lambda>dbhdr.
       bindS (on_storage data_start_offset) (\<lambda>data_start.
       bindS (on_storage file_size) (\<lambda>file_sz.
       bindS (recover_pages schema data_start file_sz [0..<unat (dh_page_count dbhdr)]) (\<lambda>_.
         on_index (modifyS im_prepare))))))"

section \<open>Slots in the file\<close>

lemma PAGE_SLOT_SIZE_value: "PAGE_SLOT_SIZE = 8212"
  by (simp add: PAGE_SLOT_SIZE_def sizeof_header_def PAGE_SIZE_def)

lemma unat_page_file_offset:
  assumes "unat d \<le> 2 ^ 32" shows "unat (page_file_offset d pid) = unat d + unat pid * 8212"
proof -
  have "unat pid < 2 ^ 32" using unsigned_less [of pid] by simp
  then have b: "unat pid * 8212 \<le> 2 ^ 32 * 8212" by simp
  have "unat (ucast pid * 8212 :: u64) = unat pid * 8212"
    using b \<open>unat pid < 2 ^ 32\<close> by (simp add: unat_word_ariths unsigned_ucast_eq take_bit_nat_eq_self)
  then show ?thesis using assms b by (simp add: page_file_offset_def PAGE_SLOT_SIZE_value unat_word_ariths)
qed

lemma page_file_offset_bound:
  assumes "unat d \<le> 2 ^ 32" shows "unat (page_file_offset d pid) + 8212 < 2 ^ 47"
proof -
  have "unat pid < 2 ^ 32" using unsigned_less [of pid] by simp
  then have "unat pid * 8212 \<le> 2 ^ 32 * 8212" by simp
  then show ?thesis using assms by (simp add: unat_page_file_offset)
qed

lemma slots_disjoint:
  assumes "unat d \<le> 2 ^ 32" and "pid \<noteq> pid'"
  shows "unat (page_file_offset d pid) + 8212 \<le> unat (page_file_offset d pid')
    \<or> unat (page_file_offset d pid') + 8212 \<le> unat (page_file_offset d pid)"
proof -
  have "unat pid \<noteq> unat pid'" using assms(2) by (simp add: word_unat_eq_iff)
  then consider "Suc (unat pid) \<le> unat pid'" | "Suc (unat pid') \<le> unat pid" by linarith
  then have "Suc (unat pid) * 8212 \<le> unat pid' * 8212 \<or> Suc (unat pid') * 8212 \<le> unat pid * 8212"
    by cases (metis mult_le_mono1)+
  then show ?thesis using assms(1) by (auto simp: unat_page_file_offset)
qed

lemma bindS_readonly:
  "snd (m s) = s \<Longrightarrow> (\<And>x. snd (f x s) = s) \<Longrightarrow> snd (bindS m f s) = s"
  by (cases "m s"; cases "fst (m s)") (auto simp: bindS_def)

lemma read_page_raw_state [simp]: "snd (read_page_raw off s) = s"
  unfolding read_page_raw_def by (intro bindS_readonly) (simp_all add: safe_pread_def)

lemma data_start_offset_state [simp]: "snd (data_start_offset s) = s"
  unfolding data_start_offset_def by (intro bindS_readonly) (auto simp: bindS_def split: sum.split)

lemma read_db_header_state [simp]: "snd (read_db_header s) = s"
  unfolding read_db_header_def by (intro bindS_readonly) (simp_all add: safe_pread_def)

section \<open>Rebuilding the offsets\<close>

lemma rebuild_loop_rows:
  "length (rows_bytes (xs @ ys)) < 2 ^ 32 \<Longrightarrow>
   rebuild_loop (rows_bytes (xs @ ys)) (length ys) (word_of_nat (length (rows_bytes xs))) (rows_offsets xs)
     = Inr (rows_offsets (xs @ ys))"
proof (induction ys arbitrary: xs)
  case (Cons r ys)
  let ?pos = "word_of_nat (length (rows_bytes xs)) :: u32"
  have len: "length (rows_bytes xs) + row_size r + length (rows_bytes ys) < 2 ^ 32" "8 \<le> row_size r"
    using Cons.prems by (simp_all add: row_size_def)
  then have pos: "unat ?pos = length (rows_bytes xs)" "unat (?pos + 4) = length (rows_bytes xs) + 4"
    by (simp_all add: unat_of_nat unat_word_ariths)
  have "read_u32 (ptr_at (rows_bytes (xs @ r # ys)) (unat ?pos)) = Inr (word_of_nat (row_size r))"
    by (simp only: pos ptr_at_def) (simp add: row_bytes_def)
  moreover have "rebuild_loop (rows_bytes (xs @ r # ys)) (length ys) (?pos + word_of_nat (row_size r)) (rows_offsets xs @ [?pos])
      = Inr (rows_offsets (xs @ r # ys))"
    using Cons.IH [of "xs @ [r]"] Cons.prems by simp
  ultimately show ?case using pos(2) len by simp
qed simp

lemma rebuild_row_offsets_rel:
  assumes "page_rel schema p rows"
  shows "rebuild_row_offsets (p\<lparr>p_row_offsets := offs\<rparr>) = Inr p"
  using rebuild_loop_rows [of "[]" rows] page_relD [OF assms] by (simp add: rebuild_row_offsets_def)

section \<open>The pages in the file\<close>

text \<open>
  Where pages begin, which pages have a slot they fit in, and when the file and the table of
  page offsets agree. The index and the next page id are parameters, since writing a page
  changes neither.
\<close>

definition data_start_of :: "Schema \<Rightarrow> u64" where
  "data_start_of schema = 24 + word_of_nat (length (serialise_schema schema))"

definition page_fits :: "Schema \<Rightarrow> CompressionType \<Rightarrow> Page \<Rightarrow> bool" where
  "page_fits schema ct p \<longleftrightarrow> (\<exists>rows. page_rel schema p rows) \<and> length (p_data p) < 65536
     \<and> (\<exists>blob. compress ct (p_data p) = Inr blob \<and> length blob \<le> unat PAGE_SIZE)"

definition slot_ok :: "u64 \<Rightarrow> StorageEngine \<Rightarrow> u32 \<Rightarrow> bool" where
  "slot_ok d s pid \<longleftrightarrow> (\<exists>h blob. fst (read_page_raw (page_file_offset d pid) s) = Inr (h, blob) \<and> length blob \<le> unat PAGE_SIZE
     \<and> ph_page_id h = pid)"

definition file_ok :: "Schema \<Rightarrow> CompressionType \<Rightarrow> StorageEngine \<Rightarrow> bool" where
  "file_ok schema ct s \<longleftrightarrow> se_fd s \<and> se_compression s = ct \<and> ct \<in> {CNone, CLZ4} \<and> storable_schema schema
     \<and> holds_schema schema (se_contents s) \<and> (\<exists>h. file_get 0 20 (se_contents s) = DBHeader_bytes h \<and> dh_magic h = XDL_MAGIC)"

definition stored_page :: "PagerCore \<Rightarrow> u32 \<rightharpoonup> Page" where
  "stored_page c pid = (case fst (load_from_disk pid c) of Inr p \<Rightarrow> Some p | Inl _ \<Rightarrow> None)"

definition core_ok :: "Schema \<Rightarrow> CompressionType \<Rightarrow> IndexManager \<Rightarrow> u32 \<Rightarrow> PagerCore \<Rightarrow> bool" where
  "core_ok schema ct idx n c \<longleftrightarrow> file_ok schema ct (pg_storage c) \<and> pg_index c = idx \<and> pg_next_page_id c = n
     \<and> (\<forall>pid off. pg_page_offsets c pid = Some off \<longrightarrow>
          off = page_file_offset (data_start_of schema) pid \<and> slot_ok (data_start_of schema) (pg_storage c) pid
          \<and> (\<exists>p. stored_page c pid = Some p \<and> page_fits schema ct p))"

lemma data_start_le: "storable_schema schema \<Longrightarrow> unat (data_start_of schema) = 24 + length (serialise_schema schema)
    \<and> unat (data_start_of schema) \<le> 2 ^ 32"
  by (simp add: data_start_of_def storable_schema_def unat_word_ariths unat_of_nat)

lemma compression_code_inverse: "ct \<in> {CNone, CLZ4} \<Longrightarrow> compression_of_code (compression_code ct) = ct"
  by (auto simp: compression_of_code_def)

lemma file_okD:
  assumes "file_ok schema ct s"
  shows "se_fd s" and "se_compression s = ct" and "ct \<in> {CNone, CLZ4}" and "storable_schema schema"
    and "length (se_contents s) < 2 ^ 63" and "20 \<le> length (se_contents s)" and "holds_schema schema (se_contents s)"
    and "data_start_offset s = (Inr (data_start_of schema), s)"
    and "unat (data_start_of schema) = 24 + length (serialise_schema schema)" and "unat (data_start_of schema) \<le> 2 ^ 32"
  using assms holds_schema_read(2) [of schema s] data_start_le [of schema]
  by (auto simp: file_ok_def holds_schema_def data_start_of_def)

text \<open>The file after a page has been written to its slot.\<close>

definition put_page :: "u64 \<Rightarrow> PageHeader \<Rightarrow> bytes \<Rightarrow> StorageEngine \<Rightarrow> StorageEngine" where
  "put_page off h blob s = s\<lparr>se_file := Some (file_put (unat off) (PageHeader_bytes h @ blob) (se_contents s))\<rparr>"

lemma put_page_file_ok:
  fixes pid :: u32
  assumes "file_ok schema ct s" and "length blob \<le> unat PAGE_SIZE"
  defines "off \<equiv> page_file_offset (data_start_of schema) pid"
  shows "overwrite_page_raw off h blob s = (Inr (), put_page off h blob s)" and "file_ok schema ct (put_page off h blob s)"
proof -
  note d = file_okD [OF assms(1)]
  have off: "unat off + 8212 < 2 ^ 47" "24 + length (serialise_schema schema) \<le> unat off"
    using page_file_offset_bound [OF d(10), of pid] unat_page_file_offset [OF d(10), of pid] d(9) by (simp_all add: off_def)
  then show "overwrite_page_raw off h blob s = (Inr (), put_page off h blob s)"
    using overwrite_page_raw_ok [of off blob s h] assms(2) d(1) by (simp add: put_page_def)
  let ?c = "file_put (unat off) (PageHeader_bytes h @ blob) (se_contents s)"
  have "holds_schema schema ?c" using off assms(2) by (intro holds_schema_put [OF d(7)]) simp_all
  moreover have "file_get 0 20 ?c = file_get 0 20 (se_contents s)" using off(2) d(6) by (intro file_get_put_other) auto
  ultimately show "file_ok schema ct (put_page off h blob s)" using assms(1) by (simp add: file_ok_def put_page_def)
qed

lemma put_page_read_other:
  assumes "file_ok schema ct s" and "length blob \<le> unat PAGE_SIZE" and "pid' \<noteq> pid"
    and "slot_ok (data_start_of schema) s pid'"
  shows "fst (read_page_raw (page_file_offset (data_start_of schema) pid') (put_page (page_file_offset (data_start_of schema) pid) h blob s))
    = fst (read_page_raw (page_file_offset (data_start_of schema) pid') s)"
proof -
  let ?off = "page_file_offset (data_start_of schema) pid" and ?off' = "page_file_offset (data_start_of schema) pid'"
  note d = file_okD [OF assms(1)]
  obtain h' blob' where r: "fst (read_page_raw ?off' s) = Inr (h', blob')" "length blob' \<le> 8192"
    using assms(4) by (auto simp: slot_ok_def)
  have r': "read_page_raw ?off' s = (Inr (h', blob'), s)" using r(1) read_page_raw_state [of ?off' s] by (metis prod.collapse)
  have "unat ?off' + 20 + length blob' \<le> unat ?off \<or> unat ?off + 20 + length blob \<le> unat ?off'"
    using slots_disjoint [OF d(10) assms(3)] r(2) assms(2) by auto
  then have "fst (read_page_raw ?off' (snd (overwrite_page_raw ?off h blob s))) = Inr (h', blob')"
    using page_file_offset_bound [OF d(10), of pid] assms(2) by (intro overwrite_keeps_other [OF _ d(5) r']) simp_all
  then show ?thesis using put_page_file_ok(1) [OF assms(1,2), of pid h] r(1) by simp
qed

lemma put_page_read_same:
  assumes "file_ok schema ct s" and "length blob \<le> unat PAGE_SIZE" and "unat (ph_compressed_size h) = length blob"
  shows "fst (read_page_raw (page_file_offset (data_start_of schema) pid) (put_page (page_file_offset (data_start_of schema) pid) h blob s))
    = Inr (h, blob)"
proof -
  let ?off = "page_file_offset (data_start_of schema) pid"
  note d = file_okD [OF assms(1)]
  have b: "unat ?off + 20 + length blob < 2 ^ 63" using page_file_offset_bound [OF d(10), of pid] assms(2) by simp
  show ?thesis
    using overwrite_then_read [OF b d(5) assms(3) d(1)] put_page_file_ok(1) [OF assms(1,2), of pid h] by simp
qed

section \<open>Loading and writing back\<close>

definition page_of_raw :: "u32 \<Rightarrow> PageHeader \<Rightarrow> bytes \<Rightarrow> Page result" where
  "page_of_raw pid hdr blob =
     bindR (decompress (compression_of_code (ph_compression_type hdr)) blob (unat (ph_uncompressed_size hdr))) (\<lambda>d.
       rebuild_row_offsets ((Page_of_id pid)\<lparr>p_data := d, p_row_count := ph_row_count hdr, p_dirty := False\<rparr>))"

lemma load_from_disk_raw:
  "load_from_disk pid c =
     (case pg_page_offsets c pid of None \<Rightarrow> Inl NotFoundError
      | Some off \<Rightarrow> bindR (fst (read_page_raw off (pg_storage c))) (\<lambda>(hdr, blob). page_of_raw pid hdr blob), c)"
proof (cases "pg_page_offsets c pid")
  case (Some off)
  obtain r where r: "read_page_raw off (pg_storage c) = (r, pg_storage c)" by (metis read_page_raw_state surj_pair snd_conv)
  then have r': "on_storage (read_page_raw off) c = (r, c)" by (simp add: on_storage_def zoomS_def)
  show ?thesis
  proof (cases r)
    case (Inr x)
    obtain hdr blob where x: "x = (hdr, blob)" by (cases x)
    show ?thesis
      by (cases "decompress (compression_of_code (ph_compression_type hdr)) blob (unat (ph_uncompressed_size hdr))")
         (simp_all add: load_from_disk_def page_of_raw_def Some r r' Inr x bindS_def)
  qed (simp add: load_from_disk_def Some r r' bindS_def)
qed (simp add: load_from_disk_def)

lemma stored_page_raw:
  "stored_page c pid =
     (case pg_page_offsets c pid of None \<Rightarrow> None
      | Some off \<Rightarrow> (case bindR (fst (read_page_raw off (pg_storage c))) (\<lambda>(hdr, blob). page_of_raw pid hdr blob) of
                       Inr p \<Rightarrow> Some p | Inl _ \<Rightarrow> None))"
  by (simp add: stored_page_def load_from_disk_raw split: option.split)

lemma stored_page_cong:
  assumes "pg_page_offsets c' = pg_page_offsets c"
    and "\<And>pid off. pg_page_offsets c pid = Some off \<Longrightarrow>
      fst (read_page_raw off (pg_storage c')) = fst (read_page_raw off (pg_storage c))"
  shows "stored_page c' = stored_page c"
proof
  fix pid show "stored_page c' pid = stored_page c pid"
    using assms by (cases "pg_page_offsets c pid") (simp_all add: stored_page_raw)
qed

lemma rebuild_row_offsets_id: "rebuild_row_offsets p = Inr p' \<Longrightarrow> p_id p' = p_id p \<and> p_dirty p' = p_dirty p"
  by (auto simp: rebuild_row_offsets_def bindR_eq_Inr)

lemma stored_pageD:
  assumes "stored_page c pid = Some p"
  shows "load_from_disk pid c = (Inr p, c)" and "p_id p = pid" and "\<not> p_dirty p"
proof -
  show l: "load_from_disk pid c = (Inr p, c)"
    using assms load_from_disk_raw [of pid c] by (auto simp: stored_page_def split: sum.splits)
  then show "p_id p = pid" "\<not> p_dirty p"
    by (auto simp: load_from_disk_raw bindR_eq_Inr page_of_raw_def Page_of_id_def split: option.splits
        dest!: rebuild_row_offsets_id)
qed

text \<open>The compressed page decodes to the page that was written.\<close>

lemma page_of_written:
  assumes "page_fits schema ct p" and "ct \<in> {CNone, CLZ4}" and "compress ct (p_data p) = Inr blob"
  shows "page_of_raw (p_id p) (page_header_for ct p (length blob)) blob = Inr (clean p)"
proof -
  obtain rows where rows: "page_rel schema p rows" and len: "length (p_data p) < 65536"
    using assms(1) by (auto simp: page_fits_def)
  have d: "decompress ct blob (length (p_data p)) = Inr (p_data p)"
    using compress_then_decompress [OF len assms(2)] assms(3) by auto
  have "page_rel schema (clean p) rows" using rows by (auto simp: page_rel_def)
  then have "rebuild_row_offsets ((clean p)\<lparr>p_row_offsets := []\<rparr>) = Inr (clean p)" by (rule rebuild_row_offsets_rel)
  moreover have "(clean p)\<lparr>p_row_offsets := []\<rparr>
      = (Page_of_id (p_id p))\<lparr>p_data := p_data p, p_row_count := p_row_count p, p_dirty := False\<rparr>"
    by (cases p) (simp add: clean_def Page_of_id_def)
  ultimately show ?thesis
    using d len compression_code_inverse [OF assms(2)] by (simp add: page_of_raw_def page_header_for_def unat_of_nat)
qed

lemma page_fits_clean: "page_fits schema ct p \<Longrightarrow> page_fits schema ct (clean p)"
  by (auto simp: page_fits_def page_rel_def)

lemma core_okD:
  assumes "core_ok schema ct idx n c"
  shows "file_ok schema ct (pg_storage c)" and "pg_index c = idx" and "pg_next_page_id c = n"
    and "\<And>pid off. pg_page_offsets c pid = Some off \<Longrightarrow>
      off = page_file_offset (data_start_of schema) pid \<and> slot_ok (data_start_of schema) (pg_storage c) pid"
    and "\<And>pid off. pg_page_offsets c pid = Some off \<Longrightarrow> \<exists>p. stored_page c pid = Some p \<and> page_fits schema ct p"
    and "\<And>pid p. stored_page c pid = Some p \<Longrightarrow> page_fits schema ct p"
proof -
  show *: "\<exists>p. stored_page c pid = Some p \<and> page_fits schema ct p" if "pg_page_offsets c pid = Some off" for pid off
    using assms that by (simp add: core_ok_def)
  show "page_fits schema ct p" if "stored_page c pid = Some p" for pid p
    using * [of pid] that by (cases "pg_page_offsets c pid") (auto simp: stored_page_raw)
qed (use assms in \<open>simp_all add: core_ok_def\<close>)

lemma write_page_to_disk_law:
  assumes "core_ok schema ct idx n c" and "page_fits schema ct p"
  obtains c' where "write_page_to_disk p c = (Inr (page_file_offset (data_start_of schema) (p_id p)), c')"
    and "core_ok schema ct idx n c'" and "stored_page c' = (stored_page c)(p_id p \<mapsto> clean p)"
    and "pg_page_offsets c' = (pg_page_offsets c)(p_id p \<mapsto> page_file_offset (data_start_of schema) (p_id p))"
proof -
  note k = core_okD [OF assms(1)] and d = file_okD [OF core_okD(1) [OF assms(1)]]
  obtain blob where blob: "compress ct (p_data p) = Inr blob" "length blob \<le> unat PAGE_SIZE"
    using assms(2) by (auto simp: page_fits_def)
  let ?off = "page_file_offset (data_start_of schema) (p_id p)" and ?h = "page_header_for ct p (length blob)"
  let ?s = "put_page ?off ?h blob (pg_storage c)"
  let ?c = "c\<lparr>pg_storage := ?s, pg_page_offsets := (pg_page_offsets c)(p_id p \<mapsto> ?off)\<rparr>"
  have size: "unat (ph_compressed_size ?h) = length blob" using blob(2) by (simp add: page_header_for_def unat_of_nat)
  note same = put_page_read_same [OF k(1) blob(2) size, of "p_id p"]
  note other = put_page_read_other [OF k(1) blob(2), where h = ?h and pid = "p_id p"]
  have "write_page_to_disk p c = (Inr ?off, ?c)"
    using d(2) blob(1) d(8) put_page_file_ok(1) [OF k(1) blob(2), of "p_id p" ?h]
    by (simp add: write_page_to_disk_def bindS_def on_storage_def zoomS_def Let_def)
  moreover have stored: "stored_page ?c = (stored_page c)(p_id p \<mapsto> clean p)"
  proof
    fix pid show "stored_page ?c pid = ((stored_page c)(p_id p \<mapsto> clean p)) pid"
    proof (cases "pid = p_id p")
      case True
      then show ?thesis using same page_of_written [OF assms(2) d(3) blob(1)] by (simp add: stored_page_raw)
    next
      case False
      then show ?thesis
        using other [OF False] k(4) by (auto simp: stored_page_raw split: option.split)
    qed
  qed
  moreover have "core_ok schema ct idx n ?c"
    unfolding core_ok_def
  proof (intro conjI allI impI)
    show "file_ok schema ct (pg_storage ?c)" using put_page_file_ok(2) [OF k(1) blob(2)] by simp
    fix pid off assume a: "pg_page_offsets ?c pid = Some off"
    then show "off = page_file_offset (data_start_of schema) pid" using k(4) by (auto split: if_splits)
    show "slot_ok (data_start_of schema) (pg_storage ?c) pid"
    proof (cases "pid = p_id p")
      case True
      then show ?thesis using same blob(2) by (auto simp: slot_ok_def page_header_for_def)
    next
      case False
      then have "slot_ok (data_start_of schema) (pg_storage c) pid" using a k(4) by auto
      then show ?thesis using other [OF False] by (auto simp: slot_ok_def)
    qed
    show "\<exists>q. stored_page ?c pid = Some q \<and> page_fits schema ct q"
      using a k(5) page_fits_clean [OF assms(2)] unfolding stored by (auto split: if_splits)
  qed (use k in simp_all)
  moreover have "pg_page_offsets ?c = (pg_page_offsets c)(p_id p \<mapsto> ?off)" by simp
  ultimately show thesis by (intro that)
qed

text \<open>The pager provides what the cache relies on.\<close>

interpretation pool: backing_store on_cache_evict stored_page "core_ok schema ct idx n" "page_fits schema ct" for schema ct idx n
proof (unfold_locales, goal_cases)
  case (1 c p)
  obtain c' where "write_page_to_disk p c = (Inr (page_file_offset (data_start_of schema) (p_id p)), c')"
    "core_ok schema ct idx n c'" "stored_page c' = (stored_page c)(p_id p \<mapsto> clean p)"
    by (rule write_page_to_disk_law [OF 1(1,2)])
  then show ?case using 1(3) by (simp add: on_cache_evict_def bindS_def clean_def)
next
  case (2 p)
  then show ?case by (rule page_fits_clean)
qed

abbreviation pager_pages :: "Pager \<Rightarrow> u32 \<rightharpoonup> Page" where
  "pager_pages \<equiv> backing_store.view stored_page"

abbreviation pager_ok :: "Schema \<Rightarrow> CompressionType \<Rightarrow> IndexManager \<Rightarrow> u32 \<Rightarrow> Pager \<Rightarrow> bool" where
  "pager_ok schema ct idx n \<equiv> backing_store.pool_ok stored_page (core_ok schema ct idx n) (page_fits schema ct)"

lemma pager_pages_def:
  "pager_pages ps pid = (case lru_find pid (pc_lru (fst ps)) of Some p \<Rightarrow> Some (clean p) | None \<Rightarrow> stored_page (snd ps) pid)"
  by (rule pool.view_def)

lemma pager_ok_def:
  "pager_ok schema ct idx n ps \<longleftrightarrow> cache_inv (fst ps) \<and> core_ok schema ct idx n (snd ps)
     \<and> (\<forall>p \<in> set (pc_lru (fst ps)). page_fits schema ct p \<and> (\<not> p_dirty p \<longrightarrow> stored_page (snd ps) (p_id p) = Some (clean p)))"
  by (rule pool.pool_ok_def)

lemma pager_pages_cong: "stored_page c' = stored_page c \<Longrightarrow> pager_pages (k, c') = pager_pages (k, c)"
  by (rule ext) (simp add: pager_pages_def split: option.split)

lemma pager_pagesD:
  assumes "pager_ok schema ct idx n ps" and "pager_pages ps pid = Some q"
  shows "page_fits schema ct q" and "p_id q = pid" and "\<not> p_dirty q"
proof -
  note d = pool.pool_okD [OF assms(1)]
  have "page_fits schema ct q \<and> p_id q = pid \<and> \<not> p_dirty q"
  proof (cases "lru_find pid (pc_lru (fst ps))")
    case None
    then show ?thesis
      using assms(2) core_okD(6) [OF d(2)] stored_pageD(2,3) by (auto simp: pager_pages_def)
  next
    case (Some p)
    then show ?thesis using assms(2) lru_find_Some [OF Some] d(4) page_fits_clean by (auto simp: pager_pages_def)
  qed
  then show "page_fits schema ct q" "p_id q = pid" "\<not> p_dirty q" by auto
qed

text \<open>Both ways to load a page give the page the pager stands for, and it is resident afterwards.\<close>

definition loads :: "Schema \<Rightarrow> CompressionType \<Rightarrow> IndexManager \<Rightarrow> u32 \<Rightarrow> u32 \<Rightarrow> Page \<Rightarrow> Pager \<Rightarrow> Page result \<times> Pager \<Rightarrow> bool" where
  "loads schema ct idx n pid q ps res \<longleftrightarrow>
     (\<exists>p ps'. res = (Inr p, ps') \<and> clean p = q \<and> pager_ok schema ct idx n ps' \<and> pager_pages ps' = pager_pages ps
        \<and> lru_find pid (pc_lru (fst ps')) = Some p)"

lemma load_into_pool:
  assumes "pager_ok schema ct idx n (c, s)" and "stored_page s pid = Some q" and "lru_find pid (pc_lru c) = None"
  shows "loads schema ct idx n pid q (c, s) (bindS (on_core (load_from_disk pid)) (put_shared (Some on_cache_evict)) (c, s))"
proof -
  note q = stored_pageD [OF assms(2)]
  have cq: "clean q = q" using q(3) by simp
  have "page_fits schema ct q" using core_okD(6) [OF pool.pool_okD(2) [OF assms(1)]] assms(2) by simp
  then obtain ps' where ps': "put_shared (Some on_cache_evict) q (c, s) = (Inr q, ps')" "pager_ok schema ct idx n ps'"
    "pager_pages ps' = (pager_pages (c, s))(p_id q \<mapsto> clean q)" "lru_find (p_id q) (pc_lru (fst ps')) = Some q"
    using pool.put_shared_pool [OF assms(1), of q] assms(2,3) q(2) cq by auto
  moreover have "pager_pages (c, s) pid = Some q" using assms(2,3) by (simp add: pager_pages_def)
  then have "(pager_pages (c, s))(p_id q \<mapsto> clean q) = pager_pages (c, s)" using q(2) cq by (simp add: fun_upd_idem)
  moreover have "on_core (load_from_disk pid) (c, s) = (Inr q, (c, s))" using q(1) by (simp add: on_core_def zoomS_def)
  ultimately show ?thesis using cq q(2) by (auto simp: loads_def bindS_def)
qed

lemma get_page_ok:
  assumes "pager_ok schema ct idx n ps" and "pager_pages ps pid = Some q"
  shows "loads schema ct idx n pid q ps (get_page pid ps)" and "loads schema ct idx n pid q ps (get_mutable_page pid ps)"
proof -
  note d = pool.pool_okD [OF assms(1)]
  have eq: "get_mutable_page pid ps = get_page pid ps"
    by (simp add: get_mutable_page_def get_page_def cache_get_mut_def cache_get_shared_def)
  show "loads schema ct idx n pid q ps (get_page pid ps)"
  proof (cases "lru_find pid (pc_lru (fst ps))")
    case None
    then have "get_page pid ps = bindS (on_core (load_from_disk pid)) (put_shared (Some on_cache_evict)) (fst ps, snd ps)"
      using cache_find_lru [OF d(1)] by (simp add: get_page_def cache_get_shared_def)
    then show ?thesis using load_into_pool [of schema ct idx n "fst ps" "snd ps" pid q] assms None by (simp add: pager_pages_def)
  next
    case (Some p)
    have g: "get_page pid ps = (Inr p, (lru_touch p (fst ps), snd ps))"
      using Some cache_find_lru [OF d(1)] by (simp add: get_page_def cache_get_shared_def)
    show ?thesis
      using pool.touch_pool [OF assms(1) Some] Some assms(2) lru_find_Some [OF Some] g
      by (auto simp: loads_def pager_pages_def lru_touch_def)
  qed
  then show "loads schema ct idx n pid q ps (get_mutable_page pid ps)" by (simp add: eq)
qed

lemma loadsE:
  assumes "loads schema ct idx n pid q ps res"
  obtains p ps' where "res = (Inr p, ps')" "clean p = q" "pager_ok schema ct idx n ps'" "pager_pages ps' = pager_pages ps"
    "lru_find pid (pc_lru (fst ps')) = Some p"
  using assms by (auto simp: loads_def)

section \<open>Changing and creating pages\<close>

lemma core_ok_index:
  assumes "core_ok schema ct idx n c"
  shows "core_ok schema ct idx' n' (c\<lparr>pg_index := idx', pg_next_page_id := n'\<rparr>)"
    and "stored_page (c\<lparr>pg_index := idx', pg_next_page_id := n'\<rparr>) = stored_page c"
proof -
  show s: "stored_page (c\<lparr>pg_index := idx', pg_next_page_id := n'\<rparr>) = stored_page c"
    by (rule stored_page_cong) simp_all
  show "core_ok schema ct idx' n' (c\<lparr>pg_index := idx', pg_next_page_id := n'\<rparr>)"
    using assms by (simp add: core_ok_def s)
qed

lemma pager_ok_index:
  assumes "pager_ok schema ct idx n (k, c)"
  shows "pager_ok schema ct idx' n' (k, c\<lparr>pg_index := idx', pg_next_page_id := n'\<rparr>)"
    and "pager_pages (k, c\<lparr>pg_index := idx', pg_next_page_id := n'\<rparr>) = pager_pages (k, c)"
  using assms core_ok_index [of schema ct idx n c, where idx' = idx' and n' = n'] by (auto simp: pager_ok_def pager_pages_def fun_eq_iff split: option.split)

lemma pager_ok_core: "pager_ok schema ct idx n ps \<Longrightarrow> pg_index (snd ps) = idx \<and> pg_next_page_id (snd ps) = n"
  using pool.pool_okD(2) core_okD(2,3) by blast

lemma small_page_fits:
  assumes "page_rel schema p rows" and "ct = CNone \<and> length (p_data p) \<le> 8192 \<or> ct = CLZ4 \<and> length (p_data p) \<le> 8145"
  shows "page_fits schema ct p"
proof -
  have len: "length (p_data p) < 65536" and ct: "ct \<in> {CNone, CLZ4}" using assms(2) by auto
  have "length (p_data p) + length (p_data p) div 255 + 16 \<le> 8192" if "length (p_data p) \<le> 8145"
    using that div_le_mono [OF that, of 255] by simp
  then have "max_compressed_size ct (length (p_data p)) \<le> 8192"
    using assms(2) by (auto simp: max_compressed_size_def LZ4_compressBound_def)
  then show ?thesis
    using compress_then_decompress [OF len ct] assms(1) len by (fastforce simp: page_fits_def)
qed

lemma write_page_ok:
  assumes "pager_ok schema ct idx n ps" and "lru_find (p_id p) (pc_lru (fst ps)) = Some old"
    and "page_fits schema ct p" and "p_dirty p"
  obtains ps' where "write_page p ps = (Inr (), ps')" "pager_ok schema ct idx n ps'"
    "pager_pages ps' = (pager_pages ps)(p_id p \<mapsto> clean p)" "lru_find (p_id p) (pc_lru (fst ps')) = Some p"
    "pg_page_offsets (snd ps') = pg_page_offsets (snd ps)"
  using pool.modify_pool [OF assms] by (auto simp: write_page_def split_beta)

lemma new_page_ok:
  assumes "pager_ok schema ct idx n ps" and "pager_pages ps n = None"
  obtains ps' where "new_page ps = (Inr ((Page_of_id n)\<lparr>p_dirty := True\<rparr>), ps')" "pager_ok schema ct idx (n + 1) ps'"
    "pager_pages ps' = (pager_pages ps)(n \<mapsto> Page_of_id n)"
    "lru_find n (pc_lru (fst ps')) = Some ((Page_of_id n)\<lparr>p_dirty := True\<rparr>)"
proof -
  obtain k c where ps: "ps = (k, c)" by (cases ps)
  let ?c = "c\<lparr>pg_next_page_id := n + 1\<rparr>" and ?p = "(Page_of_id n)\<lparr>p_dirty := True\<rparr>"
  have c: "pg_index c = idx" "pg_next_page_id c = n" using pager_ok_core [OF assms(1)] ps by simp_all
  then have "c\<lparr>pg_index := idx, pg_next_page_id := n + 1\<rparr> = ?c" by simp
  then have ok: "pager_ok schema ct idx (n + 1) (k, ?c)" and pages: "pager_pages (k, ?c) = pager_pages (k, c)"
    using pager_ok_index [of schema ct idx n k c, where idx' = idx and n' = "n + 1"] assms(1) ps by simp_all
  have none: "lru_find (p_id ?p) (pc_lru (fst (k, ?c))) = None"
    using assms(2) ps by (auto simp: pager_pages_def Page_of_id_def split: option.splits)
  have rel: "page_rel schema ?p []" using page_rel_empty [of schema n] by (simp add: page_rel_def)
  have "ct \<in> {CNone, CLZ4}" using file_okD(3) [OF core_okD(1) [OF pool.pool_okD(2) [OF assms(1)]]] .
  then have fits: "page_fits schema ct ?p" by (intro small_page_fits [OF rel]) (auto simp: Page_of_id_def)
  have dirty: "\<not> p_dirty ?p \<longrightarrow> stored_page (snd (k, ?c)) (p_id ?p) = Some (clean ?p)" by simp
  obtain ps' where "put_shared (Some on_cache_evict) ?p (k, ?c) = (Inr ?p, ps')" "pager_ok schema ct idx (n + 1) ps'"
    "pager_pages ps' = (pager_pages (k, ?c))(p_id ?p \<mapsto> clean ?p)" "lru_find (p_id ?p) (pc_lru (fst ps')) = Some ?p"
    by (rule pool.put_shared_pool [OF ok none fits dirty])
  moreover have "p_id ?p = n" "clean ?p = Page_of_id n" by (simp_all add: Page_of_id_def clean_def)
  ultimately show thesis
    using that [of ps'] c pages ps by (simp add: new_page_def bindS_def on_core_def zoomS_def)
qed

section \<open>Flushing keeps the pages\<close>

text \<open>Where the index says a row is. The file offsets in the index entries are never used to find a row.\<close>

definition places :: "IndexManager \<Rightarrow> u32 \<rightharpoonup> u32 \<times> u32" where
  "places idx i = map_option (\<lambda>e. (ie_page_id e, ie_row_slot e)) (im_find idx i)"

lemma places_update_offsets:
  assumes "im_inv idx"
  shows "im_inv (update_offsets_for_page pid off idx)" and "places (update_offsets_for_page pid off idx) = places idx"
  using im_update_page [OF assms, of pid off]
  by (auto simp: places_def fun_eq_iff option.map_comp comp_def intro!: option.map_cong)

text \<open>What a step that writes pages out leaves unchanged.\<close>

definition flushed :: "Schema \<Rightarrow> CompressionType \<Rightarrow> IndexManager \<Rightarrow> u32 \<Rightarrow> u32 set \<Rightarrow> Pager \<Rightarrow> Pager \<Rightarrow> bool" where
  "flushed schema ct idx n pids ps ps' \<longleftrightarrow>
     (\<exists>idx'. pager_ok schema ct idx' n ps' \<and> im_inv idx' \<and> places idx' = places idx) \<and> pager_pages ps' = pager_pages ps
     \<and> (\<forall>pid \<in> pids. \<forall>p. lru_find pid (pc_lru (fst ps')) = Some p \<longrightarrow> \<not> p_dirty p)
     \<and> (\<forall>pid p. pid \<notin> pids \<longrightarrow> lru_find pid (pc_lru (fst ps')) = Some p \<longrightarrow> lru_find pid (pc_lru (fst ps)) = Some p)"

lemma flush_resident:
  assumes "pager_ok schema ct idx n (k, c)" and "lru_find pid (pc_lru k) = Some p" and "p_dirty p" and "im_inv idx"
    and f: "\<And>off. im_inv (f off idx) \<and> places (f off idx) = places idx"
  shows "\<exists>ps'. bindS (on_core (write_page_to_disk p)) (\<lambda>off. bindS (on_core (on_index (modifyS (f off))))
      (\<lambda>_. write_page (p\<lparr>p_dirty := False\<rparr>))) (k, c) = (Inr (), ps') \<and> flushed schema ct idx n {pid} (k, c) ps'"
proof -
  note d = pool.pool_okD [OF assms(1)] and m = lru_find_Some [OF assms(2)]
  have p: "p \<in> set (pc_lru (fst (k, c)))" "p_id p = pid" using m by simp_all
  obtain c1 where w: "write_page_to_disk p c = (Inr (page_file_offset (data_start_of schema) (p_id p)), c1)" (is "_ = (Inr ?off, _)")
    "core_ok schema ct idx n c1"
    using write_page_to_disk_law [of schema ct idx n c p] d(2,4) p(1) by (metis snd_conv)
  let ?k = "cache_modify (p_id p) (clean p) k" and ?idx = "f ?off idx"
  let ?c = "c1\<lparr>pg_index := ?idx\<rparr>"
  have c1: "pg_index c1 = idx" "pg_next_page_id c1 = n" using core_okD(2,3) [OF w(2)] by simp_all
  have "run_evict (Some on_cache_evict) p (k, c) = (Inr (), (?k, c1))"
    using w(1) assms(3) by (simp add: run_evict_def on_cache_evict_def bindS_def clean_def)
  then have ok: "pager_ok schema ct idx n (?k, c1)" "pager_pages (?k, c1) = pager_pages (k, c)"
    using pool.run_evict_pool [OF assms(1) p(1)] by (metis prod.inject)+
  have "c1\<lparr>pg_index := ?idx, pg_next_page_id := n\<rparr> = ?c" using c1(2) by simp
  then have ok': "pager_ok schema ct ?idx n (?k, ?c)" "pager_pages (?k, ?c) = pager_pages (k, c)"
    using pager_ok_index(1) [OF ok(1), where idx' = ?idx and n' = n] pager_ok_index(2) [OF ok(1), where idx' = ?idx and n' = n] ok(2) by simp_all
  have find: "lru_find q (pc_lru ?k) = (if q = pid then Some (clean p) else lru_find q (pc_lru k))" for q
    using lru_find_modify [of q "clean p" "pc_lru k"] p by (auto simp: cache_modify_def)
  have "flushed schema ct idx n {pid} (k, c) (?k, ?c)"
    unfolding flushed_def using ok' f [of ?off] find by auto
  moreover have "on_core (write_page_to_disk p) (k, c) = (Inr ?off, (k, c1))" using w(1) by (simp add: on_core_def zoomS_def)
  then have "bindS (on_core (write_page_to_disk p)) (\<lambda>off. bindS (on_core (on_index (modifyS (f off))))
      (\<lambda>_. write_page (p\<lparr>p_dirty := False\<rparr>))) (k, c) = (Inr (), (?k, ?c))"
    using c1(1) by (simp add: bindS_def on_core_def on_index_def zoomS_def write_page_def clean_def)
  ultimately show ?thesis by blast
qed

lemma flushed_refl:
  assumes "pager_ok schema ct idx n ps" and "im_inv idx"
    and "\<And>pid p. pid \<in> pids \<Longrightarrow> lru_find pid (pc_lru (fst ps)) = Some p \<Longrightarrow> \<not> p_dirty p"
  shows "flushed schema ct idx n pids ps ps"
  using assms by (auto simp: flushed_def)

text \<open>Both flushing operations first make the page the most recently used one.\<close>

lemma flush_touched:
  assumes "pager_ok schema ct idx n ps" and "lru_find pid (pc_lru (fst ps)) = Some p"
    and "flushed schema ct idx n {pid} (lru_touch p (fst ps), snd ps) ps'"
  shows "flushed schema ct idx n {pid} ps ps'"
  using assms(3) pool.touch_pool(2,4) [OF assms(1,2)] by (simp add: flushed_def)

lemma flush_page_ok:
  assumes "pager_ok schema ct idx n ps" and "im_inv idx"
  shows "\<exists>ps'. flush_page pid ps = (Inr (), ps') \<and> flushed schema ct idx n {pid} ps ps'"
    and "\<exists>ps'. flush_dirty_page pid ps = (Inr (), ps') \<and> flushed schema ct idx n {pid} ps ps'"
proof -
  have find: "cache_find (fst ps) pid = lru_find pid (pc_lru (fst ps))"
    using cache_find_lru [OF pool.pool_okD(1) [OF assms(1)]] by simp
  have "(\<exists>ps'. flush_page pid ps = (Inr (), ps') \<and> flushed schema ct idx n {pid} ps ps')
    \<and> (\<exists>ps'. flush_dirty_page pid ps = (Inr (), ps') \<and> flushed schema ct idx n {pid} ps ps')"
  proof (cases "lru_find pid (pc_lru (fst ps))")
    case None
    then show ?thesis
      using flushed_refl [OF assms, of "{pid}"] find by (simp add: flush_page_def flush_dirty_page_def cache_get_mut_def)
  next
    case (Some p)
    let ?k = "lru_touch p (fst ps)"
    note t = pool.touch_pool [OF assms(1) Some]
    show ?thesis
    proof (cases "p_dirty p")
      case False
      then have "flushed schema ct idx n {pid} (?k, snd ps) (?k, snd ps)" using t(1,3) assms(2) by (intro flushed_refl) auto
      then show ?thesis
        using flush_touched [OF assms(1) Some] False Some find by (simp add: flush_page_def flush_dirty_page_def cache_get_mut_def)
    next
      case True
      let ?f = "\<lambda>off. update_offsets_for_page pid off"
      let ?g = "\<lambda>off i. if off \<noteq> page_offset pid ps then update_offsets_for_page pid off i else i"
      have f: "im_inv (?f off idx) \<and> places (?f off idx) = places idx" for off using places_update_offsets [OF assms(2)] by simp
      have g: "im_inv (?g off idx) \<and> places (?g off idx) = places idx" for off using f assms(2) by simp
      have F: "\<exists>ps'. flush_page pid ps = (Inr (), ps') \<and> flushed schema ct idx n {pid} (?k, snd ps) ps'"
        using flush_resident [of schema ct idx n ?k "snd ps" pid p ?f, OF t(1,3) True assms(2) f] True Some find
        by (simp add: flush_page_def cache_get_mut_def)
      have G: "\<exists>ps'. flush_dirty_page pid ps = (Inr (), ps') \<and> flushed schema ct idx n {pid} (?k, snd ps) ps'"
        using flush_resident [of schema ct idx n ?k "snd ps" pid p ?g, OF t(1,3) True assms(2) g] True Some find
        by (simp add: flush_dirty_page_def cache_get_mut_def Let_def)
      show ?thesis using F G flush_touched [OF assms(1) Some] by blast
    qed
  qed
  then show "\<exists>ps'. flush_page pid ps = (Inr (), ps') \<and> flushed schema ct idx n {pid} ps ps'"
    and "\<exists>ps'. flush_dirty_page pid ps = (Inr (), ps') \<and> flushed schema ct idx n {pid} ps ps'" by blast+
qed

lemma flushed_trans:
  assumes "flushed schema ct idx n A ps ps1"
    and step: "\<And>idx1. pager_ok schema ct idx1 n ps1 \<Longrightarrow> im_inv idx1 \<Longrightarrow> flushed schema ct idx1 n B ps1 ps2"
  shows "flushed schema ct idx n (A \<union> B) ps ps2"
proof -
  obtain idx1 where i: "pager_ok schema ct idx1 n ps1" "im_inv idx1" "places idx1 = places idx"
    using assms(1) by (auto simp: flushed_def)
  note s = step [OF i(1,2)]
  show ?thesis using assms(1) s i(3) unfolding flushed_def by (metis Un_iff)
qed

lemma flush_dirty_pages_ok:
  assumes "pager_ok schema ct idx n ps" and "im_inv idx"
  shows "\<exists>ps'. flush_dirty_pages pids ps = (Inr (), ps') \<and> flushed schema ct idx n (set pids) ps ps'"
  using assms
proof (induction pids arbitrary: ps idx)
  case Nil
  then show ?case using flushed_refl [of schema ct idx n ps "{}"] by simp
next
  case (Cons pid pids)
  obtain ps1 where ps1: "flush_dirty_page pid ps = (Inr (), ps1)" "flushed schema ct idx n {pid} ps ps1"
    using flush_page_ok(2) [OF Cons.prems] by blast
  obtain idx1 where "pager_ok schema ct idx1 n ps1" "im_inv idx1" using ps1(2) by (auto simp: flushed_def)
  from Cons.IH [OF this] obtain ps2 where ps2: "flush_dirty_pages pids ps1 = (Inr (), ps2)" by blast
  have "flushed schema ct idx1 n (set pids) ps1 ps2" if "pager_ok schema ct idx1 n ps1" "im_inv idx1" for idx1
    using Cons.IH [OF that] ps2 by auto
  then have "flushed schema ct idx n ({pid} \<union> set pids) ps ps2" using flushed_trans [OF ps1(2)] by blast
  then show ?case using ps1(1) ps2 by (simp add: bindS_def)
qed

text \<open>The header of the file does not overlap the slots.\<close>

lemma read_page_raw_frame:
  assumes "read_page_raw off s = (Inr (h, blob), s)" and "length (se_contents s) < 2 ^ 63" and "se_fd s'"
    and "length (se_contents s') = length (se_contents s)"
    and "\<And>pos m. unat off \<le> pos \<Longrightarrow> file_get pos m (se_contents s') = file_get pos m (se_contents s)"
  shows "read_page_raw off s' = (Inr (h, blob), s')"
proof -
  note r = read_page_raw_Inr [OF assms(1,2)]
  have off: "unat (off + word_of_nat sizeof_header) = unat off + 20" using r(2) assms(2) by (intro unat_add_20) simp
  have "safe_pread sizeof_header off s' = (Inr (file_get (unat off) 20 (se_contents s)), s')"
    using safe_pread_ok [of off sizeof_header s'] r(2) assms(2-5) by (simp add: sizeof_header_def)
  moreover have "safe_pread (unat (ph_compressed_size h)) (off + word_of_nat sizeof_header) s' = (Inr blob, s')"
    using safe_pread_ok [of "off + word_of_nat sizeof_header" "length blob" s'] r(2,4,5) assms(2-5) off by simp
  ultimately show ?thesis using r(3) by (simp add: read_page_raw_def bindS_def)
qed

lemma write_db_header_core:
  assumes "core_ok schema ct idx n c" and "dh_magic h = XDL_MAGIC"
  obtains s where "write_db_header h (pg_storage c) = (Inr (), s)" "core_ok schema ct idx n (c\<lparr>pg_storage := s\<rparr>)"
    "stored_page (c\<lparr>pg_storage := s\<rparr>) = stored_page c" "read_db_header s = (Inr h, s)" "se_file s = Some (se_durable s)"
    "\<And>pid. slot_ok (data_start_of schema) (pg_storage c) pid \<Longrightarrow>
      fst (read_page_raw (page_file_offset (data_start_of schema) pid) s)
        = fst (read_page_raw (page_file_offset (data_start_of schema) pid) (pg_storage c))"
proof -
  note k = core_okD [OF assms(1)] and d = file_okD [OF core_okD(1) [OF assms(1)]]
  let ?old = "pg_storage c"
  let ?c = "file_put 0 (DBHeader_bytes h) (se_contents ?old)"
  let ?s = "?old\<lparr>se_file := Some ?c, se_durable := ?c\<rparr>"
  have cont: "se_contents ?s = ?c" "se_fd ?s" using d(1) by (simp_all add: se_contents_def)
  have len: "length ?c = length (se_contents ?old)" using d(6) by (auto simp: length_file_put)
  have get: "file_get pos m ?c = file_get pos m (se_contents ?old)" if "20 \<le> pos" for pos m
  proof (cases "pos + m \<le> length (se_contents ?old)")
    case True
    then show ?thesis using that by (intro file_get_put_other) auto
  next
    case False
    then show ?thesis using that len d(6) by (auto simp: file_get_def file_put_def)
  qed
  have head: "file_get 0 20 ?c = DBHeader_bytes h" by (rule file_get_put_same) simp
  have read: "fst (read_page_raw (page_file_offset (data_start_of schema) pid) ?s)
      = fst (read_page_raw (page_file_offset (data_start_of schema) pid) ?old)" (is "fst (read_page_raw ?off _) = _")
    if slot: "slot_ok (data_start_of schema) ?old pid" for pid
  proof -
    have "20 \<le> unat ?off" using unat_page_file_offset [OF d(10), of pid] d(9) by simp
    moreover obtain h' blob' where "fst (read_page_raw ?off ?old) = Inr (h', blob')" using slot by (auto simp: slot_ok_def)
    then have r: "read_page_raw ?off ?old = (Inr (h', blob'), ?old)" using read_page_raw_state [of ?off ?old] by (metis prod.collapse)
    ultimately show ?thesis
      using read_page_raw_frame [OF r d(5), of ?s] cont len get by simp
  qed
  have ok: "file_ok schema ct ?s"
    using k(1) d(5,7) len get [of 20] head assms(2) by (auto simp: file_ok_def holds_schema_def cont)
  have stored: "stored_page (c\<lparr>pg_storage := ?s\<rparr>) = stored_page c"
    using read k(4) by (intro stored_page_cong) auto
  have "core_ok schema ct idx n (c\<lparr>pg_storage := ?s\<rparr>)"
  proof -
    have "slot_ok (data_start_of schema) ?s pid" if "slot_ok (data_start_of schema) ?old pid" for pid
      using read [OF that] that by (simp add: slot_ok_def)
    then show ?thesis using k(2-5) ok unfolding core_ok_def stored by auto
  qed
  moreover have "read_db_header ?s = (Inr h, ?s)"
    using d(5,6) len head assms(2) cont by (intro read_db_header_ok) simp_all
  ultimately show thesis
    using that [of ?s] write_db_header_ok [OF d(1), of h] stored cont(1) read by (simp add: Let_def)
qed

lemma flushed_all_stored:
  assumes "flushed schema ct idx n pids ps ps'" and "pager_ok schema ct idx n ps" and "set (dirty_ids (fst ps)) \<subseteq> pids"
  shows "stored_page (snd ps') = pager_pages ps"
proof -
  obtain idx' where ok: "pager_ok schema ct idx' n ps'" and pages: "pager_pages ps' = pager_pages ps"
    using assms(1) by (auto simp: flushed_def)
  note inv = pool.pool_okD(1) [OF assms(2)]
  have "\<not> p_dirty p" if p: "lru_find pid (pc_lru (fst ps')) = Some p" for pid p
  proof (cases "pid \<in> pids")
    case True
    then show ?thesis using assms(1) p by (auto simp: flushed_def)
  next
    case False
    then have *: "lru_find pid (pc_lru (fst ps)) = Some p" using assms(1) p unfolding flushed_def by blast
    then have "pid \<in> set (pc_keys (fst ps))" using inv lru_find_Some [OF *] by (auto simp: cache_inv_def)
    moreover have "pid \<notin> set (dirty_ids (fst ps))" using False assms(3) by auto
    ultimately show ?thesis using * by (simp add: dirty_ids_def cache_find_lru [OF inv])
  qed
  then have "stored_page (snd ps') pid = pager_pages ps' pid" for pid
    using pool.pool_okD(5) [OF ok] lru_find_Some [of pid "pc_lru (fst ps')"]
    by (cases "lru_find pid (pc_lru (fst ps'))") (auto simp: pager_pages_def)
  then show ?thesis using pages by (simp add: fun_eq_iff)
qed

lemma flush_all_ok:
  assumes "pager_ok schema ct idx n ps" and "im_inv idx"
  obtains ps' idx' h where "flush_all ps = (Inr (), ps')" "pager_ok schema ct idx' n ps'" "im_inv idx'" "places idx' = places idx"
    "pager_pages ps' = pager_pages ps" "stored_page (snd ps') = pager_pages ps"
    "read_db_header (pg_storage (snd ps')) = (Inr h, pg_storage (snd ps'))" "dh_page_count h = n"
    "se_file (pg_storage (snd ps')) = Some (se_durable (pg_storage (snd ps')))"
proof -
  let ?ids = "sort (dirty_ids (fst ps))"
  obtain k c where f: "flush_dirty_pages ?ids ps = (Inr (), (k, c))" and fl: "flushed schema ct idx n (set ?ids) ps (k, c)"
    using flush_dirty_pages_ok [OF assms, of ?ids] by (metis prod.collapse)
  obtain idx' where i: "pager_ok schema ct idx' n (k, c)" "im_inv idx'" "places idx' = places idx"
    and pages: "pager_pages (k, c) = pager_pages ps" using fl by (auto simp: flushed_def)
  have stored: "stored_page c = pager_pages ps" using flushed_all_stored [OF fl assms(1)] by simp
  have core: "core_ok schema ct idx' n c" using pool.pool_okD(2) [OF i(1)] by simp
  note d = file_okD [OF core_okD(1) [OF core]]
  obtain h0 where h0: "file_get 0 20 (se_contents (pg_storage c)) = DBHeader_bytes h0" "dh_magic h0 = XDL_MAGIC"
    using core_okD(1) [OF core] by (auto simp: file_ok_def)
  have read0: "read_db_header (pg_storage c) = (Inr h0, pg_storage c)" by (rule read_db_header_ok [OF d(6,5) h0 d(1)])
  let ?h = "h0\<lparr>dh_page_count := n\<rparr>"
  have magic: "dh_magic ?h = XDL_MAGIC" using h0(2) by simp
  obtain s where s: "write_db_header ?h (pg_storage c) = (Inr (), s)" "core_ok schema ct idx' n (c\<lparr>pg_storage := s\<rparr>)"
    "stored_page (c\<lparr>pg_storage := s\<rparr>) = stored_page c" "read_db_header s = (Inr ?h, s)" "se_file s = Some (se_durable s)"
    by (rule write_db_header_core [OF core magic])
  let ?ps = "(k, c\<lparr>pg_storage := s\<rparr>)"
  have "pg_next_page_id c = n" using core_okD(3) [OF core] .
  then have "flush_all ps = (Inr (), ?ps)"
    using f read0 s(1) by (simp add: flush_all_def bindS_def page_count_def on_core_def on_storage_def zoomS_def)
  moreover have "pager_ok schema ct idx' n ?ps" using i(1) s(2,3) by (simp add: pager_ok_def)
  moreover have "pager_pages ?ps = pager_pages ps" unfolding pages [symmetric] by (rule pager_pages_cong [OF s(3)])
  ultimately show thesis using that [of ?ps idx' ?h] i(2,3) stored s(3-5) by simp
qed

section \<open>Recovery finds the stored pages\<close>

text \<open>The rows of a page in slot order, and the index entries recovery makes for them.\<close>

definition decoded :: "Schema \<Rightarrow> Page \<Rightarrow> Row list" where
  "decoded schema p = concat (map (\<lambda>slot. case get_row p (word_of_nat slot) schema of Inr r \<Rightarrow> [r] | Inl _ \<Rightarrow> [])
     [0..<unat (p_row_count p)])"

definition page_entries :: "u64 \<Rightarrow> u32 \<Rightarrow> Row list \<Rightarrow> index_pair list" where
  "page_entries off pid rows =
     map (\<lambda>slot. (row_id (rows ! slot), \<lparr>ie_page_id = pid, ie_page_offset = off, ie_row_slot = word_of_nat slot\<rparr>)) [0..<length rows]"

abbreviation load_entries :: "index_pair list \<Rightarrow> IndexManager \<Rightarrow> IndexManager" where
  "load_entries \<equiv> fold (\<lambda>(k, e) m. snd (im_insert k e m))"

lemma decoded_page_rel: "page_rel schema p rows \<Longrightarrow> decoded schema p = rows"
proof -
  assume rel: "page_rel schema p rows"
  have "map (\<lambda>slot. case get_row p (word_of_nat slot) schema of Inr r \<Rightarrow> [r] | Inl _ \<Rightarrow> []) [0..<length rows] = map (\<lambda>r. [r]) rows"
    by (rule nth_equalityI) (simp_all add: get_row_page_rel [OF rel])
  then show ?thesis using page_relD(3) [OF rel] by (simp add: decoded_def)
qed

lemma page_rel_decoded: "page_fits schema ct p \<Longrightarrow> page_rel schema p (decoded schema p)"
  using decoded_page_rel by (auto simp: page_fits_def)

lemma recover_rows_entries:
  assumes "page_rel schema page rows" and "\<forall>slot \<in> set slots. slot < length rows"
  shows "recover_rows schema page off slots c = (Inr (), c\<lparr>pg_index := load_entries (map (\<lambda>slot. (row_id (rows ! slot),
      \<lparr>ie_page_id = p_id page, ie_page_offset = off, ie_row_slot = word_of_nat slot\<rparr>)) slots) (pg_index c)\<rparr>)"
  using assms(2)
proof (induction slots arbitrary: c)
  case (Cons slot slots)
  let ?e = "\<lparr>ie_page_id = p_id page, ie_page_offset = off, ie_row_slot = word_of_nat slot\<rparr>"
  let ?ins = "im_insert (row_id (rows ! slot)) ?e"
  obtain r m where ins: "?ins (pg_index c) = (r, m)" by (cases "?ins (pg_index c)")
  have "fst (?ins (pg_index c)) = Inr () \<or> fst (?ins (pg_index c)) = Inl DuplicateKeyError" by (simp add: im_insert_settled)
  then have "catchS (\<lambda>e. e = DuplicateKeyError) (on_index ?ins) (returnS ()) c = (Inr (), c\<lparr>pg_index := snd (?ins (pg_index c))\<rparr>)"
    unfolding ins by (auto simp: catchS_def on_index_def zoomS_def ins)
  then show ?case
    using Cons get_row_page_rel [OF assms(1), of slot] by (simp add: bindS_def)
qed simp

definition slot_page :: "u64 \<Rightarrow> StorageEngine \<Rightarrow> u32 \<Rightarrow> Page result" where
  "slot_page d s pid = bindR (fst (read_page_raw (page_file_offset d pid) s)) (\<lambda>(hdr, blob). page_of_raw pid hdr blob)"

lemma recover_page_ok:
  assumes "file_ok schema ct (pg_storage c)" and "slot_ok (data_start_of schema) (pg_storage c) pid"
    and "slot_page (data_start_of schema) (pg_storage c) pid = Inr p"
    and "page_fits schema ct p"
  defines "off \<equiv> page_file_offset (data_start_of schema) pid"
  shows "recover_page schema off pid c = (Inr (),
    c\<lparr>pg_index := load_entries (page_entries off pid (decoded schema p)) (pg_index c),
      pg_page_offsets := (pg_page_offsets c)(pid \<mapsto> off), pg_next_page_id := max (pg_next_page_id c) (pid + 1)\<rparr>)"
proof -
  obtain h blob where r: "fst (read_page_raw off (pg_storage c)) = Inr (h, blob)" and h: "ph_page_id h = pid"
    using assms(2) by (auto simp: slot_ok_def off_def)
  have "read_page_raw off (pg_storage c) = (Inr (h, blob), pg_storage c)"
    using r read_page_raw_state [of off "pg_storage c"] by (metis prod.collapse)
  then have on: "on_storage (read_page_raw off) c = (Inr (h, blob), c)" by (simp add: on_storage_def zoomS_def)
  have raw: "page_of_raw pid h blob = Inr p" using assms(3) r by (simp add: slot_page_def off_def)
  then obtain d where d: "decompress (compression_of_code (ph_compression_type h)) blob (unat (ph_uncompressed_size h)) = Inr d"
    and reb: "rebuild_row_offsets ((Page_of_id pid)\<lparr>p_data := d, p_row_count := ph_row_count h, p_dirty := False\<rparr>) = Inr p"
    by (auto simp: page_of_raw_def bindR_eq_Inr)
  have nd: "(Page_of_id pid)\<lparr>p_data := d, p_row_count := ph_row_count h, p_dirty := False\<rparr>
      = (Page_of_id pid)\<lparr>p_data := d, p_row_count := ph_row_count h\<rparr>" by (simp add: Page_of_id_def)
  have pid: "p_id p = pid" using rebuild_row_offsets_id [OF reb] by (simp add: Page_of_id_def)
  note rel = page_rel_decoded [OF assms(4)]
  have rc: "unat (p_row_count p) = length (decoded schema p)" using page_relD(3) [OF rel] .
  have rows: "recover_rows schema p off [0..<unat (p_row_count p)] c
      = (Inr (), c\<lparr>pg_index := load_entries (page_entries off pid (decoded schema p)) (pg_index c)\<rparr>)"
    using recover_rows_entries [OF rel, of "[0..<unat (p_row_count p)]" off c] by (simp add: page_entries_def pid rc)
  show ?thesis
    using on d reb h rows unfolding nd by (simp add: recover_page_def bindS_def catchS_def)
qed

text \<open>A core whose table lists exactly the pages below \<open>N\<close> describes what recovery will find.\<close>

definition page_run :: "Schema \<Rightarrow> (u32 \<Rightarrow> Page) \<Rightarrow> nat list \<Rightarrow> index_pair list" where
  "page_run schema page ns = concat (map (\<lambda>n. let pid = word_of_nat n in
     page_entries (page_file_offset (data_start_of schema) pid) pid (decoded schema (page pid))) ns)"

lemma recover_pages_ok:
  assumes "file_ok schema ct s"
    and "\<And>n. n \<in> set ns \<Longrightarrow> slot_ok (data_start_of schema) s (word_of_nat n)
      \<and> slot_page (data_start_of schema) s (word_of_nat n) = Inr (page (word_of_nat n)) \<and> page_fits schema ct (page (word_of_nat n))"
    and "pg_storage c = s"
  shows "recover_pages schema (data_start_of schema) (word_of_nat (length (se_contents s))) ns c = (Inr (),
    c\<lparr>pg_index := load_entries (page_run schema page ns) (pg_index c),
      pg_page_offsets := pg_page_offsets c ++ map_of (rev (map (\<lambda>n. (word_of_nat n, page_file_offset (data_start_of schema) (word_of_nat n))) ns)),
      pg_next_page_id := fold (\<lambda>n m. max m (word_of_nat n + 1)) ns (pg_next_page_id c)\<rparr>)"
  using assms(2,3)
proof (induction ns arbitrary: c)
  case Nil
  then show ?case by (simp add: page_run_def)
next
  case (Cons n ns)
  let ?pid = "word_of_nat n :: u32" and ?d = "data_start_of schema"
  let ?off = "page_file_offset ?d ?pid"
  note f = file_okD [OF assms(1)]
  have p: "slot_ok ?d s ?pid" "page_fits schema ct (page ?pid)"
    "slot_page ?d s ?pid = Inr (page ?pid)"
    using Cons.prems(1) [of n] by simp_all
  note step = recover_page_ok [of schema ct c ?pid "page ?pid"]
  let ?c = "c\<lparr>pg_index := load_entries (page_entries ?off ?pid (decoded schema (page ?pid))) (pg_index c),
      pg_page_offsets := (pg_page_offsets c)(?pid \<mapsto> ?off), pg_next_page_id := max (pg_next_page_id c) (?pid + 1)\<rparr>"
  have step: "recover_page schema ?off ?pid c = (Inr (), ?c)" using step assms(1) p Cons.prems(2) by simp
  obtain h blob where "read_page_raw ?off s = (Inr (h, blob), s)"
    using p(1) read_page_raw_state [of ?off s] unfolding slot_ok_def by (metis prod.collapse)
  note r = read_page_raw_Inr [OF this f(5)]
  have "unat (?off + word_of_nat sizeof_header) = unat ?off + 20" using r(2) f(5) by (intro unat_add_20) simp
  then have guard: "\<not> word_of_nat (length (se_contents s)) < ?off + word_of_nat sizeof_header"
    using r(2) f(5) by (simp add: word_less_nat_alt unat_of_nat)
  have "recover_pages schema ?d (word_of_nat (length (se_contents s))) ns ?c = (Inr (),
    ?c\<lparr>pg_index := load_entries (page_run schema page ns) (pg_index ?c),
      pg_page_offsets := pg_page_offsets ?c ++ map_of (rev (map (\<lambda>n. (word_of_nat n, page_file_offset ?d (word_of_nat n))) ns)),
      pg_next_page_id := fold (\<lambda>n m. max m (word_of_nat n + 1)) ns (pg_next_page_id ?c)\<rparr>)"
    using Cons.prems by (intro Cons.IH) simp_all
  then show ?case
    using guard step by (simp add: bindS_def Let_def page_run_def)
qed

lemma fold_max_next:
  "k < 2 ^ 32 \<Longrightarrow> fold (\<lambda>m x. max x (word_of_nat m + 1)) [0..<k] (0 :: u32) = word_of_nat k"
proof (induction k)
  case (Suc k)
  have "(word_of_nat k :: u32) \<le> word_of_nat k + 1"
    using Suc.prems by (simp add: word_le_nat_alt unat_of_nat unat_word_ariths)
  then show ?case using Suc by (simp add: max_def add.commute)
qed simp

lemma word_of_nat_less: "k < unat (n :: u32) \<Longrightarrow> word_of_nat k < n"
  using unsigned_less [of n] by (simp add: word_less_nat_alt unat_of_nat)

lemma word_of_nat_below: "word_of_nat ` {0..<unat (n :: u32)} = {pid. pid < n}"
proof -
  have "pid \<in> word_of_nat ` {0..<unat n}" if "pid < n" for pid :: u32
    using that by (intro image_eqI [where x = "unat pid"]) (simp_all add: word_less_nat_alt)
  then show ?thesis using word_of_nat_less by auto
qed

lemma page_of_raw_id: "page_of_raw pid h blob = Inr p \<Longrightarrow> p_id p = pid \<and> \<not> p_dirty p"
  by (auto simp: page_of_raw_def bindR_eq_Inr Page_of_id_def dest!: rebuild_row_offsets_id)

lemma recover_ok:
  assumes "file_ok schema ct s" and "read_db_header s = (Inr h, s)" and "dh_page_count h = n"
    and pages: "\<And>pid. pid < n \<Longrightarrow> slot_ok (data_start_of schema) s pid \<and> slot_page (data_start_of schema) s pid = Inr (page pid)
      \<and> page_fits schema ct (page pid)"
  obtains ps idx where "recover schema (pager s index_manager cap) = (Inr (), ps)" "pager_ok schema ct idx n ps" "im_inv idx"
    "im_find idx = map_of (page_run schema page [0..<unat n])" "pager_pages ps = (\<lambda>pid. if pid < n then Some (page pid) else None)"
    "pg_storage (snd ps) = s"
proof -
  let ?d = "data_start_of schema" and ?ns = "[0..<unat n]"
  note f = file_okD [OF assms(1)]
  let ?init = "snd (pager s index_manager cap)"
  let ?idx1 = "load_entries (page_run schema page ?ns) index_manager"
  let ?idx = "im_prepare ?idx1"
  let ?offs = "map_of (rev (map (\<lambda>n. (word_of_nat n, page_file_offset ?d (word_of_nat n))) ?ns))"
  let ?c1 = "?init\<lparr>pg_index := ?idx1, pg_page_offsets := ?offs, pg_next_page_id := n\<rparr>"
  let ?c = "?c1\<lparr>pg_index := ?idx\<rparr>"
  have "unat n < 2 ^ 32" using unsigned_less [of n] by simp
  then have nxt: "fold (\<lambda>m x. max x (word_of_nat m + 1)) ?ns (0 :: u32) = n" using fold_max_next [of "unat n"] by simp
  have "slot_ok ?d s (word_of_nat k) \<and> slot_page ?d s (word_of_nat k) = Inr (page (word_of_nat k)) \<and> page_fits schema ct (page (word_of_nat k))"
    if "k \<in> set ?ns" for k
    using pages [OF word_of_nat_less, of k] that by simp
  then have rp: "recover_pages schema ?d (word_of_nat (length (se_contents s))) ?ns ?init = (Inr (), ?c1)"
    using recover_pages_ok [OF assms(1), of ?ns page ?init] nxt by (simp add: pager_def)
  have rec: "recover schema (pager s index_manager cap) = (Inr (), (page_cache cap, ?c))"
    using assms(2,3) f(1,8) rp
    by (simp add: recover_def pager_def on_core_def on_storage_def on_index_def zoomS_def bindS_def file_size_def)
  have "?offs = map_of (map (\<lambda>pid. (pid, page_file_offset ?d pid)) (rev (map word_of_nat ?ns)))"
    by (simp add: rev_map comp_def)
  also have "\<dots> = (\<lambda>pid. if pid < n then Some (page_file_offset ?d pid) else None)"
    using word_of_nat_below [of n] by (auto simp: map_of_map_restrict restrict_map_def fun_eq_iff)
  finally have offs: "?offs = (\<lambda>pid. if pid < n then Some (page_file_offset ?d pid) else None)" .
  define c where "c = ?c"
  have c: "pg_storage c = s" "pg_index c = ?idx" "pg_next_page_id c = n"
    "pg_page_offsets c = (\<lambda>pid. if pid < n then Some (page_file_offset ?d pid) else None)"
    using offs by (simp_all add: c_def pager_def)
  have stored: "stored_page c pid = (if pid < n then Some (page pid) else None)" for pid
    using pages [of pid] by (simp add: stored_page_raw c slot_page_def)
  then have core: "core_ok schema ct ?idx n c"
    using assms(1) pages by (simp add: core_ok_def c)
  have inv1: "im_inv ?idx1" "im_find ?idx1 = map_of (page_run schema page ?ns)"
    using pix.load_first_wins [OF im_inv_init(1), of "page_run schema page ?ns"] by (simp_all add: im_find_init)
  have inv: "im_inv ?idx" "im_find ?idx = map_of (page_run schema page ?ns)"
    using im_prepare_inv [OF inv1(1)] inv1 im_find_fun by simp_all
  have "pager_ok schema ct ?idx n (page_cache cap, c)"
    using core cache_inv_init by (simp add: pager_ok_def page_cache_def)
  moreover have "pager_pages (page_cache cap, c) = (\<lambda>pid. if pid < n then Some (page pid) else None)"
    by (rule ext) (simp add: pager_pages_def page_cache_def stored)
  ultimately show thesis using that [OF rec [folded c_def] _ inv] c(1) by simp
qed

section \<open>The pager as a map of pages\<close>

text \<open>
  Calls of the pager, and the same calls on a map from page ids to pages with the number of
  pages. An update loads the page by reference and replaces it.
\<close>

datatype pager_op = PGet u32 | PUpdate Page | PNew | PMarkDirty u32 | PFlush u32 | PFlushAll

fun pager_call :: "pager_op \<Rightarrow> Pager \<Rightarrow> Page option result \<times> Pager" where
  "pager_call (PGet pid) = bindS (get_page pid) (\<lambda>p. returnS (Some (clean p)))"
| "pager_call (PUpdate q) = bindS (get_mutable_page (p_id q)) (\<lambda>_. bindS (write_page (q\<lparr>p_dirty := True\<rparr>)) (\<lambda>_. returnS None))"
| "pager_call PNew = bindS new_page (\<lambda>p. returnS (Some (clean p)))"
| "pager_call (PMarkDirty pid) = bindS (mark_dirty pid) (\<lambda>_. returnS None)"
| "pager_call (PFlush pid) = bindS (flush_page pid) (\<lambda>_. returnS None)"
| "pager_call PFlushAll = bindS flush_all (\<lambda>_. returnS None)"

fun pages_call :: "pager_op \<Rightarrow> (u32 \<rightharpoonup> Page) \<times> u32 \<Rightarrow> Page option result \<times> (u32 \<rightharpoonup> Page) \<times> u32" where
  "pages_call (PGet pid) (m, n) = (case m pid of Some p \<Rightarrow> Inr (Some p) | None \<Rightarrow> Inl NotFoundError, (m, n))"
| "pages_call (PUpdate q) (m, n) =
     (if m (p_id q) = None then (Inl NotFoundError, (m, n)) else (Inr None, (m(p_id q \<mapsto> clean q), n)))"
| "pages_call PNew (m, n) = (Inr (Some (Page_of_id n)), (m(n \<mapsto> Page_of_id n), n + 1))"
| "pages_call (PMarkDirty pid) mn = (Inr None, mn)"
| "pages_call (PFlush pid) mn = (Inr None, mn)"
| "pages_call PFlushAll mn = (Inr None, mn)"

text \<open>The states the pager goes through, with an index that keeps its invariant.\<close>

definition pager_inv :: "Schema \<Rightarrow> CompressionType \<Rightarrow> Pager \<Rightarrow> bool" where
  "pager_inv schema ct ps \<longleftrightarrow> (\<exists>idx n. pager_ok schema ct idx n ps \<and> im_inv idx \<and> dom (pager_pages ps) = {pid. pid < n})"

lemma pager_invD:
  assumes "pager_inv schema ct ps"
  shows "pager_ok schema ct (pg_index (snd ps)) (page_count ps) ps" and "im_inv (pg_index (snd ps))"
    and "dom (pager_pages ps) = {pid. pid < page_count ps}"
proof -
  obtain idx n where i: "pager_ok schema ct idx n ps" "im_inv idx" "dom (pager_pages ps) = {pid. pid < n}"
    using assms by (auto simp: pager_inv_def)
  then show "pager_ok schema ct (pg_index (snd ps)) (page_count ps) ps" and "im_inv (pg_index (snd ps))"
    and "dom (pager_pages ps) = {pid. pid < page_count ps}"
    using pager_ok_core [OF i(1)] by (simp_all add: page_count_def)
qed

lemma get_page_absent:
  assumes "pager_ok schema ct idx n ps" and "pager_pages ps pid = None"
  shows "get_page pid ps = (Inl NotFoundError, ps)" and "get_mutable_page pid ps = (Inl NotFoundError, ps)"
proof -
  note d = pool.pool_okD [OF assms(1)]
  have "cache_find (fst ps) pid = None" and "stored_page (snd ps) pid = None"
    using assms(2) cache_find_lru [OF d(1)] by (auto simp: pager_pages_def split: option.splits)
  moreover from this(2) have "pg_page_offsets (snd ps) pid = None"
    using core_okD(5) [OF d(2), of pid] by (cases "pg_page_offsets (snd ps) pid") auto
  then have "on_core (load_from_disk pid) ps = (Inl NotFoundError, ps)"
    by (simp add: on_core_def zoomS_def load_from_disk_def)
  ultimately show "get_page pid ps = (Inl NotFoundError, ps)" "get_mutable_page pid ps = (Inl NotFoundError, ps)"
    by (simp_all add: get_page_def get_mutable_page_def cache_get_shared_def cache_get_mut_def bindS_def)
qed

lemma mark_dirty_ok:
  assumes "pager_ok schema ct idx n ps"
  obtains ps' where "mark_dirty pid ps = (Inr (), ps')" "pager_ok schema ct idx n ps'" "pager_pages ps' = pager_pages ps"
proof (cases "lru_find pid (pc_lru (fst ps))")
  case None
  then show thesis
    using that [of ps] assms cache_find_lru [OF pool.pool_okD(1) [OF assms]] by (simp add: mark_dirty_def cache_get_mut_def)
next
  case (Some p)
  note t = pool.touch_pool [OF assms Some] and m = lru_find_Some [OF Some]
  let ?p = "p\<lparr>p_dirty := True\<rparr>" and ?ps = "(lru_touch p (fst ps), snd ps)"
  have fits: "page_fits schema ct ?p" using pool.pool_okD(4) [OF assms] m by (auto simp: page_fits_def page_rel_def)
  have find: "lru_find (p_id ?p) (pc_lru (fst ?ps)) = Some p" using t(3) m by simp
  have dirty: "p_dirty ?p" by simp
  note w = pool.modify_pool [OF t(1) find fits dirty]
  have "(pager_pages ?ps)(p_id ?p \<mapsto> clean ?p) = pager_pages ?ps"
    using find by (intro fun_upd_idem) (simp add: pager_pages_def)
  then show thesis
    using that [OF _ w(1)] w(2) t(2) Some m cache_find_lru [OF pool.pool_okD(1) [OF assms]]
    by (auto simp: mark_dirty_def cache_get_mut_def)
qed

lemma pager_inv_intro:
  "pager_ok schema ct idx n ps \<Longrightarrow> im_inv idx \<Longrightarrow> dom (pager_pages ps) = {pid. pid < n} \<Longrightarrow>
   pager_inv schema ct ps \<and> page_count ps = n"
  using pager_ok_core [of schema ct idx n ps] by (auto simp: pager_inv_def page_count_def)

definition fitting_op :: "Schema \<Rightarrow> CompressionType \<Rightarrow> pager_op \<Rightarrow> bool" where
  "fitting_op schema ct oper = (case oper of PUpdate q \<Rightarrow> page_fits schema ct q | _ \<Rightarrow> True)"

lemma below_next: "n \<noteq> -1 \<Longrightarrow> {pid. pid < n + 1} = insert n {pid. pid < (n :: u32)}"
proof -
  assume "n \<noteq> -1"
  then have "unat (n + 1) = Suc (unat n)" by (metis add.commute add_eq_0_iff unatSuc)
  then show ?thesis by (auto simp: word_less_nat_alt word_unat_eq_iff)
qed

lemma page_update_ok:
  assumes "pager_ok schema ct idx n ps" and "pager_pages ps (p_id q) = Some old" and "fitting_op schema ct (PUpdate q)"
  obtains p ps1 ps2 where "get_mutable_page (p_id q) ps = (Inr p, ps1)" and "write_page (q\<lparr>p_dirty := True\<rparr>) ps1 = (Inr (), ps2)"
    and "pager_ok schema ct idx n ps2" and "pager_pages ps2 = (pager_pages ps)(p_id q \<mapsto> clean (q\<lparr>p_dirty := True\<rparr>))"
proof -
  obtain p ps1 where g: "get_mutable_page (p_id q) ps = (Inr p, ps1)" "pager_ok schema ct idx n ps1"
    "pager_pages ps1 = pager_pages ps" "lru_find (p_id q) (pc_lru (fst ps1)) = Some p"
    using get_page_ok(2) [OF assms(1,2)] by (auto elim!: loadsE)
  let ?q = "q\<lparr>p_dirty := True\<rparr>"
  have q: "lru_find (p_id ?q) (pc_lru (fst ps1)) = Some p" "page_fits schema ct ?q" "p_dirty ?q"
    using assms(3) g(4) by (auto simp: fitting_op_def page_fits_def page_rel_def)
  obtain ps2 where "write_page ?q ps1 = (Inr (), ps2)" "pager_ok schema ct idx n ps2"
    "pager_pages ps2 = (pager_pages ps1)(p_id ?q \<mapsto> clean ?q)"
    by (rule write_page_ok [OF g(2) q])
  then show thesis using g(1,3) that by simp
qed

lemma pager_call_step:
  assumes "pager_ok schema ct idx n ps" and "im_inv idx" and "dom (pager_pages ps) = {pid. pid < n}"
    and "fitting_op schema ct oper" and "n \<noteq> -1"
  shows "\<exists>r ps' n' idx'. pager_call oper ps = (r, ps') \<and> pages_call oper (pager_pages ps, n) = (r, (pager_pages ps', n'))
    \<and> pager_ok schema ct idx' n' ps' \<and> im_inv idx' \<and> dom (pager_pages ps') = {pid. pid < n'}"
proof (cases oper)
  case (PGet pid)
  show ?thesis
  proof (cases "pager_pages ps pid")
    case None
    then show ?thesis using get_page_absent(1) [OF assms(1) None] assms PGet by (auto simp: bindS_def)
  next
    case (Some q)
    then show ?thesis
      using get_page_ok(1) [OF assms(1) Some] assms PGet by (auto simp: bindS_def elim!: loadsE)
  qed
next
  case (PUpdate q)
  show ?thesis
  proof (cases "pager_pages ps (p_id q)")
    case None
    then show ?thesis using get_page_absent(2) [OF assms(1) None] assms PUpdate by (auto simp: bindS_def)
  next
    case (Some old)
    obtain p ps1 ps2 where "get_mutable_page (p_id q) ps = (Inr p, ps1)" "write_page (q\<lparr>p_dirty := True\<rparr>) ps1 = (Inr (), ps2)"
      "pager_ok schema ct idx n ps2" "pager_pages ps2 = (pager_pages ps)(p_id q \<mapsto> clean (q\<lparr>p_dirty := True\<rparr>))"
      using page_update_ok [OF assms(1) Some] assms(4) PUpdate by metis
    then show ?thesis using Some assms(2,3) PUpdate by (auto simp: bindS_def insert_absorb)
  qed
next
  case PNew
  have "pager_pages ps n = None" using assms(3) by (metis domIff mem_Collect_eq less_irrefl)
  then obtain ps' where "new_page ps = (Inr ((Page_of_id n)\<lparr>p_dirty := True\<rparr>), ps')" "pager_ok schema ct idx (n + 1) ps'"
    "pager_pages ps' = (pager_pages ps)(n \<mapsto> Page_of_id n)"
    using new_page_ok [OF assms(1)] by metis
  then show ?thesis
    using assms(2,3) PNew below_next [OF assms(5)] by (auto simp: bindS_def clean_def Page_of_id_def)
next
  case (PMarkDirty pid)
  obtain ps' where "mark_dirty pid ps = (Inr (), ps')" "pager_ok schema ct idx n ps'" "pager_pages ps' = pager_pages ps"
    by (rule mark_dirty_ok [OF assms(1)])
  then show ?thesis using assms(2,3) PMarkDirty by (auto simp: bindS_def)
next
  case (PFlush pid)
  then show ?thesis using flush_page_ok(1) [OF assms(1,2), of pid] assms(3) by (auto simp: bindS_def flushed_def)
next
  case PFlushAll
  obtain ps' idx' where "flush_all ps = (Inr (), ps')" "pager_ok schema ct idx' n ps'" "im_inv idx'"
    "pager_pages ps' = pager_pages ps"
    by (rule flush_all_ok [OF assms(1,2)])
  then show ?thesis using assms(3) PFlushAll by (auto simp: bindS_def)
qed

lemma pager_run_refines:
  assumes "pager_ok schema ct idx n ps" and "im_inv idx" and "dom (pager_pages ps) = {pid. pid < n}"
    and "\<forall>oper \<in> set ops. fitting_op schema ct oper" and "unat n + length ops < 2 ^ 32"
  shows "\<exists>rs ps' n' idx'. run_calls pager_call ops ps = (rs, ps') \<and> run_calls pages_call ops (pager_pages ps, n) = (rs, (pager_pages ps', n'))
    \<and> pager_ok schema ct idx' n' ps' \<and> im_inv idx' \<and> dom (pager_pages ps') = {pid. pid < n'}"
  using assms
proof (induction ops arbitrary: idx n ps)
  case Nil
  then show ?case by auto
next
  case (Cons oper ops)
  have n: "n \<noteq> -1"
  proof
    assume "n = -1"
    then have "unat n = 2 ^ 32 - 1" by (simp add: unsigned_minus_1_eq_mask mask_eq_exp_minus_1)
    then show False using Cons.prems(5) by simp
  qed
  obtain r ps1 n1 idx1 where s: "pager_call oper ps = (r, ps1)" "pages_call oper (pager_pages ps, n) = (r, (pager_pages ps1, n1))"
    "pager_ok schema ct idx1 n1 ps1" "im_inv idx1" "dom (pager_pages ps1) = {pid. pid < n1}"
    using pager_call_step [OF Cons.prems(1-3) _ n, of oper] Cons.prems(4) by auto
  have "n1 = n \<or> n1 = n + 1" using s(2) by (cases oper) (auto split: if_splits)
  then have "unat n1 \<le> Suc (unat n)" by (auto simp: unat_word_ariths)
  then have "unat n1 + length ops < 2 ^ 32" using Cons.prems(5) by simp
  then show ?case using Cons.IH [OF s(3-5)] Cons.prems(4) s(1,2) by (auto simp: Let_def)
qed

text \<open>A newly created database file.\<close>

lemma fresh_file_steps:
  assumes "storable_schema schema" and "ct \<in> {CNone, CLZ4}"
  obtains s0 s where "se_open (storage_engine None ct) = (Inr (), s0)" "read_db_header s0 = (Inr (initial_db_header ct), s0)"
    "file_size s0 = (Inr 20, s0)" "write_schema schema s0 = (Inr (), s)" "file_ok schema ct s"
    "read_db_header s = (Inr (initial_db_header ct), s)" "se_is_open s" "se_durable s = DBHeader_bytes (initial_db_header ct)"
    "s0 = (storage_engine (Some (DBHeader_bytes (initial_db_header ct))) ct)\<lparr>se_fd := True, se_is_open := True\<rparr>"
proof -
  let ?h = "initial_db_header ct"
  let ?s = "(storage_engine None ct)\<lparr>se_fd := True, se_file := Some (DBHeader_bytes ?h), se_durable := DBHeader_bytes ?h, se_is_open := True\<rparr>"
  have o: "se_open (storage_engine None ct) = (Inr (), ?s)"
    by (simp add: se_open_def storage_engine_def bindS_def write_db_header_ok se_contents_def Let_def file_put_def)
  have len: "length (serialise_schema schema) < 2 ^ 32" using assms(1) by (simp add: storable_schema_def)
  have cont: "se_contents ?s = DBHeader_bytes ?h" by (simp add: se_contents_def)
  have h0: "read_db_header ?s = (Inr ?h, ?s)"
    by (rule read_db_header_ok) (simp_all only: cont, simp_all add: initial_db_header_def file_get_def)
  obtain c where c: "write_schema schema ?s = (Inr (), ?s\<lparr>se_file := Some c\<rparr>)" "holds_schema schema c"
    "length c = max (24 + length (serialise_schema schema)) 20" "file_get 0 20 c = DBHeader_bytes ?h"
    using write_schema_holds [OF len, of ?s] by (auto simp: cont file_get_def)
  let ?s1 = "?s\<lparr>se_file := Some c\<rparr>"
  have "length c < 2 ^ 63" using c(2) by (simp add: holds_schema_def)
  then have "read_db_header ?s1 = (Inr ?h, ?s1)"
    using c(3,4) by (intro read_db_header_ok) (simp_all add: initial_db_header_def)
  moreover have "file_ok schema ct ?s1"
    using assms c(2,4) by (auto simp: file_ok_def storage_engine_def se_contents_def initial_db_header_def)
  moreover have "?s = (storage_engine (Some (DBHeader_bytes ?h)) ct)\<lparr>se_fd := True, se_is_open := True\<rparr>" by (simp add: storage_engine_def)
  moreover have "file_size ?s = (Inr 20, ?s)" by (simp add: file_size_def cont)
  ultimately show thesis by (intro that [of ?s ?s1] o h0 c(1)) (simp_all, simp add: storage_engine_def)
qed

lemma fresh_file:
  assumes "storable_schema schema" and "ct \<in> {CNone, CLZ4}"
  obtains s where "bindS se_open (\<lambda>_. write_schema schema) (storage_engine None ct) = (Inr (), s)" "file_ok schema ct s"
    "read_db_header s = (Inr (initial_db_header ct), s)" "se_is_open s"
  by (rule fresh_file_steps [OF assms]) (use that in \<open>simp add: bindS_def\<close>)

lemma fresh_pager:
  assumes "file_ok schema ct s"
  shows "pager_ok schema ct index_manager 0 (pager s index_manager cap)" and "pager_pages (pager s index_manager cap) = Map.empty"
  using assms cache_inv_init
  by (auto simp: pager_ok_def pager_pages_def pager_def core_ok_def page_cache_def stored_page_raw fun_eq_iff)

lemma dom_empty_below: "dom Map.empty = {pid. pid < (0 :: u32)}"
  by simp

text \<open>What recovery finds in the file a flushed pager leaves behind.\<close>

lemma recover_flushed:
  assumes "pager_ok schema ct idx n ps" and "stored_page (snd ps) = m" and "dom m = {pid. pid < n}"
    and "read_db_header (pg_storage (snd ps)) = (Inr h, pg_storage (snd ps))" and "dh_page_count h = n"
  obtains ps2 idx2 where "recover schema (pager (pg_storage (snd ps)) index_manager cap) = (Inr (), ps2)"
    "pager_ok schema ct idx2 n ps2" "im_inv idx2" "im_find idx2 = map_of (page_run schema (\<lambda>pid. the (m pid)) [0..<unat n])"
    "pager_pages ps2 = m" "pg_storage (snd ps2) = pg_storage (snd ps)"
proof -
  note core = core_okD [OF pool.pool_okD(2) [OF assms(1)]]
  have pages: "slot_ok (data_start_of schema) (pg_storage (snd ps)) pid
      \<and> slot_page (data_start_of schema) (pg_storage (snd ps)) pid = Inr (the (m pid)) \<and> page_fits schema ct (the (m pid))"
    if pid: "pid < n" for pid
  proof -
    obtain p where p: "stored_page (snd ps) pid = Some p" using pid assms(2,3) by blast
    then obtain off where off: "pg_page_offsets (snd ps) pid = Some off" by (auto simp: stored_page_raw split: option.splits)
    then show ?thesis
      using core(4) [OF off] core(6) [OF p] p assms(2) by (auto simp: stored_page_raw slot_page_def split: sum.splits)
  qed
  obtain ps2 idx2 where r: "recover schema (pager (pg_storage (snd ps)) index_manager cap) = (Inr (), ps2)"
    "pager_ok schema ct idx2 n ps2" "im_inv idx2" "im_find idx2 = map_of (page_run schema (\<lambda>pid. the (m pid)) [0..<unat n])"
    "pager_pages ps2 = (\<lambda>pid. if pid < n then Some (the (m pid)) else None)" "pg_storage (snd ps2) = pg_storage (snd ps)"
    by (rule recover_ok [OF core(1) assms(4,5) pages])
  have "m pid = (if pid < n then Some (the (m pid)) else None)" for pid
  proof -
    have "m pid \<noteq> None \<longleftrightarrow> pid < n" using assms(3) by (metis domIff mem_Collect_eq)
    then show ?thesis by auto
  qed
  then have "pager_pages ps2 = m" using r(5) by (simp add: fun_eq_iff)
  then show thesis using that r by blast
qed

section \<open>Properties\<close>

definition page_of_rows :: "u32 \<Rightarrow> Row list \<Rightarrow> Page" where
  "page_of_rows pid rows =
     \<lparr>p_id = pid, p_data = rows_bytes rows, p_row_count = word_of_nat (length rows), p_dirty = False, p_row_offsets = rows_offsets rows\<rparr>"

lemma page_of_rows_fits:
  assumes "\<forall>r \<in> set rows. storable_row schema r" and "length (rows_bytes rows) \<le> 8145" and "ct \<in> {CNone, CLZ4}"
  shows "page_fits schema ct (page_of_rows pid rows)"
proof -
  have "length rows < 4294967296" using length_rows_bytes_ge [of rows] assms(2) by simp
  then have "page_rel schema (page_of_rows pid rows) rows"
    using assms(1,2) by (simp add: page_rel_def page_of_rows_def unat_of_nat)
  then show ?thesis using assms(2,3) by (intro small_page_fits) (auto simp: page_of_rows_def)
qed

lemma storable_demo_schema: "storable_schema demo_schema"
  by (simp add: storable_schema_def demo_schema_def serialise_schema_def serialise_field_def Let_def)

text \<open>
  C9: the pager is transparent. Over a newly created file and with a buffer pool of any
  capacity, every sequence of loads, updates, allocations and flushes of pages that fit their
  slot gives the results of the same calls on a plain map from page ids to pages, and leaves
  the pager standing for that map: eviction, write-back, compression and reloading are invisible.
\<close>

theorem pager_refines_map:
  assumes "storable_schema schema" and "ct \<in> {CNone, CLZ4}" and "\<forall>oper \<in> set ops. fitting_op schema ct oper"
    and "length ops < 2 ^ 32"
  shows "\<exists>s. bindS se_open (\<lambda>_. write_schema schema) (storage_engine None ct) = (Inr (), s)
    \<and> fst (run_calls pager_call ops (pager s index_manager cap)) = fst (run_calls pages_call ops (Map.empty, 0))
    \<and> pager_pages (snd (run_calls pager_call ops (pager s index_manager cap))) = fst (snd (run_calls pages_call ops (Map.empty, 0)))"
proof -
  obtain s where s: "bindS se_open (\<lambda>_. write_schema schema) (storage_engine None ct) = (Inr (), s)" "file_ok schema ct s"
    by (rule fresh_file [OF assms(1,2)])
  note f = fresh_pager [OF s(2), of cap]
  show ?thesis
    using pager_run_refines [OF f(1) im_inv_init(1) _ assms(3)] assms(4) s(1) f(2) by auto
qed

theorem pager_refines_map_witness:
  "\<exists>s. bindS se_open (\<lambda>_. write_schema demo_schema) (storage_engine None CLZ4) = (Inr (), s)
    \<and> fst (run_calls pager_call [PNew, PUpdate (page_of_rows 0 [demo_row 1 25 ''alice'']), PNew, PGet 0] (pager s index_manager 1))
       = [Inr (Some (Page_of_id 0)), Inr None, Inr (Some (Page_of_id 1)), Inr (Some (page_of_rows 0 [demo_row 1 25 ''alice'']))]"
proof -
  define p where "p = page_of_rows 0 [demo_row 1 25 ''alice'']"
  let ?ops = "[PNew, PUpdate p, PNew, PGet 0]"
  have "page_fits demo_schema CLZ4 p" unfolding p_def by (rule page_of_rows_fits) simp_all
  then have fit: "\<forall>oper \<in> set ?ops. fitting_op demo_schema CLZ4 oper" by (simp add: fitting_op_def)
  have "clean p = p" "p_id p = 0" by (simp_all add: p_def page_of_rows_def)
  then have "fst (run_calls pages_call ?ops (Map.empty, 0)) = [Inr (Some (Page_of_id 0)), Inr None, Inr (Some (Page_of_id 1)), Inr (Some p)]"
    by simp
  moreover have "CLZ4 \<in> {CNone, CLZ4}" "length ?ops < 2 ^ 32" by simp_all
  ultimately show ?thesis
    unfolding p_def [symmetric] using pager_refines_map [OF storable_demo_schema _ fit, of 1] by metis
qed

text \<open>
  C10: a checkpoint is enough to restart from. After any such sequence of calls, \<open>flush_all\<close>
  succeeds and makes the whole file durable; a new pager with a buffer pool of any capacity then recovers
  from what is durable exactly the pages there were, the number of pages, and an index whose
  entry for an id is the first row with that id in page and slot order.
\<close>

theorem flush_then_recover:
  assumes "storable_schema schema" and "ct \<in> {CNone, CLZ4}" and "\<forall>oper \<in> set ops. fitting_op schema ct oper"
    and "length ops < 2 ^ 32"
  shows "\<exists>s ps s'. bindS se_open (\<lambda>_. write_schema schema) (storage_engine None ct) = (Inr (), s)
    \<and> flush_all (snd (run_calls pager_call ops (pager s index_manager cap))) = (Inr (), ps)
    \<and> s' = (pg_storage (snd ps))\<lparr>se_file := Some (se_durable (pg_storage (snd ps)))\<rparr>
    \<and> (\<exists>ps2. recover schema (pager s' index_manager cap') = (Inr (), ps2)
         \<and> (pager_pages ps2, page_count ps2) = snd (run_calls pages_call ops (Map.empty, 0))
         \<and> im_find (pg_index (snd ps2))
             = map_of (page_run schema (\<lambda>pid. the (pager_pages ps2 pid)) [0..<unat (page_count ps2)]))"
proof -
  obtain s where s: "bindS se_open (\<lambda>_. write_schema schema) (storage_engine None ct) = (Inr (), s)" "file_ok schema ct s"
    by (rule fresh_file [OF assms(1,2)])
  note f = fresh_pager [OF s(2), of cap]
  obtain rs ps1 n idx where r: "run_calls pager_call ops (pager s index_manager cap) = (rs, ps1)"
    "run_calls pages_call ops (Map.empty, 0) = (rs, (pager_pages ps1, n))" "pager_ok schema ct idx n ps1" "im_inv idx"
    "dom (pager_pages ps1) = {pid. pid < n}"
    using pager_run_refines [OF f(1) im_inv_init(1) _ assms(3)] assms(4) f(2) by auto
  obtain ps idx' h where fl: "flush_all ps1 = (Inr (), ps)" "pager_ok schema ct idx' n ps" "stored_page (snd ps) = pager_pages ps1"
    "read_db_header (pg_storage (snd ps)) = (Inr h, pg_storage (snd ps))" "dh_page_count h = n"
    "se_file (pg_storage (snd ps)) = Some (se_durable (pg_storage (snd ps)))"
    by (rule flush_all_ok [OF r(3,4)])
  obtain ps2 idx2 where r2: "recover schema (pager (pg_storage (snd ps)) index_manager cap') = (Inr (), ps2)"
    "pager_ok schema ct idx2 n ps2" "im_find idx2 = map_of (page_run schema (\<lambda>pid. the (pager_pages ps1 pid)) [0..<unat n])"
    "pager_pages ps2 = pager_pages ps1"
    by (rule recover_flushed [OF fl(2,3) r(5) fl(4,5)])
  have "page_count ps2 = n" "pg_index (snd ps2) = idx2" using pager_ok_core [OF r2(2)] by (simp_all add: page_count_def)
  moreover have "(pg_storage (snd ps))\<lparr>se_file := Some (se_durable (pg_storage (snd ps)))\<rparr> = pg_storage (snd ps)" using fl(6) by simp
  ultimately show ?thesis
    using s(1) r(1,2) fl(1) r2(1,3,4) by (intro exI [of _ s] exI [of _ ps] exI [of _ "pg_storage (snd ps)"] conjI exI [of _ ps2]) simp_all
qed

theorem flush_then_recover_witness:
  "let ops = [PNew, PUpdate (page_of_rows 0 [demo_row 1 25 ''alice'', demo_row 2 30 ''bob'']), PNew]
   in \<exists>s ps s'. bindS se_open (\<lambda>_. write_schema demo_schema) (storage_engine None CNone) = (Inr (), s)
    \<and> flush_all (snd (run_calls pager_call ops (pager s index_manager 1))) = (Inr (), ps)
    \<and> s' = (pg_storage (snd ps))\<lparr>se_file := Some (se_durable (pg_storage (snd ps)))\<rparr>
    \<and> (\<exists>ps2. recover demo_schema (pager s' index_manager 5) = (Inr (), ps2)
         \<and> page_count ps2 = 2 \<and> pager_pages ps2 0 = Some (page_of_rows 0 [demo_row 1 25 ''alice'', demo_row 2 30 ''bob'']))"
proof -
  let ?p = "page_of_rows 0 [demo_row 1 25 ''alice'', demo_row 2 30 ''bob'']"
  let ?ops = "[PNew, PUpdate ?p, PNew]"
  have "page_fits demo_schema CNone ?p" by (rule page_of_rows_fits) simp_all
  then have fit: "\<forall>oper \<in> set ?ops. fitting_op demo_schema CNone oper" by (simp add: fitting_op_def)
  have "clean ?p = ?p" "p_id ?p = 0" by (simp_all add: page_of_rows_def)
  then have "snd (run_calls pages_call ?ops (Map.empty, 0)) = ([0 \<mapsto> ?p, 1 \<mapsto> Page_of_id 1], 2)"
    by (simp add: fun_eq_iff)
  then show ?thesis
    using flush_then_recover [OF storable_demo_schema _ fit, of 1 5] by (force simp: Let_def)
qed

text \<open>
  C39: a page that does not fit its slot overruns the next one. When the compressed form is
  longer than \<open>PAGE_SIZE\<close>, \<open>write_page_to_disk\<close> reports success, and the first bytes of the slot of
  the next page are the end of this one.
\<close>

theorem oversized_page_overruns:
  assumes "file_ok schema ct (pg_storage c)" and "compress ct (p_data p) = Inr blob"
    and "unat PAGE_SIZE < length blob" and "length blob < 65536" and "p_id p + 1 \<noteq> 0"
  shows "\<exists>off c'. write_page_to_disk p c = (Inr off, c')
    \<and> file_get (unat (page_file_offset (data_start_of schema) (p_id p + 1))) (length blob - unat PAGE_SIZE)
        (se_contents (pg_storage c')) = drop (unat PAGE_SIZE) blob"
proof -
  note d = file_okD [OF assms(1)]
  let ?off = "page_file_offset (data_start_of schema) (p_id p)" and ?h = "page_header_for ct p (length blob)"
  let ?c = "file_put (unat ?off) (PageHeader_bytes ?h @ blob) (se_contents (pg_storage c))"
  have "unat ?off + 20 + length blob \<le> 2 ^ 63" using page_file_offset_bound [OF d(10), of "p_id p"] assms(4) by simp
  then have "\<exists>c'. write_page_to_disk p c = (Inr ?off, c') \<and> se_contents (pg_storage c') = ?c"
    using d(2,8) assms(2) overwrite_page_raw_ok [OF _ d(1), of ?off blob ?h]
    by (simp add: write_page_to_disk_def bindS_def on_storage_def zoomS_def Let_def)
  moreover have "unat (p_id p + 1) = unat (p_id p) + 1" using assms(5) by (metis Suc_eq_plus1 add.commute unatSuc)
  then have "unat (page_file_offset (data_start_of schema) (p_id p + 1)) = unat ?off + 8212"
    using unat_page_file_offset [OF d(10)] by simp
  moreover have "file_get (unat ?off + 8212) (length blob - 8192) ?c = drop 8192 blob"
  proof -
    have "file_get (unat ?off) (8212 + (length blob - 8192)) ?c = PageHeader_bytes ?h @ blob"
      using assms(3) by (intro file_get_put_same) simp
    then have "drop 8212 (file_get (unat ?off) (8212 + (length blob - 8192)) ?c) = drop 8192 blob" by simp
    then show ?thesis by (simp add: file_get_def drop_take add.commute)
  qed
  ultimately show ?thesis by auto
qed

theorem oversized_page_overruns_witness:
  "\<exists>s blob off c'. bindS se_open (\<lambda>_. write_schema demo_schema) (storage_engine None CLZ4) = (Inr (), s)
    \<and> compress CLZ4 counting_page = Inr blob
    \<and> write_page_to_disk ((Page_of_id 0)\<lparr>p_data := counting_page\<rparr>) (snd (pager s index_manager 1)) = (Inr off, c')
    \<and> file_get (unat (page_file_offset (data_start_of demo_schema) 1)) 34 (se_contents (pg_storage c')) = drop 8192 blob"
proof -
  obtain s where s: "bindS se_open (\<lambda>_. write_schema demo_schema) (storage_engine None CLZ4) = (Inr (), s)" "file_ok demo_schema CLZ4 s"
    by (rule fresh_file [OF storable_demo_schema insertI2 [OF singletonI]])
  let ?p = "(Page_of_id 0)\<lparr>p_data := counting_page\<rparr>" and ?c = "snd (pager s index_manager 1)"
  let ?blob = "[push_bit 4 (lz4_nibble 8192)] @ lz4_ext 8192 @ counting_page"
  have len: "length ?blob = 8226" by (simp add: length_lz4_ext)
  have p: "p_data ?p = counting_page" "p_id ?p = 0" "pg_storage ?c = s" by (simp_all add: Page_of_id_def pager_def)
  have "\<exists>off c'. write_page_to_disk ?p ?c = (Inr off, c')
      \<and> file_get (unat (page_file_offset (data_start_of demo_schema) (p_id ?p + 1))) (length ?blob - unat PAGE_SIZE)
          (se_contents (pg_storage c')) = drop (unat PAGE_SIZE) ?blob"
    using s(2) compress_counting_page by (intro oversized_page_overruns) (simp_all only: p len, simp_all)
  then show ?thesis using s(1) compress_counting_page unfolding len p(2) by auto
qed

end
