(* ===== verification/Db.thy ===== *)
theory Db
  imports Pager Wal BPTree Scan_Filter
begin

text \<open>
  \<open>DB\<close> of \<open>src/db.cpp\<close>, the public entry point: opening and closing, insertion, deletion and update
  (single and in batches), lookup, scans, secondary indexes, checkpoints and the replay of the
  write-ahead log. The state has the members of the class; the pager holds the storage engine
  and the primary index, and \<open>db_ready\<close> says whether the members created by \<open>open\<close> exist. A call on a
  missing member is undefined behaviour. Every public operation runs under the reader-writer lock
  (theory \<open>Xdl_Types\<close>), so the model is sequential. An unordered map of indexes is an association list.
\<close>

section \<open>State\<close>

record DB =
  db_schema :: Schema
  db_compression :: CompressionType
  db_cache_cap :: nat
  db_schema_explicit :: bool
  db_ready :: bool
  db_pager :: Pager
  db_wal :: WAL
  db_indexes :: "(string \<times> BPTree) list"
  db_is_open :: bool

definition default_schema_fields :: "FieldDef list" where
  "default_schema_fields = [\<lparr>fd_name = ''age'', fd_type = UINT32\<rparr>, \<lparr>fd_name = ''name'', fd_type = STRING\<rparr>]"

text \<open>
  The constructor, for a path whose database and log files have the given contents. The last
  argument is the script of results of the system calls on the log.
\<close>

definition db_new :: "Schema \<Rightarrow> CompressionType \<Rightarrow> nat \<Rightarrow> bytes option \<Rightarrow> bytes option \<Rightarrow> int list \<Rightarrow> DB result" where
  "db_new schema ct cap f logf script =
     (let explicit = (s_fields schema \<noteq> []);
          schema' = (if explicit then schema else schema\<lparr>s_fields := default_schema_fields\<rparr>)
      in bindR (validate schema') (\<lambda>_.
         Inr \<lparr>db_schema = schema', db_compression = ct, db_cache_cap = cap, db_schema_explicit = explicit, db_ready = False,
              db_pager = pager (storage_engine f ct) index_manager cap, db_wal = wal_object logf script,
              db_indexes = [], db_is_open = False\<rparr>))"

definition on_pager :: "(Pager, 'a) prog \<Rightarrow> (DB, 'a) prog" where
  "on_pager m db = (if db_ready db then zoomS db_pager (\<lambda>p db. db\<lparr>db_pager := p\<rparr>) m db else (Inl UndefinedBehaviour, db))"

definition on_wal :: "(WAL, 'a) prog \<Rightarrow> (DB, 'a) prog" where
  "on_wal m db = (if db_ready db then zoomS db_wal (\<lambda>w db. db\<lparr>db_wal := w\<rparr>) m db else (Inl UndefinedBehaviour, db))"

abbreviation db_index :: "DB \<Rightarrow> IndexManager" where
  "db_index db \<equiv> pg_index (snd (db_pager db))"

abbreviation on_primary :: "(IndexManager, 'a) prog \<Rightarrow> (DB, 'a) prog" where
  "on_primary m \<equiv> on_pager (on_core (on_index m))"

definition require_open :: "(DB, unit) prog" where
  "require_open = bindS (getS db_is_open) (\<lambda>opened. if \<not> opened then throwS XDLError else returnS ())"

section \<open>Insertion\<close>

definition get_or_create_writable_page :: "Row \<Rightarrow> (DB, Page) prog" where
  "get_or_create_writable_page row =
     bindS (getS db_schema) (\<lambda>schema.
     bindS (liftR (serialised_row_size row schema)) (\<lambda>need.
     if need > PAGE_SIZE then throwS XDLError
     else bindS (on_pager (getS page_count)) (\<lambda>count.
       if count > 0
       then bindS (on_pager (get_mutable_page (count - 1))) (\<lambda>page.
              if has_capacity page \<and> length (p_data page) + unat need \<le> unat PAGE_SIZE then returnS page
              else on_pager new_page)
       else on_pager new_page)))"

text \<open>The loops that maintain the secondary indexes.\<close>

fun index_each :: "(BPTree \<Rightarrow> FieldValue \<Rightarrow> FieldType \<Rightarrow> u32 \<Rightarrow> BPTree result) \<Rightarrow> Schema \<Rightarrow> FieldValue list \<Rightarrow> u32 \<Rightarrow>
    (string \<times> BPTree) list \<Rightarrow> (string \<times> BPTree) list \<Rightarrow> (DB, unit) prog" where
  "index_each f schema vs rid visited [] = returnS ()"
| "index_each f schema vs rid visited ((name, t) # rest) =
     (let fi = field_index schema name
      in if fi < 0 then index_each f schema vs rid (visited @ [(name, t)]) rest
         else bindS (liftR (bindR (vec_index vs (nat fi)) (\<lambda>v.
                            bindR (vec_index (s_fields schema) (nat fi)) (\<lambda>fd. f t v (fd_type fd) rid)))) (\<lambda>t'.
              bindS (modifyS (\<lambda>db. db\<lparr>db_indexes := visited @ (name, t') # rest\<rparr>)) (\<lambda>_.
                index_each f schema vs rid (visited @ [(name, t')]) rest)))"

definition index_row :: "FieldValue list \<Rightarrow> u32 \<Rightarrow> (DB, unit) prog" where
  "index_row vs rid db = index_each bptree_insert (db_schema db) vs rid [] (db_indexes db) db"

definition unindex_row :: "FieldValue list \<Rightarrow> u32 \<Rightarrow> (DB, unit) prog" where
  "unindex_row vs rid db = index_each bptree_erase (db_schema db) vs rid [] (db_indexes db) db"

definition insert_unlocked :: "Row \<Rightarrow> bool \<Rightarrow> (DB, unit) prog" where
  "insert_unlocked row sync_now =
     bindS (getS db_schema) (\<lambda>schema.
     if length (row_fields row) \<noteq> length (s_fields schema) then throwS XDLError
     else bindS (on_primary (getS (\<lambda>i. im_find i (row_id row)))) (\<lambda>found.
     if found \<noteq> None then throwS DuplicateKeyError
     else bindS (get_or_create_writable_page row) (\<lambda>page.
     let slot = p_row_count page
     in bindS (liftR (append_row page row schema)) (\<lambda>page.
        bindS (on_pager (write_page page)) (\<lambda>_.
        bindS (liftR (row_data_ptr page slot)) (\<lambda>row_ptr.
        bindS (liftR (row_data_len page slot)) (\<lambda>row_len.
        bindS (liftR (mem_read (unat row_len) row_ptr)) (\<lambda>row_data.
        bindS (on_wal (log_insert_direct (row_id row) (p_id page) slot row_data sync_now)) (\<lambda>_.
        bindS (on_pager (getS (page_offset (p_id page)))) (\<lambda>offset.
        bindS (on_primary (im_insert (row_id row) \<lparr>ie_page_id = p_id page, ie_page_offset = offset, ie_row_slot = slot\<rparr>)) (\<lambda>_.
          index_row (row_fields row) (row_id row))))))))))))"

definition db_insert :: "Row \<Rightarrow> (DB, unit) prog" where
  "db_insert row = bindS require_open (\<lambda>_. insert_unlocked row True)"

text \<open>The validation loop of \<open>insert_batch\<close>, with the ids seen so far.\<close>

fun validate_inserts :: "Row list \<Rightarrow> u32 list \<Rightarrow> (DB, unit) prog" where
  "validate_inserts [] seen = returnS ()"
| "validate_inserts (row # rows) seen =
     bindS (getS db_schema) (\<lambda>schema.
     if length (row_fields row) \<noteq> length (s_fields schema) then throwS XDLError
     else bindS (on_primary (getS (\<lambda>i. im_find i (row_id row)))) (\<lambda>found.
     if found \<noteq> None \<or> row_id row \<in> set seen then throwS DuplicateKeyError
     else bindS (liftR (serialised_row_size row schema)) (\<lambda>need.
     if need > PAGE_SIZE then throwS XDLError
     else validate_inserts rows (row_id row # seen))))"

fun insert_each :: "Row list \<Rightarrow> (DB, unit) prog" where
  "insert_each [] = returnS ()"
| "insert_each (row # rows) = bindS (insert_unlocked row False) (\<lambda>_. insert_each rows)"

definition insert_batch :: "Row list \<Rightarrow> (DB, nat) prog" where
  "insert_batch rows =
     bindS require_open (\<lambda>_.
     if rows = [] then returnS 0
     else bindS (validate_inserts rows []) (\<lambda>_.
          bindS (insert_each rows) (\<lambda>_.
          bindS (on_wal wal_sync) (\<lambda>_. returnS (length rows)))))"

section \<open>Deletion and update\<close>

fun repair_slots :: "Page \<Rightarrow> u32 list \<Rightarrow> (DB, unit) prog" where
  "repair_slots page [] = returnS ()"
| "repair_slots page (rid # rids) =
     bindS (liftR (find_row page rid)) (\<lambda>slot.
     bindS (if slot \<ge> 0 then on_primary (modifyS (update_slot (word_of_int slot) rid)) else returnS ()) (\<lambda>_.
       repair_slots page rids))"

definition repair_slots_after_erase :: "u32 \<Rightarrow> (DB, unit) prog" where
  "repair_slots_after_erase pid =
     bindS (on_primary (getS (\<lambda>i. ids_for_page i pid))) (\<lambda>found.
     case found of
       None \<Rightarrow> returnS ()
     | Some rids \<Rightarrow> bindS (on_pager (get_mutable_page pid)) (\<lambda>page. repair_slots page rids))"

text \<open>The slot of a row: where the index says, or where a search of the page finds it.\<close>

definition locate_row :: "Page \<Rightarrow> IndexEntry \<Rightarrow> u32 \<Rightarrow> int result" where
  "locate_row page entry rid =
     (if ie_row_slot entry < p_row_count page
      then bindR (row_id_at page (ie_row_slot entry)) (\<lambda>r.
             if r = rid then Inr (int (unat (ie_row_slot entry))) else find_row page rid)
      else find_row page rid)"

definition erase_unlocked :: "u32 \<Rightarrow> (DB, bool) prog" where
  "erase_unlocked rid =
     bindS (getS db_schema) (\<lambda>schema.
     bindS (on_primary (getS (\<lambda>i. im_find i rid))) (\<lambda>found.
     case found of
       None \<Rightarrow> returnS False
     | Some entry \<Rightarrow>
         let pid = ie_page_id entry
         in bindS (on_pager (get_mutable_page pid)) (\<lambda>page.
            bindS (liftR (locate_row page entry rid)) (\<lambda>slot.
            if slot < 0 then returnS False
            else bindS (liftR (get_row page (word_of_int slot) schema)) (\<lambda>old.
                 bindS (on_wal (log_delete rid pid (word_of_int slot) False)) (\<lambda>_.
                 bindS (liftR (erase_row page (word_of_int slot))) (\<lambda>page.
                 bindS (on_pager (write_page page)) (\<lambda>_.
                 bindS (on_primary (\<lambda>i. case im_remove i rid of (_, i') \<Rightarrow> (Inr (), i'))) (\<lambda>_.
                 bindS (repair_slots_after_erase pid) (\<lambda>_.
                 bindS (unindex_row (row_fields old) rid) (\<lambda>_. returnS True)))))))))))"

definition db_erase :: "u32 \<Rightarrow> (DB, unit) prog" where
  "db_erase rid =
     bindS require_open (\<lambda>_.
     bindS (erase_unlocked rid) (\<lambda>erased.
     if \<not> erased then throwS NotFoundError else on_wal wal_sync))"

fun validate_erases :: "u32 list \<Rightarrow> u32 list \<Rightarrow> (DB, unit) prog" where
  "validate_erases [] seen = returnS ()"
| "validate_erases (rid # rids) seen =
     (if rid \<in> set seen then throwS DuplicateKeyError
      else bindS (on_primary (getS (\<lambda>i. im_find i rid))) (\<lambda>found.
           if found = None then throwS NotFoundError else validate_erases rids (rid # seen)))"

fun erase_each :: "u32 list \<Rightarrow> nat \<Rightarrow> (DB, nat) prog" where
  "erase_each [] deleted = returnS deleted"
| "erase_each (rid # rids) deleted =
     bindS (erase_unlocked rid) (\<lambda>erased. erase_each rids (if erased then deleted + 1 else deleted))"

definition erase_batch :: "u32 list \<Rightarrow> (DB, nat) prog" where
  "erase_batch rids =
     bindS require_open (\<lambda>_.
     if rids = [] then returnS 0
     else bindS (validate_erases rids []) (\<lambda>_.
          bindS (erase_each rids 0) (\<lambda>deleted.
          bindS (on_wal wal_sync) (\<lambda>_. returnS deleted))))"

definition db_update :: "Row \<Rightarrow> (DB, unit) prog" where
  "db_update row =
     bindS require_open (\<lambda>_.
     bindS (getS db_schema) (\<lambda>schema.
     bindS (on_primary (getS (\<lambda>i. im_find i (row_id row)))) (\<lambda>found.
     if found = None then throwS NotFoundError
     else if length (row_fields row) \<noteq> length (s_fields schema) then throwS XDLError
     else bindS (liftR (serialised_row_size row schema)) (\<lambda>need.
     if need > PAGE_SIZE then throwS XDLError
     else bindS (erase_unlocked (row_id row)) (\<lambda>erased.
     if \<not> erased then throwS NotFoundError
     else bindS (insert_unlocked row False) (\<lambda>_. on_wal wal_sync))))))"

fun validate_updates :: "Row list \<Rightarrow> u32 list \<Rightarrow> (DB, unit) prog" where
  "validate_updates [] seen = returnS ()"
| "validate_updates (row # rows) seen =
     bindS (getS db_schema) (\<lambda>schema.
     if length (row_fields row) \<noteq> length (s_fields schema) then throwS XDLError
     else if row_id row \<in> set seen then throwS DuplicateKeyError
     else bindS (on_primary (getS (\<lambda>i. im_find i (row_id row)))) (\<lambda>found.
     if found = None then throwS NotFoundError
     else bindS (liftR (serialised_row_size row schema)) (\<lambda>need.
     if need > PAGE_SIZE then throwS XDLError
     else validate_updates rows (row_id row # seen))))"

fun update_each :: "Row list \<Rightarrow> (DB, unit) prog" where
  "update_each [] = returnS ()"
| "update_each (row # rows) =
     bindS (erase_unlocked (row_id row)) (\<lambda>_. bindS (insert_unlocked row False) (\<lambda>_. update_each rows))"

definition update_batch :: "Row list \<Rightarrow> (DB, nat) prog" where
  "update_batch rows =
     bindS require_open (\<lambda>_.
     if rows = [] then returnS 0
     else bindS (validate_updates rows []) (\<lambda>_.
          bindS (update_each rows) (\<lambda>_.
          bindS (on_wal wal_sync) (\<lambda>_. returnS (length rows)))))"

section \<open>Lookup and scans\<close>

definition get_unlocked :: "u32 \<Rightarrow> (DB, Row) prog" where
  "get_unlocked rid =
     bindS (getS db_schema) (\<lambda>schema.
     bindS (on_primary (getS (\<lambda>i. im_find i rid))) (\<lambda>found.
     case found of
       None \<Rightarrow> throwS NotFoundError
     | Some entry \<Rightarrow>
         bindS (on_pager (get_page (ie_page_id entry))) (\<lambda>page.
           liftR (get_row page (ie_row_slot entry) schema))))"

definition db_get :: "u32 \<Rightarrow> (DB, Row) prog" where
  "db_get rid = bindS require_open (\<lambda>_. get_unlocked rid)"

definition try_get :: "u32 \<Rightarrow> (DB, Row option) prog" where
  "try_get rid =
     bindS require_open (\<lambda>_.
       catchS (\<lambda>e. e = NotFoundError) (bindS (get_unlocked rid) (\<lambda>row. returnS (Some row))) (returnS None))"

text \<open>
  A visitor is a function that may throw; what it accumulates is threaded through the loops over
  the slots of a page and over the pages.
\<close>

type_synonym 'v visitor = "Row \<Rightarrow> 'v \<Rightarrow> 'v result"

primrec scan_slots :: "'v visitor \<Rightarrow> ScanFilter \<Rightarrow> Schema \<Rightarrow> Page \<Rightarrow> u32 list \<Rightarrow> 'v \<Rightarrow> 'v result" where
  "scan_slots visitor flt schema page [] acc = Inr acc"
| "scan_slots visitor flt schema page (slot # slots) acc =
     bindR (bindR (row_data_ptr page slot) (\<lambda>p. matches_raw flt p schema)) (\<lambda>ok.
     if \<not> ok then scan_slots visitor flt schema page slots acc
     else bindR (get_row page slot schema) (\<lambda>r.
          bindR (visitor r acc) (scan_slots visitor flt schema page slots)))"

definition slots_of :: "Page \<Rightarrow> u32 list" where
  "slots_of page = map word_of_nat [0..<unat (p_row_count page)]"

primrec scan_pages :: "'v visitor \<Rightarrow> ScanFilter \<Rightarrow> u32 list \<Rightarrow> 'v \<Rightarrow> (DB, 'v) prog" where
  "scan_pages visitor flt [] acc = returnS acc"
| "scan_pages visitor flt (pid # pids) acc =
     bindS (on_pager (get_page pid)) (\<lambda>page.
     bindS (getS db_schema) (\<lambda>schema.
     bindS (liftR (scan_slots visitor flt schema page (slots_of page) acc)) (scan_pages visitor flt pids)))"

definition scan_unlocked :: "'v visitor \<Rightarrow> ScanFilter \<Rightarrow> 'v \<Rightarrow> (DB, 'v) prog" where
  "scan_unlocked visitor flt acc =
     bindS (on_pager (getS page_count)) (\<lambda>total_pages. scan_pages visitor flt (map word_of_nat [0..<unat total_pages]) acc)"

definition scan :: "'v visitor \<Rightarrow> ScanFilter \<Rightarrow> 'v \<Rightarrow> (DB, 'v) prog" where
  "scan visitor flt acc = bindS require_open (\<lambda>_. scan_unlocked visitor flt acc)"

definition scan_all :: "ScanFilter \<Rightarrow> (DB, Row list) prog" where
  "scan_all flt = scan (\<lambda>r results. Inr (results @ [r])) flt []"

section \<open>Secondary indexes\<close>

text \<open>The loops of \<open>create_index\<close>, for the field at position \<open>fi\<close>.\<close>

primrec build_slots :: "nat \<Rightarrow> Schema \<Rightarrow> Page \<Rightarrow> u32 list \<Rightarrow> BPTree \<Rightarrow> BPTree result" where
  "build_slots fi schema page [] tree = Inr tree"
| "build_slots fi schema page (slot # slots) tree =
     bindR (get_row page slot schema) (\<lambda>r.
     bindR (vec_index (row_fields r) fi) (\<lambda>v.
     bindR (vec_index (s_fields schema) fi) (\<lambda>fd.
     bindR (bptree_insert tree v (fd_type fd) (row_id r)) (build_slots fi schema page slots))))"

primrec build_pages :: "nat \<Rightarrow> u32 list \<Rightarrow> BPTree \<Rightarrow> (DB, BPTree) prog" where
  "build_pages fi [] tree = returnS tree"
| "build_pages fi (pid # pids) tree =
     bindS (on_pager (get_page pid)) (\<lambda>page.
     bindS (getS db_schema) (\<lambda>schema.
     bindS (liftR (build_slots fi schema page (slots_of page) tree)) (build_pages fi pids)))"

definition create_index :: "string \<Rightarrow> (DB, unit) prog" where
  "create_index name =
     bindS (getS (\<lambda>db. field_index (db_schema db) name)) (\<lambda>fi.
     if fi < 0 then throwS XDLError
     else bindS (getS (\<lambda>db. map_of (db_indexes db) name)) (\<lambda>existing.
     if existing \<noteq> None then returnS ()
     else bindS (on_pager (getS page_count)) (\<lambda>total_pages.
          bindS (build_pages (nat fi) (map word_of_nat [0..<unat total_pages]) bptree_empty) (\<lambda>tree.
            modifyS (\<lambda>db. db\<lparr>db_indexes := (name, tree) # db_indexes db\<rparr>)))))"

definition drop_index :: "string \<Rightarrow> (DB, unit) prog" where
  "drop_index name = modifyS (\<lambda>db. db\<lparr>db_indexes := filter (\<lambda>(k, _). k \<noteq> name) (db_indexes db)\<rparr>)"

definition has_index :: "string \<Rightarrow> (DB, bool) prog" where
  "has_index name = getS (\<lambda>db. map_of (db_indexes db) name \<noteq> None)"

definition compare_field_values :: "FieldValue \<Rightarrow> FieldValue \<Rightarrow> FieldType \<Rightarrow> int result" where
  "compare_field_values a b ft =
     bindR (bptree_key_encode_vec a ft) (\<lambda>ka. bindR (bptree_key_encode_vec b ft) (\<lambda>kb. Inr (bptree_key_compare ka kb)))"

text \<open>The visitor of the scan \<open>index_range_scan\<close> falls back to when the field has no index.\<close>

definition range_visitor :: "nat \<Rightarrow> FieldType \<Rightarrow> FieldValue option \<Rightarrow> bool \<Rightarrow> FieldValue option \<Rightarrow> bool \<Rightarrow> Row list visitor" where
  "range_visitor fi ft lo lo_inclusive hi hi_inclusive r results =
     bindR (vec_index (row_fields r) fi) (\<lambda>v.
     bindR (case lo of None \<Rightarrow> Inr False
            | Some b \<Rightarrow> bindR (compare_field_values v b ft) (\<lambda>c. Inr (c < 0 \<or> c = 0 \<and> \<not> lo_inclusive))) (\<lambda>below.
     if below then Inr results
     else bindR (case hi of None \<Rightarrow> Inr False
            | Some b \<Rightarrow> bindR (compare_field_values v b ft) (\<lambda>c. Inr (c > 0 \<or> c = 0 \<and> \<not> hi_inclusive))) (\<lambda>above.
          if above then Inr results else Inr (results @ [r]))))"

text \<open>The locations of the rows an index returns, grouped by page with their place in the result.\<close>

definition index_locations :: "IndexManager \<Rightarrow> Entry list \<Rightarrow> (u32 \<times> u32) list" where
  "index_locations index es =
     concat (map (\<lambda>e. List.map_filter (\<lambda>i. map_option (\<lambda>entry. (ie_page_id entry, ie_row_slot entry)) (im_find index i)) (ids e)) es)"

fun add_item :: "u32 \<Rightarrow> nat \<times> u32 \<Rightarrow> (u32 \<times> (nat \<times> u32) list) list \<Rightarrow> (u32 \<times> (nat \<times> u32) list) list" where
  "add_item pid item [] = [(pid, [item])]"
| "add_item pid item ((q, items) # by_page) = (if q = pid then (q, items @ [item]) # by_page else (q, items) # add_item pid item by_page)"

fun group_by_page :: "nat \<Rightarrow> (u32 \<times> u32) list \<Rightarrow> (u32 \<times> (nat \<times> u32) list) list \<Rightarrow> (u32 \<times> (nat \<times> u32) list) list" where
  "group_by_page i [] by_page = by_page"
| "group_by_page i ((pid, slot) # locs) by_page = group_by_page (Suc i) locs (add_item pid (i, slot) by_page)"

fun fill_items :: "Schema \<Rightarrow> Page \<Rightarrow> (nat \<times> u32) list \<Rightarrow> Row list \<Rightarrow> Row list result" where
  "fill_items schema page [] results = Inr results"
| "fill_items schema page ((out_idx, slot) # items) results =
     bindR (get_row page slot schema) (\<lambda>r.
       if out_idx < length results then fill_items schema page items (results[out_idx := r]) else Inl UndefinedBehaviour)"

fun fill_pages :: "(u32 \<times> (nat \<times> u32) list) list \<Rightarrow> Row list \<Rightarrow> (DB, Row list) prog" where
  "fill_pages [] results = returnS results"
| "fill_pages ((pid, items) # by_page) results =
     bindS (on_pager (get_page pid)) (\<lambda>page.
     bindS (getS db_schema) (\<lambda>schema.
     bindS (liftR (fill_items schema page items results)) (fill_pages by_page)))"

definition index_range_scan :: "string \<Rightarrow> FieldValue option \<Rightarrow> bool \<Rightarrow> FieldValue option \<Rightarrow> bool \<Rightarrow> (DB, Row list) prog" where
  "index_range_scan field lo lo_inclusive hi hi_inclusive =
     bindS (getS db_schema) (\<lambda>schema.
     let fi = field_index schema field
     in if fi < 0 then throwS XDLError
        else bindS (liftR (vec_index (s_fields schema) (nat fi))) (\<lambda>fd.
        bindS (getS (\<lambda>db. map_of (db_indexes db) field)) (\<lambda>it.
        case it of
          None \<Rightarrow> scan_unlocked (range_visitor (nat fi) (fd_type fd) lo lo_inclusive hi hi_inclusive) [] []
        | Some tree \<Rightarrow>
            bindS (liftR (range_scan tree lo (fd_type fd) lo_inclusive hi (fd_type fd) hi_inclusive)) (\<lambda>es.
            bindS (on_primary (getS (\<lambda>i. index_locations i es))) (\<lambda>locs.
              fill_pages (group_by_page 0 locs []) (replicate (length locs) \<lparr>row_id = 0, row_fields = []\<rparr>))))))"

section \<open>Replay of the write-ahead log\<close>

definition replay_insert :: "WALRecord \<Rightarrow> (DB, unit) prog" where
  "replay_insert r =
     bindS (getS db_schema) (\<lambda>schema.
     let tmp_page = (Page_of_id INVALID_PAGE_ID)\<lparr>p_data := wr_row_data r, p_row_count := 1,
           p_row_offsets := (if wr_row_data r \<noteq> [] then [0] else [])\<rparr>
     in bindS (liftR (get_row tmp_page 0 schema)) (\<lambda>row.
        bindS (get_or_create_writable_page row) (\<lambda>page.
        let slot = p_row_count page
        in bindS (liftR (append_row page row schema)) (\<lambda>page.
           bindS (on_pager (write_page page)) (\<lambda>_.
           bindS (on_pager (getS (page_offset (p_id page)))) (\<lambda>offset.
           bindS (on_primary (im_insert (row_id row) \<lparr>ie_page_id = p_id page, ie_page_offset = offset, ie_row_slot = slot\<rparr>)) (\<lambda>_.
             index_row (row_fields row) (row_id row))))))))"

definition replay_delete :: "WALRecord \<Rightarrow> IndexEntry \<Rightarrow> (DB, unit) prog" where
  "replay_delete r entry =
     (let rid = wr_row_id r; pid = ie_page_id entry
      in bindS (on_pager (get_mutable_page pid)) (\<lambda>page.
         bindS (liftR (locate_row page entry rid)) (\<lambda>slot.
         bindS (if slot \<ge> 0
                then bindS (liftR (erase_row page (word_of_int slot))) (\<lambda>page. on_pager (write_page (page\<lparr>p_dirty := True\<rparr>)))
                else returnS ()) (\<lambda>_.
         bindS (on_primary (\<lambda>i. case im_remove i rid of (_, i') \<Rightarrow> (Inr (), i'))) (\<lambda>_.
           repair_slots_after_erase pid)))))"

definition replay_record :: "WALRecord \<Rightarrow> (DB, unit) prog" where
  "replay_record r =
     (if wr_type r = COMMIT \<or> wr_type r = CHECKPOINT then returnS ()
      else if wr_type r = INSERT
      then bindS (on_primary (getS (\<lambda>i. im_find i (wr_row_id r)))) (\<lambda>found.
             if found \<noteq> None then returnS () else catchS any_exception (replay_insert r) (returnS ()))
      else if wr_type r = DELETE
      then bindS (on_primary (getS (\<lambda>i. im_find i (wr_row_id r)))) (\<lambda>found.
             case found of None \<Rightarrow> returnS () | Some entry \<Rightarrow> catchS any_exception (replay_delete r entry) (returnS ()))
      else returnS ())"

fun replay_records :: "WALRecord list \<Rightarrow> (DB, unit) prog" where
  "replay_records [] = returnS ()"
| "replay_records (r # rs) = bindS (replay_record r) (\<lambda>_. replay_records rs)"

definition replay_wal :: "(DB, unit) prog" where
  "replay_wal = bindS (on_wal wal_replay) replay_records"

section \<open>Lifecycle\<close>

fun fields_match :: "FieldDef list \<Rightarrow> FieldDef list \<Rightarrow> bool" where
  "fields_match (a # as) (b # bs) = (if fd_name a \<noteq> fd_name b then False else if fd_type a \<noteq> fd_type b then False else fields_match as bs)"
| "fields_match _ _ = True"

definition schemas_match :: "Schema \<Rightarrow> Schema \<Rightarrow> bool" where
  "schemas_match a b = (if length (s_fields a) \<noteq> length (s_fields b) then False else fields_match (s_fields a) (s_fields b))"

text \<open>
  New \<open>StorageEngine\<close> and \<open>WAL\<close> objects on the same files: the objects they replace are destroyed, which
  closes them.
\<close>

definition new_storage :: "CompressionType \<Rightarrow> StorageEngine \<Rightarrow> StorageEngine" where
  "new_storage ct old = (snd (se_close old))\<lparr>se_compression := ct, se_fd := False, se_is_open := False\<rparr>"

definition new_wal :: "WAL \<Rightarrow> WAL" where
  "new_wal old = (snd (wal_close old))\<lparr>wal_pos := 0, wal_fd := False, wal_is_open := False, wal_buf := [],
     wal_buf_dirty := False, wal_offset := 0\<rparr>"

abbreviation db_storage :: "DB \<Rightarrow> StorageEngine" where
  "db_storage db \<equiv> pg_storage (snd (db_pager db))"

text \<open>The steps of \<open>open\<close> that work on the storage engine alone.\<close>

definition on_new_storage :: "(StorageEngine, 'a) prog \<Rightarrow> (DB, 'a) prog" where
  "on_new_storage = zoomS db_storage (\<lambda>s db. db\<lparr>db_pager := (fst (db_pager db), (snd (db_pager db))\<lparr>pg_storage := s\<rparr>)\<rparr>)"

definition read_stored_schema :: "(StorageEngine, Schema option) prog" where
  "read_stored_schema =
     bindS file_size (\<lambda>sz.
     if sz > word_of_nat sizeof_header + 4
     then catchS is_xdl_error (bindS read_schema (\<lambda>stored. returnS (Some stored))) (returnS None)
     else returnS None)"

text \<open>The schema the database works with: the stored one, or for a file without one the caller's, which is stored.\<close>

definition adopt_schema :: "DBHeader \<Rightarrow> Schema option \<Rightarrow> (DB, unit) prog" where
  "adopt_schema dbhdr found =
     (case found of
        Some stored \<Rightarrow>
          bindS (getS (\<lambda>db. db_schema_explicit db \<and> \<not> schemas_match stored (db_schema db))) (\<lambda>mismatch.
          if mismatch then bindS (on_new_storage se_close) (\<lambda>_. throwS MigrationError)
          else modifyS (\<lambda>db. db\<lparr>db_schema := stored\<rparr>))
      | None \<Rightarrow>
          if dh_page_count dbhdr > 0 then bindS (on_new_storage se_close) (\<lambda>_. throwS CorruptionError)
          else bindS (getS db_schema) (\<lambda>schema. on_new_storage (write_schema schema)))"

text \<open>The index, the log and the pager are created, and the contents are recovered.\<close>

definition open_members :: "(DB, unit) prog" where
  "open_members =
     bindS (modifyS (\<lambda>db. db\<lparr>db_wal := new_wal (db_wal db)\<rparr>)) (\<lambda>_.
     bindS (zoomS db_wal (\<lambda>w db. db\<lparr>db_wal := w\<rparr>) wal_open) (\<lambda>_.
     bindS (modifyS (\<lambda>db. db\<lparr>db_pager := pager (db_storage db) index_manager (db_cache_cap db), db_ready := True\<rparr>)) (\<lambda>_.
     bindS (getS db_schema) (\<lambda>schema.
     bindS (on_pager (recover schema)) (\<lambda>_.
     bindS replay_wal (\<lambda>_.
       modifyS (\<lambda>db. db\<lparr>db_is_open := True\<rparr>)))))))"

definition db_open :: "(DB, unit) prog" where
  "db_open db =
     (if db_is_open db then (Inr (), db)
      else bindS (modifyS (\<lambda>db. db\<lparr>db_pager := (fst (db_pager db),
                  (snd (db_pager db))\<lparr>pg_storage := new_storage (db_compression db) (db_storage db)\<rparr>), db_ready := False\<rparr>)) (\<lambda>_.
           bindS (on_new_storage se_open) (\<lambda>_.
           bindS (on_new_storage read_db_header) (\<lambda>dbhdr.
           bindS (on_new_storage read_stored_schema) (\<lambda>found.
           bindS (adopt_schema dbhdr found) (\<lambda>_. open_members))))) db)"

definition db_close :: "(DB, unit) prog" where
  "db_close db =
     (if \<not> db_is_open db then (Inr (), db)
      else bindS (on_pager flush_all) (\<lambda>_.
           bindS (on_wal wal_clear) (\<lambda>_.
           bindS (on_wal wal_close) (\<lambda>_.
           bindS (on_pager (on_core (on_storage se_close))) (\<lambda>_.
             modifyS (\<lambda>db. db\<lparr>db_indexes := [], db_is_open := False\<rparr>))))) db)"

text \<open>The destructor swallows what \<open>close\<close> throws.\<close>

definition db_destroy :: "(DB, unit) prog" where
  "db_destroy db = (if db_is_open db then catchS any_exception db_close (returnS ()) db else (Inr (), db))"

definition checkpoint :: "(DB, unit) prog" where
  "checkpoint = bindS require_open (\<lambda>_. bindS (on_pager flush_all) (\<lambda>_. on_wal wal_clear))"

record Stats =
  st_row_count :: nat
  st_page_count :: u32
  st_cache_size :: nat
  st_cache_capacity :: nat
  st_file_size_bytes :: u64
  st_schema_version :: u32
  st_wal_active :: bool
  st_secondary_index_count :: nat

definition stats :: "(DB, Stats) prog" where
  "stats db =
     (if \<not> db_is_open db
      then (Inr \<lparr>st_row_count = 0, st_page_count = 0, st_cache_size = 0, st_cache_capacity = 0, st_file_size_bytes = 0,
                 st_schema_version = 0, st_wal_active = False, st_secondary_index_count = 0\<rparr>, db)
      else bindS (on_pager (on_core (on_storage file_size))) (\<lambda>sz.
           getS (\<lambda>db. \<lparr>st_row_count = im_size (db_index db), st_page_count = page_count (db_pager db),
             st_cache_size = cache_size (fst (db_pager db)), st_cache_capacity = db_cache_cap db, st_file_size_bytes = sz,
             st_schema_version = s_version (db_schema db), st_wal_active = wal_is_open (db_wal db),
             st_secondary_index_count = length (db_indexes db)\<rparr>)) db)"

end
