(* ===== verification/Db_Layout.thy ===== *)
theory Db_Layout
  imports Db
begin

text \<open>
  The rows a store holds and where: \<open>R\<close> gives the rows of every page, \<open>P\<close> the place (page and slot)
  the primary index records for a row id. \<open>placed R P\<close> says that the two agree, \<open>table R P\<close> is the map
  from ids to rows they stand for, and \<open>store_rel\<close> relates a pager and its index to \<open>R\<close>. The lemmas
  show how the steps of insertion and deletion act on them.
\<close>

section \<open>Rows and their places\<close>

type_synonym layout = "u32 \<Rightarrow> Row list"

definition placed :: "layout \<Rightarrow> (u32 \<rightharpoonup> u32 \<times> u32) \<Rightarrow> bool" where
  "placed R P \<longleftrightarrow> (\<forall>i pid slot. P i = Some (pid, slot) \<longleftrightarrow> unat slot < length (R pid) \<and> row_id (R pid ! unat slot) = i)"

definition table :: "layout \<Rightarrow> (u32 \<rightharpoonup> u32 \<times> u32) \<Rightarrow> u32 \<rightharpoonup> Row" where
  "table R P i = map_option (\<lambda>(pid, slot). R pid ! unat slot) (P i)"

lemma placedD:
  assumes "placed R P" and "P i = Some (pid, slot)"
  shows "unat slot < length (R pid)" and "row_id (R pid ! unat slot) = i"
  using assms by (auto simp: placed_def)

lemma placedI_slot:
  assumes "placed R P" and "k < length (R pid)" and "length (R pid) < 2 ^ 32"
  shows "P (row_id (R pid ! k)) = Some (pid, word_of_nat k)"
proof -
  have "unat (word_of_nat k :: u32) = k" using assms(2,3) by (simp add: unat_of_nat)
  then show ?thesis using assms(1,2) by (simp add: placed_def)
qed

lemma placed_row:
  assumes "placed R P" and "length (R pid) < 2 ^ 32" and "r \<in> set (R pid)"
  shows "\<exists>slot. P (row_id r) = Some (pid, slot) \<and> R pid ! unat slot = r"
proof -
  obtain k where k: "k < length (R pid)" "R pid ! k = r" using assms(3) by (auto simp: in_set_conv_nth)
  then have "unat (word_of_nat k :: u32) = k" using assms(2) by (simp add: unat_of_nat)
  then show ?thesis using placedI_slot [OF assms(1) k(1) assms(2)] k(2) by auto
qed

lemma table_id: "placed R P \<Longrightarrow> table R P i = Some r \<Longrightarrow> row_id r = i"
  by (auto simp: table_def dest: placedD(2))

lemma table_None: "table R P i = None \<longleftrightarrow> P i = None"
  by (simp add: table_def)

lemma placed_distinct:
  assumes "placed R P" and "length (R pid) < 2 ^ 32" shows "distinct (map row_id (R pid))"
proof (subst distinct_conv_nth, intro allI impI)
  fix i j assume ij: "i < length (map row_id (R pid))" "j < length (map row_id (R pid))" "i \<noteq> j"
  show "map row_id (R pid) ! i \<noteq> map row_id (R pid) ! j"
  proof
    assume "map row_id (R pid) ! i = map row_id (R pid) ! j"
    then have "(word_of_nat i :: u32) = word_of_nat j"
      using placedI_slot [OF assms(1) _ assms(2)] ij by (metis length_map nth_map option.inject prod.inject)
    then have "unat (word_of_nat i :: u32) = unat (word_of_nat j :: u32)" by simp
    then show False using ij assms(2) by (simp add: unat_of_nat)
  qed
qed

lemma placed_append:
  assumes "placed R P" and "P (row_id r) = None" and "length (R pid) < 2 ^ 32 - 1"
  defines "R' \<equiv> R(pid := R pid @ [r])" and "P' \<equiv> P(row_id r \<mapsto> (pid, word_of_nat (length (R pid))))"
  shows "placed R' P'" and "table R' P' = (table R P)(row_id r \<mapsto> r)"
proof -
  have w: "unat (word_of_nat (length (R pid)) :: u32) = length (R pid)" using assms(3) by (simp add: unat_of_nat)
  have other: "P' i = P i" if "i \<noteq> row_id r" for i using that by (simp add: P'_def)
  have in_R: "row_id (R q ! k) \<noteq> row_id r" if "k < length (R q)" "length (R q) < 2 ^ 32 \<or> q = pid" for q k
    using placedI_slot [OF assms(1) that(1)] assms(2,3) that(2) by force
  have slot_R: "row_id (R q ! unat s) \<noteq> row_id r" if "unat (s :: u32) < length (R q)" for q s
    using assms(1,2) that by (metis option.distinct(1) placed_def)
  show "placed R' P'"
    unfolding placed_def
  proof (intro allI)
    fix i q s
    show "P' i = Some (q, s) \<longleftrightarrow> unat s < length (R' q) \<and> row_id (R' q ! unat s) = i"
    proof (cases "i = row_id r")
      case True
      have "unat s < length (R' q) \<and> row_id (R' q ! unat s) = row_id r \<longleftrightarrow> q = pid \<and> unat s = length (R pid)"
        using slot_R [of s q] by (auto simp: R'_def nth_append less_Suc_eq)
      moreover have "unat s = length (R pid) \<longleftrightarrow> s = word_of_nat (length (R pid))" using w by (metis word_unat_eq_iff)
      ultimately show ?thesis using True by (auto simp: P'_def)
    next
      case False
      have "P i = Some (q, s) \<longleftrightarrow> unat s < length (R' q) \<and> row_id (R' q ! unat s) = i"
        using assms(1) False by (auto simp: placed_def R'_def nth_append less_Suc_eq)
      then show ?thesis using other [OF False] by simp
    qed
  qed
  show "table R' P' = (table R P)(row_id r \<mapsto> r)"
  proof
    fix i show "table R' P' i = ((table R P)(row_id r \<mapsto> r)) i"
    proof (cases "i = row_id r")
      case True
      then show ?thesis using w by (simp add: table_def P'_def R'_def)
    next
      case False
      then show ?thesis
        using placedD(1) [OF assms(1), of i] by (cases "P i") (auto simp: table_def other R'_def nth_append)
    qed
  qed
qed

lemma map_remove_nth: "map f (remove_nth i xs) = remove_nth i (map f xs)"
  by (simp add: remove_nth_def take_map drop_map)

lemma distinct_remove_nth: "distinct xs \<Longrightarrow> distinct (remove_nth i xs)"
  by (simp add: remove_nth_def set_take_disj_set_drop_if_distinct)

lemma nth_notin_remove_nth: "distinct xs \<Longrightarrow> i < length xs \<Longrightarrow> xs ! i \<notin> set (remove_nth i xs)"
  using id_take_nth_drop [of i xs] by (metis UnE distinct.simps(2) distinct_append disjoint_iff list.set_intros(1) remove_nth_def set_append)

lemma remove_nth_other:
  assumes "i < length xs" and "j < length xs" and "j \<noteq> i"
  shows "\<exists>k < length (remove_nth i xs). remove_nth i xs ! k = xs ! j"
proof (cases "j < i")
  case True
  then show ?thesis using assms by (intro exI [of _ j]) (simp add: nth_remove_nth)
next
  case False
  then obtain k where "j = Suc k" "i \<le> k" using assms(3) by (cases j) auto
  then show ?thesis using assms by (intro exI [of _ k]) (simp add: nth_remove_nth)
qed

text \<open>After a row has been erased and the slots of its page repaired.\<close>

definition repaired :: "layout \<Rightarrow> u32 \<Rightarrow> u32 \<Rightarrow> (u32 \<rightharpoonup> u32 \<times> u32) \<Rightarrow> (u32 \<rightharpoonup> u32 \<times> u32) \<Rightarrow> bool" where
  "repaired R' i pid P P' \<longleftrightarrow> P' i = None
     \<and> (\<forall>j. j \<noteq> i \<longrightarrow> (case P j of
          None \<Rightarrow> P' j = None
        | Some (q, s) \<Rightarrow> if q \<noteq> pid then P' j = Some (q, s)
            else \<exists>k < length (R' pid). row_id (R' pid ! k) = j \<and> P' j = Some (pid, word_of_nat k)))"

lemma repairedD:
  assumes "repaired R' i pid P P'"
  shows "P' i = None" and "j \<noteq> i \<Longrightarrow> P j = None \<Longrightarrow> P' j = None"
    and "j \<noteq> i \<Longrightarrow> P j = Some (q, s) \<Longrightarrow> q \<noteq> pid \<Longrightarrow> P' j = Some (q, s)"
    and "j \<noteq> i \<Longrightarrow> P j = Some (pid, s) \<Longrightarrow> \<exists>k < length (R' pid). row_id (R' pid ! k) = j \<and> P' j = Some (pid, word_of_nat k)"
proof -
  have c: "case P j of None \<Rightarrow> P' j = None
        | Some (q, s) \<Rightarrow> if q \<noteq> pid then P' j = Some (q, s)
            else \<exists>k < length (R' pid). row_id (R' pid ! k) = j \<and> P' j = Some (pid, word_of_nat k)" if "j \<noteq> i"
    using assms that by (simp add: repaired_def)
  show "P' i = None" using assms by (simp add: repaired_def)
  show "j \<noteq> i \<Longrightarrow> P j = None \<Longrightarrow> P' j = None" using c by simp
  show "j \<noteq> i \<Longrightarrow> P j = Some (q, s) \<Longrightarrow> q \<noteq> pid \<Longrightarrow> P' j = Some (q, s)" using c by simp
  show "j \<noteq> i \<Longrightarrow> P j = Some (pid, s) \<Longrightarrow> \<exists>k < length (R' pid). row_id (R' pid ! k) = j \<and> P' j = Some (pid, word_of_nat k)"
    using c by simp
qed

lemma removed_row:
  assumes "distinct (map row_id xs)" and "n < length xs" and "x \<in> set (remove_nth n xs)"
  shows "x \<in> set xs" and "row_id x \<noteq> row_id (xs ! n)"
proof -
  have "row_id x \<in> set (remove_nth n (map row_id xs))" using assms(3) by (auto simp flip: map_remove_nth)
  moreover have "row_id (xs ! n) \<notin> set (remove_nth n (map row_id xs))" using nth_notin_remove_nth [OF assms(1), of n] assms(2) by simp
  ultimately show "row_id x \<noteq> row_id (xs ! n)" by auto
  show "x \<in> set xs" using assms(3) set_remove_nth_subset [of n xs] by auto
qed

lemma repaired_elsewhere:
  assumes "repaired R' i pid P P'" and "P i = Some (pid, slot)" and "q \<noteq> pid"
  shows "P' j = Some (q, s) \<longleftrightarrow> P j = Some (q, s)"
proof (cases "j = i \<or> P j = None")
  case True
  then show ?thesis using repairedD(1) [OF assms(1)] repairedD(2) [OF assms(1), of j] assms(2,3) by (cases "j = i") auto
next
  case False
  then obtain q' s' where "P j = Some (q', s')" "j \<noteq> i" by auto
  then show ?thesis using repairedD(3) [OF assms(1), of j q' s'] repairedD(4) [OF assms(1), of j s'] assms(3)
    by (cases "q' = pid") auto
qed

lemma repaired_row_at:
  assumes "placed R P" and "P i = Some (pid, slot)" and "length (R pid) < 2 ^ 32" and "R' pid = remove_nth (unat slot) (R pid)"
    and "repaired R' i pid P P'" and "k < length (R' pid)" and "row_id (R' pid ! k) = j"
  shows "P' j = Some (pid, word_of_nat k)"
proof -
  note at = placedD [OF assms(1,2)] and dist = placed_distinct [OF assms(1,3)]
  have "R' pid ! k \<in> set (remove_nth (unat slot) (R pid))" using assms(4,6) nth_mem by metis
  then have "R' pid ! k \<in> set (R pid)" and ne: "j \<noteq> i" using removed_row [OF dist at(1)] at(2) assms(7) by auto
  then obtain c where c: "c < length (R pid)" "R pid ! c = R' pid ! k" by (auto simp: in_set_conv_nth)
  then have "P j = Some (pid, word_of_nat c)" using placedI_slot [OF assms(1) c(1) assms(3)] assms(7) by simp
  then obtain k' where k': "k' < length (R' pid)" "row_id (R' pid ! k') = j" "P' j = Some (pid, word_of_nat k')"
    using repairedD(4) [OF assms(5) ne] by blast
  have "distinct (map row_id (R' pid))" using dist by (simp add: assms(4) map_remove_nth distinct_remove_nth)
  then have "k' = k" using k'(1,2) assms(6,7) by (metis distinct_conv_nth length_map nth_map)
  then show ?thesis using k'(3) by simp
qed

lemma repaired_at:
  assumes "placed R P" and "P i = Some (pid, slot)" and "length (R pid) < 2 ^ 32" and "R' pid = remove_nth (unat slot) (R pid)"
    and "repaired R' i pid P P'"
  shows "P' j = Some (pid, s) \<longleftrightarrow> unat s < length (R' pid) \<and> row_id (R' pid ! unat s) = j"
proof
  assume Pj: "P' j = Some (pid, s)"
  have "j \<noteq> i" using repairedD(1) [OF assms(5)] Pj by auto
  then obtain q' s' where P: "P j = Some (q', s')" using repairedD(2) [OF assms(5), of j] Pj by (cases "P j") auto
  then have "q' = pid" using repairedD(3) [OF assms(5) \<open>j \<noteq> i\<close>, of q' s'] Pj by auto
  then obtain k where "k < length (R' pid)" "row_id (R' pid ! k) = j" "P' j = Some (pid, word_of_nat k)"
    using repairedD(4) [OF assms(5) \<open>j \<noteq> i\<close>] P by blast
  moreover have "length (R' pid) < 2 ^ 32" using assms(3,4) placedD(1) [OF assms(1,2)] by simp
  ultimately show "unat s < length (R' pid) \<and> row_id (R' pid ! unat s) = j" using Pj by (auto simp: unat_of_nat)
next
  assume "unat s < length (R' pid) \<and> row_id (R' pid ! unat s) = j"
  then show "P' j = Some (pid, s)" using repaired_row_at [OF assms, of "unat s" j] by simp
qed

lemma table_at:
  assumes "placed R P" and "unat (s :: u32) < length (R pid)" shows "table R P (row_id (R pid ! unat s)) = Some (R pid ! unat s)"
proof -
  have "P (row_id (R pid ! unat s)) = Some (pid, s)" using assms unfolding placed_def by blast
  then show ?thesis by (simp add: table_def)
qed

lemma placed_remove:
  assumes "placed R P" and "P i = Some (pid, slot)" and "length (R pid) < 2 ^ 32"
  defines "R' \<equiv> R(pid := remove_nth (unat slot) (R pid))"
  assumes rep: "repaired R' i pid P P'"
  shows "placed R' P'" and "table R' P' = (table R P)(i := None)"
proof -
  have R'p: "R' pid = remove_nth (unat slot) (R pid)" and R'q: "q \<noteq> pid \<Longrightarrow> R' q = R q" for q by (simp_all add: R'_def)
  note at = placedD [OF assms(1,2)] and dist = placed_distinct [OF assms(1,3)]
  have "P' j = Some (q, s) \<longleftrightarrow> unat s < length (R' q) \<and> row_id (R' q ! unat s) = j" for j q s
    using repaired_at [OF assms(1-3) R'p rep] repaired_elsewhere [OF rep assms(2), of q j s] assms(1) R'q [of q]
    by (cases "q = pid") (simp_all add: placed_def)
  then show placed': "placed R' P'" by (simp add: placed_def)
  show "table R' P' = (table R P)(i := None)"
  proof
    fix j
    show "table R' P' j = ((table R P)(i := None)) j"
    proof (cases "table R' P' j")
      case None
      then have "j = i \<or> P j = None" using repairedD(3,4) [OF rep, of j] by (cases "P j"; cases "fst (the (P j)) = pid") (auto simp: table_None)
      then show ?thesis using None by (auto simp: table_def)
    next
      case (Some r)
      then obtain q and s :: u32 where r: "unat s < length (R' q)" "R' q ! unat s = r" "row_id r = j"
        using placedD [OF placed', of j] by (auto simp: table_def)
      have "j \<noteq> i" using Some repairedD(1) [OF rep] by (auto simp: table_def)
      have "table R P j = Some r"
      proof (cases "q = pid")
        case True
        then have "r \<in> set (R pid)" using r(1,2) removed_row(1) [OF dist at(1)] R'p nth_mem by metis
        then show ?thesis using placed_row [OF assms(1,3), of r] r(3) by (auto simp: table_def)
      next
        case False
        then show ?thesis using r R'q table_at [OF assms(1), of s q] by simp
      qed
      then show ?thesis using Some \<open>j \<noteq> i\<close> by simp
    qed
  qed
qed

section \<open>The store\<close>

text \<open>
  Rows that always fit. A page holds at most 64 rows, and a compressed page of at most 8145 bytes fits
  its slot whatever it holds, so rows of at most 127 bytes are safe with compression.
\<close>

definition fitting_row :: "Schema \<Rightarrow> CompressionType \<Rightarrow> Row \<Rightarrow> bool" where
  "fitting_row schema ct r \<longleftrightarrow> storable_row schema r \<and> (ct = CNone \<or> row_size r \<le> 127)"

definition rows_fit :: "Schema \<Rightarrow> CompressionType \<Rightarrow> Row list \<Rightarrow> bool" where
  "rows_fit schema ct rows \<longleftrightarrow> length rows \<le> 64 \<and> length (rows_bytes rows) \<le> 8192 \<and> (\<forall>r \<in> set rows. fitting_row schema ct r)"

definition store_rel :: "Schema \<Rightarrow> CompressionType \<Rightarrow> layout \<Rightarrow> IndexManager \<Rightarrow> u32 \<Rightarrow> Pager \<Rightarrow> bool" where
  "store_rel schema ct R idx n ps \<longleftrightarrow> pager_ok schema ct idx n ps \<and> im_inv idx
     \<and> (\<forall>pid. rows_fit schema ct (R pid))
     \<and> (\<forall>pid. if pid < n then \<exists>p. pager_pages ps pid = Some p \<and> page_rel schema p (R pid)
              else pager_pages ps pid = None \<and> R pid = [])"

lemma rows_bytes_bound: "\<forall>r \<in> set rows. row_size r \<le> b \<Longrightarrow> length (rows_bytes rows) \<le> b * length rows"
  by (induction rows) (auto simp: algebra_simps)

lemma rows_fit_page:
  assumes "rows_fit schema ct rows" and "page_rel schema p rows" and "ct \<in> {CNone, CLZ4}"
  shows "page_fits schema ct p"
proof (rule small_page_fits [OF assms(2)])
  show "ct = CNone \<and> length (p_data p) \<le> 8192 \<or> ct = CLZ4 \<and> length (p_data p) \<le> 8145"
  proof (cases "ct = CNone")
    case False
    then have "length (rows_bytes rows) \<le> 127 * length rows"
      using assms(1) by (intro rows_bytes_bound) (auto simp: rows_fit_def fitting_row_def)
    moreover have "length rows \<le> 64" using assms(1) by (simp add: rows_fit_def)
    ultimately show ?thesis using assms(3) False page_relD(1) [OF assms(2)] by simp
  qed (use assms(1) page_relD(1) [OF assms(2)] in \<open>simp add: rows_fit_def\<close>)
qed

lemma page_rel_clean [simp]: "page_rel schema (clean p) rows \<longleftrightarrow> page_rel schema p rows"
  by (simp add: page_rel_def clean_def)

lemma store_relD:
  assumes "store_rel schema ct R idx n ps"
  shows "pager_ok schema ct idx n ps" and "im_inv idx" and "\<And>pid. rows_fit schema ct (R pid)"
    and "ct \<in> {CNone, CLZ4}" and "pg_index (snd ps) = idx" and "page_count ps = n" and "pg_next_page_id (snd ps) = n"
    and "\<And>pid. length (R pid) \<le> 64" and "\<And>pid. length (R pid) < 2 ^ 32"
    and "\<And>pid. pid < n \<Longrightarrow> \<exists>p. pager_pages ps pid = Some p \<and> page_rel schema p (R pid)"
    and "\<And>pid. \<not> pid < n \<Longrightarrow> pager_pages ps pid = None \<and> R pid = []"
proof -
  note s = assms[unfolded store_rel_def]
  show ok: "pager_ok schema ct idx n ps" and "im_inv idx" and fit: "\<And>pid. rows_fit schema ct (R pid)" using s by auto
  show "ct \<in> {CNone, CLZ4}" using ok file_okD(3) core_okD(1) unfolding pager_ok_def by blast
  show "pg_index (snd ps) = idx" "page_count ps = n" "pg_next_page_id (snd ps) = n"
    using pager_ok_core [OF ok] by (auto simp: page_count_def)
  show len: "length (R pid) \<le> 64" for pid using fit [of pid] by (simp add: rows_fit_def)
  show "length (R pid) < 2 ^ 32" for pid using len [of pid] by simp
  have pages: "if pid < n then \<exists>p. pager_pages ps pid = Some p \<and> page_rel schema p (R pid)
              else pager_pages ps pid = None \<and> R pid = []" for pid using s by blast
  show "pid < n \<Longrightarrow> \<exists>p. pager_pages ps pid = Some p \<and> page_rel schema p (R pid)" for pid using pages [of pid] by simp
  show "\<not> pid < n \<Longrightarrow> pager_pages ps pid = None \<and> R pid = []" for pid using pages [of pid] by simp
qed

lemma store_rel_dom: "store_rel schema ct R idx n ps \<Longrightarrow> dom (pager_pages ps) = {pid. pid < n}"
  using store_relD(10,11) [of schema ct R idx n ps] by (fastforce simp: dom_def)

lemma store_rel_cong:
  assumes "store_rel schema ct R idx n ps" and "pager_ok schema ct idx' n ps'" and "im_inv idx'"
    and "pager_pages ps' = pager_pages ps"
  shows "store_rel schema ct R idx' n ps'"
  using assms by (simp add: store_rel_def)

lemma store_rel_below: "store_rel schema ct R idx n ps \<Longrightarrow> k < length (R pid) \<Longrightarrow> pid < n"
  using store_relD(11) by (metis less_nat_zero_code list.size(3))

text \<open>A page of the store, fetched for reading or writing.\<close>

lemma store_fetch:
  assumes "store_rel schema ct R idx n ps" and "pid < n" and "fetch \<in> {get_page, get_mutable_page}"
  obtains p ps' where "fetch pid ps = (Inr p, ps')" "page_rel schema p (R pid)" "p_id p = pid"
    "lru_find pid (pc_lru (fst ps')) = Some p" "store_rel schema ct R idx n ps'"
proof -
  obtain q where q: "pager_pages ps pid = Some q" "page_rel schema q (R pid)" using store_relD(10) [OF assms(1,2)] by blast
  have "loads schema ct idx n pid q ps (fetch pid ps)" using get_page_ok [OF store_relD(1) [OF assms(1)] q(1)] assms(3) by auto
  then obtain p ps' where f: "fetch pid ps = (Inr p, ps')" "clean p = q" "pager_ok schema ct idx n ps'"
      "pager_pages ps' = pager_pages ps" "lru_find pid (pc_lru (fst ps')) = Some p"
    by (rule loadsE)
  have "page_rel schema p (R pid)" using q(2) f(2) by auto
  moreover have "p_id p = pid" using pager_pagesD(2) [OF store_relD(1) [OF assms(1)] q(1)] f(2) by (auto simp: clean_def)
  moreover have "store_rel schema ct R idx n ps'" by (rule store_rel_cong [OF assms(1) f(3) store_relD(2) [OF assms(1)] f(4)])
  ultimately show thesis using that f(1,5) by blast
qed

text \<open>A page of the store, replaced by one with other rows.\<close>

lemma store_write:
  assumes "store_rel schema ct R idx n ps" and "lru_find (p_id p) (pc_lru (fst ps)) = Some old" and "p_id p < n"
    and "page_rel schema p rows" and "rows_fit schema ct rows" and "p_dirty p"
  obtains ps' where "write_page p ps = (Inr (), ps')" "store_rel schema ct (R(p_id p := rows)) idx n ps'"
    "lru_find (p_id p) (pc_lru (fst ps')) = Some p"
proof -
  note d = store_relD [OF assms(1)]
  have fits: "page_fits schema ct p" by (rule rows_fit_page [OF assms(5,4) d(4)])
  obtain ps' where w: "write_page p ps = (Inr (), ps')" "pager_ok schema ct idx n ps'"
    "pager_pages ps' = (pager_pages ps)(p_id p \<mapsto> clean p)" "lru_find (p_id p) (pc_lru (fst ps')) = Some p"
    by (rule write_page_ok [OF d(1) assms(2) fits assms(6)])
  have "store_rel schema ct (R(p_id p := rows)) idx n ps'"
    using assms(1,3,4,5) w(2,3) by (auto simp: store_rel_def)
  then show thesis using that w by blast
qed

lemma store_new_page:
  assumes "store_rel schema ct R idx n ps" and "n \<noteq> -1"
  obtains p ps' where "new_page ps = (Inr p, ps')" "p_id p = n" "page_rel schema p (R n)" "R n = []"
    "lru_find n (pc_lru (fst ps')) = Some p" "store_rel schema ct R idx (n + 1) ps'" "n < n + 1"
proof -
  note d = store_relD [OF assms(1)]
  have none: "pager_pages ps n = None" "R n = []" using d(11) [of n] by auto
  obtain ps' where w: "new_page ps = (Inr ((Page_of_id n)\<lparr>p_dirty := True\<rparr>), ps')" "pager_ok schema ct idx (n + 1) ps'"
    "pager_pages ps' = (pager_pages ps)(n \<mapsto> Page_of_id n)" "lru_find n (pc_lru (fst ps')) = Some ((Page_of_id n)\<lparr>p_dirty := True\<rparr>)"
    by (rule new_page_ok [OF d(1) none(1)])
  have lt: "pid < n + 1 \<longleftrightarrow> pid = n \<or> pid < n" for pid using below_next [OF assms(2)] by auto
  have rel: "page_rel schema ((Page_of_id n)\<lparr>p_dirty := True\<rparr>) (R n)" "page_rel schema (Page_of_id n) (R n)"
    using page_rel_empty [of schema n] none(2) by (simp_all add: page_rel_def)
  have "store_rel schema ct R idx (n + 1) ps'"
    using assms(1) w(2,3) rel(2) none(2) by (auto simp: store_rel_def lt)
  then show thesis using that w(1,4) rel(1) none(2) lt [of n] by (simp add: Page_of_id_def)
qed

lemma store_set_index:
  assumes "store_rel schema ct R idx n ps" and "im_inv idx'"
  shows "store_rel schema ct R idx' n (fst ps, (snd ps)\<lparr>pg_index := idx'\<rparr>)"
proof -
  obtain k c where ps: "ps = (k, c)" by (cases ps)
  have c: "c\<lparr>pg_index := idx', pg_next_page_id := n\<rparr> = c\<lparr>pg_index := idx'\<rparr>" using store_relD(7) [OF assms(1)] ps by simp
  have ok: "pager_ok schema ct idx n (k, c)" using store_relD(1) [OF assms(1)] ps by simp
  show ?thesis
    using pager_ok_index [where idx' = idx' and n' = n, OF ok] assms unfolding c ps
    by (intro store_rel_cong [OF assms(1)]) (simp_all add: ps)
qed

text \<open>The place of a new row, and the places after a row has been erased and the slots repaired.\<close>

lemma im_insert_places:
  assumes "im_inv idx" and "places idx i = None"
  obtains idx' where "im_insert i e idx = (Inr (), idx')" "im_inv idx'" "places idx' = (places idx)(i \<mapsto> (ie_page_id e, ie_row_slot e))"
proof -
  have none: "im_find idx i = None" using assms(2) by (simp add: places_def)
  obtain r idx' where ins: "im_insert i e idx = (r, idx')" by (cases "im_insert i e idx")
  have law: "r = Inr () \<and> im_inv idx' \<and> im_find idx' = (im_find idx)(i \<mapsto> e)"
    using pix.ins_new [where m = idx and k = i and e = e, OF assms(1) none] ins by simp
  then show thesis using that ins by (auto simp: places_def fun_eq_iff)
qed

lemma im_remove_places:
  assumes "im_inv idx"
  shows "im_inv (snd (im_remove idx i))" and "places (snd (im_remove idx i)) = (places idx)(i := None)"
  using pix.rem_law [OF assms, of i] by (auto simp: places_def fun_eq_iff)

lemma update_slot_places:
  assumes "im_inv idx"
  shows "im_inv (update_slot slot i idx)"
    and "places (update_slot slot i idx) = (places idx)(i := map_option (\<lambda>(pid, _). (pid, slot)) (places idx i))"
proof -
  have law: "im_inv (update_slot slot i idx) \<and>
      im_find (update_slot slot i idx) = (im_find idx)(i := map_option (\<lambda>e. e\<lparr>ie_row_slot := slot\<rparr>) (im_find idx i))"
    unfolding update_slot_def by (rule pix.upd_law [OF assms]) simp
  then show "im_inv (update_slot slot i idx)" by simp
  show "places (update_slot slot i idx) = (places idx)(i := map_option (\<lambda>(pid, _). (pid, slot)) (places idx i))"
    using law by (auto simp: places_def fun_eq_iff option.map_comp comp_def)
qed

text \<open>The loop of \<open>repair_slots_after_erase\<close> as a function on places.\<close>

definition repair_place :: "Row list \<Rightarrow> u32 \<Rightarrow> (u32 \<rightharpoonup> u32 \<times> u32) \<Rightarrow> (u32 \<rightharpoonup> u32 \<times> u32)" where
  "repair_place rows i P =
     (let k = first_index (\<lambda>r. row_id r = i) 0 rows
      in if k \<ge> 0 then P(i := map_option (\<lambda>(pid, _). (pid, word_of_int k)) (P i)) else P)"

lemma repair_place_other: "j \<noteq> i \<Longrightarrow> repair_place rows i P j = P j"
  by (simp add: repair_place_def Let_def)

lemma repair_place_again: "repair_place rows i P i = Some (pid, s) \<Longrightarrow> repair_place rows i (repair_place rows i P) i = Some (pid, s)"
  by (auto simp: repair_place_def Let_def option.map_comp comp_def split: if_splits)

lemma fold_repair_place_other: "j \<notin> set rids \<Longrightarrow> fold (repair_place rows) rids P j = P j"
  by (induction rids arbitrary: P) (simp_all add: repair_place_other)

lemma fold_repair_place:
  "distinct rids \<Longrightarrow> j \<in> set rids \<Longrightarrow> fold (repair_place rows) rids P j = repair_place rows j P j"
proof (induction rids arbitrary: P)
  case (Cons i rids)
  show ?case
  proof (cases "j = i")
    case True
    then show ?thesis using Cons.prems fold_repair_place_other [of i rids rows "repair_place rows i P"] by simp
  next
    case False
    then have "fold (repair_place rows) (i # rids) P j = repair_place rows j (repair_place rows i P) j" using Cons by simp
    moreover have "repair_place rows j (repair_place rows i P) j = repair_place rows j P j"
      using repair_place_other [OF False, of rows P] by (simp add: repair_place_def [of rows j] Let_def)
    ultimately show ?thesis by simp
  qed
qed simp

lemma repair_place_found:
  assumes "k < length rows" and "row_id (rows ! k) = i" and "P i = Some (pid, s)"
  shows "\<exists>k' < length rows. row_id (rows ! k') = i \<and> repair_place rows i P i = Some (pid, word_of_nat k')"
proof -
  obtain k' where "k' < length rows" "first_index (\<lambda>r. row_id r = i) 0 rows = int k'" "row_id (rows ! k') = i"
    using first_index_cases [of "\<lambda>r. row_id r = i" 0 rows] assms(1,2) by (auto dest: nth_mem)
  then show ?thesis using assms(3) by (auto simp: repair_place_def)
qed

lemma erased_repaired:
  assumes "placed R P" and "P i = Some (pid, slot)" and "distinct rids" and "set rids = {j. j \<noteq> i \<and> (\<exists>s. P j = Some (pid, s))}"
  defines "R' \<equiv> R(pid := remove_nth (unat slot) (R pid))"
  shows "repaired R' i pid P (fold (repair_place (R' pid)) rids (P(i := None)))"
  unfolding repaired_def
proof (intro conjI allI impI)
  let ?P' = "fold (repair_place (R' pid)) rids (P(i := None))"
  show "?P' i = None" using fold_repair_place_other [of i rids] assms(4) by simp
  fix j assume ne: "j \<noteq> i"
  show "case P j of None \<Rightarrow> ?P' j = None
      | Some (q, s) \<Rightarrow> if q \<noteq> pid then ?P' j = Some (q, s)
          else \<exists>k < length (R' pid). row_id (R' pid ! k) = j \<and> ?P' j = Some (pid, word_of_nat k)"
  proof (cases "\<exists>s. P j = Some (pid, s)")
    case False
    then have "?P' j = P j" using fold_repair_place_other [of j rids] assms(4) ne by simp
    then show ?thesis using False by (auto split: option.split)
  next
    case True
    then obtain s where s: "P j = Some (pid, s)" by blast
    have old: "unat s < length (R pid)" "row_id (R pid ! unat s) = j" using placedD [OF assms(1) s] by auto
    have slot: "unat slot < length (R pid)" "row_id (R pid ! unat slot) = i" using placedD [OF assms(1,2)] by auto
    have "unat s \<noteq> unat slot" using old slot ne by auto
    then obtain k where k: "k < length (R' pid)" "R' pid ! k = R pid ! unat s"
      using remove_nth_other [OF slot(1) old(1)] unfolding R'_def by auto
    have "?P' j = repair_place (R' pid) j (P(i := None)) j" using s ne by (intro fold_repair_place [OF assms(3)]) (simp add: assms(4))
    moreover have "\<exists>k' < length (R' pid). row_id (R' pid ! k') = j \<and> repair_place (R' pid) j (P(i := None)) j = Some (pid, word_of_nat k')"
      by (rule repair_place_found [OF k(1)]) (use k(2) old(2) s ne in simp_all)
    ultimately show ?thesis using s by simp
  qed
qed

end
