(* ===== verification/Db_Frames.thy ===== *)
theory Db_Frames
  imports Db
begin

text \<open>
  What the operations of the database leave alone. \<open>keeps v m\<close> says that the program \<open>m\<close> does not change the view \<open>v\<close> of
  its state, whether it returns or throws. Only a checkpoint and \<open>close\<close> make pages durable: every other operation keeps the contents
  of the database file that survive a crash, and operations that only read keep the log as well.
\<close>

section \<open>Programs that keep a view of their state\<close>

named_theorems keep_rules

definition keeps :: "('s \<Rightarrow> 'v) \<Rightarrow> ('s, 'a) prog \<Rightarrow> bool" where
  "keeps v m \<longleftrightarrow> (\<forall>s. v (snd (m s)) = v s)"

lemma keepsI: "(\<And>s. v (snd (m s)) = v s) \<Longrightarrow> keeps v m"
  by (simp add: keeps_def)

lemma keepsD: "keeps v m \<Longrightarrow> v (snd (m s)) = v s"
  by (simp add: keeps_def)

lemma keeps_result: "keeps v m \<Longrightarrow> m s = (r, s') \<Longrightarrow> v s' = v s"
  using keepsD [of v m s] by simp

lemma keeps_bind [keep_rules]: "keeps v m \<Longrightarrow> (\<And>x. keeps v (f x)) \<Longrightarrow> keeps v (bindS m f)"
  unfolding keeps_def bindS_def by (auto split: prod.split sum.split) (metis snd_conv)+

lemma keeps_catch [keep_rules]: "keeps v m \<Longrightarrow> keeps v h \<Longrightarrow> keeps v (catchS caught m h)"
  unfolding keeps_def catchS_def by (auto split: prod.split sum.split) (metis snd_conv)+

lemma keeps_if [keep_rules]: "(b \<Longrightarrow> keeps v m) \<Longrightarrow> (\<not> b \<Longrightarrow> keeps v m') \<Longrightarrow> keeps v (if b then m else m')"
  by simp

lemma keeps_option [keep_rules]: "keeps v m \<Longrightarrow> (\<And>y. keeps v (f y)) \<Longrightarrow> keeps v (case x of None \<Rightarrow> m | Some y \<Rightarrow> f y)"
  by (simp split: option.split)

lemma keeps_pair [keep_rules]: "(\<And>a b. keeps v (f a b)) \<Longrightarrow> keeps v (case p of (a, b) \<Rightarrow> f a b)"
  by (simp split: prod.split)

lemma keeps_atomic [keep_rules]: "keeps v (returnS x)" "keeps v (throwS e)" "keeps v (liftR r)" "keeps v (getS g)" "keeps v (Pair r)"
  by (simp_all add: keeps_def)

lemma keeps_unchanged: "(\<And>s. snd (m s) = s) \<Longrightarrow> keeps v m"
  by (simp add: keeps_def)

lemma keeps_zoom:
  assumes "keeps v m" and "\<And>t s. u (put t s) = v t" and "\<And>s. u s = v (member s)" shows "keeps u (zoomS member put m)"
  unfolding keeps_def zoomS_def using keepsD [OF assms(1)] assms(2,3) by (simp add: case_prod_unfold)

lemma keeps_zoom_other: "(\<And>t s. u (put t s) = u s) \<Longrightarrow> keeps u (zoomS member put m)"
  by (simp add: keeps_def zoomS_def case_prod_unfold)

section \<open>The durable contents of the database file\<close>

definition core_durable :: "PagerCore \<Rightarrow> bytes" where
  "core_durable c = se_durable (pg_storage c)"

definition pager_durable :: "Pager \<Rightarrow> bytes" where
  "pager_durable ps = core_durable (snd ps)"

definition db_durable :: "DB \<Rightarrow> bytes" where
  "db_durable db = pager_durable (db_pager db)"

lemma keeps_storage [keep_rules]:
  "keeps se_durable (safe_pwrite buf off)" "keeps se_durable (safe_pread n off)" "keeps se_durable file_size"
  "keeps se_durable data_start_offset" "keeps se_durable read_db_header" "keeps se_durable (read_page_raw off)"
  "keeps se_durable (overwrite_page_raw off hdr blob)"
  by (simp_all add: keeps_def safe_pwrite_def safe_pread_def file_size_def overwrite_page_raw_def split: sum.split)

lemma keeps_write_schema [keep_rules]: "keeps se_durable (write_schema schema)"
  unfolding write_schema_def Let_def by (intro keep_rules)

lemma keeps_members [keep_rules]:
  "keeps se_durable s \<Longrightarrow> keeps core_durable (on_storage s)" "keeps core_durable (on_index i)"
  "keeps core_durable c \<Longrightarrow> keeps pager_durable (on_core c)"
  "keeps pager_durable p \<Longrightarrow> keeps db_durable (on_pager p)" "keeps db_durable (on_wal w)" "keeps db_wal (on_pager p)"
proof -
  show "keeps se_durable s \<Longrightarrow> keeps core_durable (on_storage s)"
    unfolding on_storage_def by (rule keeps_zoom) (simp_all add: core_durable_def)
  show "keeps core_durable (on_index i)" unfolding on_index_def by (rule keeps_zoom_other) (simp add: core_durable_def)
  show "keeps core_durable c \<Longrightarrow> keeps pager_durable (on_core c)"
    unfolding on_core_def by (rule keeps_zoom) (simp_all add: pager_durable_def)
  assume p: "keeps pager_durable p"
  have "keeps db_durable (zoomS db_pager (\<lambda>p db. db\<lparr>db_pager := p\<rparr>) p)" by (rule keeps_zoom [OF p]) (simp_all add: db_durable_def)
  then show "keeps db_durable (on_pager p)" by (simp add: on_pager_def keeps_def)
next
  have "keeps db_durable (zoomS db_wal (\<lambda>w db. db\<lparr>db_wal := w\<rparr>) w)" by (rule keeps_zoom_other) (simp add: db_durable_def)
  then show "keeps db_durable (on_wal w)" by (simp add: on_wal_def keeps_def)
  have "keeps (db_wal :: DB \<Rightarrow> WAL) (zoomS db_pager (\<lambda>p db. db\<lparr>db_pager := p\<rparr>) p)" by (rule keeps_zoom_other) simp
  then show "keeps db_wal (on_pager p)" by (simp add: on_pager_def keeps_def)
qed

lemma keeps_write_page_to_disk [keep_rules]: "keeps core_durable (write_page_to_disk p)"
  unfolding write_page_to_disk_def Let_def by (intro keep_rules) (simp add: keeps_def core_durable_def)

lemma keeps_load_from_disk [keep_rules]: "keeps core_durable (load_from_disk pid)"
proof (rule keepsI)
  fix c
  have "keeps core_durable (bindS (on_storage (read_page_raw offset)) (\<lambda>(hdr, blob).
      bindS (liftR (decompress (compression_of_code (ph_compression_type hdr)) blob (unat (ph_uncompressed_size hdr)))) (\<lambda>d.
        liftR (rebuild_row_offsets ((Page_of_id pid)\<lparr>p_data := d, p_row_count := ph_row_count hdr, p_dirty := False\<rparr>)))))" for offset
    by (intro keep_rules)
  then show "core_durable (snd (load_from_disk pid c)) = core_durable c"
    by (simp add: load_from_disk_def keeps_def split: option.split)
qed

section \<open>The pool\<close>

text \<open>An operation of the pool keeps what its eviction callback keeps.\<close>

lemma keeps_run_evict: "(\<And>q. keeps v (f q)) \<Longrightarrow> keeps (\<lambda>cs. v (snd cs)) (run_evict (Some f) p)"
  unfolding keeps_def run_evict_def by (auto split: prod.split sum.split) (metis snd_conv)+

lemma keeps_put_shared:
  fixes f :: "Page \<Rightarrow> ('s, Page) prog"
  assumes "\<And>q. keeps v (f q)" shows "keeps (\<lambda>cs. v (snd cs)) (put_shared (Some f) p)"
proof -
  note run = keeps_run_evict [OF assms]
  have evict: "keeps (\<lambda>cs. v (snd cs)) (evict_lru (Some f))"
  proof (rule keepsI)
    fix cs :: "PageCache \<times> 's"
    let ?victim = "last (pc_lru (fst cs))"
    have "keeps (\<lambda>cs. v (snd cs)) (bindS (run_evict (Some f) ?victim) (\<lambda>_.
        modifyS (\<lambda>(c, s). (c\<lparr>pc_keys := removeAll (p_id (last (pc_lru c))) (pc_keys c), pc_lru := butlast (pc_lru c)\<rparr>, s))))"
      by (intro keep_rules run) (simp add: keeps_def split: prod.split)
    from keepsD [OF this, of cs] show "v (snd (snd (evict_lru (Some f) cs))) = v (snd cs)" by (simp add: evict_lru_def Let_def)
  qed
  then have "keeps (\<lambda>cs. v (snd cs)) (make_room (Some f))" by (simp add: make_room_def keeps_def)
  then have "keeps (\<lambda>cs. v (snd cs)) (bindS (make_room (Some f)) (\<lambda>_. bindS (modifyS (\<lambda>(c, s). (push_front p c, s))) (\<lambda>_. returnS p)))"
    by (intro keep_rules) (simp_all add: keeps_def split: prod.split)
  then show ?thesis by (simp add: put_shared_def keeps_def split: option.split)
qed

lemma keeps_pool [keep_rules]: "keeps pager_durable (put_shared (Some on_cache_evict) p)"
proof -
  have "keeps core_durable (on_cache_evict q)" for q unfolding on_cache_evict_def by (intro keep_rules)
  from keeps_put_shared [OF this] show ?thesis by (simp add: pager_durable_def [abs_def])
qed

lemma keeps_fetch:
  assumes "\<And>ps. m ps = (case g pid (fst ps) of (Some p, c) \<Rightarrow> (Inr p, (c, snd ps))
      | (None, c) \<Rightarrow> bindS (on_core (load_from_disk pid)) (put_shared (Some on_cache_evict)) (c, snd ps))"
  shows "keeps pager_durable m"
proof -
  have "keeps pager_durable (bindS (on_core (load_from_disk pid)) (put_shared (Some on_cache_evict)))" by (intro keep_rules)
  then show ?thesis by (auto simp: assms keeps_def pager_durable_def split: prod.split option.split)
qed

lemma keeps_pages [keep_rules]:
  "keeps pager_durable (get_page pid)" "keeps pager_durable (get_mutable_page pid)" "keeps pager_durable new_page"
  "keeps pager_durable (write_page p)"
proof -
  show "keeps pager_durable (get_page pid)" by (rule keeps_fetch) (simp add: get_page_def)
  show "keeps pager_durable (get_mutable_page pid)" by (rule keeps_fetch) (simp add: get_mutable_page_def)
  show "keeps pager_durable new_page"
    unfolding new_page_def by (intro keep_rules) (simp add: keeps_def core_durable_def)
  show "keeps pager_durable (write_page p)" by (auto simp: write_page_def keeps_def pager_durable_def split: prod.split)
qed

section \<open>Operations of the database\<close>

lemma keeps_indexes [keep_rules]:
  "keeps db_durable (modifyS (db_indexes_update f))" "keeps (db_wal :: DB \<Rightarrow> WAL) (modifyS (db_indexes_update f))"
  by (simp_all add: keeps_def db_durable_def)

lemma keeps_modify_indexes [keep_rules]:
  "keeps db_durable (modifyS (\<lambda>db. db\<lparr>db_indexes := g db\<rparr>))" "keeps (db_wal :: DB \<Rightarrow> WAL) (modifyS (\<lambda>db. db\<lparr>db_indexes := g db\<rparr>))"
  by (simp_all add: keeps_def db_durable_def)

lemma keeps_require_open [keep_rules]: "keeps v require_open"
  unfolding require_open_def by (intro keep_rules)

lemma keeps_writable_page [keep_rules]: "keeps db_durable (get_or_create_writable_page r)"
  unfolding get_or_create_writable_page_def by (intro keep_rules)

lemma keeps_index_each [keep_rules]: "keeps db_durable (index_each f schema vs rid visited ixs)"
  by (induction f schema vs rid visited ixs rule: index_each.induct) (auto simp: Let_def intro!: keep_rules)

lemma keeps_index_row [keep_rules]: "keeps db_durable (index_row vs rid)" "keeps db_durable (unindex_row vs rid)"
  using keepsD [OF keeps_index_each] by (simp_all add: keeps_def index_row_def unindex_row_def)

lemma keeps_insert [keep_rules]: "keeps db_durable (insert_unlocked r sync)" "keeps db_durable (insert_each rs)"
proof -
  show i: "keeps db_durable (insert_unlocked r sync)" for r sync
    unfolding insert_unlocked_def Let_def by (intro keep_rules)
  show "keeps db_durable (insert_each rs)" by (induction rs) (auto intro!: keep_rules i)
qed

lemma keeps_repair [keep_rules]: "keeps db_durable (repair_slots page rids)"
  by (induction page rids rule: repair_slots.induct) (auto intro!: keep_rules)

lemma keeps_erase [keep_rules]:
  "keeps db_durable (erase_unlocked i)" "keeps db_durable (erase_each rids k)" "keeps db_durable (update_each rs)"
proof -
  show e: "keeps db_durable (erase_unlocked i)" for i
    unfolding erase_unlocked_def repair_slots_after_erase_def Let_def by (intro keep_rules)
  show "keeps db_durable (erase_each rids k)" by (induction rids arbitrary: k) (auto intro!: keep_rules e)
  show "keeps db_durable (update_each rs)" by (induction rs) (auto intro!: keep_rules e)
qed

lemma keeps_validation [keep_rules]:
  "keeps db_durable (validate_inserts rs seen)" "keeps db_durable (validate_updates rs seen)" "keeps db_durable (validate_erases rids seen)"
proof -
  show "keeps db_durable (validate_inserts rs seen)" by (induction rs arbitrary: seen) (auto intro!: keep_rules)
  show "keeps db_durable (validate_updates rs seen)" by (induction rs arbitrary: seen) (auto intro!: keep_rules)
  show "keeps db_durable (validate_erases rids seen)" by (induction rids arbitrary: seen) (auto intro!: keep_rules)
qed

lemma keeps_writers [keep_rules]:
  "keeps db_durable (db_insert r)" "keeps db_durable (insert_batch rs)" "keeps db_durable (db_erase i)" "keeps db_durable (erase_batch rids)"
  "keeps db_durable (db_update r)" "keeps db_durable (update_batch rs)"
  unfolding db_insert_def insert_batch_def db_erase_def erase_batch_def db_update_def update_batch_def by (intro keep_rules)+


text \<open>Operations that only read keep both files.\<close>

lemma keeps_reading [keep_rules]:
  "keeps db_durable (get_unlocked i)" "keeps (db_wal :: DB \<Rightarrow> WAL) (get_unlocked i)"
  "keeps db_durable (scan_pages vis flt pids acc)" "keeps (db_wal :: DB \<Rightarrow> WAL) (scan_pages vis flt pids acc)"
  "keeps db_durable (build_pages fi pids tree)" "keeps (db_wal :: DB \<Rightarrow> WAL) (build_pages fi pids tree)"
  "keeps db_durable (fill_pages by_page results)" "keeps (db_wal :: DB \<Rightarrow> WAL) (fill_pages by_page results)"
proof -
  show "keeps db_durable (get_unlocked i)" "keeps (db_wal :: DB \<Rightarrow> WAL) (get_unlocked i)"
    unfolding get_unlocked_def by (intro keep_rules)+
  show "keeps db_durable (scan_pages vis flt pids acc)" "keeps (db_wal :: DB \<Rightarrow> WAL) (scan_pages vis flt pids acc)"
    by (induction pids arbitrary: acc) (auto intro!: keep_rules)
  show "keeps db_durable (build_pages fi pids tree)" "keeps (db_wal :: DB \<Rightarrow> WAL) (build_pages fi pids tree)"
    by (induction pids arbitrary: tree) (auto intro!: keep_rules)
  show "keeps db_durable (fill_pages by_page results)" "keeps (db_wal :: DB \<Rightarrow> WAL) (fill_pages by_page results)"
    by (induction by_page arbitrary: results) (auto intro!: keep_rules)
qed

lemma keeps_readers [keep_rules]:
  "keeps db_durable (db_get i)" "keeps (db_wal :: DB \<Rightarrow> WAL) (db_get i)" "keeps db_durable (try_get i)" "keeps (db_wal :: DB \<Rightarrow> WAL) (try_get i)"
  "keeps db_durable (scan_unlocked vis flt acc)" "keeps (db_wal :: DB \<Rightarrow> WAL) (scan_unlocked vis flt acc)"
  "keeps db_durable (create_index name)" "keeps (db_wal :: DB \<Rightarrow> WAL) (create_index name)"
  "keeps db_durable (drop_index name)" "keeps (db_wal :: DB \<Rightarrow> WAL) (drop_index name)"
  unfolding db_get_def try_get_def scan_unlocked_def create_index_def drop_index_def by (intro keep_rules)+

lemma keeps_queries [keep_rules]:
  "keeps db_durable (scan_all flt)" "keeps (db_wal :: DB \<Rightarrow> WAL) (scan_all flt)"
  "keeps db_durable (index_range_scan name lo lo_inc hi hi_inc)" "keeps (db_wal :: DB \<Rightarrow> WAL) (index_range_scan name lo lo_inc hi hi_inc)"
  unfolding scan_all_def scan_def index_range_scan_def Let_def by (intro keep_rules)+

section \<open>Opening\<close>

lemma keeps_recover_rows [keep_rules]: "keeps core_durable (recover_rows schema page off slots)"
  by (induction slots) (auto intro!: keep_rules)

lemma keeps_recover_page [keep_rules]: "keeps core_durable (recover_page schema off pid)"
  unfolding recover_page_def by (intro keep_rules) (simp add: keeps_def core_durable_def)

lemma keeps_recover [keep_rules]: "keeps pager_durable (recover schema)"
proof -
  have "keeps core_durable (recover_pages schema d sz ns)" for d sz ns by (induction ns) (auto simp: Let_def intro!: keep_rules)
  then show ?thesis unfolding recover_def by (intro keep_rules)
qed

text \<open>Replaying the log changes neither file.\<close>

lemma keeps_wal_writing [keep_rules]:
  "keeps (db_wal :: DB \<Rightarrow> WAL) (get_or_create_writable_page r)" "keeps (db_wal :: DB \<Rightarrow> WAL) (index_row vs rid)"
  "keeps (db_wal :: DB \<Rightarrow> WAL) (repair_slots_after_erase pid)" "keeps db_durable (repair_slots_after_erase pid)"
proof -
  show "keeps (db_wal :: DB \<Rightarrow> WAL) (get_or_create_writable_page r)" unfolding get_or_create_writable_page_def by (intro keep_rules)
  have "keeps (db_wal :: DB \<Rightarrow> WAL) (index_each f schema vs rid visited ixs)" for f schema visited ixs
    by (induction f schema vs rid visited ixs rule: index_each.induct) (auto simp: Let_def intro!: keep_rules)
  from keepsD [OF this] show "keeps (db_wal :: DB \<Rightarrow> WAL) (index_row vs rid)" by (simp add: keeps_def index_row_def)
  have "keeps (db_wal :: DB \<Rightarrow> WAL) (repair_slots page rids)" for page rids
    by (induction page rids rule: repair_slots.induct) (auto intro!: keep_rules)
  then show "keeps (db_wal :: DB \<Rightarrow> WAL) (repair_slots_after_erase pid)" unfolding repair_slots_after_erase_def by (intro keep_rules)
  show "keeps db_durable (repair_slots_after_erase pid)" unfolding repair_slots_after_erase_def by (intro keep_rules)
qed

lemma keeps_replay [keep_rules]: "keeps db_durable (replay_records rs)" "keeps (db_wal :: DB \<Rightarrow> WAL) (replay_records rs)"
proof -
  have "keeps db_durable (replay_record r)" "keeps (db_wal :: DB \<Rightarrow> WAL) (replay_record r)" for r
    unfolding replay_record_def replay_insert_def replay_delete_def Let_def by (intro keep_rules)+
  then show "keeps db_durable (replay_records rs)" "keeps (db_wal :: DB \<Rightarrow> WAL) (replay_records rs)"
    by (induction rs) (auto intro!: keep_rules)
qed

end
