(* ===== verification/Db_Steps.thy ===== *)
theory Db_Steps
  imports Db_Layout Db_Frames
begin

text \<open>
  The steps the operations of the database are made of. \<open>db_rel b schema ct n db m\<close> says that the open
  database \<open>db\<close> of \<open>n\<close> pages holds the rows of the map \<open>m\<close>: its pages hold them where the primary index says,
  its secondary indexes index exactly them, and its log is open. Inserting, erasing and looking up a
  row, synchronising the log and a checkpoint take related states to related states.
\<close>

section \<open>The relation\<close>

definition log_ok :: "WAL \<Rightarrow> bool" where
  "log_ok w \<longleftrightarrow> (\<exists>base rs k j. wal_holds base w rs k j)"

definition db_state :: "bool \<Rightarrow> Schema \<Rightarrow> CompressionType \<Rightarrow> layout \<Rightarrow> u32 \<Rightarrow> DB \<Rightarrow> bool" where
  "db_state b schema ct R n db \<longleftrightarrow> db_is_open db = b \<and> db_ready db \<and> db_schema db = schema \<and> db_compression db = ct
     \<and> store_rel schema ct R (db_index db) n (db_pager db) \<and> log_ok (db_wal db)"

text \<open>The key of a row in the index on a field.\<close>

definition row_key :: "Schema \<Rightarrow> string \<Rightarrow> Row \<Rightarrow> bytes" where
  "row_key schema name r =
     (let fi = nat (field_index schema name)
      in case bptree_key_encode_vec (row_fields r ! fi) (fd_type (s_fields schema ! fi)) of Inr k \<Rightarrow> k | Inl _ \<Rightarrow> [])"

abbreviation keys_of :: "Schema \<Rightarrow> string \<Rightarrow> (u32 \<rightharpoonup> Row) \<Rightarrow> u32 \<rightharpoonup> bytes" where
  "keys_of schema name m \<equiv> \<lambda>i. map_option (row_key schema name) (m i)"

definition indexed :: "Schema \<Rightarrow> (u32 \<rightharpoonup> Row) \<Rightarrow> (string \<times> BPTree) list \<Rightarrow> bool" where
  "indexed schema m ixs \<longleftrightarrow> (\<forall>(name, t) \<in> set ixs. 0 \<le> field_index schema name \<and> bt.indexes t (keys_of schema name m))"

definition db_rel :: "bool \<Rightarrow> Schema \<Rightarrow> CompressionType \<Rightarrow> u32 \<Rightarrow> DB \<Rightarrow> (u32 \<rightharpoonup> Row) \<Rightarrow> bool" where
  "db_rel b schema ct n db m \<longleftrightarrow> (\<exists>R. db_state b schema ct R n db \<and> placed R (places (db_index db))
     \<and> m = table R (places (db_index db))) \<and> indexed schema m (db_indexes db)"

lemma db_stateD:
  assumes "db_state b schema ct R n db"
  shows "db_is_open db = b" and "db_ready db" and "db_schema db = schema" and "db_compression db = ct"
    and "store_rel schema ct R (db_index db) n (db_pager db)" and "log_ok (db_wal db)" and "im_inv (db_index db)"
    and "page_count (db_pager db) = n"
  using assms store_relD(2,6) [of schema ct R "db_index db" n "db_pager db"] by (auto simp: db_state_def)

lemma db_relE:
  assumes "db_rel b schema ct n db m"
  obtains R where "db_state b schema ct R n db" "placed R (places (db_index db))" "m = table R (places (db_index db))"
    "indexed schema m (db_indexes db)"
  using assms by (auto simp: db_rel_def)

lemma require_open_apply:
  "db_is_open db \<Longrightarrow> require_open db = (Inr (), db)"
  "\<not> db_is_open db \<Longrightarrow> require_open db = (Inl XDLError, db)"
  by (simp_all add: require_open_def bindS_def)

lemma on_pager_apply: "db_ready db \<Longrightarrow> m (db_pager db) = (r, ps) \<Longrightarrow> on_pager m db = (r, db\<lparr>db_pager := ps\<rparr>)"
  by (simp add: on_pager_def zoomS_def)

lemma on_pager_get [simp]: "db_ready db \<Longrightarrow> on_pager (getS f) db = (Inr (f (db_pager db)), db)"
  by (simp add: on_pager_def zoomS_def)

lemma on_wal_apply: "db_ready db \<Longrightarrow> m (db_wal db) = (r, w) \<Longrightarrow> on_wal m db = (r, db\<lparr>db_wal := w\<rparr>)"
  by (simp add: on_wal_def zoomS_def)

definition set_index :: "IndexManager \<Rightarrow> DB \<Rightarrow> DB" where
  "set_index idx db = db\<lparr>db_pager := (fst (db_pager db), (snd (db_pager db))\<lparr>pg_index := idx\<rparr>)\<rparr>"

lemma set_index_frame [simp]:
  "db_index (set_index idx db) = idx" "db_schema (set_index idx db) = db_schema db" "db_indexes (set_index idx db) = db_indexes db"
  "db_ready (set_index idx db) = db_ready db" "db_wal (set_index idx db) = db_wal db" "db_is_open (set_index idx db) = db_is_open db"
  "db_compression (set_index idx db) = db_compression db" "fst (db_pager (set_index idx db)) = fst (db_pager db)"
  by (simp_all add: set_index_def)

lemma on_primary_apply: "db_ready db \<Longrightarrow> m (db_index db) = (r, idx) \<Longrightarrow> on_primary m db = (r, set_index idx db)"
  by (simp add: on_pager_def zoomS_def on_core_def on_index_def set_index_def)

lemma on_primary_get [simp]: "db_ready db \<Longrightarrow> on_primary (getS f) db = (Inr (f (db_index db)), db)"
  by (simp add: on_pager_def zoomS_def on_core_def on_index_def)

lemma db_state_index:
  "db_state b schema ct R n db \<Longrightarrow> im_inv idx \<Longrightarrow> db_state b schema ct R n (set_index idx db)"
  using store_set_index [of schema ct R "db_index db" n "db_pager db" idx] by (simp add: db_state_def) (simp add: set_index_def)

lemma db_state_pager:
  "db_state b schema ct R n db \<Longrightarrow> store_rel schema ct R' (db_index db) n' ps \<Longrightarrow> db_state b schema ct R' n' (db\<lparr>db_pager := ps\<rparr>)"
  using store_relD(5) [of schema ct R' "db_index db" n' ps] by (simp add: db_state_def)

lemma db_state_wal: "db_state b schema ct R n db \<Longrightarrow> log_ok w \<Longrightarrow> db_state b schema ct R n (db\<lparr>db_wal := w\<rparr>)"
  by (simp add: db_state_def)

lemma db_state_indexes [simp]: "db_state b schema ct R n (db\<lparr>db_indexes := ixs\<rparr>) = db_state b schema ct R n db"
  by (simp add: db_state_def)

section \<open>The log\<close>

text \<open>What the database logs.\<close>

datatype log_entry = Inserted Row u32 u32 | Deleted u32 u32 u32 | Marker WALType

fun log_record :: "log_entry \<Rightarrow> WALRecord" where
  "log_record (Inserted r pid slot) = make_record INSERT (row_bytes r) (row_id r) pid slot"
| "log_record (Deleted i pid slot) = make_record DELETE [] i pid slot"
| "log_record (Marker t) = make_record t [] 0 0 0"

text \<open>Between two states of the log exactly the given entries were logged; everything logged is in the file and survives a crash.\<close>

definition logs :: "log_entry list \<Rightarrow> WAL \<Rightarrow> WAL \<Rightarrow> bool" where
  "logs es w w' \<longleftrightarrow> (\<forall>base rs k j. wal_holds base w rs k j \<longrightarrow> (\<exists>k' j'. j \<le> j' \<and> wal_holds base w' (rs @ map log_record es) k' j'))"

definition synced :: "WAL \<Rightarrow> bool" where
  "synced w \<longleftrightarrow> wal_buf w = [] \<and> wal_file w = Some (wal_durable w)"

lemma logsE:
  assumes "logs es w w'" and "wal_holds base w rs k j"
  obtains k' j' where "j \<le> j'" "wal_holds base w' (rs @ map log_record es) k' j'"
  using assms unfolding logs_def by blast

lemma logs_Nil [simp]: "logs [] w w"
  by (auto simp: logs_def)

lemma logs_trans: "logs es w w1 \<Longrightarrow> logs es' w1 w2 \<Longrightarrow> logs (es @ es') w w2"
  unfolding logs_def by (metis append.assoc map_append order_trans)

lemma synced_holds: "wal_holds base w rs (length rs) (length rs) \<Longrightarrow> synced w"
  by (simp add: synced_def wal_holds_def)

lemma log_sync_ok:
  assumes "log_ok w" obtains w' where "wal_sync w = (Inr (), w')" "log_ok w'" "logs [] w w'" "synced w'"
proof -
  obtain base rs k j where h: "wal_holds base w rs k j" using assms by (auto simp: log_ok_def)
  obtain w' where w': "wal_sync w = (Inr (), w')" "wal_holds base w' rs (length rs) (length rs)" by (rule wal_sync_holds [OF h])
  have "logs [] w w'" unfolding logs_def
  proof (intro allI impI)
    fix base rs k j assume h: "wal_holds base w rs k j"
    obtain w'' where "wal_sync w = (Inr (), w'')" "wal_holds base w'' rs (length rs) (length rs)" by (rule wal_sync_holds [OF h])
    moreover have "j \<le> length rs" using h by (simp add: wal_holds_def)
    ultimately show "\<exists>k' j'. j \<le> j' \<and> wal_holds base w' (rs @ map log_record []) k' j'" using w'(1) by auto
  qed
  then show thesis using that w' synced_holds by (auto simp: log_ok_def)
qed

text \<open>One record is logged, and synchronised if asked for.\<close>

lemma log_write_ok:
  assumes "log_ok w" and "wf_record (log_record entry)" and "log_record entry = make_record t payload rid pid slot"
    and "\<And>w. log w = bindS (write_record t payload rid pid slot) (\<lambda>off. bindS (if sync then wal_sync else returnS ()) (\<lambda>_. returnS off)) w"
  obtains off w' where "log w = (Inr off, w')" "log_ok w'" "logs [entry] w w'" "sync \<Longrightarrow> synced w'"
proof -
  have wf: "wf_record (make_record t payload rid pid slot)" using assms(2,3) by simp
  have run: "\<exists>off w' k' j'. log w = (Inr off, w') \<and> wal_holds base w' (rs @ [log_record entry]) k' j' \<and> j \<le> j' \<and> (sync \<longrightarrow> j' = length rs + 1)"
    if h: "wal_holds base w rs k j" for base rs k j
    by (rule logging_holds [OF h wf, of sync]) (use assms(3,4) in auto)
  obtain base rs k j where h: "wal_holds base w rs k j" using assms(1) by (auto simp: log_ok_def)
  obtain off w' k' j' where w': "log w = (Inr off, w')" "wal_holds base w' (rs @ [log_record entry]) k' j'" "sync \<longrightarrow> j' = length rs + 1"
    using run [OF h] by blast
  have "logs [entry] w w'" unfolding logs_def using run w'(1) by fastforce
  moreover have "synced w'" if sync
  proof -
    have "j' = length (rs @ [log_record entry])" "k' = j'" using w'(2,3) that by (auto simp: wal_holds_def)
    then show ?thesis using w'(2) synced_holds by metis
  qed
  ultimately show thesis using that w'(1,2) by (auto simp: log_ok_def)
qed

lemma log_insert_ok:
  assumes "log_ok w" and "length (row_bytes r) < 2 ^ 31"
  obtains off w' where "log_insert_direct (row_id r) pid slot (row_bytes r) sync w = (Inr off, w')" "log_ok w'"
    "logs [Inserted r pid slot] w w'" "sync \<Longrightarrow> synced w'"
  by (rule log_write_ok [OF assms(1), of "Inserted r pid slot" INSERT "row_bytes r" "row_id r" pid slot
        "log_insert_direct (row_id r) pid slot (row_bytes r) sync" sync])
     (use assms(2) that in \<open>auto simp: wf_record_def make_record_def wal_type_of_byte_def log_insert_direct_def\<close>)

lemma log_delete_ok:
  assumes "log_ok w"
  obtains off w' where "log_delete rid pid slot sync w = (Inr off, w')" "log_ok w'" "logs [Deleted rid pid slot] w w'" "sync \<Longrightarrow> synced w'"
  by (rule log_write_ok [OF assms, of "Deleted rid pid slot" DELETE "[]" rid pid slot "log_delete rid pid slot sync" sync])
     (use that in \<open>auto simp: wf_record_def make_record_def wal_type_of_byte_def log_delete_def\<close>)

section \<open>Secondary indexes\<close>

lemma row_key_typed:
  assumes "row_typed schema r" and "0 \<le> field_index schema name"
  defines "fi \<equiv> nat (field_index schema name)"
  shows "fi < length (s_fields schema)" and "fi < length (row_fields r)"
    and "bptree_key_encode_vec (row_fields r ! fi) (fd_type (s_fields schema ! fi)) = Inr (row_key schema name r)"
proof -
  show fi: "fi < length (s_fields schema)" using field_index_nonneg [OF assms(2)] by (simp add: fi_def)
  then show "fi < length (row_fields r)" using row_typed_length [OF assms(1)] by simp
  have "value_has_type (fd_type (s_fields schema ! fi)) (row_fields r ! fi)"
    using assms(1) fi by (simp add: row_typed_def list_all2_conv_all_nth)
  then show "bptree_key_encode_vec (row_fields r ! fi) (fd_type (s_fields schema ! fi)) = Inr (row_key schema name r)"
    using encode_vec_typed by (fastforce simp: row_key_def fi_def Let_def)
qed

lemma index_each_ok:
  assumes "\<forall>(name, t) \<in> set rest. 0 \<le> field_index schema name
      \<and> f t (vs ! nat (field_index schema name)) (fd_type (s_fields schema ! nat (field_index schema name))) rid = Inr (g name t)"
    and "length vs = length (s_fields schema)" and "db_indexes db = visited @ rest"
  shows "index_each f schema vs rid visited rest db
    = (Inr (), db\<lparr>db_indexes := visited @ map (\<lambda>(name, t). (name, g name t)) rest\<rparr>)"
  using assms
proof (induction rest arbitrary: visited db)
  case Nil
  then show ?case by simp
next
  case (Cons nt rest)
  obtain name t where nt: "nt = (name, t)" by (cases nt)
  let ?db = "db\<lparr>db_indexes := visited @ (name, g name t) # rest\<rparr>"
  have fi: "0 \<le> field_index schema name" using Cons.prems(1) nt by simp
  have len: "nat (field_index schema name) < length (s_fields schema)" using field_index_nonneg [OF fi] by simp
  have "index_each f schema vs rid visited (nt # rest) db = index_each f schema vs rid (visited @ [(name, g name t)]) rest ?db"
    using Cons.prems(1,2) fi len nt by (simp add: Let_def bindS_def)
  also have "\<dots> = (Inr (), ?db\<lparr>db_indexes := (visited @ [(name, g name t)]) @ map (\<lambda>(name, t). (name, g name t)) rest\<rparr>)"
    using Cons.prems by (intro Cons.IH) simp_all
  finally show ?case using nt by simp
qed

lemma indexed_map:
  assumes "indexed schema m ixs" and "\<And>name t. bt.indexes t (keys_of schema name m) \<Longrightarrow> bt.indexes (g name t) (keys_of schema name m')"
  shows "indexed schema m' (map (\<lambda>(name, t). (name, g name t)) ixs)"
  using assms by (fastforce simp: indexed_def)

lemma keys_of_upd:
  "keys_of schema name (m(i \<mapsto> r)) = (keys_of schema name m)(i \<mapsto> row_key schema name r)"
  "keys_of schema name (m(i := None)) = (keys_of schema name m)(i := None)"
  by auto

lemma index_row_ok:
  assumes "db_schema db = schema" and "indexed schema m (db_indexes db)" and "row_typed schema r" and "m (row_id r) = None"
  obtains ixs where "index_row (row_fields r) (row_id r) db = (Inr (), db\<lparr>db_indexes := ixs\<rparr>)"
    "indexed schema (m(row_id r \<mapsto> r)) ixs" "map fst ixs = map fst (db_indexes db)"
proof -
  let ?g = "\<lambda>name. insert_encoded (row_key schema name r) (row_id r)"
  have each: "\<forall>(name, t) \<in> set (db_indexes db). 0 \<le> field_index schema name
      \<and> bptree_insert t (row_fields r ! nat (field_index schema name)) (fd_type (s_fields schema ! nat (field_index schema name))) (row_id r)
        = Inr (?g name t)"
    using assms(2) row_key_typed(3) [OF assms(3)] by (auto simp: indexed_def bptree_insert_def)
  have "index_row (row_fields r) (row_id r) db = (Inr (), db\<lparr>db_indexes := map (\<lambda>(name, t). (name, ?g name t)) (db_indexes db)\<rparr>)"
    unfolding index_row_def assms(1)
    using index_each_ok [where f = bptree_insert and g = ?g and vs = "row_fields r" and db = db and visited = "[]", OF each row_typed_length [OF assms(3)]] by simp
  moreover have "indexed schema (m(row_id r \<mapsto> r)) (map (\<lambda>(name, t). (name, ?g name t)) (db_indexes db))"
    by (rule indexed_map [OF assms(2)]) (unfold keys_of_upd, rule bt.indexes_ins, simp_all add: assms(4))
  ultimately show thesis using that by (simp add: comp_def case_prod_beta)
qed

lemma unindex_row_ok:
  assumes "db_schema db = schema" and "indexed schema m (db_indexes db)" and "row_typed schema r" and "m i = Some r"
  obtains ixs where "unindex_row (row_fields r) i db = (Inr (), db\<lparr>db_indexes := ixs\<rparr>)"
    "indexed schema (m(i := None)) ixs" "map fst ixs = map fst (db_indexes db)"
proof -
  let ?g = "\<lambda>name. erase_encoded (row_key schema name r) i"
  have each: "\<forall>(name, t) \<in> set (db_indexes db). 0 \<le> field_index schema name
      \<and> bptree_erase t (row_fields r ! nat (field_index schema name)) (fd_type (s_fields schema ! nat (field_index schema name))) i
        = Inr (?g name t)"
    using assms(2) row_key_typed(3) [OF assms(3)] by (auto simp: indexed_def bptree_erase_def)
  have "unindex_row (row_fields r) i db = (Inr (), db\<lparr>db_indexes := map (\<lambda>(name, t). (name, ?g name t)) (db_indexes db)\<rparr>)"
    unfolding unindex_row_def assms(1)
    using index_each_ok [where f = bptree_erase and g = ?g and vs = "row_fields r" and db = db and visited = "[]", OF each row_typed_length [OF assms(3)]] by simp
  moreover have "indexed schema (m(i := None)) (map (\<lambda>(name, t). (name, ?g name t)) (db_indexes db))"
    by (rule indexed_map [OF assms(2)]) (unfold keys_of_upd, rule bt.indexes_del, simp_all add: assms(4))
  ultimately show thesis using that by (simp add: comp_def case_prod_beta)
qed

section \<open>Insertion\<close>

lemma row_need:
  assumes "storable_row schema r"
  shows "serialised_row_size r schema = Inr (word_of_nat (row_size r))" and "unat (word_of_nat (row_size r) :: u32) = row_size r"
    and "\<not> word_of_nat (row_size r) > PAGE_SIZE" and "row_size r \<le> 8192" and "row_typed schema r"
proof -
  show t: "row_typed schema r" and le: "row_size r \<le> 8192" using assms by (simp_all add: storable_row_def)
  show "serialised_row_size r schema = Inr (word_of_nat (row_size r))" by (simp add: serialised_row_size_def row_byte_size_typed t)
  show u: "unat (word_of_nat (row_size r) :: u32) = row_size r" using le by (simp add: unat_of_nat)
  show "\<not> word_of_nat (row_size r) > PAGE_SIZE" using le u by (simp add: word_less_nat_alt)
qed

lemma below_pred: "0 < n \<Longrightarrow> n - 1 < n" for n :: u32
  using unat_minus_one [of n] by (cases "n = 0") (auto simp: word_less_nat_alt)

lemma writable_page_ok:
  assumes "db_state b schema ct R n db" and "fitting_row schema ct r" and "n \<noteq> -1"
  obtains page ps n' where "get_or_create_writable_page r db = (Inr page, db\<lparr>db_pager := ps\<rparr>)"
    "store_rel schema ct R (db_index db) n' ps" "n' \<in> {n, n + 1}" "p_id page < n'" "page_rel schema page (R (p_id page))"
    "lru_find (p_id page) (pc_lru (fst ps)) = Some page" "rows_fit schema ct (R (p_id page) @ [r])"
proof -
  note d = db_stateD [OF assms(1)]
  have st: "storable_row schema r" using assms(2) by (simp add: fitting_row_def)
  note need = row_need [OF st]
  note result = that
  define try_new where "try_new = on_pager new_page"
  have new: thesis if start: "get_or_create_writable_page r db = try_new (db\<lparr>db_pager := ps1\<rparr>)"
    and rel: "store_rel schema ct R (db_index db) n ps1" for ps1
  proof -
    obtain p ps' where p: "new_page ps1 = (Inr p, ps')" "p_id p = n" "page_rel schema p (R n)" "R n = []"
      "lru_find n (pc_lru (fst ps')) = Some p" "store_rel schema ct R (db_index db) (n + 1) ps'" "n < n + 1"
      by (rule store_new_page [OF rel assms(3)])
    have "get_or_create_writable_page r db = (Inr p, db\<lparr>db_pager := ps'\<rparr>)"
      using start on_pager_apply [of "db\<lparr>db_pager := ps1\<rparr>" new_page "Inr p" ps'] p(1) d(2) by (simp add: try_new_def)
    moreover have "rows_fit schema ct (R (p_id p) @ [r])" using p(2,4) need(4) assms(2) by (simp add: rows_fit_def)
    ultimately show thesis using result [of p ps' "n + 1"] p by simp
  qed
  show thesis
  proof (cases "n > 0")
    case False
    have "get_or_create_writable_page r db = try_new db"
      using False d need by (simp add: get_or_create_writable_page_def bindS_def try_new_def)
    then show thesis using new [of "db_pager db"] d(5) by simp
  next
    case True
    then have lt: "n - 1 < n" by (rule below_pred)
    obtain p ps' where p: "get_mutable_page (n - 1) (db_pager db) = (Inr p, ps')" "page_rel schema p (R (n - 1))" "p_id p = n - 1"
      "lru_find (n - 1) (pc_lru (fst ps')) = Some p" "store_rel schema ct R (db_index db) n ps'"
      by (rule store_fetch [OF d(5) lt, of get_mutable_page]) simp
    have got: "on_pager (get_mutable_page (n - 1)) db = (Inr p, db\<lparr>db_pager := ps'\<rparr>)" by (rule on_pager_apply) (use d(2) p(1) in simp_all)
    let ?room = "has_capacity p \<and> length (p_data p) + row_size r \<le> 8192"
    have step: "get_or_create_writable_page r db = (if ?room then (Inr p, db\<lparr>db_pager := ps'\<rparr>) else try_new (db\<lparr>db_pager := ps'\<rparr>))"
      using True d need got by (simp add: get_or_create_writable_page_def bindS_def try_new_def)
    show thesis
    proof (cases ?room)
      case False
      then have "get_or_create_writable_page r db = try_new (db\<lparr>db_pager := ps'\<rparr>)" using step by argo
      then show thesis by (rule new) (rule p(5))
    next
      case room: True
      have "rows_fit schema ct (R (n - 1) @ [r])"
        using room page_relD(1,3) [OF p(2)] store_relD(3) [OF d(5), of "n - 1"] assms(2)
        by (auto simp: rows_fit_def has_capacity_def word_less_nat_alt)
      then show thesis using result [of p ps' n] step room p lt by simp
    qed
  qed
qed

text \<open>The row is appended to a page with room for it.\<close>

lemma append_ok:
  assumes "db_state b schema ct R n db" and "fitting_row schema ct r" and "n \<noteq> -1"
  obtains page page' db1 db2 n' where "get_or_create_writable_page r db = (Inr page, db1)" "append_row page r schema = Inr page'"
    "p_id page' = p_id page" "p_row_count page = word_of_nat (length (R (p_id page)))" "page_rel schema page' (R (p_id page) @ [r])"
    "on_pager (write_page page') db1 = (Inr (), db2)" "db_state b schema ct (R(p_id page := R (p_id page) @ [r])) n' db2" "n' \<in> {n, n + 1}"
    "db_index db2 = db_index db" "db_indexes db2 = db_indexes db" "db_wal db2 = db_wal db"
proof -
  note d = db_stateD [OF assms(1)]
  have st: "storable_row schema r" using assms(2) by (simp add: fitting_row_def)
  obtain page ps n' where w: "get_or_create_writable_page r db = (Inr page, db\<lparr>db_pager := ps\<rparr>)"
    "store_rel schema ct R (db_index db) n' ps" "n' \<in> {n, n + 1}" "p_id page < n'" "page_rel schema page (R (p_id page))"
    "lru_find (p_id page) (pc_lru (fst ps)) = Some page" "rows_fit schema ct (R (p_id page) @ [r])"
    by (rule writable_page_ok [OF assms])
  let ?pid = "p_id page"
  have k: "p_row_count page = word_of_nat (length (R ?pid))" by (simp flip: page_relD(3) [OF w(5)])
  have "length (p_data page) + row_size r < 4294967296" using w(7) page_relD(1) [OF w(5)] by (simp add: rows_fit_def)
  then obtain page' where a: "append_row page r schema = Inr page'" "page_rel schema page' (R ?pid @ [r])" "p_id page' = ?pid" "p_dirty page'"
    using append_row_page_rel [OF w(5) st] by blast
  obtain ps2 where s: "write_page page' ps = (Inr (), ps2)" "store_rel schema ct (R(p_id page' := R ?pid @ [r])) (db_index db) n' ps2"
    by (rule store_write [OF w(2) _ _ a(2) w(7) a(4), of page]) (use w(4,6) a(3) in simp_all)
  let ?db1 = "db\<lparr>db_pager := ps\<rparr>" and ?db2 = "db\<lparr>db_pager := ps2\<rparr>"
  have wr: "on_pager (write_page page') ?db1 = (Inr (), ?db2)"
    using on_pager_apply [of ?db1 "write_page page'" "Inr ()" ps2] d(2) s(1) by simp
  have "db_state b schema ct (R(?pid := R ?pid @ [r])) n' ?db2" using db_state_pager [OF assms(1) s(2)] a(3) by simp
  then show thesis using that [OF w(1) a(1,3) k a(2) wr _ w(3)] store_relD(5) [OF s(2)] by simp
qed

text \<open>Both kinds of index learn where the row is.\<close>

lemma register_ok:
  assumes "db_state b schema ct (R(pid := R pid @ [r])) n db" and "placed R (places (db_index db))" and "m = table R (places (db_index db))"
    and "indexed schema m (db_indexes db)" and "row_typed schema r" and "m (row_id r) = None" and "length (R pid) < 2 ^ 32 - 1"
    and "ie_page_id e = pid" and "ie_row_slot e = word_of_nat (length (R pid))"
  obtains db1 db2 where "on_primary (im_insert (row_id r) e) db = (Inr (), db1)" "index_row (row_fields r) (row_id r) db1 = (Inr (), db2)"
    "db_rel b schema ct n db2 (m(row_id r \<mapsto> r))" "map fst (db_indexes db2) = map fst (db_indexes db)" "db_wal db2 = db_wal db"
proof -
  note d = db_stateD [OF assms(1)]
  have free: "places (db_index db) (row_id r) = None" using assms(3,6) table_None by metis
  obtain idx where ix: "im_insert (row_id r) e (db_index db) = (Inr (), idx)" "im_inv idx"
    "places idx = (places (db_index db))(row_id r \<mapsto> (pid, word_of_nat (length (R pid))))"
    by (rule im_insert_places [OF d(7) free, of e]) (use assms(8,9) in simp)
  let ?db1 = "set_index idx db"
  have s1: "db_state b schema ct (R(pid := R pid @ [r])) n ?db1" by (rule db_state_index [OF assms(1) ix(2)])
  have ins: "on_primary (im_insert (row_id r) e) db = (Inr (), ?db1)"
    by (rule on_primary_apply [where m = "im_insert (row_id r) e"]) (use d(2) ix(1) in simp_all)
  obtain ixs where sec: "index_row (row_fields r) (row_id r) ?db1 = (Inr (), ?db1\<lparr>db_indexes := ixs\<rparr>)"
    "indexed schema (m(row_id r \<mapsto> r)) ixs" "map fst ixs = map fst (db_indexes ?db1)"
    by (rule index_row_ok [where db = ?db1 and m = m and r = r and schema = schema]) (use d(3) assms(4,5,6) in simp_all)
  have "placed (R(pid := R pid @ [r])) (places idx)" "table (R(pid := R pid @ [r])) (places idx) = m(row_id r \<mapsto> r)"
    unfolding ix(3) assms(3) by (rule placed_append [OF assms(2) free assms(7)])+
  then have "db_rel b schema ct n (?db1\<lparr>db_indexes := ixs\<rparr>) (m(row_id r \<mapsto> r))"
    using s1 sec(2) unfolding db_rel_def by (intro conjI exI [of _ "R(pid := R pid @ [r])"]) simp_all
  then show thesis using that [OF ins sec(1)] sec(3) by simp
qed

lemma insert_unlocked_ok:
  assumes "db_rel b schema ct n db m" and "fitting_row schema ct r" and "m (row_id r) = None" and "n \<noteq> -1"
  obtains db' n' where "insert_unlocked r sync db = (Inr (), db')" "db_rel b schema ct n' db' (m(row_id r \<mapsto> r))" "n' \<in> {n, n + 1}"
    "map fst (db_indexes db') = map fst (db_indexes db)" "\<exists>pid slot. logs [Inserted r pid slot] (db_wal db) (db_wal db')" "sync \<Longrightarrow> synced (db_wal db')"
proof -
  obtain R where rel: "db_state b schema ct R n db" "placed R (places (db_index db))" "m = table R (places (db_index db))"
    "indexed schema m (db_indexes db)" by (rule db_relE [OF assms(1)])
  note d = db_stateD [OF rel(1)]
  have st: "storable_row schema r" "row_typed schema r" using assms(2) by (simp_all add: fitting_row_def storable_row_def)
  obtain page page' db1 db2 n' where a: "get_or_create_writable_page r db = (Inr page, db1)" "append_row page r schema = Inr page'"
    "p_id page' = p_id page" "p_row_count page = word_of_nat (length (R (p_id page)))" "page_rel schema page' (R (p_id page) @ [r])"
    "on_pager (write_page page') db1 = (Inr (), db2)" "db_state b schema ct (R(p_id page := R (p_id page) @ [r])) n' db2" "n' \<in> {n, n + 1}"
    "db_index db2 = db_index db" "db_indexes db2 = db_indexes db" "db_wal db2 = db_wal db"
    by (rule append_ok [OF rel(1) assms(2,4)])
  let ?pid = "p_id page" and ?slot = "p_row_count page"
  note ptr = row_data_ptr_page_rel [OF a(5), of "length (R ?pid)"]
  have size: "unat (word_of_nat (row_size r) :: u32) = row_size r" "row_size r \<le> 8192" using row_need [OF st(1)] by simp_all
  have read: "mem_read (unat (word_of_nat (row_size r) :: u32)) (row_bytes r) = Inr (row_bytes r)" using size by (simp add: mem_read_def)
  obtain off w where lg: "log_insert_direct (row_id r) ?pid ?slot (row_bytes r) sync (db_wal db2) = (Inr off, w)" "log_ok w"
    "logs [Inserted r ?pid ?slot] (db_wal db2) w" "sync \<Longrightarrow> synced w"
    by (rule log_insert_ok [OF db_stateD(6) [OF a(7)], of r ?pid ?slot sync]) (use size in simp_all)
  define db3 where "db3 = db2\<lparr>db_wal := w\<rparr>"
  have s3: "db_state b schema ct (R(?pid := R ?pid @ [r])) n' db3" unfolding db3_def by (rule db_state_wal [OF a(7) lg(2)])
  have log: "on_wal (log_insert_direct (row_id r) ?pid ?slot (row_bytes r) sync) db2 = (Inr off, db3)"
    unfolding db3_def by (rule on_wal_apply) (use db_stateD(2) [OF a(7)] lg in simp_all)
  have frame: "db_index db3 = db_index db" "db_indexes db3 = db_indexes db" using a(9,10) by (simp_all add: db3_def)
  let ?e = "\<lparr>ie_page_id = ?pid, ie_page_offset = page_offset ?pid (db_pager db3), ie_row_slot = ?slot\<rparr>"
  have len: "length (R ?pid) < 2 ^ 32 - 1" using store_relD(8) [OF d(5), of ?pid] by simp
  obtain db4 db5 where g: "on_primary (im_insert (row_id r) ?e) db3 = (Inr (), db4)" "index_row (row_fields r) (row_id r) db4 = (Inr (), db5)"
    "db_rel b schema ct n' db5 (m(row_id r \<mapsto> r))" "map fst (db_indexes db5) = map fst (db_indexes db3)" "db_wal db5 = db_wal db3"
    by (rule register_ok [where R = R and pid = ?pid and r = r and e = ?e and db = db3 and m = m and n = n' and schema = schema and ct = ct and b = b])
       (use s3 st(2) assms(3) len rel(2,3,4) frame a(4) in simp_all)
  have found: "im_find (db_index db) (row_id r) = None" using assms(3) rel(3) by (simp add: table_def places_def)
  have "insert_unlocked r sync db = (Inr (), db5)"
    using d(2,3) db_stateD(2) [OF s3] row_typed_length [OF st(2)] found a(1,2,3,4,6) ptr read log g(1,2)
    by (simp add: insert_unlocked_def bindS_def Let_def)
  moreover have "db_wal db5 = w" using g(5) by (simp add: db3_def)
  ultimately show thesis using that [OF _ g(3) a(8)] g(4) frame(2) lg(3,4) a(11) by auto
qed

section \<open>Deletion\<close>

lemma set_index_again [simp]: "set_index a (set_index b db) = set_index a db" "set_index (db_index db) db = db"
  by (simp_all add: set_index_def)

lemma rows_fit_remove:
  assumes "rows_fit schema ct rows" and "k < length rows" shows "rows_fit schema ct (remove_nth k rows)"
  using assms rows_bytes_remove_nth [OF assms(2)] set_remove_nth_subset [of k rows] by (auto simp: rows_fit_def)

text \<open>The index leads to the row.\<close>

lemma locate_row_ok:
  assumes "page_rel schema page rows" and "unat (ie_row_slot e) < length rows" and "row_id (rows ! unat (ie_row_slot e)) = i"
  shows "locate_row page e i = Inr (int (unat (ie_row_slot e)))" and "get_row page (ie_row_slot e) schema = Inr (rows ! unat (ie_row_slot e))"
    and "\<exists>page'. erase_row page (ie_row_slot e) = Inr page' \<and> page_rel schema page' (remove_nth (unat (ie_row_slot e)) rows)
      \<and> p_id page' = p_id page \<and> p_dirty page'"
proof -
  have w: "word_of_nat (unat (ie_row_slot e)) = ie_row_slot e" by simp
  have "ie_row_slot e < p_row_count page" using assms(2) page_relD(3) [OF assms(1)] by (simp add: word_less_nat_alt)
  moreover have "row_id_at page (ie_row_slot e) = Inr i" using row_id_at_page_rel [OF assms(1,2)] assms(3) unfolding w by simp
  ultimately show "locate_row page e i = Inr (int (unat (ie_row_slot e)))" by (simp add: locate_row_def)
  show "get_row page (ie_row_slot e) schema = Inr (rows ! unat (ie_row_slot e))" using get_row_page_rel [OF assms(1,2)] unfolding w .
  show "\<exists>page'. erase_row page (ie_row_slot e) = Inr page' \<and> page_rel schema page' (remove_nth (unat (ie_row_slot e)) rows)
      \<and> p_id page' = p_id page \<and> p_dirty page'"
    using erase_row_page_rel [OF assms(1,2)] unfolding w .
qed

lemma repair_slots_ok:
  assumes "page_rel schema page rows" and "db_ready db" and "im_inv (db_index db)"
  shows "\<exists>idx. repair_slots page rids db = (Inr (), set_index idx db) \<and> im_inv idx
    \<and> places idx = fold (repair_place rows) rids (places (db_index db))"
  using assms(2,3)
proof (induction rids arbitrary: db)
  case Nil
  then show ?case by (intro exI [of _ "db_index db"]) simp
next
  case (Cons i rids)
  let ?k = "first_index (\<lambda>r. row_id r = i) 0 rows"
  define idx where "idx = (if ?k \<ge> 0 then update_slot (word_of_int ?k) i (db_index db) else db_index db)"
  have step: "repair_slots page (i # rids) db = repair_slots page rids (set_index idx db)"
    using find_row_page_rel [OF assms(1), of i] Cons.prems(1)
      on_primary_apply [where m = "modifyS (update_slot (word_of_int ?k) i)" and db = db]
    by (simp add: bindS_def idx_def)
  have idx: "im_inv idx" "places idx = repair_place rows i (places (db_index db))"
    using update_slot_places [OF Cons.prems(2)] Cons.prems(2) by (simp_all add: idx_def repair_place_def Let_def)
  obtain idx' where "repair_slots page rids (set_index idx db) = (Inr (), set_index idx' (set_index idx db))" "im_inv idx'"
      "places idx' = fold (repair_place rows) rids (places idx)"
    using Cons.IH [of "set_index idx db"] Cons.prems(1) idx(1) by auto
  then show ?case unfolding step using idx(2) by auto
qed

lemma ids_for_page_places:
  assumes "im_inv idx"
  obtains rids where "ids_for_page idx pid = Some rids \<or> ids_for_page idx pid = None \<and> rids = []" "distinct rids"
    "set rids = {j. \<exists>s. places idx j = Some (pid, s)}"
proof
  let ?rids = "page_ids (im_page_to_ids idx) pid"
  show "ids_for_page idx pid = Some ?rids \<or> ids_for_page idx pid = None \<and> ?rids = []"
    by (auto simp: ids_for_page_def page_ids_def split: option.splits)
  show "distinct ?rids" by (rule im_invD(6) [OF assms])
  show "set ?rids = {j. \<exists>s. places idx j = Some (pid, s)}"
    using im_invD(5) [OF assms, of _ pid] by (auto simp: places_def im_find_fun [OF assms])
qed

lemma repair_slots_after_erase_ok:
  assumes "db_state b schema ct R n db" and "pid < n"
  obtains db' rids where "repair_slots_after_erase pid db = (Inr (), db')" "db_state b schema ct R n db'"
    "places (db_index db') = fold (repair_place (R pid)) rids (places (db_index db))" "distinct rids"
    "set rids = {j. \<exists>s. places (db_index db) j = Some (pid, s)}" "db_indexes db' = db_indexes db"
proof -
  note d = db_stateD [OF assms(1)]
  obtain rids where ids: "ids_for_page (db_index db) pid = Some rids \<or> ids_for_page (db_index db) pid = None \<and> rids = []"
    "distinct rids" "set rids = {j. \<exists>s. places (db_index db) j = Some (pid, s)}"
    by (rule ids_for_page_places [OF d(7)])
  from ids(1) show thesis
  proof
    assume none: "ids_for_page (db_index db) pid = None \<and> rids = []"
    then have "repair_slots_after_erase pid db = (Inr (), db)" using d(2) by (simp add: repair_slots_after_erase_def bindS_def)
    then show thesis using that [of db rids] assms(1) ids none by simp
  next
    assume some: "ids_for_page (db_index db) pid = Some rids"
    obtain p ps' where p: "get_mutable_page pid (db_pager db) = (Inr p, ps')" "page_rel schema p (R pid)"
      "store_rel schema ct R (db_index db) n ps'"
      by (rule store_fetch [OF d(5) assms(2), of get_mutable_page]) simp_all
    define db1 where "db1 = db\<lparr>db_pager := ps'\<rparr>"
    have s1: "db_state b schema ct R n db1" unfolding db1_def by (rule db_state_pager [OF assms(1) p(3)])
    have i1: "db_index db1 = db_index db" using store_relD(5) [OF p(3)] by (simp add: db1_def)
    have got: "on_pager (get_mutable_page pid) db = (Inr p, db1)" unfolding db1_def by (rule on_pager_apply) (use d(2) p(1) in simp_all)
    obtain idx where rep: "repair_slots p rids db1 = (Inr (), set_index idx db1)" "im_inv idx"
      "places idx = fold (repair_place (R pid)) rids (places (db_index db1))"
      using repair_slots_ok [OF p(2) db_stateD(2,7) [OF s1]] by blast
    have "repair_slots_after_erase pid db = (Inr (), set_index idx db1)"
      using d(2) some got rep(1) by (simp add: repair_slots_after_erase_def bindS_def)
    then show thesis using that [of "set_index idx db1" rids] db_state_index [OF s1 rep(2)] rep(3) ids(2,3) i1 by (simp add: db1_def)
  qed
qed

text \<open>The steps on the page: the row leaves it, every other page and the index stay.\<close>

lemma erase_page_ok:
  assumes "db_state b schema ct R n db" and "placed R (places (db_index db))" and "im_find (db_index db) i = Some e"
  defines "pid \<equiv> ie_page_id e" and "slot \<equiv> ie_row_slot e"
  obtains page page' ps ps2 where "get_mutable_page pid (db_pager db) = (Inr page, ps)" "locate_row page e i = Inr (int (unat slot))"
    "get_row page slot schema = Inr (R pid ! unat slot)" "erase_row page slot = Inr page'" "write_page page' ps = (Inr (), ps2)"
    "store_rel schema ct R (db_index db) n ps" "store_rel schema ct (R(pid := remove_nth (unat slot) (R pid))) (db_index db) n ps2"
    "pid < n" "p_dirty page'"
proof -
  note d = db_stateD [OF assms(1)]
  have P: "places (db_index db) i = Some (pid, slot)" using assms(3) by (simp add: places_def pid_def slot_def)
  note at = placedD [OF assms(2) P]
  have lt: "pid < n" by (rule store_rel_below [OF d(5) at(1)])
  obtain page ps where p: "get_mutable_page pid (db_pager db) = (Inr page, ps)" "page_rel schema page (R pid)" "p_id page = pid"
    "lru_find pid (pc_lru (fst ps)) = Some page" "store_rel schema ct R (db_index db) n ps"
    by (rule store_fetch [OF d(5) lt, of get_mutable_page]) simp_all
  note loc = locate_row_ok [OF p(2) at[unfolded slot_def]]
  obtain page' where e: "erase_row page slot = Inr page'" "page_rel schema page' (remove_nth (unat slot) (R pid))"
    "p_id page' = pid" "p_dirty page'" using loc(3) p(3) unfolding slot_def by auto
  have fit: "rows_fit schema ct (remove_nth (unat slot) (R pid))" by (rule rows_fit_remove [OF store_relD(3) [OF d(5)] at(1)])
  obtain ps2 where w: "write_page page' ps = (Inr (), ps2)"
    "store_rel schema ct (R(p_id page' := remove_nth (unat slot) (R pid))) (db_index db) n ps2"
    by (rule store_write [OF p(5) _ _ e(2) fit e(4), of page]) (use p(4) e(3) lt in simp_all)
  show thesis using that p(1,5) loc(1,2) e(1,3,4) w lt unfolding slot_def by simp
qed

text \<open>The primary index forgets the row and learns the new slots of its neighbours.\<close>

lemma unregister_ok:
  assumes "db_state b schema ct (R(pid := remove_nth (unat slot) (R pid))) n db" and "placed R (places (db_index db))"
    and "places (db_index db) i = Some (pid, slot)" and "pid < n" and "length (R pid) < 2 ^ 32"
  defines "R' \<equiv> R(pid := remove_nth (unat slot) (R pid))"
  obtains db1 db2 where "on_primary (\<lambda>ix. case im_remove ix i of (_, i') \<Rightarrow> (Inr (), i')) db = (Inr (), db1)"
    "repair_slots_after_erase pid db1 = (Inr (), db2)" "db_state b schema ct R' n db2" "placed R' (places (db_index db2))"
    "table R' (places (db_index db2)) = (table R (places (db_index db)))(i := None)" "db_indexes db2 = db_indexes db"
proof -
  note s = assms(1)[folded R'_def] and d = db_stateD [OF assms(1)]
  let ?P = "places (db_index db)" and ?db1 = "set_index (snd (im_remove (db_index db) i)) db"
  note rm = im_remove_places [OF d(7), of i]
  have rem: "on_primary (\<lambda>ix. case im_remove ix i of (_, i') \<Rightarrow> (Inr (), i')) db = (Inr (), ?db1)"
    by (rule on_primary_apply) (use d(2) in \<open>simp_all add: case_prod_beta\<close>)
  obtain db2 rids where rp: "repair_slots_after_erase pid ?db1 = (Inr (), db2)" "db_state b schema ct R' n db2"
    "places (db_index db2) = fold (repair_place (R' pid)) rids (places (db_index ?db1))" "distinct rids"
    "set rids = {j. \<exists>s. places (db_index ?db1) j = Some (pid, s)}" "db_indexes db2 = db_indexes ?db1"
    by (rule repair_slots_after_erase_ok [OF db_state_index [OF s rm(1)] assms(4)])
  have "set rids = {j. j \<noteq> i \<and> (\<exists>s. ?P j = Some (pid, s))}" using rp(5) rm(2) by auto
  then have "repaired R' i pid ?P (places (db_index db2))"
    using erased_repaired [OF assms(2,3) rp(4)] rp(3) rm(2) by (simp add: R'_def)
  note placed' = placed_remove [OF assms(2,3,5), folded R'_def, OF this]
  show thesis by (rule that [OF rem rp(1,2) placed']) (use rp(6) in simp)
qed

lemma erase_unlocked_ok:
  assumes "db_rel b schema ct n db m" and "m i = Some r"
  obtains db' where "erase_unlocked i db = (Inr True, db')" "db_rel b schema ct n db' (m(i := None))"
    "map fst (db_indexes db') = map fst (db_indexes db)" "\<exists>pid slot. logs [Deleted i pid slot] (db_wal db) (db_wal db')"
proof -
  obtain R where rel: "db_state b schema ct R n db" "placed R (places (db_index db))" "m = table R (places (db_index db))"
    "indexed schema m (db_indexes db)" by (rule db_relE [OF assms(1)])
  note d = db_stateD [OF rel(1)]
  obtain e where e: "im_find (db_index db) i = Some e" using assms(2) rel(3) by (auto simp: table_def places_def)
  define pid slot where "pid = ie_page_id e" and "slot = ie_row_slot e"
  have P: "places (db_index db) i = Some (pid, slot)" using e by (simp add: places_def pid_def slot_def)
  have r: "R pid ! unat slot = r" using assms(2) rel(3) P by (simp add: table_def)
  let ?R = "R(pid := remove_nth (unat slot) (R pid))"
  obtain page page' ps ps2 where p: "get_mutable_page pid (db_pager db) = (Inr page, ps)" "locate_row page e i = Inr (int (unat slot))"
    "get_row page slot schema = Inr r" "erase_row page slot = Inr page'" "write_page page' ps = (Inr (), ps2)"
    "store_rel schema ct R (db_index db) n ps" "store_rel schema ct ?R (db_index db) n ps2" "pid < n"
    by (rule erase_page_ok [OF rel(1,2) e]) (use r in \<open>simp_all add: pid_def slot_def\<close>)
  define db1 where "db1 = db\<lparr>db_pager := ps\<rparr>"
  have s1: "db_state b schema ct R n db1" unfolding db1_def by (rule db_state_pager [OF rel(1) p(6)])
  have got: "on_pager (get_mutable_page pid) db = (Inr page, db1)" unfolding db1_def by (rule on_pager_apply) (use d(2) p(1) in simp_all)
  obtain off w where lg: "log_delete i pid slot False (db_wal db1) = (Inr off, w)" "log_ok w" "logs [Deleted i pid slot] (db_wal db1) w"
    by (rule log_delete_ok [OF db_stateD(6) [OF s1]])
  define db2 where "db2 = db1\<lparr>db_wal := w\<rparr>"
  have s2: "db_state b schema ct R n db2" unfolding db2_def by (rule db_state_wal [OF s1 lg(2)])
  have log: "on_wal (log_delete i pid slot False) db1 = (Inr off, db2)"
    unfolding db2_def by (rule on_wal_apply) (use db_stateD(2) [OF s1] lg in simp_all)
  have i2: "db_index db2 = db_index db" using store_relD(5) [OF p(6)] by (simp add: db2_def db1_def)
  define db3 where "db3 = db2\<lparr>db_pager := ps2\<rparr>"
  have s3: "db_state b schema ct ?R n db3" unfolding db3_def by (rule db_state_pager [OF s2]) (use p(7) i2 in simp)
  have wr: "on_pager (write_page page') db2 = (Inr (), db3)"
    unfolding db3_def using db_stateD(2) [OF s2] p(5) by (intro on_pager_apply) (simp_all add: db2_def db1_def)
  have i3: "db_index db3 = db_index db" using store_relD(5) [OF p(7)] by (simp add: db3_def)
  obtain db4 db5 where u: "on_primary (\<lambda>ix. case im_remove ix i of (_, i') \<Rightarrow> (Inr (), i')) db3 = (Inr (), db4)"
    "repair_slots_after_erase pid db4 = (Inr (), db5)" "db_state b schema ct ?R n db5" "placed ?R (places (db_index db5))"
    "table ?R (places (db_index db5)) = (table R (places (db_index db3)))(i := None)" "db_indexes db5 = db_indexes db3"
    by (rule unregister_ok [OF s3 _ _ p(8) store_relD(9) [OF d(5)], of i]) (use rel(2) P i3 in simp_all)
  have frame: "db_indexes db5 = db_indexes db" using u(6) by (simp add: db3_def db2_def db1_def)
  have typed: "row_typed schema r"
    using store_relD(3) [OF d(5), of pid] placedD(1) [OF rel(2) P] r by (auto simp: rows_fit_def fitting_row_def storable_row_def)
  obtain ixs where sec: "unindex_row (row_fields r) i db5 = (Inr (), db5\<lparr>db_indexes := ixs\<rparr>)"
    "indexed schema (m(i := None)) ixs" "map fst ixs = map fst (db_indexes db5)"
    by (rule unindex_row_ok [where db = db5 and m = m and r = r and i = i and schema = schema])
       (use db_stateD(3) [OF u(3)] typed assms(2) rel(4) frame in simp_all)
  have "erase_unlocked i db = (Inr True, db5\<lparr>db_indexes := ixs\<rparr>)"
    using d(2,3) e got p(2,3,4) log wr u(1,2) sec(1) by (simp add: erase_unlocked_def bindS_def Let_def flip: pid_def)
  moreover have "db_rel b schema ct n (db5\<lparr>db_indexes := ixs\<rparr>) (m(i := None))"
    using u(3,4,5) sec(2) rel(3) i3 unfolding db_rel_def by (intro conjI exI [of _ ?R]) simp_all
  moreover have "db_wal db5 = w"
    using keeps_result [OF keeps_members(6) u(1)] keeps_result [OF keeps_wal_writing(3) u(2)] by (simp add: db3_def db2_def)
  ultimately show thesis using that [of "db5\<lparr>db_indexes := ixs\<rparr>"] sec(3) frame lg(3) by (auto simp: db1_def)
qed

lemma erase_unlocked_absent:
  assumes "db_rel b schema ct n db m" and "m i = None" shows "erase_unlocked i db = (Inr False, db)"
proof (rule db_relE [OF assms(1)])
  fix R assume rel: "db_state b schema ct R n db" "m = table R (places (db_index db))"
  have "im_find (db_index db) i = None" using assms(2) rel(2) by (simp add: table_def places_def)
  then show ?thesis using db_stateD(2) [OF rel(1)] by (simp add: erase_unlocked_def bindS_def)
qed

section \<open>Lookup, synchronisation and checkpoint\<close>

lemma db_relD:
  assumes "db_rel b schema ct n db m"
  shows "db_is_open db = b" and "db_ready db" and "db_schema db = schema" and "im_find (db_index db) i = None \<longleftrightarrow> m i = None"
    and "page_count (db_pager db) = n" and "im_find (db_index db) i \<noteq> None \<longleftrightarrow> m i \<noteq> None"
  using assms db_stateD(1,2,3,8) by (auto simp: db_rel_def table_def places_def)

lemma db_rel_open: "db_rel True schema ct n db m \<Longrightarrow> db_is_open db"
  by (auto simp: db_relD(1))

lemma stored_row_ok:
  assumes "db_rel b schema ct n db m" and "m i = Some r" shows "fitting_row schema ct r" and "row_id r = i"
proof -
  obtain R where rel: "db_state b schema ct R n db" "placed R (places (db_index db))" "m = table R (places (db_index db))"
    by (rule db_relE [OF assms(1)])
  obtain pid slot where P: "places (db_index db) i = Some (pid, slot)" "r = R pid ! unat slot"
    using assms(2) rel(3) by (auto simp: table_def)
  show "fitting_row schema ct r"
    using store_relD(3) [OF db_stateD(5) [OF rel(1)], of pid] placedD(1) [OF rel(2) P(1)] P(2) by (auto simp: rows_fit_def)
  show "row_id r = i" using placedD(2) [OF rel(2) P(1)] P(2) by simp
qed

lemma sync_ok:
  assumes "db_rel b schema ct n db m"
  obtains db' where "on_wal wal_sync db = (Inr (), db')" "db_rel b schema ct n db' m" "db_indexes db' = db_indexes db"
    "logs [] (db_wal db) (db_wal db')" "synced (db_wal db')"
proof -
  obtain R where rel: "db_state b schema ct R n db" by (rule db_relE [OF assms])
  obtain w where w: "wal_sync (db_wal db) = (Inr (), w)" "log_ok w" "logs [] (db_wal db) w" "synced w" by (rule log_sync_ok [OF db_stateD(6) [OF rel]])
  have "on_wal wal_sync db = (Inr (), db\<lparr>db_wal := w\<rparr>)" by (rule on_wal_apply) (use db_stateD(2) [OF rel] w in simp_all)
  moreover have "db_rel b schema ct n (db\<lparr>db_wal := w\<rparr>) m" using assms w(2) db_state_wal unfolding db_rel_def by fastforce
  ultimately show thesis using that w(3,4) by simp
qed

lemma get_unlocked_ok:
  assumes "db_rel b schema ct n db m"
  obtains db' where "get_unlocked i db = (case m i of None \<Rightarrow> Inl NotFoundError | Some r \<Rightarrow> Inr r, db')" "db_rel b schema ct n db' m"
    "db_indexes db' = db_indexes db"
proof -
  obtain R where rel: "db_state b schema ct R n db" "placed R (places (db_index db))" "m = table R (places (db_index db))"
    "indexed schema m (db_indexes db)" by (rule db_relE [OF assms])
  note d = db_stateD [OF rel(1)]
  show thesis
  proof (cases "im_find (db_index db) i")
    case None
    then have "m i = None" using db_relD(4) [OF assms] by simp
    then show thesis using that [of db] None d(2) assms by (simp add: get_unlocked_def bindS_def)
  next
    case (Some e)
    let ?pid = "ie_page_id e" and ?slot = "ie_row_slot e"
    have P: "places (db_index db) i = Some (?pid, ?slot)" using Some by (simp add: places_def)
    note at = placedD [OF rel(2) P]
    obtain p ps where p: "get_page ?pid (db_pager db) = (Inr p, ps)" "page_rel schema p (R ?pid)"
      "store_rel schema ct R (db_index db) n ps"
      by (rule store_fetch [OF d(5) store_rel_below [OF d(5) at(1)], of get_page]) simp_all
    have got: "on_pager (get_page ?pid) db = (Inr p, db\<lparr>db_pager := ps\<rparr>)" by (rule on_pager_apply) (use d(2) p(1) in simp_all)
    have i1: "db_index (db\<lparr>db_pager := ps\<rparr>) = db_index db" using store_relD(5) [OF p(3)] by simp
    have "m i = Some (R ?pid ! unat ?slot)" using rel(3) P by (simp add: table_def)
    moreover have "get_unlocked i db = (Inr (R ?pid ! unat ?slot), db\<lparr>db_pager := ps\<rparr>)"
      using Some d(2,3) got locate_row_ok(2) [OF p(2) at] by (simp add: get_unlocked_def bindS_def)
    moreover have "db_rel b schema ct n (db\<lparr>db_pager := ps\<rparr>) m"
      using db_state_pager [OF rel(1) p(3)] rel i1 unfolding db_rel_def by (intro conjI exI [of _ R]) simp_all
    ultimately show thesis using that by simp
  qed
qed

lemma checkpoint_ok:
  assumes "db_rel True schema ct n db m"
  obtains db' where "checkpoint db = (Inr (), db')" "db_rel True schema ct n db' m" "db_indexes db' = db_indexes db"
proof -
  obtain R where rel: "db_state True schema ct R n db" "placed R (places (db_index db))" "m = table R (places (db_index db))"
    "indexed schema m (db_indexes db)" by (rule db_relE [OF assms])
  note d = db_stateD [OF rel(1)] and s = store_relD [OF db_stateD(5) [OF rel(1)]]
  obtain ps idx h where f: "flush_all (db_pager db) = (Inr (), ps)" "pager_ok schema ct idx n ps" "im_inv idx"
    "places idx = places (db_index db)" "pager_pages ps = pager_pages (db_pager db)"
    by (rule flush_all_ok [OF s(1,2)])
  have store: "store_rel schema ct R idx n ps" by (rule store_rel_cong [OF d(5) f(2,3,5)])
  define db1 where "db1 = db\<lparr>db_pager := ps\<rparr>"
  have fl: "on_pager flush_all db = (Inr (), db1)" unfolding db1_def by (rule on_pager_apply) (use d(2) f(1) in simp_all)
  obtain w where w: "wal_clear (db_wal db1) = (Inr (), w)" "log_ok w"
    using d(6) wal_clear_holds unfolding log_ok_def db1_def by (metis DB.select_convs(7) DB.surjective DB.update_convs(6))
  have cl: "on_wal wal_clear db1 = (Inr (), db1\<lparr>db_wal := w\<rparr>)" by (rule on_wal_apply) (use d(2) w(1) in \<open>simp_all add: db1_def\<close>)
  have i1: "db_index db1 = idx" using store_relD(5) [OF store] by (simp add: db1_def)
  have "checkpoint db = (Inr (), db1\<lparr>db_wal := w\<rparr>)"
    using require_open_apply(1) [OF db_rel_open [OF assms]] fl cl by (simp add: checkpoint_def bindS_def)
  moreover have "db_state True schema ct R n (db1\<lparr>db_wal := w\<rparr>)"
    using rel(1) store w(2) i1 by (simp add: db_state_def) (simp add: db1_def)
  then have "db_rel True schema ct n (db1\<lparr>db_wal := w\<rparr>) m"
    using rel f(4) i1 unfolding db_rel_def by (intro conjI exI [of _ R]) (simp_all add: db1_def)
  ultimately show thesis using that by (simp add: db1_def)
qed

end
