(* ===== verification/Db_Queries.thy ===== *)
theory Db_Queries
  imports Db_Steps
begin

text \<open>
  Scans and secondary indexes of the database: a scan visits exactly the rows that satisfy the
  filter, each once; an index built from the stored rows indexes all of them, and a range query returns the
  same rows whether it is answered by the index or by the fallback scan.
\<close>

section \<open>Scans\<close>

text \<open>What a visitor accumulates over a list of rows.\<close>

primrec visit_all :: "'v visitor \<Rightarrow> Row list \<Rightarrow> 'v \<Rightarrow> 'v result" where
  "visit_all visitor [] acc = Inr acc"
| "visit_all visitor (r # rs) acc = bindR (visitor r acc) (visit_all visitor rs)"

lemma visit_all_append: "visit_all visitor (xs @ ys) acc = bindR (visit_all visitor xs acc) (visit_all visitor ys)"
  by (induction xs arbitrary: acc) (auto simp: bindR_def split: sum.split)

lemma matches_raw_row:
  assumes "row_typed schema row"
  shows "matches_raw flt (row_bytes row @ rest) schema = Inr (satisfies flt schema row)"
proof (cases "flt = []")
  case True
  then show ?thesis by (simp add: matches_raw_def satisfies_def)
next
  case False
  have "matches_raw flt (row_bytes row @ rest) schema = matches_raw_fields flt (s_fields schema) (row_payload row @ rest)"
    using False by (simp add: matches_raw_def row_bytes_def)
  also have "\<dots> = Inr (satisfies flt schema row)"
    using matches_raw_fields_typed [of "s_fields schema" "row_fields row" flt rest] assms
    by (simp add: row_typed_def row_payload_def satisfies_def)
  finally show ?thesis .
qed

lemma scan_slots_rows:
  assumes "page_rel schema page rows" and "\<forall>k \<in> set ks. k < length rows"
  shows "scan_slots visitor flt schema page (map word_of_nat ks) acc
    = visit_all visitor (filter (satisfies flt schema) (map (\<lambda>k. rows ! k) ks)) acc"
  using assms(2)
proof (induction ks arbitrary: acc)
  case (Cons k ks)
  have k: "k < length rows" using Cons.prems by simp
  have "row_typed schema (rows ! k)" using page_relD(4) [OF assms(1)] k by (simp add: storable_row_def)
  then have ok: "bindR (row_data_ptr page (word_of_nat k)) (\<lambda>p. matches_raw flt p schema) = Inr (satisfies flt schema (rows ! k))"
    using row_data_ptr_page_rel(1) [OF assms(1) k] by (simp add: matches_raw_row)
  have rest: "scan_slots visitor flt schema page (map word_of_nat ks) = visit_all visitor (filter (satisfies flt schema) (map (\<lambda>k. rows ! k) ks))"
    using Cons by (simp add: fun_eq_iff)
  show ?case using ok get_row_page_rel [OF assms(1) k] rest by simp
qed simp

lemma scan_page_rows:
  assumes "page_rel schema page rows"
  shows "scan_slots visitor flt schema page (slots_of page) acc = visit_all visitor (filter (satisfies flt schema) rows) acc"
  using scan_slots_rows [OF assms, of "[0..<length rows]"] page_relD(3) [OF assms] by (simp add: slots_of_def map_nth)

text \<open>Reading a page changes the cache at most.\<close>

lemma read_page_ok:
  assumes "db_state b schema ct R n db" and "pid < n"
  obtains p db' where "on_pager (get_page pid) db = (Inr p, db')" "page_rel schema p (R pid)" "db_state b schema ct R n db'"
    "db_index db' = db_index db" "db_indexes db' = db_indexes db"
proof -
  note d = db_stateD [OF assms(1)]
  obtain p ps where p: "get_page pid (db_pager db) = (Inr p, ps)" "page_rel schema p (R pid)" "store_rel schema ct R (db_index db) n ps"
    by (rule store_fetch [OF d(5) assms(2), of get_page]) simp_all
  have "on_pager (get_page pid) db = (Inr p, db\<lparr>db_pager := ps\<rparr>)" by (rule on_pager_apply) (use d(2) p(1) in simp_all)
  then show thesis using that [of p "db\<lparr>db_pager := ps\<rparr>"] p(2) db_state_pager [OF assms(1) p(3)] store_relD(5) [OF p(3)] by simp
qed

lemma scan_pages_rows:
  assumes "db_state b schema ct R n db" and "\<forall>pid \<in> set pids. pid < n"
  shows "\<exists>db'. scan_pages visitor flt pids acc db = (visit_all visitor (filter (satisfies flt schema) (concat (map R pids))) acc, db')
    \<and> db_state b schema ct R n db' \<and> db_index db' = db_index db \<and> db_indexes db' = db_indexes db"
  using assms
proof (induction pids arbitrary: acc db)
  case Nil
  then show ?case by simp
next
  case (Cons pid pids)
  obtain p db1 where p: "on_pager (get_page pid) db = (Inr p, db1)" "page_rel schema p (R pid)" "db_state b schema ct R n db1"
    "db_index db1 = db_index db" "db_indexes db1 = db_indexes db"
    by (rule read_page_ok [OF Cons.prems(1), of pid]) (use Cons.prems(2) in simp_all)
  let ?page = "visit_all visitor (filter (satisfies flt schema) (R pid)) acc"
  have page: "scan_slots visitor flt schema p (slots_of p) acc = ?page" by (rule scan_page_rows [OF p(2)])
  show ?case
  proof (cases ?page)
    case (Inl e)
    then show ?thesis using p page db_stateD(3) [OF p(3)] by (intro exI [of _ db1]) (simp add: bindS_def visit_all_append)
  next
    case (Inr acc')
    obtain db' where "scan_pages visitor flt pids acc' db1 = (visit_all visitor (filter (satisfies flt schema) (concat (map R pids))) acc', db')"
      "db_state b schema ct R n db'" "db_index db' = db_index db1" "db_indexes db' = db_indexes db1"
      using Cons.IH [OF p(3)] Cons.prems(2) by auto
    then show ?thesis using p page Inr db_stateD(3) [OF p(3)] by (intro exI [of _ db']) (simp add: bindS_def visit_all_append)
  qed
qed

text \<open>All rows of the store, in the order of a scan.\<close>

definition all_rows :: "layout \<Rightarrow> u32 \<Rightarrow> Row list" where
  "all_rows R n = concat (map R (map word_of_nat [0..<unat n]))"

lemma pages_below: "\<forall>pid \<in> set (map word_of_nat [0..<unat n]). pid < (n :: u32)"
  by (auto intro: word_of_nat_less)

lemma scan_unlocked_rows:
  assumes "db_state b schema ct R n db"
  obtains db' where "scan_unlocked visitor flt acc db = (visit_all visitor (filter (satisfies flt schema) (all_rows R n)) acc, db')"
    "db_state b schema ct R n db'" "db_index db' = db_index db" "db_indexes db' = db_indexes db"
proof -
  note d = db_stateD [OF assms]
  have start: "scan_unlocked visitor flt acc db = scan_pages visitor flt (map word_of_nat [0..<unat n]) acc db"
    using d(2,8) by (simp add: scan_unlocked_def bindS_def)
  show thesis using scan_pages_rows [OF assms pages_below, of visitor flt acc] that unfolding start all_rows_def by blast
qed

lemma distinct_page_rows:
  assumes "placed R P" and "\<And>pid. length (R pid) < 2 ^ 32" and "distinct pids"
  shows "distinct (map row_id (concat (map R pids)))"
  using assms(3)
proof (induction pids)
  case (Cons pid pids)
  have "row_id r \<noteq> row_id q" if r: "r \<in> set (R pid)" and q: "q \<in> set (R pid')" and "pid' \<in> set pids" for r q pid'
  proof
    assume eq: "row_id r = row_id q"
    obtain s s' where "P (row_id r) = Some (pid, s)" "P (row_id q) = Some (pid', s')"
      using placed_row [OF assms(1,2) r] placed_row [OF assms(1,2) q] by blast
    then have "pid = pid'" using eq by simp
    then show False using Cons.prems that(3) by simp
  qed
  then show ?case using Cons placed_distinct [OF assms(1,2), of pid] by auto
qed simp

lemma distinct_words_below: "distinct (map (word_of_nat :: nat \<Rightarrow> u32) [0..<unat (n :: u32)])"
proof -
  have "a = b" if ab: "a < unat n" "b < unat n" "(word_of_nat a :: u32) = word_of_nat b" for a b
  proof -
    have "a < 2 ^ 32" "b < 2 ^ 32" using ab(1,2) unsigned_less [of n, where ?'a = nat] by simp_all
    then show ?thesis using arg_cong [OF ab(3), of unat] by (simp add: unat_of_nat)
  qed
  then show ?thesis by (auto simp: distinct_map inj_on_def)
qed

lemma map_of_keyed:
  assumes "distinct (map key xs)" and "set xs = ran m" and "\<And>i x. m i = Some x \<Longrightarrow> key x = i"
  shows "map_of (map (\<lambda>x. (key x, x)) xs) = m"
proof
  fix i
  have d: "distinct (map fst (map (\<lambda>x. (key x, x)) xs))" using assms(1) by (simp add: comp_def)
  show "map_of (map (\<lambda>x. (key x, x)) xs) i = m i"
  proof (cases "m i")
    case None
    have "i \<notin> key ` set xs" using None assms(2,3) by (fastforce simp: ran_def)
    then show ?thesis using None by (simp add: map_of_eq_None_iff image_image)
  next
    case (Some x)
    then have "x \<in> set xs" "key x = i" using assms(2,3) by (auto intro: ranI)
    then have "(i, x) \<in> set (map (\<lambda>x. (key x, x)) xs)" by auto
    then show ?thesis using Some map_of_is_SomeI [OF d] by simp
  qed
qed

lemma all_rows_table:
  assumes "db_state b schema ct R n db" and "placed R P"
  shows "set (all_rows R n) = ran (table R P)" and "distinct (map row_id (all_rows R n))"
    and "\<forall>r \<in> set (all_rows R n). row_typed schema r" and "map_of (map (\<lambda>r. (row_id r, r)) (all_rows R n)) = table R P"
proof -
  note s = store_relD [OF db_stateD(5) [OF assms(1)]]
  have all: "set (all_rows R n) = (\<Union>pid \<in> {pid. pid < n}. set (R pid))"
    by (simp add: all_rows_def flip: word_of_nat_below)
  have entry: "table R P (row_id r) = Some r" if "r \<in> set (R pid)" for r pid
    using placed_row [OF assms(2) s(9) that] by (auto simp: table_def)
  show set: "set (all_rows R n) = ran (table R P)"
  proof
    show "set (all_rows R n) \<subseteq> ran (table R P)" using entry unfolding all by (auto intro: ranI)
    show "ran (table R P) \<subseteq> set (all_rows R n)"
    proof
      fix r assume "r \<in> ran (table R P)"
      then obtain i pid slot where i: "P i = Some (pid, slot)" "r = R pid ! unat slot" by (auto simp: ran_def table_def)
      note at = placedD [OF assms(2) i(1)]
      have "pid < n" by (rule store_rel_below [OF db_stateD(5) [OF assms(1)] at(1)])
      then show "r \<in> set (all_rows R n)" unfolding all using at(1) i(2) by auto
    qed
  qed
  show "\<forall>r \<in> set (all_rows R n). row_typed schema r"
    unfolding all using s(3) unfolding rows_fit_def fitting_row_def storable_row_def by blast
  show d: "distinct (map row_id (all_rows R n))"
    unfolding all_rows_def by (rule distinct_page_rows [OF assms(2) s(9) distinct_words_below])
  show "map_of (map (\<lambda>r. (row_id r, r)) (all_rows R n)) = table R P"
    by (rule map_of_keyed [OF d set table_id [OF assms(2)]])
qed

lemma db_rel_read:
  assumes "db_rel b schema ct n db m" and "db_state b schema ct R n db" and "placed R (places (db_index db))" and "m = table R (places (db_index db))"
    and "db_state b schema ct R n db'" and "db_index db' = db_index db" and "db_indexes db' = db_indexes db"
  shows "db_rel b schema ct n db' m"
  using assms unfolding db_rel_def by (intro conjI exI [of _ R]) simp_all

lemma visit_collect: "visit_all (\<lambda>r results. Inr (results @ [r])) rows acc = Inr (acc @ rows)"
  by (induction rows arbitrary: acc) simp_all

section \<open>Building an index\<close>

definition index_rows :: "Schema \<Rightarrow> string \<Rightarrow> Row list \<Rightarrow> BPTree \<Rightarrow> BPTree" where
  "index_rows schema name = fold (\<lambda>r. insert_encoded (row_key schema name r) (row_id r))"

lemma build_slots_rows:
  assumes "page_rel schema page rows" and "0 \<le> field_index schema name" and "\<forall>k \<in> set ks. k < length rows"
  shows "build_slots (nat (field_index schema name)) schema page (map word_of_nat ks) t
    = Inr (index_rows schema name (map (\<lambda>k. rows ! k) ks) t)"
  using assms(3)
proof (induction ks arbitrary: t)
  case (Cons k ks)
  have k: "k < length rows" using Cons.prems by simp
  have "row_typed schema (rows ! k)" using page_relD(4) [OF assms(1)] k by (simp add: storable_row_def)
  note key = row_key_typed [OF this assms(2)]
  show ?case using get_row_page_rel [OF assms(1) k] key Cons by (simp add: bptree_insert_def index_rows_def)
qed (simp add: index_rows_def)

lemma build_pages_rows:
  assumes "db_state b schema ct R n db" and "0 \<le> field_index schema name" and "\<forall>pid \<in> set pids. pid < n"
  shows "\<exists>db'. build_pages (nat (field_index schema name)) pids t db = (Inr (index_rows schema name (concat (map R pids)) t), db')
    \<and> db_state b schema ct R n db' \<and> db_index db' = db_index db \<and> db_indexes db' = db_indexes db"
  using assms(1,3)
proof (induction pids arbitrary: t db)
  case Nil
  then show ?case by (simp add: index_rows_def)
next
  case (Cons pid pids)
  obtain p db1 where p: "on_pager (get_page pid) db = (Inr p, db1)" "page_rel schema p (R pid)" "db_state b schema ct R n db1"
    "db_index db1 = db_index db" "db_indexes db1 = db_indexes db"
    by (rule read_page_ok [OF Cons.prems(1), of pid]) (use Cons.prems(2) in simp_all)
  have page: "build_slots (nat (field_index schema name)) schema p (slots_of p) t = Inr (index_rows schema name (R pid) t)"
    using build_slots_rows [OF p(2) assms(2), of "[0..<length (R pid)]"] page_relD(3) [OF p(2)] by (simp add: slots_of_def map_nth)
  obtain db' where "build_pages (nat (field_index schema name)) pids (index_rows schema name (R pid) t) db1
      = (Inr (index_rows schema name (concat (map R pids)) (index_rows schema name (R pid) t)), db')"
    "db_state b schema ct R n db'" "db_index db' = db_index db1" "db_indexes db' = db_indexes db1"
    using Cons.IH [OF p(3)] Cons.prems(2) by auto
  then show ?case using p page db_stateD(3) [OF p(3)] by (intro exI [of _ db']) (simp add: bindS_def index_rows_def)
qed

lemma index_rows_indexes:
  assumes "distinct (map row_id rows)"
  shows "bt.indexes (index_rows schema name rows bptree_empty) (keys_of schema name (map_of (map (\<lambda>r. (row_id r, r)) rows)))"
proof -
  let ?kvs = "map (\<lambda>r. (row_id r, row_key schema name r)) rows"
  have "bt.indexes (fold (\<lambda>(r, k). insert_encoded k r) ?kvs bptree_empty) (Map.empty ++ map_of ?kvs)"
    using assms by (intro bt.indexes_build [OF _ bt.indexes_empty]) (simp_all add: comp_def case_prod_beta)
  moreover have "fold (\<lambda>(r, k). insert_encoded k r) ?kvs bptree_empty = index_rows schema name rows bptree_empty"
    by (simp add: index_rows_def fold_map comp_def)
  moreover have "map_of ?kvs = keys_of schema name (map_of (map (\<lambda>r. (row_id r, r)) rows))" by (induction rows) auto
  ultimately show ?thesis by simp
qed

lemma create_index_ok:
  assumes "db_rel b schema ct n db m"
  obtains db' where "create_index name db = (if field_index schema name < 0 then Inl XDLError else Inr (), db')" "db_rel b schema ct n db' m"
    "fst ` set (db_indexes db') = fst ` set (db_indexes db) \<union> (if field_index schema name < 0 then {} else {name})"
proof -
  note d = db_relD [OF assms]
  show thesis
  proof (cases "field_index schema name < 0 \<or> map_of (db_indexes db) name \<noteq> None")
    case True
    have "create_index name db = (if field_index schema name < 0 then Inl XDLError else Inr (), db)"
      using True d(3) by (auto simp: create_index_def bindS_def)
    moreover have "fst ` set (db_indexes db) = fst ` set (db_indexes db) \<union> (if field_index schema name < 0 then {} else {name})"
      using True by (auto simp: map_of_eq_None_iff split: if_splits)
    ultimately show thesis using that [of db] assms by blast
  next
    case False
    obtain R where rel: "db_state b schema ct R n db" "placed R (places (db_index db))" "m = table R (places (db_index db))"
      "indexed schema m (db_indexes db)" by (rule db_relE [OF assms])
    have fi: "0 \<le> field_index schema name" using False by simp
    let ?t = "index_rows schema name (all_rows R n) bptree_empty"
    obtain db1 where b: "build_pages (nat (field_index schema name)) (map word_of_nat [0..<unat n]) bptree_empty db = (Inr ?t, db1)"
      "db_state b schema ct R n db1" "db_index db1 = db_index db" "db_indexes db1 = db_indexes db"
      using build_pages_rows [OF rel(1) fi pages_below, of bptree_empty] by (auto simp: all_rows_def)
    let ?db = "db1\<lparr>db_indexes := (name, ?t) # db_indexes db\<rparr>"
    have run: "create_index name db = (Inr (), ?db)"
      using False d(2,3,5) b(1,4) by (simp add: create_index_def bindS_def)
    have "bt.indexes ?t (keys_of schema name m)"
      using index_rows_indexes [OF all_rows_table(2) [OF rel(1,2)]] all_rows_table(4) [OF rel(1,2)] rel(3) by simp
    then have "indexed schema m (db_indexes ?db)" using rel(4) fi by (simp add: indexed_def)
    then have "db_rel b schema ct n ?db m" using rel(2,3) b unfolding db_rel_def by (intro conjI exI [of _ R]) simp_all
    then show thesis using that [of ?db] run False by auto
  qed
qed

section \<open>Range queries\<close>

abbreviation in_range :: "bytes option \<Rightarrow> bool \<Rightarrow> bytes option \<Rightarrow> bool \<Rightarrow> bytes \<Rightarrow> bool" where
  "in_range lo lo_inc hi hi_inc k \<equiv> above_lo lo lo_inc k \<and> below_hi hi hi_inc k"

text \<open>The fallback: the visitor keeps the rows whose key is in the range.\<close>

lemma range_visitor_row:
  assumes "row_typed schema r" and "0 \<le> field_index schema name" and "ft = fd_type (s_fields schema ! nat (field_index schema name))"
    and "encode_bound lo ft = Inr lo_kb" and "encode_bound hi ft = Inr hi_kb"
  shows "range_visitor (nat (field_index schema name)) ft lo lo_inc hi hi_inc r results
    = Inr (if in_range lo_kb lo_inc hi_kb hi_inc (row_key schema name r) then results @ [r] else results)"
proof -
  note key = row_key_typed [OF assms(1,2)]
  let ?v = "row_fields r ! nat (field_index schema name)" and ?k = "row_key schema name r"
  have cmp: "compare_field_values ?v b ft = bindR (bptree_key_encode_vec b ft) (\<lambda>kb. Inr (bptree_key_compare ?k kb))" for b
    using key(3) assms(3) by (simp add: compare_field_values_def)
  have below: "(case lo of None \<Rightarrow> Inr False | Some b \<Rightarrow> bindR (compare_field_values ?v b ft) (\<lambda>c. Inr (c < 0 \<or> c = 0 \<and> \<not> lo_inc)))
      = Inr (\<not> above_lo lo_kb lo_inc ?k)"
    using assms(4) unfolding cmp
    by (cases lo) (auto simp: encode_bound_def above_lo_def result_simps)
  have above: "(case hi of None \<Rightarrow> Inr False | Some b \<Rightarrow> bindR (compare_field_values ?v b ft) (\<lambda>c. Inr (c > 0 \<or> c = 0 \<and> \<not> hi_inc)))
      = Inr (\<not> below_hi hi_kb hi_inc ?k)"
    using assms(5) unfolding cmp
    by (cases hi) (auto simp: encode_bound_def below_hi_def result_simps)
  show ?thesis unfolding range_visitor_def vec_index_Inr [OF key(2)] bindR_Inr below above by simp
qed

lemma visit_range:
  assumes "\<forall>r \<in> set rows. row_typed schema r" and "0 \<le> field_index schema name" and "ft = fd_type (s_fields schema ! nat (field_index schema name))"
    and "encode_bound lo ft = Inr lo_kb" and "encode_bound hi ft = Inr hi_kb"
  shows "visit_all (range_visitor (nat (field_index schema name)) ft lo lo_inc hi hi_inc) rows results
    = Inr (results @ filter (\<lambda>r. in_range lo_kb lo_inc hi_kb hi_inc (row_key schema name r)) rows)"
  using assms(1)
proof (induction rows arbitrary: results)
  case (Cons r rows)
  then show ?case using range_visitor_row [OF _ assms(2-5), of r] by simp
qed simp

text \<open>The indexed path: the rows are loaded page by page and stored at their place in the result.\<close>

definition assign_all :: "(nat \<times> 'a) list \<Rightarrow> 'a list \<Rightarrow> 'a list" where
  "assign_all = fold (\<lambda>(i, v) xs. xs[i := v])"

lemma assign_all_consistent:
  assumes "\<forall>(i, v) \<in> set us. i < length xs \<and> f i = v"
  shows "length (assign_all us xs) = length xs"
    and "j < length xs \<Longrightarrow> assign_all us xs ! j = (if j \<in> fst ` set us then f j else xs ! j)"
proof -
  have "length (assign_all us xs) = length xs \<and> (\<forall>j < length xs. assign_all us xs ! j = (if j \<in> fst ` set us then f j else xs ! j))"
    using assms
  proof (induction us arbitrary: xs)
    case (Cons u us)
    obtain i v where u: "u = (i, v)" by (cases u)
    have "\<forall>(i', v') \<in> set us. i' < length (xs[i := v]) \<and> f i' = v'" using Cons.prems by auto
    note IH = Cons.IH [OF this]
    have fold: "assign_all (u # us) xs = assign_all us (xs[i := v])" by (simp add: assign_all_def u)
    show ?case unfolding fold using IH Cons.prems u by (auto simp: nth_list_update)
  qed (simp add: assign_all_def)
  then show "length (assign_all us xs) = length xs"
    and "j < length xs \<Longrightarrow> assign_all us xs ! j = (if j \<in> fst ` set us then f j else xs ! j)" by auto
qed

lemma fill_items_rows:
  assumes "page_rel schema page rows" and "\<forall>(i, slot) \<in> set items. i < length results \<and> unat slot < length rows"
  shows "fill_items schema page items results = Inr (assign_all (map (\<lambda>(i, slot). (i, rows ! unat slot)) items) results)"
  using assms(2)
proof (induction items arbitrary: results)
  case (Cons item items)
  obtain i slot where item: "item = (i, slot)" by (cases item)
  have "get_row page slot schema = Inr (rows ! unat slot)" using get_row_page_rel [OF assms(1), of "unat slot"] Cons.prems item by simp
  then show ?case using Cons item by (simp add: assign_all_def)
qed (simp add: assign_all_def)

definition page_assigns :: "layout \<Rightarrow> (u32 \<times> (nat \<times> u32) list) list \<Rightarrow> (nat \<times> Row) list" where
  "page_assigns R bp = concat (map (\<lambda>(pid, items). map (\<lambda>(i, slot). (i, R pid ! unat slot)) items) bp)"

lemma fill_pages_rows:
  assumes "db_state b schema ct R n db" and "\<forall>(pid, items) \<in> set bp. \<forall>(i, slot) \<in> set items. i < length results \<and> unat slot < length (R pid)"
    and "\<forall>(pid, items) \<in> set bp. items \<noteq> []"
  shows "\<exists>db'. fill_pages bp results db = (Inr (assign_all (page_assigns R bp) results), db')
    \<and> db_state b schema ct R n db' \<and> db_index db' = db_index db \<and> db_indexes db' = db_indexes db"
  using assms
proof (induction bp arbitrary: results db)
  case Nil
  then show ?case by (simp add: assign_all_def page_assigns_def)
next
  case (Cons g bp)
  obtain pid items where g: "g = (pid, items)" by (cases g)
  have items: "\<forall>(i, slot) \<in> set items. i < length results \<and> unat slot < length (R pid)" using Cons.prems(2) g by simp
  obtain i slot where "(i, slot) \<in> set items" using Cons.prems(3) g by (cases items) auto
  then have lt: "pid < n" using items store_rel_below [OF db_stateD(5) [OF Cons.prems(1)]] by blast
  obtain p db1 where p: "on_pager (get_page pid) db = (Inr p, db1)" "page_rel schema p (R pid)" "db_state b schema ct R n db1"
    "db_index db1 = db_index db" "db_indexes db1 = db_indexes db" by (rule read_page_ok [OF Cons.prems(1) lt])
  let ?us = "map (\<lambda>(i, slot). (i, R pid ! unat slot)) items"
  have len: "length (assign_all ?us results) = length results"
  proof -
    have "length (assign_all us xs) = length xs" for us and xs :: "Row list"
      by (induction us arbitrary: xs) (auto simp: assign_all_def)
    then show ?thesis by blast
  qed
  obtain db' where "fill_pages bp (assign_all ?us results) db1 = (Inr (assign_all (page_assigns R bp) (assign_all ?us results)), db')"
    "db_state b schema ct R n db'" "db_index db' = db_index db1" "db_indexes db' = db_indexes db1"
    using Cons.IH [OF p(3), of "assign_all ?us results"] Cons.prems(2,3) len by auto
  then show ?case
    using p fill_items_rows [OF p(2) items] db_stateD(3) [OF p(3)] g
    by (intro exI [of _ db']) (simp add: bindS_def assign_all_def page_assigns_def)
qed

text \<open>Grouping by page keeps every location with its place.\<close>

definition items_of :: "(u32 \<times> (nat \<times> u32) list) list \<Rightarrow> (nat \<times> u32 \<times> u32) set" where
  "items_of bp = {(i, pid, slot). \<exists>items. (pid, items) \<in> set bp \<and> (i, slot) \<in> set items}"

lemma items_of_simps [simp]:
  "items_of [] = {}" "items_of ((q, items) # bp) = (\<lambda>(i, slot). (i, q, slot)) ` set items \<union> items_of bp"
  by (auto simp: items_of_def)

lemma items_of_add: "items_of (add_item pid (i, slot) bp) = insert (i, pid, slot) (items_of bp)"
  by (induction pid "(i, slot)" bp rule: add_item.induct) auto

lemma add_item_nonempty: "\<forall>(q, items) \<in> set bp. items \<noteq> [] \<Longrightarrow> \<forall>(q, items) \<in> set (add_item pid item bp). items \<noteq> []"
  by (induction pid item bp rule: add_item.induct) auto

lemma group_by_page_items:
  "items_of (group_by_page k locs bp) = items_of bp \<union> {(k + i, locs ! i) | i. i < length locs}"
proof (induction k locs bp rule: group_by_page.induct)
  case (2 k pid slot locs bp)
  have "{(k + i, ((pid, slot) # locs) ! i) | i. i < Suc (length locs)} = insert (k, pid, slot) {(Suc k + i, locs ! i) | i. i < length locs}"
    by (auto simp: less_Suc_eq_0_disj)
  then show ?case using 2 by (simp add: items_of_add)
qed simp

lemma group_by_page_nonempty:
  "\<forall>(q, items) \<in> set bp. items \<noteq> [] \<Longrightarrow> \<forall>(q, items) \<in> set (group_by_page k locs bp). items \<noteq> []"
  by (induction k locs bp rule: group_by_page.induct) (simp_all add: add_item_nonempty)

lemma page_assigns_items: "set (page_assigns R bp) = (\<lambda>(i, pid, slot). (i, R pid ! unat slot)) ` items_of bp"
proof (induction bp)
  case (Cons b bp)
  obtain pid items where b: "b = (pid, items)" by (cases b)
  have "set (page_assigns R (b # bp)) = (\<lambda>(i, slot). (i, R pid ! unat slot)) ` set items \<union> set (page_assigns R bp)"
    by (simp add: page_assigns_def b)
  then show ?case using Cons b by (simp add: image_Un image_image case_prod_beta)
qed (simp add: page_assigns_def)

lemma fill_locations:
  assumes "db_state b schema ct R n db" and "\<forall>(pid, slot) \<in> set locs. unat slot < length (R pid)"
  obtains db' where "fill_pages (group_by_page 0 locs []) (replicate (length locs) r0) db
      = (Inr (map (\<lambda>(pid, slot). R pid ! unat slot) locs), db')"
    "db_state b schema ct R n db'" "db_index db' = db_index db" "db_indexes db' = db_indexes db"
proof -
  let ?bp = "group_by_page 0 locs []" and ?res = "replicate (length locs) r0"
  have items: "items_of ?bp = {(i, locs ! i) | i. i < length locs}" using group_by_page_items [of 0 locs "[]"] by simp
  have ok: "\<forall>(pid, items) \<in> set ?bp. \<forall>(i, slot) \<in> set items. i < length ?res \<and> unat slot < length (R pid)"
  proof (intro ballI, clarify)
    fix pid its i slot assume "(pid, its) \<in> set ?bp" "(i, slot) \<in> set its"
    then have "(i, pid, slot) \<in> items_of ?bp" by (auto simp: items_of_def)
    then have "i < length locs" "locs ! i = (pid, slot)" unfolding items by auto
    then show "i < length ?res \<and> unat slot < length (R pid)" using assms(2) nth_mem by fastforce
  qed
  have ne: "\<forall>(pid, items) \<in> set ?bp. items \<noteq> []" by (rule group_by_page_nonempty) simp
  obtain db' where f: "fill_pages ?bp ?res db = (Inr (assign_all (page_assigns R ?bp) ?res), db')"
    "db_state b schema ct R n db'" "db_index db' = db_index db" "db_indexes db' = db_indexes db"
    using fill_pages_rows [OF assms(1) ok ne] by blast
  let ?f = "\<lambda>i. case locs ! i of (pid, slot) \<Rightarrow> R pid ! unat slot"
  have us: "set (page_assigns R ?bp) = (\<lambda>i. (i, ?f i)) ` {i. i < length locs}"
    unfolding page_assigns_items items by (force simp: image_iff case_prod_beta)
  have "\<forall>(i, v) \<in> set (page_assigns R ?bp). i < length ?res \<and> ?f i = v" unfolding us by auto
  note a = assign_all_consistent [where f = ?f, OF this]
  have "assign_all (page_assigns R ?bp) ?res = map (\<lambda>(pid, slot). R pid ! unat slot) locs"
    by (rule nth_equalityI) (use a in \<open>auto simp: us image_image\<close>)
  then show thesis using that f by simp
qed

text \<open>The ids an index returns for a range: each indexed row in it once, in the order of the keys.\<close>

lemma concat_ids:
  assumes "sorted_wrt (<) (map key_data es)" and "\<forall>e \<in> set es. distinct (ids e)" and "\<forall>e \<in> set es. \<forall>i \<in> set (ids e). f i = key_data e"
  shows "distinct (concat (map ids es))" and "sorted (map f (concat (map ids es)))"
proof -
  have "distinct (concat (map ids es)) \<and> sorted (map f (concat (map ids es)))" using assms
  proof (induction es)
    case (Cons e es)
    have less: "key_data e < key_data e'" if "e' \<in> set es" for e' using Cons.prems(1) that by simp
    have same: "map f (ids e) = replicate (length (ids e)) (key_data e)" using Cons.prems(3) by (simp add: map_replicate_const [symmetric])
    have above: "key_data e < f i" if "i \<in> set (concat (map ids es))" for i using that less Cons.prems(3) by auto
    then have "set (ids e) \<inter> set (concat (map ids es)) = {}" using Cons.prems(3) by fastforce
    then show ?case using Cons same above by (auto simp: sorted_append order_less_imp_le)
  qed simp
  then show "distinct (concat (map ids es))" and "sorted (map f (concat (map ids es)))" by auto
qed

lemma range_ids:
  assumes "bt.indexes t K" and "es = range_encoded t lo lo_inc hi hi_inc"
  shows "set (concat (map ids es)) = {i. \<exists>k. K i = Some k \<and> in_range lo lo_inc hi hi_inc k}"
    and "distinct (concat (map ids es))" and "sorted (map (\<lambda>i. the (K i)) (concat (map ids es)))"
proof -
  have inv: "bt_inv t" and keys: "i \<in> bt_ids t k \<longleftrightarrow> K i = Some k" for i k using assms(1) by (auto simp: bt.indexes_def)
  have es: "es = filter (\<lambda>e. in_range lo lo_inc hi hi_inc (key_data e)) (bt_entries t)" using assms(2) range_encoded_filter [OF inv] by simp
  have key: "K i = Some (key_data e)" if "e \<in> set (bt_entries t)" "i \<in> set (ids e)" for e i
    using that keys by (auto simp: bt_ids_def)
  show "set (concat (map ids es)) = {i. \<exists>k. K i = Some k \<and> in_range lo lo_inc hi hi_inc k}"
  proof
    show "set (concat (map ids es)) \<subseteq> {i. \<exists>k. K i = Some k \<and> in_range lo lo_inc hi hi_inc k}" using key unfolding es by auto
    show "{i. \<exists>k. K i = Some k \<and> in_range lo lo_inc hi hi_inc k} \<subseteq> set (concat (map ids es))"
    proof
      fix i assume "i \<in> {i. \<exists>k. K i = Some k \<and> in_range lo lo_inc hi hi_inc k}"
      then obtain k where k: "i \<in> bt_ids t k" "in_range lo lo_inc hi hi_inc k" using keys by auto
      then obtain e where "e \<in> set (bt_entries t)" "key_data e = k" "i \<in> set (ids e)" by (auto simp: bt_ids_def)
      then show "i \<in> set (concat (map ids es))" using k(2) unfolding es by auto
    qed
  qed
  have "sorted_wrt (<) (map key_data es)" unfolding es using inv by (intro sorted_filter_entries) (simp add: bt_inv_def)
  moreover have "\<forall>e \<in> set es. distinct (ids e)" using inv unfolding es by (simp add: bt_inv_def)
  moreover have "\<forall>e \<in> set es. \<forall>i \<in> set (ids e). the (K i) = key_data e" using key unfolding es by fastforce
  ultimately show "distinct (concat (map ids es))" and "sorted (map (\<lambda>i. the (K i)) (concat (map ids es)))" by (rule concat_ids)+
qed

lemma index_locations_places:
  assumes "\<forall>i \<in> set (concat (map ids es)). places idx i \<noteq> None"
  shows "index_locations idx es = map (\<lambda>i. the (places idx i)) (concat (map ids es))"
proof -
  have one: "List.map_filter (\<lambda>i. map_option (\<lambda>entry. (ie_page_id entry, ie_row_slot entry)) (im_find idx i)) rids = map (\<lambda>i. the (places idx i)) rids"
    if "\<forall>i \<in> set rids. places idx i \<noteq> None" for rids
    using that by (induction rids) (auto simp: List.map_filter_simps places_def)
  show ?thesis using assms by (induction es) (simp_all add: index_locations_def one)
qed

text \<open>What a range query over the map returns.\<close>

definition rows_in_range :: "Schema \<Rightarrow> string \<Rightarrow> bytes option \<Rightarrow> bool \<Rightarrow> bytes option \<Rightarrow> bool \<Rightarrow> (u32 \<rightharpoonup> Row) \<Rightarrow> Row set" where
  "rows_in_range schema name lo lo_inc hi hi_inc m = {r \<in> ran m. in_range lo lo_inc hi hi_inc (row_key schema name r)}"

lemma indexed_query:
  assumes "db_rel b schema ct n db m" and "map_of (db_indexes db) name = Some t" and "es = range_encoded t lo lo_inc hi hi_inc"
  obtains rows db' where "bindS (on_primary (getS (\<lambda>i. index_locations i es))) (\<lambda>locs.
        fill_pages (group_by_page 0 locs []) (replicate (length locs) r0)) db = (Inr rows, db')"
    "db_rel b schema ct n db' m" "set rows = rows_in_range schema name lo lo_inc hi hi_inc m" "distinct (map row_id rows)"
    "sorted (map (row_key schema name) rows)"
proof -
  obtain R where rel: "db_state b schema ct R n db" "placed R (places (db_index db))" "m = table R (places (db_index db))"
    "indexed schema m (db_indexes db)" by (rule db_relE [OF assms(1)])
  let ?K = "keys_of schema name m" and ?P = "places (db_index db)"
  define qs where "qs = concat (map ids es)"
  have "bt.indexes t ?K" using rel(4) map_of_SomeD [OF assms(2)] by (auto simp: indexed_def)
  note r = range_ids [OF this assms(3), folded qs_def]
  have some: "\<exists>row. m i = Some row \<and> in_range lo lo_inc hi hi_inc (row_key schema name row)" if "i \<in> set qs" for i
    using that unfolding r(1) by auto
  have placed_qs: "\<forall>i \<in> set qs. ?P i \<noteq> None" using some rel(3) by (force simp: table_def)
  define locs where "locs = map (\<lambda>i. the (?P i)) qs"
  have locs: "index_locations (db_index db) es = locs" unfolding locs_def qs_def by (rule index_locations_places) (use placed_qs qs_def in simp)
  have "\<forall>(pid, slot) \<in> set locs. unat slot < length (R pid)" using placed_qs placedD(1) [OF rel(2)] by (auto simp: locs_def)
  then obtain db' where f: "fill_pages (group_by_page 0 locs []) (replicate (length locs) r0) db = (Inr (map (\<lambda>(pid, slot). R pid ! unat slot) locs), db')"
    "db_state b schema ct R n db'" "db_index db' = db_index db" "db_indexes db' = db_indexes db"
    by (rule fill_locations [OF rel(1)])
  have rows: "map (\<lambda>(pid, slot). R pid ! unat slot) locs = map (\<lambda>i. the (m i)) qs"
    using placed_qs by (auto simp: locs_def rel(3) table_def)
  have id_row: "row_id (the (m i)) = i" if "i \<in> set qs" for i using some [OF that] stored_row_ok(2) [OF assms(1)] by auto
  have sets: "set (map (\<lambda>i. the (m i)) qs) = rows_in_range schema name lo lo_inc hi hi_inc m"
  proof
    show "set (map (\<lambda>i. the (m i)) qs) \<subseteq> rows_in_range schema name lo lo_inc hi hi_inc m"
      using some by (fastforce simp: rows_in_range_def intro: ranI)
    show "rows_in_range schema name lo lo_inc hi hi_inc m \<subseteq> set (map (\<lambda>i. the (m i)) qs)"
    proof
      fix row assume "row \<in> rows_in_range schema name lo lo_inc hi hi_inc m"
      then obtain i where i: "m i = Some row" "in_range lo lo_inc hi hi_inc (row_key schema name row)" by (auto simp: rows_in_range_def ran_def)
      then have "i \<in> set qs" unfolding r(1) by auto
      then show "row \<in> set (map (\<lambda>i. the (m i)) qs)" using i(1) by force
    qed
  qed
  have rids: "map row_id (map (\<lambda>i. the (m i)) qs) = qs" using id_row by (simp add: map_idI)
  have keys: "map (row_key schema name) (map (\<lambda>i. the (m i)) qs) = map (\<lambda>i. the (?K i)) qs" using some by fastforce
  have run: "bindS (on_primary (getS (\<lambda>i. index_locations i es))) (\<lambda>locs.
        fill_pages (group_by_page 0 locs []) (replicate (length locs) r0)) db = (Inr (map (\<lambda>i. the (m i)) qs), db')"
    using f(1) locs rows db_stateD(2) [OF rel(1)] by (simp add: bindS_def)
  show thesis
    by (rule that [OF run db_rel_read [OF assms(1) rel(1-3) f(2-4)] sets]) (simp_all only: rids keys r(2,3))
qed

lemma satisfies_Nil [simp]: "satisfies [] schema r"
  by (simp add: satisfies_def)

lemma index_range_scan_ok:
  assumes "db_rel b schema ct n db m" and "0 \<le> field_index schema name" and "ft = fd_type (s_fields schema ! nat (field_index schema name))"
    and "encode_bound lo ft = Inr lo_kb" and "encode_bound hi ft = Inr hi_kb"
  obtains rows db' where "index_range_scan name lo lo_inc hi hi_inc db = (Inr rows, db')" "db_rel b schema ct n db' m"
    "set rows = rows_in_range schema name lo_kb lo_inc hi_kb hi_inc m" "distinct (map row_id rows)"
    "name \<in> fst ` set (db_indexes db) \<longrightarrow> sorted (map (row_key schema name) rows)"
proof -
  note d = db_relD [OF assms(1)]
  have fi: "nat (field_index schema name) < length (s_fields schema)" using field_index_nonneg [OF assms(2)] by simp
  show thesis
  proof (cases "map_of (db_indexes db) name")
    case None
    obtain R where rel: "db_state b schema ct R n db" "placed R (places (db_index db))" "m = table R (places (db_index db))"
      by (rule db_relE [OF assms(1)])
    note all = all_rows_table [OF rel(1,2)]
    let ?v = "range_visitor (nat (field_index schema name)) ft lo lo_inc hi hi_inc"
    let ?rows = "filter (\<lambda>r. in_range lo_kb lo_inc hi_kb hi_inc (row_key schema name r)) (all_rows R n)"
    obtain db' where s: "scan_unlocked ?v [] [] db = (visit_all ?v (filter (satisfies [] schema) (all_rows R n)) [], db')"
      "db_state b schema ct R n db'" "db_index db' = db_index db" "db_indexes db' = db_indexes db"
      by (rule scan_unlocked_rows [OF rel(1)])
    have "visit_all ?v (filter (satisfies [] schema) (all_rows R n)) [] = Inr ?rows"
      using visit_range [OF all(3) assms(2-5)] by simp
    then have "index_range_scan name lo lo_inc hi hi_inc db = (Inr ?rows, db')"
      using None d(3) fi assms(2,3) s(1) by (simp add: index_range_scan_def bindS_def Let_def)
    moreover have "set ?rows = rows_in_range schema name lo_kb lo_inc hi_kb hi_inc m" using all(1) rel(3) by (auto simp: rows_in_range_def)
    moreover have "distinct (map row_id ?rows)" using all(2) by (rule distinct_map_filter)
    moreover have "name \<notin> fst ` set (db_indexes db)" using None by (simp add: map_of_eq_None_iff)
    ultimately show thesis using that db_rel_read [OF assms(1) rel s(2-4)] by blast
  next
    case (Some t)
    let ?es = "range_encoded t lo_kb lo_inc hi_kb hi_inc"
    have scan: "range_scan t lo ft lo_inc hi ft hi_inc = Inr ?es" using assms(4,5) by (simp add: range_scan_def)
    obtain rows db' where q: "bindS (on_primary (getS (\<lambda>i. index_locations i ?es))) (\<lambda>locs.
          fill_pages (group_by_page 0 locs []) (replicate (length locs) \<lparr>row_id = 0, row_fields = []\<rparr>)) db = (Inr rows, db')"
      "db_rel b schema ct n db' m" "set rows = rows_in_range schema name lo_kb lo_inc hi_kb hi_inc m" "distinct (map row_id rows)"
      "sorted (map (row_key schema name) rows)"
      by (rule indexed_query [OF assms(1) Some refl])
    have "index_range_scan name lo lo_inc hi hi_inc db = (Inr rows, db')"
      using Some d(3) fi assms(2,3) scan q(1) by (simp add: index_range_scan_def bindS_def Let_def)
    then show thesis using that q by blast
  qed
qed

lemma scan_ok:
  assumes "db_rel True schema ct n db m"
  obtains rows where "\<forall>visitor acc. \<exists>db'. scan visitor flt acc db = (visit_all visitor rows acc, db') \<and> db_rel True schema ct n db' m"
    "set rows = {r \<in> ran m. satisfies flt schema r}" "distinct (map row_id rows)"
proof -
  obtain R where rel: "db_state True schema ct R n db" "placed R (places (db_index db))" "m = table R (places (db_index db))"
    by (rule db_relE [OF assms])
  note all = all_rows_table [OF rel(1,2)]
  let ?rows = "filter (satisfies flt schema) (all_rows R n)"
  have visits: "\<exists>db'. scan visitor flt acc db = (visit_all visitor ?rows acc, db') \<and> db_rel True schema ct n db' m" for visitor :: "'v visitor" and acc
  proof -
    obtain db' where s: "scan_unlocked visitor flt acc db = (visit_all visitor ?rows acc, db')"
      "db_state True schema ct R n db'" "db_index db' = db_index db" "db_indexes db' = db_indexes db" by (rule scan_unlocked_rows [OF rel(1)])
    then show ?thesis using require_open_apply(1) [OF db_rel_open [OF assms]] db_rel_read [OF assms rel s(2-4)]
      by (simp add: scan_def bindS_def)
  qed
  have "set ?rows = {r \<in> ran m. satisfies flt schema r}" using all(1) rel(3) by auto
  moreover have "distinct (map row_id ?rows)" using all(2) by (rule distinct_map_filter)
  ultimately show thesis using visits by (intro that allI)
qed

lemma scan_all_ok:
  assumes "db_rel True schema ct n db m"
  obtains rows db' where "scan_all flt db = (Inr rows, db')" "db_rel True schema ct n db' m"
    "set rows = {r \<in> ran m. satisfies flt schema r}" "distinct (map row_id rows)"
proof -
  obtain rows where r: "\<forall>(visitor :: Row list visitor) acc. \<exists>db'. scan visitor flt acc db = (visit_all visitor rows acc, db') \<and> db_rel True schema ct n db' m"
    "set rows = {r \<in> ran m. satisfies flt schema r}" "distinct (map row_id rows)" by (rule scan_ok [OF assms, of flt])
  obtain db' where "scan_all flt db = (visit_all (\<lambda>r results. Inr (results @ [r])) rows [], db')" "db_rel True schema ct n db' m"
    using r(1) unfolding scan_all_def by blast
  then show thesis using that [of rows db'] r(2,3) by (simp add: visit_collect)
qed

lemma drop_index_ok:
  assumes "db_rel b schema ct n db m"
  obtains db' where "drop_index name db = (Inr (), db')" "db_rel b schema ct n db' m" "fst ` set (db_indexes db') = fst ` set (db_indexes db) - {name}"
proof -
  let ?db = "db\<lparr>db_indexes := filter (\<lambda>(k, _). k \<noteq> name) (db_indexes db)\<rparr>"
  have "db_rel b schema ct n ?db m" using assms by (auto simp: db_rel_def indexed_def)
  then show thesis using that [of ?db] by (force simp: drop_index_def)
qed

end
