(* ===== verification/Db_Refinement.thy ===== *)
theory Db_Refinement
  imports Db_Queries
begin

text \<open>
  The database refines a map from row ids to rows: the specification of the public operations on such a
  map, and the proof that every operation takes related states to related states and returns, or
  throws, what the specification says.
\<close>

section \<open>The specification\<close>

text \<open>
  What the operations do to a map from ids to rows. A batch is checked as a whole before
  anything changes; \<open>first_error\<close> is the first complaint of such a check, which knows the ids seen so far.
\<close>

type_synonym rows_map = "u32 \<rightharpoonup> Row"

definition insert_error :: "Schema \<Rightarrow> rows_map \<Rightarrow> u32 list \<Rightarrow> Row \<Rightarrow> xdl_error option" where
  "insert_error schema m seen r =
     (if length (row_fields r) \<noteq> length (s_fields schema) then Some XDLError
      else if m (row_id r) \<noteq> None \<or> row_id r \<in> set seen then Some DuplicateKeyError
      else if \<not> storable_row schema r then Some XDLError else None)"

definition erase_error :: "rows_map \<Rightarrow> u32 list \<Rightarrow> u32 \<Rightarrow> xdl_error option" where
  "erase_error m seen i =
     (if i \<in> set seen then Some DuplicateKeyError else if m i = None then Some NotFoundError else None)"

definition update_error :: "Schema \<Rightarrow> rows_map \<Rightarrow> u32 list \<Rightarrow> Row \<Rightarrow> xdl_error option" where
  "update_error schema m seen r =
     (if length (row_fields r) \<noteq> length (s_fields schema) then Some XDLError
      else if row_id r \<in> set seen then Some DuplicateKeyError
      else if m (row_id r) = None then Some NotFoundError
      else if \<not> storable_row schema r then Some XDLError else None)"

fun first_error :: "(u32 list \<Rightarrow> 'a \<Rightarrow> xdl_error option) \<Rightarrow> ('a \<Rightarrow> u32) \<Rightarrow> 'a list \<Rightarrow> u32 list \<Rightarrow> xdl_error option" where
  "first_error err key [] seen = None"
| "first_error err key (x # xs) seen = (case err seen x of Some e \<Rightarrow> Some e | None \<Rightarrow> first_error err key xs (key x # seen))"

definition put_row :: "Row \<Rightarrow> rows_map \<Rightarrow> rows_map" where
  "put_row r m = m(row_id r \<mapsto> r)"

definition drop_row :: "u32 \<Rightarrow> rows_map \<Rightarrow> rows_map" where
  "drop_row i m = m(i := None)"

datatype db_op =
    DbInsert Row | DbInsertBatch "Row list" | DbErase u32 | DbEraseBatch "u32 list" | DbUpdate Row | DbUpdateBatch "Row list"
  | DbGet u32 | DbTryGet u32 | DbScan ScanFilter | DbRange string "FieldValue option" bool "FieldValue option" bool
  | DbCreateIndex string | DbDropIndex string | DbCheckpoint

datatype db_answer = Done | Count nat | Found Row | Maybe "Row option" | Rows "Row set"

text \<open>The key a bound of a range query stands for.\<close>

definition bound_key :: "Schema \<Rightarrow> string \<Rightarrow> FieldValue option \<Rightarrow> bytes option" where
  "bound_key schema name bound = (case encode_bound bound (fd_type (s_fields schema ! nat (field_index schema name))) of Inr kb \<Rightarrow> kb | Inl _ \<Rightarrow> None)"

definition guarded :: "xdl_error option \<Rightarrow> db_answer \<Rightarrow> rows_map \<Rightarrow> rows_map \<Rightarrow> db_answer result \<times> rows_map" where
  "guarded err answer m' m = (case err of Some e \<Rightarrow> (Inl e, m) | None \<Rightarrow> (Inr answer, m'))"

fun map_call :: "Schema \<Rightarrow> db_op \<Rightarrow> rows_map \<Rightarrow> db_answer result \<times> rows_map" where
  "map_call schema (DbInsert r) m = guarded (insert_error schema m [] r) Done (put_row r m) m"
| "map_call schema (DbInsertBatch rs) m =
     guarded (first_error (insert_error schema m) row_id rs []) (Count (length rs)) (fold put_row rs m) m"
| "map_call schema (DbErase i) m = guarded (erase_error m [] i) Done (drop_row i m) m"
| "map_call schema (DbEraseBatch is) m =
     guarded (first_error (erase_error m) id is []) (Count (length is)) (fold drop_row is m) m"
| "map_call schema (DbUpdate r) m =
     guarded (if m (row_id r) = None then Some NotFoundError else if storable_row schema r then None else Some XDLError)
       Done (put_row r m) m"
| "map_call schema (DbUpdateBatch rs) m =
     guarded (first_error (update_error schema m) row_id rs []) (Count (length rs)) (fold put_row rs m) m"
| "map_call schema (DbGet i) m = (case m i of None \<Rightarrow> (Inl NotFoundError, m) | Some r \<Rightarrow> (Inr (Found r), m))"
| "map_call schema (DbTryGet i) m = (Inr (Maybe (m i)), m)"
| "map_call schema (DbScan flt) m = (Inr (Rows {r \<in> ran m. satisfies flt schema r}), m)"
| "map_call schema (DbRange name lo lo_inc hi hi_inc) m =
     (if field_index schema name < 0 then (Inl XDLError, m)
      else (Inr (Rows (rows_in_range schema name (bound_key schema name lo) lo_inc (bound_key schema name hi) hi_inc m)), m))"
| "map_call schema (DbCreateIndex name) m = (if field_index schema name < 0 then Inl XDLError else Inr Done, m)"
| "map_call schema (DbDropIndex name) m = (Inr Done, m)"
| "map_call schema DbCheckpoint m = (Inr Done, m)"

definition answer :: "('a \<Rightarrow> db_answer) \<Rightarrow> (DB, 'a) prog \<Rightarrow> (DB, db_answer) prog" where
  "answer f m = bindS m (\<lambda>x. returnS (f x))"

fun db_call :: "db_op \<Rightarrow> (DB, db_answer) prog" where
  "db_call (DbInsert r) = answer (\<lambda>_. Done) (db_insert r)"
| "db_call (DbInsertBatch rs) = answer Count (insert_batch rs)"
| "db_call (DbErase i) = answer (\<lambda>_. Done) (db_erase i)"
| "db_call (DbEraseBatch is) = answer Count (erase_batch is)"
| "db_call (DbUpdate r) = answer (\<lambda>_. Done) (db_update r)"
| "db_call (DbUpdateBatch rs) = answer Count (update_batch rs)"
| "db_call (DbGet i) = answer Found (db_get i)"
| "db_call (DbTryGet i) = answer Maybe (try_get i)"
| "db_call (DbScan flt) = answer (\<lambda>rows. Rows (set rows)) (scan_all flt)"
| "db_call (DbRange name lo lo_inc hi hi_inc) = answer (\<lambda>rows. Rows (set rows)) (index_range_scan name lo lo_inc hi hi_inc)"
| "db_call (DbCreateIndex name) = answer (\<lambda>_. Done) (create_index name)"
| "db_call (DbDropIndex name) = answer (\<lambda>_. Done) (drop_index name)"
| "db_call DbCheckpoint = answer (\<lambda>_. Done) checkpoint"

text \<open>The rows an operation may add, and the rows it may be given.\<close>

fun op_rows :: "db_op \<Rightarrow> Row list" where
  "op_rows (DbInsert r) = [r]"
| "op_rows (DbInsertBatch rs) = rs"
| "op_rows (DbUpdate r) = [r]"
| "op_rows (DbUpdateBatch rs) = rs"
| "op_rows _ = []"

definition typed_bound :: "Schema \<Rightarrow> string \<Rightarrow> FieldValue option \<Rightarrow> bool" where
  "typed_bound schema name bound \<longleftrightarrow> (case bound of None \<Rightarrow> True
     | Some v \<Rightarrow> value_has_type (fd_type (s_fields schema ! nat (field_index schema name))) v)"

definition good_row :: "Schema \<Rightarrow> CompressionType \<Rightarrow> Row \<Rightarrow> bool" where
  "good_row schema ct r \<longleftrightarrow> row_size r < 2 ^ 32 \<and> (storable_row schema r \<longrightarrow> fitting_row schema ct r)"

fun good_op :: "Schema \<Rightarrow> CompressionType \<Rightarrow> db_op \<Rightarrow> bool" where
  "good_op schema ct (DbRange name lo _ hi _) = (typed_bound schema name lo \<and> typed_bound schema name hi)"
| "good_op schema ct oper = list_all (good_row schema ct) (op_rows oper)"

text \<open>
  The changes an operation makes row by row, in the order in which it logs them; \<open>None\<close> for an operation that logs nothing.
\<close>

datatype row_change = Put Row | Drop u32

abbreviation unless :: "xdl_error option \<Rightarrow> row_change list \<Rightarrow> row_change list option" where
  "unless err cs \<equiv> Some (if err = None then cs else [])"

definition replacement :: "Row \<Rightarrow> row_change list" where
  "replacement r = [Drop (row_id r), Put r]"

fun op_changes :: "Schema \<Rightarrow> db_op \<Rightarrow> rows_map \<Rightarrow> row_change list option" where
  "op_changes schema (DbInsert r) m = unless (insert_error schema m [] r) [Put r]"
| "op_changes schema (DbInsertBatch rs) m = unless (first_error (insert_error schema m) row_id rs []) (map Put rs)"
| "op_changes schema (DbErase i) m = unless (erase_error m [] i) [Drop i]"
| "op_changes schema (DbEraseBatch is) m = unless (first_error (erase_error m) id is []) (map Drop is)"
| "op_changes schema (DbUpdate r) m = Some (if m (row_id r) \<noteq> None \<and> storable_row schema r then replacement r else [])"
| "op_changes schema (DbUpdateBatch rs) m = unless (first_error (update_error schema m) row_id rs []) (concat (map replacement rs))"
| "op_changes _ _ _ = None"

fun records :: "row_change \<Rightarrow> log_entry \<Rightarrow> bool" where
  "records (Put r) (Inserted r' _ _) = (r' = r)"
| "records (Drop i) (Deleted j _ _) = (j = i)"
| "records _ _ = False"

definition logs_changes :: "row_change list \<Rightarrow> DB \<Rightarrow> DB \<Rightarrow> bool" where
  "logs_changes cs db db' \<longleftrightarrow> (\<exists>es. list_all2 records cs es \<and> logs es (db_wal db) (db_wal db'))"

lemma logs_changes_Nil: "logs [] (db_wal db) (db_wal db') \<Longrightarrow> logs_changes [] db db'"
  by (auto simp: logs_changes_def)

lemma logs_changes_refl [simp]: "logs_changes [] db db"
  by (rule logs_changes_Nil) simp

lemma logs_changes_trans: "logs_changes cs db db1 \<Longrightarrow> logs_changes cs' db1 db2 \<Longrightarrow> logs_changes (cs @ cs') db db2"
  unfolding logs_changes_def by (metis list_all2_appendI logs_trans)

lemma logs_changes_sync: "logs_changes cs db db1 \<Longrightarrow> logs [] (db_wal db1) (db_wal db2) \<Longrightarrow> logs_changes cs db db2"
  using logs_changes_trans [OF _ logs_changes_Nil, of cs db db1 db2] by simp

lemma logs_changes_entry:
  "\<exists>pid slot. logs [Inserted r pid slot] (db_wal db) (db_wal db') \<Longrightarrow> logs_changes [Put r] db db'"
  "\<exists>pid slot. logs [Deleted i pid slot] (db_wal db) (db_wal db') \<Longrightarrow> logs_changes [Drop i] db db'"
  unfolding logs_changes_def by (metis list_all2_Cons list_all2_Nil records.simps(1), metis list_all2_Cons list_all2_Nil records.simps(2))

section \<open>Public operations\<close>

lemma row_need_error:
  assumes "length (row_fields r) = length (s_fields schema)" and "\<not> storable_row schema r" and "row_size r < 2 ^ 32"
  shows "serialised_row_size r schema = Inl XDLError \<or> (\<exists>need > PAGE_SIZE. serialised_row_size r schema = Inr need)"
proof (cases "row_typed schema r")
  case True
  then have "PAGE_SIZE < (word_of_nat (row_size r) :: u32)"
    using assms(2,3) by (simp add: storable_row_def word_less_nat_alt unat_of_nat)
  then show ?thesis using row_byte_size_typed [OF True] by (auto simp: serialised_row_size_def)
next
  case False
  then show ?thesis using assms(1) fields_byte_size_error by (simp add: serialised_row_size_def row_byte_size_def row_typed_def)
qed

lemma row_check:
  assumes "length (row_fields r) = length (s_fields schema)" and "row_size r < 2 ^ 32"
  shows "bindS (liftR (serialised_row_size r schema)) (\<lambda>need. if need > PAGE_SIZE then throwS XDLError else k) db
    = (if storable_row schema r then k db else (Inl XDLError, db))"
  using row_need [of schema r] row_need_error [OF assms(1) _ assms(2)] by (auto simp: bindS_def)

abbreviation verdict :: "xdl_error option \<Rightarrow> unit result" where
  "verdict err \<equiv> (case err of Some e \<Rightarrow> Inl e | None \<Rightarrow> Inr ())"

lemma validate_inserts_ok:
  assumes "db_rel True schema ct n db m" and "\<forall>r \<in> set rs. row_size r < 2 ^ 32"
  shows "validate_inserts rs seen db = (verdict (first_error (insert_error schema m) row_id rs seen), db)"
  using assms(2)
proof (induction rs arbitrary: seen)
  case (Cons r rs)
  note d = db_relD [OF assms(1)]
  show ?case
  proof (cases "length (row_fields r) = length (s_fields schema) \<and> m (row_id r) = None \<and> row_id r \<notin> set seen")
    case True
    then have "im_find (db_index db) (row_id r) = None" using d(4) by simp
    then have "validate_inserts (r # rs) seen db = (if storable_row schema r then validate_inserts rs (row_id r # seen) db else (Inl XDLError, db))"
      using d(2,3) True Cons.prems row_check [of r schema "validate_inserts rs (row_id r # seen)" db] by (simp add: bindS_def)
    then show ?thesis using Cons True by (simp add: insert_error_def)
  next
    case False
    then show ?thesis using d(2,3,4) by (auto simp: bindS_def insert_error_def)
  qed
qed simp

lemma validate_erases_ok:
  assumes "db_rel True schema ct n db m"
  shows "validate_erases rids seen db = (verdict (first_error (erase_error m) id rids seen), db)"
  using db_relD(2,4) [OF assms] by (induction rids arbitrary: seen) (auto simp: bindS_def erase_error_def)

lemma validate_updates_ok:
  assumes "db_rel True schema ct n db m" and "\<forall>r \<in> set rs. row_size r < 2 ^ 32"
  shows "validate_updates rs seen db = (verdict (first_error (update_error schema m) row_id rs seen), db)"
  using assms(2)
proof (induction rs arbitrary: seen)
  case (Cons r rs)
  note d = db_relD [OF assms(1)]
  show ?case
  proof (cases "length (row_fields r) = length (s_fields schema) \<and> m (row_id r) \<noteq> None \<and> row_id r \<notin> set seen")
    case True
    then obtain e old where "im_find (db_index db) (row_id r) = Some e" and old: "m (row_id r) = Some old" using d(6) by blast
    then have "validate_updates (r # rs) seen db = (if storable_row schema r then validate_updates rs (row_id r # seen) db else (Inl XDLError, db))"
      using d(2,3) True Cons.prems row_check [of r schema "validate_updates rs (row_id r # seen)" db] by (simp add: bindS_def)
    then show ?thesis using Cons True old by (simp add: update_error_def)
  next
    case False
    then show ?thesis using d(2,3,4) by (auto simp: bindS_def update_error_def)
  qed
qed simp

lemma storable_length: "storable_row schema r \<Longrightarrow> length (row_fields r) = length (s_fields schema)"
  using row_typed_length by (simp add: storable_row_def)

lemma first_error_None:
  "first_error (insert_error schema m) row_id rs seen = None \<longleftrightarrow>
     (\<forall>r \<in> set rs. storable_row schema r \<and> m (row_id r) = None \<and> row_id r \<notin> set seen) \<and> distinct (map row_id rs)"
  "first_error (erase_error m) id is seen = None \<longleftrightarrow> (\<forall>i \<in> set is. m i \<noteq> None \<and> i \<notin> set seen) \<and> distinct is"
  "first_error (update_error schema m) row_id rs seen = None \<longleftrightarrow>
     (\<forall>r \<in> set rs. storable_row schema r \<and> m (row_id r) \<noteq> None \<and> row_id r \<notin> set seen) \<and> distinct (map row_id rs)"
proof -
  show "first_error (insert_error schema m) row_id rs seen = None \<longleftrightarrow>
     (\<forall>r \<in> set rs. storable_row schema r \<and> m (row_id r) = None \<and> row_id r \<notin> set seen) \<and> distinct (map row_id rs)"
    by (induction rs arbitrary: seen) (auto simp: insert_error_def storable_length image_iff)
  show "first_error (erase_error m) id is seen = None \<longleftrightarrow> (\<forall>i \<in> set is. m i \<noteq> None \<and> i \<notin> set seen) \<and> distinct is"
    by (induction "is" arbitrary: seen) (auto simp: erase_error_def)
  show "first_error (update_error schema m) row_id rs seen = None \<longleftrightarrow>
     (\<forall>r \<in> set rs. storable_row schema r \<and> m (row_id r) \<noteq> None \<and> row_id r \<notin> set seen) \<and> distinct (map row_id rs)"
    by (induction rs arbitrary: seen) (auto simp: update_error_def storable_length image_iff)
qed

lemma next_count: "n' \<in> {n, n + 1} \<Longrightarrow> unat n' \<le> unat n + 1" for n n' :: u32
  by (auto simp: unat_word_ariths)

lemma count_room: "unat n + Suc k < 2 ^ 32 \<Longrightarrow> n \<noteq> -1" for n :: u32
  by (auto simp: unsigned_minus_1_eq_mask mask_eq_exp_minus_1)

lemma insert_each_ok:
  assumes "db_rel True schema ct n db m" and "\<forall>r \<in> set rs. fitting_row schema ct r \<and> m (row_id r) = None" and "distinct (map row_id rs)"
    and "unat n + length rs < 2 ^ 32"
  shows "\<exists>db' n'. insert_each rs db = (Inr (), db') \<and> db_rel True schema ct n' db' (fold put_row rs m) \<and> unat n' \<le> unat n + length rs
    \<and> map fst (db_indexes db') = map fst (db_indexes db) \<and> logs_changes (map Put rs) db db'"
  using assms
proof (induction rs arbitrary: n db m)
  case Nil
  then show ?case by auto
next
  case (Cons r rs)
  have room: "n \<noteq> -1" using Cons.prems(4) by (intro count_room) simp
  obtain db1 n1 where i: "insert_unlocked r False db = (Inr (), db1)" "db_rel True schema ct n1 db1 (m(row_id r \<mapsto> r))" "n1 \<in> {n, n + 1}"
    "map fst (db_indexes db1) = map fst (db_indexes db)" "\<exists>pid slot. logs [Inserted r pid slot] (db_wal db) (db_wal db1)"
    by (rule insert_unlocked_ok [OF Cons.prems(1) _ _ room, of r]) (use Cons.prems(2) in simp_all)
  have n1: "unat n1 \<le> unat n + 1" by (rule next_count [OF i(3)])
  have rel: "db_rel True schema ct n1 db1 (put_row r m)" using i(2) by (simp add: put_row_def)
  have rest: "\<forall>q \<in> set rs. fitting_row schema ct q \<and> put_row r m (row_id q) = None" "distinct (map row_id rs)" "unat n1 + length rs < 2 ^ 32"
    using Cons.prems n1 by (auto simp: put_row_def image_iff)
  obtain db' n' where "insert_each rs db1 = (Inr (), db')" "db_rel True schema ct n' db' (fold put_row rs (put_row r m))"
    "unat n' \<le> unat n1 + length rs" "map fst (db_indexes db') = map fst (db_indexes db1)" "logs_changes (map Put rs) db1 db'"
    using Cons.IH [OF rel rest] by blast
  then show ?case using i(1,4) n1 logs_changes_trans [OF logs_changes_entry(1) [OF i(5)], of "map Put rs" db'] by (auto simp: bindS_def)
qed

lemma erase_each_ok:
  assumes "db_rel True schema ct n db m" and "\<forall>i \<in> set rids. m i \<noteq> None" and "distinct rids"
  shows "\<exists>db'. erase_each rids k db = (Inr (k + length rids), db') \<and> db_rel True schema ct n db' (fold drop_row rids m)
    \<and> map fst (db_indexes db') = map fst (db_indexes db) \<and> logs_changes (map Drop rids) db db'"
  using assms
proof (induction rids arbitrary: k db m)
  case Nil
  then show ?case by auto
next
  case (Cons i rids)
  obtain r where "m i = Some r" using Cons.prems(2) by auto
  then obtain db1 where e: "erase_unlocked i db = (Inr True, db1)" "db_rel True schema ct n db1 (m(i := None))"
    "map fst (db_indexes db1) = map fst (db_indexes db)" "\<exists>pid slot. logs [Deleted i pid slot] (db_wal db) (db_wal db1)"
    by (rule erase_unlocked_ok [OF Cons.prems(1)])
  have rel: "db_rel True schema ct n db1 (drop_row i m)" using e(2) by (simp add: drop_row_def)
  have rest: "\<forall>j \<in> set rids. drop_row i m j \<noteq> None" "distinct rids" using Cons.prems by (auto simp: drop_row_def)
  obtain db' where "erase_each rids (k + 1) db1 = (Inr (k + 1 + length rids), db')" "db_rel True schema ct n db' (fold drop_row rids (drop_row i m))"
    "map fst (db_indexes db') = map fst (db_indexes db1)" "logs_changes (map Drop rids) db1 db'"
    using Cons.IH [OF rel rest] by blast
  then show ?case using e(1,3) logs_changes_trans [OF logs_changes_entry(2) [OF e(4)], of "map Drop rids" db'] by (auto simp: bindS_def)
qed

text \<open>An update is a deletion and an insertion.\<close>

lemma replace_row_ok:
  assumes "db_rel True schema ct n db m" and "fitting_row schema ct r" and "m (row_id r) \<noteq> None" and "n \<noteq> -1"
  obtains db1 db2 n' where "erase_unlocked (row_id r) db = (Inr True, db1)" "insert_unlocked r False db1 = (Inr (), db2)"
    "db_rel True schema ct n' db2 (put_row r m)" "n' \<in> {n, n + 1}" "map fst (db_indexes db2) = map fst (db_indexes db)"
    "logs_changes (replacement r) db db2"
proof -
  obtain old where "m (row_id r) = Some old" using assms(3) by blast
  then obtain db1 where e: "erase_unlocked (row_id r) db = (Inr True, db1)" "db_rel True schema ct n db1 (m(row_id r := None))"
    "map fst (db_indexes db1) = map fst (db_indexes db)" "\<exists>pid slot. logs [Deleted (row_id r) pid slot] (db_wal db) (db_wal db1)"
    by (rule erase_unlocked_ok [OF assms(1)])
  obtain db2 n' where i: "insert_unlocked r False db1 = (Inr (), db2)" "db_rel True schema ct n' db2 (m(row_id r := None, row_id r \<mapsto> r))"
    "n' \<in> {n, n + 1}" "map fst (db_indexes db2) = map fst (db_indexes db1)" "\<exists>pid slot. logs [Inserted r pid slot] (db_wal db1) (db_wal db2)"
    by (rule insert_unlocked_ok [OF e(2) assms(2) _ assms(4), of False]) simp_all
  have "logs_changes (replacement r) db db2"
    using logs_changes_trans [OF logs_changes_entry(2) [OF e(4)] logs_changes_entry(1) [OF i(5)]] by (simp add: replacement_def)
  then show thesis using that e i by (simp add: put_row_def)
qed

lemma update_each_ok:
  assumes "db_rel True schema ct n db m" and "\<forall>r \<in> set rs. fitting_row schema ct r \<and> m (row_id r) \<noteq> None" and "unat n + length rs < 2 ^ 32"
  shows "\<exists>db' n'. update_each rs db = (Inr (), db') \<and> db_rel True schema ct n' db' (fold put_row rs m) \<and> unat n' \<le> unat n + length rs
    \<and> map fst (db_indexes db') = map fst (db_indexes db) \<and> logs_changes (concat (map replacement rs)) db db'"
  using assms
proof (induction rs arbitrary: n db m)
  case Nil
  then show ?case by auto
next
  case (Cons r rs)
  have room: "n \<noteq> -1" using Cons.prems(3) by (intro count_room) simp
  obtain db1 db2 n1 where i: "erase_unlocked (row_id r) db = (Inr True, db1)" "insert_unlocked r False db1 = (Inr (), db2)"
    "db_rel True schema ct n1 db2 (put_row r m)" "n1 \<in> {n, n + 1}" "map fst (db_indexes db2) = map fst (db_indexes db)" "logs_changes (replacement r) db db2"
    by (rule replace_row_ok [OF Cons.prems(1) _ _ room, of r]) (use Cons.prems(2) in simp_all)
  have n1: "unat n1 \<le> unat n + 1" by (rule next_count [OF i(4)])
  have rest: "\<forall>q \<in> set rs. fitting_row schema ct q \<and> put_row r m (row_id q) \<noteq> None" "unat n1 + length rs < 2 ^ 32"
    using Cons.prems n1 by (auto simp: put_row_def)
  obtain db' n' where "update_each rs db2 = (Inr (), db')" "db_rel True schema ct n' db' (fold put_row rs (put_row r m))"
    "unat n' \<le> unat n1 + length rs" "map fst (db_indexes db') = map fst (db_indexes db2)" "logs_changes (concat (map replacement rs)) db2 db'"
    using Cons.IH [OF i(3) rest] by blast
  then show ?case using i(1,2,5) n1 logs_changes_trans [OF i(6), of "concat (map replacement rs)" db'] by (auto simp: bindS_def)
qed

section \<open>Every operation refines the specification\<close>

text \<open>
  The answer and the new contents are those of the specification, and the changes are logged and, if the log was synchronised, synchronised.
\<close>

definition refined :: "Schema \<Rightarrow> CompressionType \<Rightarrow> u32 \<Rightarrow> nat \<Rightarrow> row_change list option \<Rightarrow> DB \<Rightarrow> db_answer result \<times> DB \<Rightarrow>
    db_answer result \<times> rows_map \<Rightarrow> bool" where
  "refined schema ct n k chg db res spec \<longleftrightarrow>
     (\<exists>db' n'. res = (fst spec, db') \<and> db_rel True schema ct n' db' (snd spec) \<and> unat n' \<le> unat n + k
        \<and> (\<forall>cs. chg = Some cs \<longrightarrow> logs_changes cs db db' \<and> (synced (db_wal db) \<longrightarrow> synced (db_wal db'))))"

lemma refinedI:
  "res = (fst spec, db') \<Longrightarrow> db_rel True schema ct n' db' (snd spec) \<Longrightarrow> unat n' \<le> unat n + k \<Longrightarrow>
   (\<And>cs. chg = Some cs \<Longrightarrow> logs_changes cs db db' \<and> (synced (db_wal db) \<longrightarrow> synced (db_wal db'))) \<Longrightarrow> refined schema ct n k chg db res spec"
  by (auto simp: refined_def)

lemma answer_apply:
  "m db = (Inr x, db') \<Longrightarrow> answer f m db = (Inr (f x), db')"
  "m db = (Inl e, db') \<Longrightarrow> answer f m db = (Inl e, db')"
  by (simp_all add: answer_def bindS_def)

lemma guarded_simps [simp]: "guarded (Some e) a m' m = (Inl e, m)" "guarded None a m' m = (Inr a, m')"
  by (simp_all add: guarded_def)

lemma good_rowD: "good_row schema ct r \<Longrightarrow> row_size r < 2 ^ 32" "good_row schema ct r \<Longrightarrow> storable_row schema r \<Longrightarrow> fitting_row schema ct r"
  by (simp_all add: good_row_def)

lemma insert_rejected:
  assumes "db_rel True schema ct n db m" and "row_size r < 2 ^ 32" and "insert_error schema m [] r = Some e"
  shows "insert_unlocked r sync db = (Inl e, db)"
proof -
  note d = db_relD [OF assms(1)]
  show ?thesis
  proof (cases "length (row_fields r) = length (s_fields schema) \<and> m (row_id r) = None")
    case True
    then have "im_find (db_index db) (row_id r) = None" using d(4) by simp
    moreover have "\<not> storable_row schema r" "e = XDLError" using True assms(3) by (auto simp: insert_error_def split: if_splits)
    moreover from this have "get_or_create_writable_page r db = (Inl XDLError, db)"
      unfolding get_or_create_writable_page_def using d(3) row_need_error [of r schema] True assms(2) by (auto simp: bindS_def)
    ultimately show ?thesis using True d(2,3) by (simp add: insert_unlocked_def bindS_def)
  next
    case False
    then show ?thesis using assms(3) d(2,3,4) by (auto simp: insert_unlocked_def bindS_def insert_error_def split: if_splits)
  qed
qed

lemma insert_refined:
  assumes "db_rel True schema ct n db m" and "good_row schema ct r" and "unat n + 1 < 2 ^ 32"
  shows "refined schema ct n 1 (op_changes schema (DbInsert r) m) db (db_call (DbInsert r) db) (map_call schema (DbInsert r) m)"
proof (cases "insert_error schema m [] r")
  case (Some e)
  then show ?thesis
    using insert_rejected [OF assms(1) good_rowD(1) [OF assms(2)] Some, of True] require_open_apply(1) [OF db_rel_open [OF assms(1)]] assms(1)
    by (intro refinedI [where db' = db and n' = n]) (simp_all add: answer_def db_insert_def bindS_def)
next
  case None
  then have new: "fitting_row schema ct r" "m (row_id r) = None" using good_rowD(2) [OF assms(2)] by (auto simp: insert_error_def split: if_splits)
  have room: "n \<noteq> -1" using assms(3) by (intro count_room [of n 0]) simp
  obtain db' n' where i: "insert_unlocked r True db = (Inr (), db')" "db_rel True schema ct n' db' (m(row_id r \<mapsto> r))" "n' \<in> {n, n + 1}"
    "map fst (db_indexes db') = map fst (db_indexes db)" "\<exists>pid slot. logs [Inserted r pid slot] (db_wal db) (db_wal db')" "synced (db_wal db')"
    by (rule insert_unlocked_ok [OF assms(1) new room, of True]) blast
  show ?thesis
    by (rule refinedI [where db' = db' and n' = n'])
       (use i(1,2,6) logs_changes_entry(1) [OF i(5)] None next_count [OF i(3)] require_open_apply(1) [OF db_rel_open [OF assms(1)]]
        in \<open>simp_all add: answer_def db_insert_def bindS_def put_row_def\<close>)
qed

lemma insert_batch_refined:
  assumes "db_rel True schema ct n db m" and "\<forall>r \<in> set rs. good_row schema ct r" and "unat n + length rs < 2 ^ 32"
  shows "refined schema ct n (length rs) (op_changes schema (DbInsertBatch rs) m) db (db_call (DbInsertBatch rs) db) (map_call schema (DbInsertBatch rs) m)"
proof (cases "rs = []")
  case True
  then show ?thesis using assms(1) require_open_apply(1) [OF db_rel_open [OF assms(1)]]
    by (intro refinedI [where db' = db and n' = n]) (simp_all add: answer_def insert_batch_def bindS_def)
next
  case False
  note opened = require_open_apply(1) [OF db_rel_open [OF assms(1)]]
  have valid: "validate_inserts rs [] db = (verdict (first_error (insert_error schema m) row_id rs []), db)"
    using assms(2) by (intro validate_inserts_ok [OF assms(1)]) (auto simp: good_row_def)
  show ?thesis
  proof (cases "first_error (insert_error schema m) row_id rs []")
    case (Some e)
    then show ?thesis using opened valid False assms(1)
      by (intro refinedI [where db' = db and n' = n]) (simp_all add: answer_def insert_batch_def bindS_def)
  next
    case None
    then have new: "\<forall>r \<in> set rs. fitting_row schema ct r \<and> m (row_id r) = None" "distinct (map row_id rs)"
      using assms(2) by (auto simp: first_error_None good_row_def)
    obtain db1 n1 where i: "insert_each rs db = (Inr (), db1)" "db_rel True schema ct n1 db1 (fold put_row rs m)" "unat n1 \<le> unat n + length rs"
      "map fst (db_indexes db1) = map fst (db_indexes db)" "logs_changes (map Put rs) db db1" using insert_each_ok [OF assms(1) new assms(3)] by blast
    obtain db2 where s: "on_wal wal_sync db1 = (Inr (), db2)" "db_rel True schema ct n1 db2 (fold put_row rs m)" "db_indexes db2 = db_indexes db1"
      "logs [] (db_wal db1) (db_wal db2)" "synced (db_wal db2)" by (rule sync_ok [OF i(2)])
    show ?thesis
      by (rule refinedI [where db' = db2 and n' = n1])
         (use opened valid False None i s logs_changes_sync [OF i(5) s(4)] in \<open>simp_all add: answer_def insert_batch_def bindS_def\<close>)
  qed
qed

lemma erase_refined:
  assumes "db_rel True schema ct n db m"
  shows "refined schema ct n 0 (op_changes schema (DbErase i) m) db (db_call (DbErase i) db) (map_call schema (DbErase i) m)"
proof (cases "m i")
  case None
  then show ?thesis using require_open_apply(1) [OF db_rel_open [OF assms]] erase_unlocked_absent [OF assms None] assms
    by (intro refinedI [where db' = db and n' = n]) (simp_all add: answer_def db_erase_def bindS_def erase_error_def)
next
  case (Some r)
  obtain db1 where e: "erase_unlocked i db = (Inr True, db1)" "db_rel True schema ct n db1 (m(i := None))"
    "map fst (db_indexes db1) = map fst (db_indexes db)" "\<exists>pid slot. logs [Deleted i pid slot] (db_wal db) (db_wal db1)"
    by (rule erase_unlocked_ok [OF assms Some])
  obtain db2 where s: "on_wal wal_sync db1 = (Inr (), db2)" "db_rel True schema ct n db2 (m(i := None))" "db_indexes db2 = db_indexes db1"
    "logs [] (db_wal db1) (db_wal db2)" "synced (db_wal db2)" by (rule sync_ok [OF e(2)])
  show ?thesis
    by (rule refinedI [where db' = db2 and n' = n])
       (use require_open_apply(1) [OF db_rel_open [OF assms]] e(1-3) s logs_changes_sync [OF logs_changes_entry(2) [OF e(4)] s(4)] Some
        in \<open>simp_all add: answer_def db_erase_def bindS_def erase_error_def drop_row_def\<close>)
qed

lemma erase_batch_refined:
  assumes "db_rel True schema ct n db m"
  shows "refined schema ct n 0 (op_changes schema (DbEraseBatch rids) m) db (db_call (DbEraseBatch rids) db) (map_call schema (DbEraseBatch rids) m)"
proof (cases "rids = []")
  case True
  then show ?thesis using assms require_open_apply(1) [OF db_rel_open [OF assms]]
    by (intro refinedI [where db' = db and n' = n]) (simp_all add: answer_def erase_batch_def bindS_def)
next
  case False
  note opened = require_open_apply(1) [OF db_rel_open [OF assms]] and valid = validate_erases_ok [OF assms, of rids "[]"]
  show ?thesis
  proof (cases "first_error (erase_error m) id rids []")
    case (Some e)
    then show ?thesis using opened valid False assms
      by (intro refinedI [where db' = db and n' = n]) (simp_all add: answer_def erase_batch_def bindS_def)
  next
    case None
    then have old: "\<forall>i \<in> set rids. m i \<noteq> None" "distinct rids" by (auto simp: first_error_None)
    obtain db1 where i: "erase_each rids 0 db = (Inr (0 + length rids), db1)" "db_rel True schema ct n db1 (fold drop_row rids m)"
      "map fst (db_indexes db1) = map fst (db_indexes db)" "logs_changes (map Drop rids) db db1" using erase_each_ok [OF assms old] by blast
    obtain db2 where s: "on_wal wal_sync db1 = (Inr (), db2)" "db_rel True schema ct n db2 (fold drop_row rids m)" "db_indexes db2 = db_indexes db1"
      "logs [] (db_wal db1) (db_wal db2)" "synced (db_wal db2)" by (rule sync_ok [OF i(2)])
    show ?thesis
      by (rule refinedI [where db' = db2 and n' = n])
         (use opened valid False None i s logs_changes_sync [OF i(4) s(4)] in \<open>simp_all add: answer_def erase_batch_def bindS_def\<close>)
  qed
qed

lemma update_refined:
  assumes "db_rel True schema ct n db m" and "good_row schema ct r" and "unat n + 1 < 2 ^ 32"
  shows "refined schema ct n 1 (op_changes schema (DbUpdate r) m) db (db_call (DbUpdate r) db) (map_call schema (DbUpdate r) m)"
proof -
  note d = db_relD [OF assms(1)] and opened = require_open_apply(1) [OF db_rel_open [OF assms(1)]]
  show ?thesis
  proof (cases "m (row_id r)")
    case None
    then have "im_find (db_index db) (row_id r) = None" using d(4) by simp
    then show ?thesis using None opened d(2) assms(1)
      by (intro refinedI [where db' = db and n' = n]) (simp_all add: answer_def db_update_def bindS_def)
  next
    case (Some old)
    then obtain e where found: "im_find (db_index db) (row_id r) = Some e" using d(6) by blast
    show ?thesis
    proof (cases "storable_row schema r")
      case False
      have "db_update r db = (Inl XDLError, db)"
        using False found opened d(2,3) row_need_error [of r schema] good_rowD(1) [OF assms(2)]
        by (cases "length (row_fields r) = length (s_fields schema)") (auto simp: db_update_def bindS_def)
      then show ?thesis using False Some assms(1)
        by (intro refinedI [where db' = db and n' = n]) (simp_all add: answer_def bindS_def)
    next
      case True
      have room: "n \<noteq> -1" using assms(3) by (intro count_room [of n 0]) simp
      obtain db1 db2 n' where i: "erase_unlocked (row_id r) db = (Inr True, db1)" "insert_unlocked r False db1 = (Inr (), db2)"
        "db_rel True schema ct n' db2 (put_row r m)" "n' \<in> {n, n + 1}" "map fst (db_indexes db2) = map fst (db_indexes db)"
        "logs_changes (replacement r) db db2"
        by (rule replace_row_ok [OF assms(1) good_rowD(2) [OF assms(2) True] _ room]) (use Some in simp_all)
      obtain db3 where s: "on_wal wal_sync db2 = (Inr (), db3)" "db_rel True schema ct n' db3 (put_row r m)" "db_indexes db3 = db_indexes db2"
        "logs [] (db_wal db2) (db_wal db3)" "synced (db_wal db3)" by (rule sync_ok [OF i(3)])
      have "db_update r db = (Inr (), db3)"
        using opened found d(2,3) storable_length [OF True] row_need [OF True] i(1,2) s(1) by (simp add: db_update_def bindS_def)
      then show ?thesis using True Some s(2,3,5) i(5) next_count [OF i(4)] logs_changes_sync [OF i(6) s(4)]
        by (intro refinedI [where db' = db3 and n' = n']) (simp_all add: answer_def bindS_def)
    qed
  qed
qed

lemma update_batch_refined:
  assumes "db_rel True schema ct n db m" and "\<forall>r \<in> set rs. good_row schema ct r" and "unat n + length rs < 2 ^ 32"
  shows "refined schema ct n (length rs) (op_changes schema (DbUpdateBatch rs) m) db (db_call (DbUpdateBatch rs) db) (map_call schema (DbUpdateBatch rs) m)"
proof (cases "rs = []")
  case True
  then show ?thesis using assms(1) require_open_apply(1) [OF db_rel_open [OF assms(1)]]
    by (intro refinedI [where db' = db and n' = n]) (simp_all add: answer_def update_batch_def bindS_def)
next
  case False
  note opened = require_open_apply(1) [OF db_rel_open [OF assms(1)]]
  have valid: "validate_updates rs [] db = (verdict (first_error (update_error schema m) row_id rs []), db)"
    using assms(2) by (intro validate_updates_ok [OF assms(1)]) (auto simp: good_row_def)
  show ?thesis
  proof (cases "first_error (update_error schema m) row_id rs []")
    case (Some e)
    then show ?thesis using opened valid False assms(1)
      by (intro refinedI [where db' = db and n' = n]) (simp_all add: answer_def update_batch_def bindS_def)
  next
    case None
    then have old: "\<forall>r \<in> set rs. fitting_row schema ct r \<and> m (row_id r) \<noteq> None"
      using assms(2) by (auto simp: first_error_None good_row_def)
    obtain db1 n1 where i: "update_each rs db = (Inr (), db1)" "db_rel True schema ct n1 db1 (fold put_row rs m)" "unat n1 \<le> unat n + length rs"
      "map fst (db_indexes db1) = map fst (db_indexes db)" "logs_changes (concat (map replacement rs)) db db1"
      using update_each_ok [OF assms(1) old assms(3)] by blast
    obtain db2 where s: "on_wal wal_sync db1 = (Inr (), db2)" "db_rel True schema ct n1 db2 (fold put_row rs m)" "db_indexes db2 = db_indexes db1"
      "logs [] (db_wal db1) (db_wal db2)" "synced (db_wal db2)" by (rule sync_ok [OF i(2)])
    show ?thesis
      by (rule refinedI [where db' = db2 and n' = n1])
         (use opened valid False None i s logs_changes_sync [OF i(5) s(4)] in \<open>simp_all add: answer_def update_batch_def bindS_def\<close>)
  qed
qed

lemma lookup_refined:
  assumes "db_rel True schema ct n db m"
  shows "refined schema ct n 0 None db (db_call (DbGet i) db) (map_call schema (DbGet i) m)"
    and "refined schema ct n 0 None db (db_call (DbTryGet i) db) (map_call schema (DbTryGet i) m)"
proof -
  note opened = require_open_apply(1) [OF db_rel_open [OF assms]]
  obtain db' where g: "get_unlocked i db = (case m i of None \<Rightarrow> Inl NotFoundError | Some r \<Rightarrow> Inr r, db')" "db_rel True schema ct n db' m"
    "db_indexes db' = db_indexes db" by (rule get_unlocked_ok [OF assms])
  show "refined schema ct n 0 None db (db_call (DbGet i) db) (map_call schema (DbGet i) m)"
    by (rule refinedI [where db' = db' and n' = n])
       (use opened g in \<open>simp_all add: answer_def db_get_def bindS_def split: option.split\<close>)
  show "refined schema ct n 0 None db (db_call (DbTryGet i) db) (map_call schema (DbTryGet i) m)"
    by (rule refinedI [where db' = db' and n' = n])
       (use opened g in \<open>simp_all add: answer_def try_get_def bindS_def catchS_def split: option.split\<close>)
qed

lemma bound_key_ok: "typed_bound schema name v \<Longrightarrow>
    encode_bound v (fd_type (s_fields schema ! nat (field_index schema name))) = Inr (bound_key schema name v)"
  using encode_vec_typed [of "fd_type (s_fields schema ! nat (field_index schema name))" "the v"]
  by (auto simp: bound_key_def encode_bound_def typed_bound_def split: option.splits)

lemma query_refined:
  assumes "db_rel True schema ct n db m"
  shows "refined schema ct n 0 None db (db_call (DbScan flt) db) (map_call schema (DbScan flt) m)"
    and "typed_bound schema name lo \<Longrightarrow> typed_bound schema name hi \<Longrightarrow>
      refined schema ct n 0 None db (db_call (DbRange name lo lo_inc hi hi_inc) db) (map_call schema (DbRange name lo lo_inc hi hi_inc) m)"
    and "refined schema ct n 0 None db (db_call (DbCreateIndex name) db) (map_call schema (DbCreateIndex name) m)"
    and "refined schema ct n 0 None db (db_call (DbDropIndex name) db) (map_call schema (DbDropIndex name) m)"
    and "refined schema ct n 0 None db (db_call DbCheckpoint db) (map_call schema DbCheckpoint m)"
proof -
  show "refined schema ct n 0 None db (db_call (DbScan flt) db) (map_call schema (DbScan flt) m)"
    by (rule scan_all_ok [OF assms, of flt], rule refinedI [where n' = n]) (auto simp: answer_def bindS_def)
  show "refined schema ct n 0 None db (db_call (DbCreateIndex name) db) (map_call schema (DbCreateIndex name) m)"
    by (rule create_index_ok [OF assms, of name], rule refinedI [where n' = n]) (auto simp: answer_def bindS_def)
  show "refined schema ct n 0 None db (db_call (DbDropIndex name) db) (map_call schema (DbDropIndex name) m)"
    by (rule drop_index_ok [OF assms, of name], rule refinedI [where n' = n]) (auto simp: answer_def bindS_def)
  show "refined schema ct n 0 None db (db_call DbCheckpoint db) (map_call schema DbCheckpoint m)"
    by (rule checkpoint_ok [OF assms], rule refinedI [where n' = n]) (auto simp: answer_def bindS_def)
  assume typed: "typed_bound schema name lo" "typed_bound schema name hi"
  show "refined schema ct n 0 None db (db_call (DbRange name lo lo_inc hi hi_inc) db) (map_call schema (DbRange name lo lo_inc hi hi_inc) m)"
  proof (cases "field_index schema name < 0")
    case True
    then show ?thesis using db_relD(3) [OF assms] assms
      by (intro refinedI [where db' = db and n' = n]) (simp_all add: answer_def bindS_def index_range_scan_def Let_def)
  next
    case False
    then have fi: "0 \<le> field_index schema name" by simp
    obtain rows db' where "index_range_scan name lo lo_inc hi hi_inc db = (Inr rows, db')" "db_rel True schema ct n db' m"
      "set rows = rows_in_range schema name (bound_key schema name lo) lo_inc (bound_key schema name hi) hi_inc m"
      by (rule index_range_scan_ok [OF assms fi refl bound_key_ok [OF typed(1)] bound_key_ok [OF typed(2)]])
    then show ?thesis using False by (intro refinedI [where db' = db' and n' = n]) (simp_all add: answer_def bindS_def)
  qed
qed

lemma db_call_refined:
  assumes "db_rel True schema ct n db m" and "good_op schema ct oper" and "unat n + length (op_rows oper) < 2 ^ 32"
  shows "refined schema ct n (length (op_rows oper)) (op_changes schema oper m) db (db_call oper db) (map_call schema oper m)"
  by (cases oper)
     (use assms insert_refined insert_batch_refined erase_refined erase_batch_refined update_refined update_batch_refined lookup_refined query_refined
      in \<open>auto simp: list_all_iff\<close>)

abbreviation ops_rows :: "db_op list \<Rightarrow> Row list" where
  "ops_rows ops \<equiv> concat (map op_rows ops)"

lemma db_run_refined:
  assumes "db_rel True schema ct n db m" and "\<forall>oper \<in> set ops. good_op schema ct oper" and "unat n + length (ops_rows ops) < 2 ^ 32"
  obtains db' n' where "run_calls db_call ops db = (fst (run_calls (map_call schema) ops m), db')"
    "db_rel True schema ct n' db' (snd (run_calls (map_call schema) ops m))" "unat n' \<le> unat n + length (ops_rows ops)"
  using assms
proof (induction ops arbitrary: n db m thesis)
  case Nil
  then show ?case by simp
next
  case (Cons oper ops)
  obtain a m1 where spec: "map_call schema oper m = (a, m1)" by (cases "map_call schema oper m")
  have "refined schema ct n (length (op_rows oper)) (op_changes schema oper m) db (db_call oper db) (map_call schema oper m)"
    using Cons.prems(3,4) by (intro db_call_refined [OF Cons.prems(2)]) auto
  then obtain db1 n1 where step: "db_call oper db = (a, db1)" "db_rel True schema ct n1 db1 m1" "unat n1 \<le> unat n + length (op_rows oper)"
    by (auto simp: refined_def spec)
  have rest: "\<forall>oper \<in> set ops. good_op schema ct oper" "unat n1 + length (ops_rows ops) < 2 ^ 32"
    using Cons.prems(3,4) step(3) by auto
  obtain db' n' where run: "run_calls db_call ops db1 = (fst (run_calls (map_call schema) ops m1), db')"
    "db_rel True schema ct n' db' (snd (run_calls (map_call schema) ops m1))" "unat n' \<le> unat n1 + length (ops_rows ops)"
    by (rule Cons.IH [OF _ step(2) rest])
  show ?case
    by (rule Cons.prems(1) [of db' n']) (use step(1,3) run spec in \<open>simp_all add: case_prod_beta Let_def\<close>)
qed

end
