(* ===== verification/Db_Lifecycle.thy ===== *)
theory Db_Lifecycle
  imports Db_Refinement
begin

text \<open>
  Opening and closing: a database opened on a fresh path holds the empty map, closing one and
  opening it again (with any cache size) gives the same rows, and the cases in which opening is refused.
\<close>

section \<open>Opening\<close>

definition set_storage :: "StorageEngine \<Rightarrow> DB \<Rightarrow> DB" where
  "set_storage s db = db\<lparr>db_pager := (fst (db_pager db), (snd (db_pager db))\<lparr>pg_storage := s\<rparr>)\<rparr>"

lemma set_storage_frame [simp]:
  "db_storage (set_storage s db) = s" "db_schema (set_storage s db) = db_schema db" "db_wal (set_storage s db) = db_wal db"
  "db_cache_cap (set_storage s db) = db_cache_cap db" "db_compression (set_storage s db) = db_compression db"
  "db_schema_explicit (set_storage s db) = db_schema_explicit db" "db_indexes (set_storage s db) = db_indexes db"
  "db_is_open (set_storage s db) = db_is_open db" "db_ready (set_storage s db) = db_ready db"
  "set_storage s (set_storage s' db) = set_storage s db" "set_storage s (db\<lparr>db_ready := b\<rparr>) = (set_storage s db)\<lparr>db_ready := b\<rparr>"
  by (simp_all add: set_storage_def)

lemma on_new_storage_apply: "m (db_storage db) = (r, s) \<Longrightarrow> on_new_storage m db = (r, set_storage s db)"
  by (simp add: on_new_storage_def zoomS_def set_storage_def)

text \<open>The log a database is opened with: absent, or with a header and nothing else.\<close>

definition clean_log :: "WAL \<Rightarrow> bool" where
  "clean_log w \<longleftrightarrow> good_script (wal_script w) \<and> \<not> wal_is_open w \<and> wal_buf w = []
     \<and> (wal_contents w = [] \<or> wal_file w = Some wal_header \<and> wal_durable w = wal_header)"

lemma new_wal_clean:
  assumes "clean_log w" shows "clean_log (new_wal w)"
  using assms by (auto simp: clean_log_def new_wal_def wal_close_def wal_contents_def)

lemma clean_log_open:
  assumes "clean_log w"
  obtains w' where "wal_open w = (Inr (), w')" "wal_holds wal_header w' [] 0 0"
proof (cases "wal_contents w = []")
  case True
  show thesis by (rule wal_open_empty [of w]) (use assms True that in \<open>simp_all add: clean_log_def\<close>)
next
  case False
  then have f: "wal_file w = Some wal_header" "wal_durable w = wal_header" "good_script (wal_script w)" "\<not> wal_is_open w" "wal_buf w = []"
    using assms by (auto simp: clean_log_def)
  have "wal_header \<noteq> []" using length_wal_header by auto
  then obtain s where s: "good_script s" "wal_open w = (Inr (), w\<lparr>wal_script := s, wal_file := Some wal_header, wal_fd := True,
      wal_offset := word_of_nat (length wal_header), wal_pos := length wal_header, wal_is_open := True\<rparr>)"
    by (rule wal_open_file [OF f(3,4,1)])
  show thesis by (rule that [OF s(2)], rule wal_holds_opened) (use s(1) f in simp_all)
qed

lemma open_members_ok:
  assumes "clean_log (db_wal db)" and "db_schema db = schema" and "db_compression db = ct"
    and rec: "recover schema (pager (db_storage db) index_manager (db_cache_cap db)) = (Inr (), ps)"
    and store: "store_rel schema ct R idx n ps"
  obtains db' where "open_members db = (Inr (), db')" "db_state True schema ct R n db'" "db_index db' = idx" "db_indexes db' = db_indexes db"
    "wal_holds wal_header (db_wal db') [] 0 0" "db_pager db' = ps"
proof -
  obtain w where w: "wal_open (new_wal (db_wal db)) = (Inr (), w)" "wal_holds wal_header w [] 0 0"
    by (rule clean_log_open [OF new_wal_clean [OF assms(1)]])
  have hdr: "32 \<le> length wal_header" "length (wal_header @ encode_records []) < 2 ^ 32" by (simp_all add: length_wal_header)
  obtain w' where "wal_replay w = (parse_records (drop 32 (wal_header @ encode_records [])), w')" "wal_holds wal_header w' [] 0 0"
    by (rule wal_replay_holds [OF w(2) hdr]) simp
  then have w': "wal_replay w = (Inr [], w')" "log_ok w'" "wal_holds wal_header w' [] 0 0"
    using wal_log.dec_nil by (auto simp: length_wal_header log_ok_def)
  let ?db = "db\<lparr>db_wal := w', db_pager := ps, db_ready := True, db_is_open := True\<rparr>"
  have idx: "db_index ?db = idx" using store_relD(5) [OF store] by simp
  have "open_members db = (Inr (), ?db)"
    using w(1) w'(1) rec assms(2)
    by (simp add: open_members_def bindS_def zoomS_def on_pager_def on_wal_def replay_wal_def)
  moreover have "db_state True schema ct R n ?db" using store assms(2,3) w'(2) idx by (simp add: db_state_def)
  ultimately show thesis using that [of ?db] idx w'(3) by simp
qed

text \<open>The first steps of \<open>open\<close>: the storage engine is opened and says which schema is stored.\<close>

lemma db_open_steps:
  assumes "\<not> db_is_open db" and "se_open (new_storage (db_compression db) (db_storage db)) = (Inr (), s)"
    and "read_db_header s = (Inr h, s)" and "read_stored_schema s = (Inr found, s)"
  shows "db_open db = bindS (adopt_schema h found) (\<lambda>_. open_members) (set_storage s (db\<lparr>db_ready := False\<rparr>))"
proof -
  let ?db1 = "set_storage (new_storage (db_compression db) (db_storage db)) (db\<lparr>db_ready := False\<rparr>)" and ?db2 = "set_storage s (db\<lparr>db_ready := False\<rparr>)"
  have eqs: "on_new_storage se_open ?db1 = (Inr (), ?db2)" "on_new_storage read_db_header ?db2 = (Inr h, ?db2)"
    "on_new_storage read_stored_schema ?db2 = (Inr found, ?db2)"
    using on_new_storage_apply [of se_open ?db1] on_new_storage_apply [of read_db_header ?db2] on_new_storage_apply [of read_stored_schema ?db2]
      assms(2,3,4) by simp_all
  have start: "db\<lparr>db_pager := (fst (db_pager db), (snd (db_pager db))\<lparr>pg_storage := new_storage (db_compression db) (db_storage db)\<rparr>),
      db_ready := False\<rparr> = ?db1" by (simp add: set_storage_def)
  show ?thesis using assms(1) eqs by (simp add: db_open_def bindS_def start)
qed

text \<open>Opening a path with no file, or with a file of which only the header survived: the schema is stored and no page found.\<close>

lemma open_fresh_start:
  assumes "storable_schema schema" and "validate schema = Inr ()" and "ct \<in> {CNone, CLZ4}"
    and "f = None \<or> f = Some (DBHeader_bytes (initial_db_header ct))"
  obtains db0 db idx ps where "db_new schema ct cap f logf script = Inr db0" "db_open db0 = open_members db" "db_schema db = schema"
    "db_compression db = ct" "db_wal db = wal_object logf script" "db_indexes db = []" "\<not> db_is_open db"
    "recover schema (pager (db_storage db) index_manager (db_cache_cap db)) = (Inr (), ps)" "store_rel schema ct (\<lambda>_. []) idx 0 ps"
    "places idx = Map.empty" "se_durable (db_storage db) = DBHeader_bytes (initial_db_header ct)"
proof -
  obtain s0 s where f: "se_open (storage_engine None ct) = (Inr (), s0)" "read_db_header s0 = (Inr (initial_db_header ct), s0)"
    "file_size s0 = (Inr 20, s0)" "write_schema schema s0 = (Inr (), s)" "file_ok schema ct s"
    "read_db_header s = (Inr (initial_db_header ct), s)" "se_durable s = DBHeader_bytes (initial_db_header ct)"
    "s0 = (storage_engine (Some (DBHeader_bytes (initial_db_header ct))) ct)\<lparr>se_fd := True, se_is_open := True\<rparr>"
    by (rule fresh_file_steps [OF assms(1,3)])
  let ?db = "\<lparr>db_schema = schema, db_compression = ct, db_cache_cap = cap, db_schema_explicit = True, db_ready = False,
    db_pager = pager (storage_engine f ct) index_manager cap, db_wal = wal_object logf script, db_indexes = [], db_is_open = False\<rparr>"
  have new: "db_new schema ct cap f logf script = Inr ?db"
    using assms(1,2) by (simp add: db_new_def Let_def storable_schema_def)
  have st: "new_storage ct (storage_engine f ct) = storage_engine f ct" by (simp add: new_storage_def se_close_def storage_engine_def)
  have opened: "se_open (storage_engine f ct) = (Inr (), s0)"
    using assms(4) f(1,8) by (auto simp: se_open_def storage_engine_def bindS_def)
  have stored: "read_stored_schema s0 = (Inr None, s0)" using f(3) by (simp add: read_stored_schema_def bindS_def sizeof_header_def)
  have start: "db_open ?db = bindS (adopt_schema (initial_db_header ct) None) (\<lambda>_. open_members) (set_storage s0 ?db)"
    using db_open_steps [of ?db s0 "initial_db_header ct" None] f(2) opened stored st by (simp add: pager_def)
  have adopt: "adopt_schema (initial_db_header ct) None (set_storage s0 ?db) = (Inr (), set_storage s ?db)"
    using on_new_storage_apply [of "write_schema schema" "set_storage s0 ?db" "Inr ()" s] f(4)
    by (simp add: adopt_schema_def bindS_def initial_db_header_def)
  have page0: "dh_page_count (initial_db_header ct) = 0" by (simp add: initial_db_header_def)
  obtain ps idx where r: "recover schema (pager s index_manager cap) = (Inr (), ps)" "pager_ok schema ct idx 0 ps" "im_inv idx"
    "im_find idx = map_of (page_run schema undefined [0..<unat (0 :: u32)])" "pager_pages ps = (\<lambda>pid. if pid < 0 then Some (undefined pid) else None)"
    by (rule recover_ok [OF f(5,6) page0, of undefined]) simp_all
  have store: "store_rel schema ct (\<lambda>_. []) idx 0 ps" using r(2,3,5) by (simp add: store_rel_def rows_fit_def)
  have places: "places idx = Map.empty" using r(4) by (simp add: places_def page_run_def fun_eq_iff)
  have "db_open ?db = open_members (set_storage s ?db)" using start adopt by (simp add: bindS_def)
  then show thesis by (rule that [OF new _ _ _ _ _ _ _ store places]) (use r(1) f(7) in simp_all)
qed

lemma placed_empty: "placed (\<lambda>_. []) Map.empty" "table (\<lambda>_. []) Map.empty = Map.empty"
  by (simp_all add: placed_def table_def fun_eq_iff)

lemma open_fresh:
  assumes "storable_schema schema" and "validate schema = Inr ()" and "ct \<in> {CNone, CLZ4}" and "good_script script"
  obtains db0 db where "db_new schema ct cap None None script = Inr db0" "db_open db0 = (Inr (), db)" "db_rel True schema ct 0 db Map.empty"
    "db_indexes db = []" "wal_holds wal_header (db_wal db) [] 0 0" "db_durable db = DBHeader_bytes (initial_db_header ct)"
proof -
  obtain db0 db1 idx ps where o: "db_new schema ct cap None None script = Inr db0" "db_open db0 = open_members db1" "db_schema db1 = schema"
    "db_compression db1 = ct" "db_wal db1 = wal_object None script" "db_indexes db1 = []" "\<not> db_is_open db1"
    "recover schema (pager (db_storage db1) index_manager (db_cache_cap db1)) = (Inr (), ps)" "store_rel schema ct (\<lambda>_. []) idx 0 ps"
    "places idx = Map.empty" "se_durable (db_storage db1) = DBHeader_bytes (initial_db_header ct)"
    by (rule open_fresh_start [OF assms(1-3) disjI1 [OF refl]])
  have log: "clean_log (db_wal db1)" using assms(4) o(5) by (simp add: clean_log_def wal_object_def wal_contents_def)
  obtain db where m: "open_members db1 = (Inr (), db)" "db_state True schema ct (\<lambda>_. []) 0 db" "db_index db = idx" "db_indexes db = db_indexes db1"
    "wal_holds wal_header (db_wal db) [] 0 0" "db_pager db = ps"
    by (rule open_members_ok [OF log o(3,4,8,9)])
  have "db_rel True schema ct 0 db Map.empty"
    using m(2,3,4) o(6,10) placed_empty unfolding db_rel_def by (intro conjI exI [of _ "\<lambda>_. []"]) (simp_all add: indexed_def)
  moreover have "db_durable db = DBHeader_bytes (initial_db_header ct)"
    using keeps_result [OF keeps_recover o(8)] o(11) m(6) by (simp add: db_durable_def pager_durable_def core_durable_def pager_def)
  ultimately show thesis using that o(1,2,6) m(1,4,5) by simp
qed

section \<open>What recovery finds\<close>

lemma placed_unique: "placed R P \<Longrightarrow> placed R P' \<Longrightarrow> P = P'"
proof
  fix i assume "placed R P" "placed R P'"
  then have "P i = Some ps \<longleftrightarrow> P' i = Some ps" for ps by (cases ps) (simp add: placed_def)
  then show "P i = P' i" by (metis not_Some_eq)
qed

lemma page_entries_iff:
  "(i, e) \<in> set (page_entries off pid rows) \<longleftrightarrow>
     (\<exists>k < length rows. i = row_id (rows ! k) \<and> e = \<lparr>ie_page_id = pid, ie_page_offset = off, ie_row_slot = word_of_nat k\<rparr>)"
  by (auto simp: page_entries_def image_iff)

lemma page_run_entry:
  "(i, e) \<in> set (page_run schema page [0..<unat (n :: u32)]) \<longleftrightarrow>
     (\<exists>pid < n. \<exists>k < length (decoded schema (page pid)). i = row_id (decoded schema (page pid) ! k)
        \<and> e = \<lparr>ie_page_id = pid, ie_page_offset = page_file_offset (data_start_of schema) pid, ie_row_slot = word_of_nat k\<rparr>)"
  (is "_ \<longleftrightarrow> (\<exists>pid < n. ?entry pid)")
proof -
  have "(i, e) \<in> set (page_run schema page [0..<unat n]) \<longleftrightarrow> (\<exists>k \<in> {0..<unat n}. ?entry (word_of_nat k))"
    unfolding page_entries_iff [symmetric] by (simp add: page_run_def Let_def)
  also have "\<dots> \<longleftrightarrow> (\<exists>pid \<in> word_of_nat ` {0..<unat n}. ?entry pid)" by blast
  finally show ?thesis unfolding word_of_nat_below by blast
qed

lemma recovered_places:
  assumes "placed R P" and "\<And>pid. length (R pid) < 2 ^ 32" and "\<And>pid. pid < n \<Longrightarrow> decoded schema (page pid) = R pid"
    and "\<And>pid. \<not> pid < n \<Longrightarrow> R pid = []" and "im_find idx = map_of (page_run schema page [0..<unat n])"
  shows "places idx = P"
proof
  fix i
  let ?run = "page_run schema page [0..<unat n]"
  have entry: "P i = Some (ie_page_id e, ie_row_slot e)" if "(i, e) \<in> set ?run" for e
    using that placedI_slot [OF assms(1) _ assms(2)] assms(3) by (auto simp: page_run_entry)
  show "places idx i = P i"
  proof (cases "P i")
    case None
    then have "map_of ?run i = None" using entry by (metis map_of_SomeD not_Some_eq option.distinct(1))
    then show ?thesis using None assms(5) by (simp add: places_def)
  next
    case (Some ps)
    obtain pid slot where ps: "ps = (pid, slot)" by (cases ps)
    note at = placedD [OF assms(1) Some[unfolded ps]]
    have lt: "pid < n" using at(1) assms(4) by fastforce
    have "\<exists>e. (i, e) \<in> set ?run" using at lt assms(3) [OF lt] unfolding page_run_entry by (metis (no_types, lifting))
    then obtain e where "map_of ?run i = Some e" by (metis map_of_eq_None_iff not_Some_eq fst_conv image_eqI)
    then show ?thesis using entry [OF map_of_SomeD] assms(5) by (auto simp: places_def)
  qed
qed

section \<open>Closing and opening again\<close>

text \<open>The rows a file holds, stated of an open storage engine on it.\<close>

definition disk_holds :: "Schema \<Rightarrow> CompressionType \<Rightarrow> u32 \<Rightarrow> rows_map \<Rightarrow> StorageEngine \<Rightarrow> bool" where
  "disk_holds schema ct n m s \<longleftrightarrow> (\<exists>R P k c idx h. pager_ok schema ct idx n (k, c) \<and> pg_storage c = s
     \<and> (\<forall>pid. rows_fit schema ct (R pid))
     \<and> (\<forall>pid. if pid < n then \<exists>p. stored_page c pid = Some p \<and> page_rel schema p (R pid) else stored_page c pid = None \<and> R pid = [])
     \<and> placed R P \<and> m = table R P \<and> read_db_header s = (Inr h, s) \<and> dh_page_count h = n)"

text \<open>Only the contents of the file count.\<close>

definition same_file :: "StorageEngine \<Rightarrow> StorageEngine \<Rightarrow> bool" where
  "same_file s s' \<longleftrightarrow> se_fd s' = se_fd s \<and> se_contents s' = se_contents s \<and> se_compression s' = se_compression s"

lemma safe_pread_same: "same_file s s' \<Longrightarrow> fst (safe_pread count off s') = fst (safe_pread count off s)"
  by (simp add: same_file_def safe_pread_def split: option.split)

lemma safe_pread_state: "snd (safe_pread count off s) = s"
  by (simp add: safe_pread_def split: option.split)

lemma bind_pread_same:
  assumes "same_file s s'" and "\<And>p. fst (f p s') = fst (f p s)"
  shows "fst (bindS (safe_pread count off) f s') = fst (bindS (safe_pread count off) f s)"
proof -
  obtain r where r: "safe_pread count off s = (r, s)" by (metis safe_pread_state prod.collapse)
  have r': "safe_pread count off s' = (r, s')" by (metis r safe_pread_same [OF assms(1)] safe_pread_state fst_conv prod.collapse)
  show ?thesis using r r' assms(2) by (cases r) (simp_all add: bindS_def)
qed

lemma read_page_raw_same: "same_file s s' \<Longrightarrow> fst (read_page_raw off s') = fst (read_page_raw off s)"
  unfolding read_page_raw_def
proof (rule bind_pread_same, assumption)
  fix p assume same: "same_file s s'"
  let ?f = "\<lambda>hdr. bindS (safe_pread (unat (ph_compressed_size hdr)) (off + word_of_nat sizeof_header)) (\<lambda>blob. returnS (hdr, blob))"
  have "fst (?f hdr s') = fst (?f hdr s)" for hdr by (rule bind_pread_same [OF same]) simp
  then show "fst (bindS (liftR (PageHeader_of_bytes p)) ?f s') = fst (bindS (liftR (PageHeader_of_bytes p)) ?f s)"
    by (cases "PageHeader_of_bytes p") (simp_all add: bindS_def)
qed

lemma read_db_header_same:
  assumes "same_file s s'" and "read_db_header s = (Inr h, s)" shows "read_db_header s' = (Inr h, s')"
proof -
  have "fst (read_db_header s') = fst (read_db_header s)"
    unfolding read_db_header_def by (rule bind_pread_same [OF assms(1)]) (simp add: bindS_def split: sum.split)
  then show ?thesis using assms(2) read_db_header_state by (metis fst_conv prod.collapse)
qed

lemma core_ok_same:
  assumes "core_ok schema ct idx n c" and "same_file (pg_storage c) s'"
  shows "core_ok schema ct idx n (c\<lparr>pg_storage := s'\<rparr>)" and "stored_page (c\<lparr>pg_storage := s'\<rparr>) = stored_page c"
proof -
  note raw = read_page_raw_same [OF assms(2)]
  show st: "stored_page (c\<lparr>pg_storage := s'\<rparr>) = stored_page c" by (rule stored_page_cong) (simp_all add: raw)
  have "file_ok schema ct s'" using core_okD(1) [OF assms(1)] assms(2) by (simp add: file_ok_def same_file_def)
  moreover have "slot_ok d s' pid = slot_ok d (pg_storage c) pid" for d pid by (simp add: slot_ok_def raw)
  ultimately show "core_ok schema ct idx n (c\<lparr>pg_storage := s'\<rparr>)" using assms(1) st by (simp add: core_ok_def)
qed

lemma pager_ok_same:
  assumes "pager_ok schema ct idx n (k, c)" and "same_file (pg_storage c) s'"
  shows "pager_ok schema ct idx n (k, c\<lparr>pg_storage := s'\<rparr>)"
proof -
  have ok: "core_ok schema ct idx n c" using assms(1) by (simp add: pager_ok_def)
  show ?thesis using assms(1) core_ok_same [OF ok assms(2)] by (simp add: pager_ok_def)
qed

lemma disk_holds_same:
  assumes "disk_holds schema ct n m s" and "same_file s s'" shows "disk_holds schema ct n m s'"
proof -
  obtain R P k c idx h where d: "pager_ok schema ct idx n (k, c)" "pg_storage c = s" "\<forall>pid. rows_fit schema ct (R pid)"
    "\<forall>pid. if pid < n then \<exists>p. stored_page c pid = Some p \<and> page_rel schema p (R pid) else stored_page c pid = None \<and> R pid = []"
    "placed R P" "m = table R P" "read_db_header s = (Inr h, s)" "dh_page_count h = n"
    using assms(1) unfolding disk_holds_def by blast
  have same: "same_file (pg_storage c) s'" using assms(2) d(2) by simp
  have "core_ok schema ct idx n c" using d(1) by (simp add: pager_ok_def)
  note st = core_ok_same(2) [OF this same]
  show ?thesis unfolding disk_holds_def
    by (rule exI [of _ R], rule exI [of _ P], rule exI [of _ k], rule exI [of _ "c\<lparr>pg_storage := s'\<rparr>"], rule exI [of _ idx], rule exI [of _ h])
       (use pager_ok_same [OF d(1) same] d(3-6,8) st read_db_header_same [OF assms(2) d(7)] in simp)
qed

lemma disk_recover:
  assumes "disk_holds schema ct n m s"
  obtains R idx ps where "recover schema (pager s index_manager cap) = (Inr (), ps)" "store_rel schema ct R idx n ps"
    "placed R (places idx)" "m = table R (places idx)"
proof -
  obtain R P k c idx h where d: "pager_ok schema ct idx n (k, c)" "pg_storage c = s" "\<forall>pid. rows_fit schema ct (R pid)"
    "\<forall>pid. if pid < n then \<exists>p. stored_page c pid = Some p \<and> page_rel schema p (R pid) else stored_page c pid = None \<and> R pid = []"
    "placed R P" "m = table R P" "read_db_header s = (Inr h, s)" "dh_page_count h = n"
    using assms(1) unfolding disk_holds_def by blast
  have inside: "\<exists>p. stored_page c pid = Some p \<and> page_rel schema p (R pid)" if "pid < n" for pid using d(4) that by presburger
  have outside: "stored_page c pid = None \<and> R pid = []" if "\<not> pid < n" for pid using d(4) that by presburger
  have dom: "dom (stored_page c) = {pid. pid < n}" using inside outside by (fastforce simp: dom_def)
  obtain ps idx2 where r: "recover schema (pager s index_manager cap) = (Inr (), ps)" "pager_ok schema ct idx2 n ps" "im_inv idx2"
    "im_find idx2 = map_of (page_run schema (\<lambda>pid. the (stored_page c pid)) [0..<unat n])" "pager_pages ps = stored_page c"
    by (rule recover_flushed [OF d(1) refl, where cap = cap and h = h]) (use d(2,7,8) dom in simp_all)
  have store: "store_rel schema ct R idx2 n ps" unfolding store_rel_def r(5) using r(2,3) d(3,4) by blast
  have "places idx2 = P"
  proof (rule recovered_places [OF d(5) store_relD(9) [OF store] _ _ r(4)])
    show "decoded schema (the (stored_page c pid)) = R pid" if "pid < n" for pid using inside [OF that] decoded_page_rel by fastforce
    show "R pid = []" if "\<not> pid < n" for pid using outside [OF that] by simp
  qed
  then show thesis using that r(1) store d(5,6) by blast
qed

lemma disk_file_ok:
  assumes "disk_holds schema ct n m s" obtains h where "file_ok schema ct s" "read_db_header s = (Inr h, s)" "dh_page_count h = n"
proof -
  obtain k c idx h where "pager_ok schema ct idx n (k, c)" "pg_storage c = s" "read_db_header s = (Inr h, s)" "dh_page_count h = n"
    using assms unfolding disk_holds_def by blast
  then show thesis using that core_okD(1) by (auto simp: pager_ok_def)
qed

lemma read_stored_schema_ok:
  assumes "file_ok schema ct s" shows "read_stored_schema s = (Inr (Some schema), s)"
proof -
  note d = file_okD [OF assms]
  have "32 \<le> length (se_contents s)" using d(7) serialise_schema_length [of schema] by (simp add: holds_schema_def)
  then have big: "(24 :: u64) < word_of_nat (length (se_contents s))" using d(5) by (simp add: word_less_nat_alt unat_of_nat)
  show ?thesis
    using d(1) big holds_schema_read(1) [OF d(7,4,1)]
    by (simp add: read_stored_schema_def bindS_def file_size_def sizeof_header_def catchS_def)
qed

text \<open>Opening an existing file adopts its schema and goes on to create the members.\<close>

lemma open_existing_start:
  assumes "disk_holds schema ct n m s" and "\<not> db_is_open db" and "db_compression db = ct"
    and "se_file (db_storage db) = Some (se_contents s)" and "se_can_open (db_storage db)"
    and "\<not> se_is_open (db_storage db)" and "db_schema_explicit db \<longrightarrow> schemas_match schema (db_schema db)"
  obtains db1 where "db_open db = open_members db1" "disk_holds schema ct n m (db_storage db1)" "db_schema db1 = schema" "db_compression db1 = ct"
    "db_wal db1 = db_wal db" "db_indexes db1 = db_indexes db" "db_cache_cap db1 = db_cache_cap db" "db_is_open db1 = db_is_open db"
    "se_durable (db_storage db1) = se_durable (db_storage db)"
proof -
  obtain h0 where f0: "file_ok schema ct s" by (rule disk_file_ok [OF assms(1)])
  let ?s = "(db_storage db)\<lparr>se_compression := ct, se_fd := True, se_is_open := True\<rparr>"
  have same: "same_file s ?s" using file_okD(1,2) [OF f0] assms(4) by (simp add: same_file_def se_contents_def)
  note disk = disk_holds_same [OF assms(1) same]
  obtain h where f: "file_ok schema ct ?s" "read_db_header ?s = (Inr h, ?s)" by (rule disk_file_ok [OF disk])
  have opened: "se_open (new_storage (db_compression db) (db_storage db)) = (Inr (), ?s)"
    using assms(3,4,5,6) by (simp add: new_storage_def se_close_def se_open_def bindS_def)
  let ?db = "set_storage ?s (db\<lparr>db_ready := False\<rparr>)"
  have start: "db_open db = bindS (adopt_schema h (Some schema)) (\<lambda>_. open_members) ?db"
    by (rule db_open_steps [OF assms(2) opened f(2) read_stored_schema_ok [OF f(1)]])
  have adopt: "adopt_schema h (Some schema) ?db = (Inr (), ?db\<lparr>db_schema := schema\<rparr>)"
    using assms(7) by (auto simp: adopt_schema_def bindS_def)
  have "db_open db = open_members (?db\<lparr>db_schema := schema\<rparr>)" unfolding start using adopt by (simp add: bindS_def)
  then show thesis by (rule that) (use disk assms(3) in simp_all)
qed

lemma open_existing:
  assumes "disk_holds schema ct n m s" and "\<not> db_is_open db" and "db_compression db = ct" and "clean_log (db_wal db)"
    and "db_indexes db = []" and "se_file (db_storage db) = Some (se_contents s)" and "se_can_open (db_storage db)"
    and "\<not> se_is_open (db_storage db)" and "db_schema_explicit db \<longrightarrow> schemas_match schema (db_schema db)"
  obtains db' where "db_open db = (Inr (), db')" "db_rel True schema ct n db' m" "db_indexes db' = []"
proof -
  obtain db1 where o: "db_open db = open_members db1" "disk_holds schema ct n m (db_storage db1)" "db_schema db1 = schema" "db_compression db1 = ct"
    "db_wal db1 = db_wal db" "db_indexes db1 = db_indexes db" by (rule open_existing_start [OF assms(1-3,6-9)])
  obtain R idx ps where r: "recover schema (pager (db_storage db1) index_manager (db_cache_cap db1)) = (Inr (), ps)" "store_rel schema ct R idx n ps"
    "placed R (places idx)" "m = table R (places idx)" by (rule disk_recover [OF o(2)])
  have log: "clean_log (db_wal db1)" using assms(4) o(5) by simp
  obtain db' where m: "open_members db1 = (Inr (), db')" "db_state True schema ct R n db'" "db_index db' = idx" "db_indexes db' = db_indexes db1"
    by (rule open_members_ok [OF log o(3,4) r(1,2)])
  have "db_rel True schema ct n db' m"
    using m r(3,4) o(6) assms(5) unfolding db_rel_def by (intro conjI exI [of _ R]) (simp_all add: indexed_def)
  then show thesis using that o(1,6) m(1,4) assms(5) by simp
qed

lemma se_close_contents:
  assumes "se_file s = Some (se_durable s)"
  obtains s' where "se_close s = (Inr (), s')" "se_file s' = Some (se_contents s)" "se_durable s' = se_contents s"
proof -
  have c: "se_contents s = se_durable s" using assms by (simp add: se_contents_def)
  show thesis
  proof (cases "se_is_open s")
    case False
    then show thesis by (intro that [of s]) (simp_all add: se_close_def assms c)
  next
    case True
    let ?s = "if se_fd s then s\<lparr>se_durable := se_contents s, se_fd := False, se_is_open := False\<rparr> else s\<lparr>se_is_open := False\<rparr>"
    have "se_close s = (Inr (), ?s)" using True by (simp add: se_close_def bindS_def se_fsync_def)
    then show thesis by (rule that) (simp_all add: assms c)
  qed
qed

text \<open>Flushing leaves the whole contents in the file, and durable.\<close>

lemma flush_disk:
  assumes "db_state True schema ct R n db" and "placed R (places (db_index db))" and "m = table R (places (db_index db))"
  obtains ps idx where "on_pager flush_all db = (Inr (), db\<lparr>db_pager := ps\<rparr>)" "disk_holds schema ct n m (pg_storage (snd ps))"
    "se_file (pg_storage (snd ps)) = Some (se_durable (pg_storage (snd ps)))"
proof -
  note d = db_stateD [OF assms(1)] and s = store_relD [OF db_stateD(5) [OF assms(1)]]
  obtain ps idx h where f: "flush_all (db_pager db) = (Inr (), ps)" "pager_ok schema ct idx n ps" "im_inv idx"
    "places idx = places (db_index db)" "pager_pages ps = pager_pages (db_pager db)" "stored_page (snd ps) = pager_pages (db_pager db)"
    "read_db_header (pg_storage (snd ps)) = (Inr h, pg_storage (snd ps))" "dh_page_count h = n"
    "se_file (pg_storage (snd ps)) = Some (se_durable (pg_storage (snd ps)))"
    by (rule flush_all_ok [OF s(1,2)])
  have disk: "disk_holds schema ct n m (pg_storage (snd ps))"
    unfolding disk_holds_def
    by (rule exI [of _ R], rule exI [of _ "places (db_index db)"], rule exI [of _ "fst ps"], rule exI [of _ "snd ps"], rule exI [of _ idx], rule exI [of _ h])
       (use f d(5) assms(2,3) in \<open>simp add: store_rel_def\<close>)
  have "on_pager flush_all db = (Inr (), db\<lparr>db_pager := ps\<rparr>)" by (rule on_pager_apply) (use d(2) f(1) in simp_all)
  then show thesis using that disk f(9) by blast
qed

lemma close_ok:
  assumes "db_rel True schema ct n db m"
  obtains db' s where "db_close db = (Inr (), db')" "\<not> db_is_open db'" "disk_holds schema ct n m s"
    "se_file (db_storage db') = Some (se_contents s)" "se_durable (db_storage db') = se_contents s"
    "wal_file (db_wal db') = Some wal_header" "wal_durable (db_wal db') = wal_header"
proof -
  obtain R where rel: "db_state True schema ct R n db" "placed R (places (db_index db))" "m = table R (places (db_index db))"
    by (rule db_relE [OF assms])
  note d = db_stateD [OF rel(1)]
  obtain ps where f: "on_pager flush_all db = (Inr (), db\<lparr>db_pager := ps\<rparr>)" "disk_holds schema ct n m (pg_storage (snd ps))"
    "se_file (pg_storage (snd ps)) = Some (se_durable (pg_storage (snd ps)))" by (rule flush_disk [OF rel])
  let ?s = "pg_storage (snd ps)"
  define db1 where "db1 = db\<lparr>db_pager := ps\<rparr>"
  obtain base rs k j where "wal_holds base (db_wal db) rs k j" using d(6) by (auto simp: log_ok_def)
  then obtain w where w: "wal_clear (db_wal db) = (Inr (), w)" "wal_holds wal_header w [] 0 0" by (rule wal_clear_holds)
  obtain w2 where w2: "wal_close w = (Inr (), w2)" "wal_file w2 = Some (wal_header @ encode_records [])"
    "wal_durable w2 = wal_header @ encode_records (take 0 [])" by (rule wal_close_holds [OF w(2)])
  obtain s2 where s2: "se_close ?s = (Inr (), s2)" "se_file s2 = Some (se_contents ?s)" "se_durable s2 = se_contents ?s"
    by (rule se_close_contents [OF f(3)])
  have wals: "on_wal wal_clear db1 = (Inr (), db1\<lparr>db_wal := w\<rparr>)" "on_wal wal_close (db1\<lparr>db_wal := w\<rparr>) = (Inr (), db1\<lparr>db_wal := w2\<rparr>)"
    using on_wal_apply [of db1 wal_clear "Inr ()" w] on_wal_apply [of "db1\<lparr>db_wal := w\<rparr>" wal_close "Inr ()" w2] d(2) w(1) w2(1)
    by (simp_all add: db1_def)
  have st: "on_pager (on_core (on_storage se_close)) (db1\<lparr>db_wal := w2\<rparr>) = (Inr (), set_storage s2 (db1\<lparr>db_wal := w2\<rparr>))"
    using d(2) s2(1) by (simp add: on_pager_def zoomS_def on_core_def on_storage_def db1_def set_storage_def)
  have "db_close db = (Inr (), (set_storage s2 (db1\<lparr>db_wal := w2\<rparr>))\<lparr>db_indexes := [], db_is_open := False\<rparr>)"
    using d(1) f(1) wals st by (simp add: db_close_def bindS_def flip: db1_def)
  then show thesis
    by (rule that [OF _ _ f(2)]) (use s2 w2 in simp_all)
qed

lemma fields_match_iff:
  "length as = length bs \<Longrightarrow> fields_match as bs \<longleftrightarrow> map (\<lambda>f. (fd_name f, fd_type f)) as = map (\<lambda>f. (fd_name f, fd_type f)) bs"
  by (induction as bs rule: fields_match.induct) auto

lemma schemas_match_iff:
  "schemas_match a b \<longleftrightarrow> map (\<lambda>f. (fd_name f, fd_type f)) (s_fields a) = map (\<lambda>f. (fd_name f, fd_type f)) (s_fields b)"
  by (auto simp: schemas_match_def fields_match_iff dest: map_eq_imp_length_eq)

lemma open_other_schema:
  assumes "disk_holds schema ct n m s" and "s_fields schema' \<noteq> []" and "\<not> schemas_match schema schema'" and "validate schema' = Inr ()"
  obtains db0 db where "db_new schema' ct cap (Some (se_contents s)) logf script = Inr db0" "db_open db0 = (Inl MigrationError, db)"
    "se_file (db_storage db) = Some (se_contents s)"
proof -
  obtain h0 where f0: "file_ok schema ct s" by (rule disk_file_ok [OF assms(1)])
  let ?db = "\<lparr>db_schema = schema', db_compression = ct, db_cache_cap = cap, db_schema_explicit = True, db_ready = False,
    db_pager = pager (storage_engine (Some (se_contents s)) ct) index_manager cap, db_wal = wal_object logf script, db_indexes = [], db_is_open = False\<rparr>"
  have new: "db_new schema' ct cap (Some (se_contents s)) logf script = Inr ?db" using assms(2,4) by (simp add: db_new_def Let_def)
  let ?s = "(storage_engine (Some (se_contents s)) ct)\<lparr>se_fd := True, se_is_open := True\<rparr>"
  have same: "same_file s ?s" using file_okD(1,2) [OF f0] by (simp add: same_file_def storage_engine_def) (simp add: se_contents_def)
  obtain h where f: "file_ok schema ct ?s" "read_db_header ?s = (Inr h, ?s)" by (rule disk_file_ok [OF disk_holds_same [OF assms(1) same]])
  have opened: "se_open (new_storage (db_compression ?db) (db_storage ?db)) = (Inr (), ?s)"
    by (simp add: new_storage_def se_close_def se_open_def bindS_def storage_engine_def pager_def)
  have start: "db_open ?db = bindS (adopt_schema h (Some schema)) (\<lambda>_. open_members) (set_storage ?s ?db)"
    using db_open_steps [OF _ opened f(2) read_stored_schema_ok [OF f(1)]] by simp
  obtain s2 where s2: "se_close ?s = (Inr (), s2)" "se_file s2 = Some (se_contents s)"
    by (simp add: se_close_def bindS_def se_fsync_def storage_engine_def)
  have "adopt_schema h (Some schema) (set_storage ?s ?db) = (Inl MigrationError, set_storage s2 ?db)"
    using assms(3) on_new_storage_apply [of se_close "set_storage ?s ?db" "Inr ()" s2] s2(1) by (simp add: adopt_schema_def bindS_def)
  then have "db_open ?db = (Inl MigrationError, set_storage s2 ?db)" using start by (simp add: bindS_def)
  then show thesis using that new s2(2) by simp
qed

text \<open>A new object on what \<open>close\<close> left on the disk.\<close>

lemma reopened_clean:
  assumes "disk_holds schema ct n m c" and "clean_log (wal_object logf script)" and "s_fields schema' = [] \<or> schemas_match schema schema' \<and> validate schema' = Inr ()"
  obtains db db1 where "db_new schema' ct cap (Some (se_contents c)) logf script = Inr db" "db_open db = (Inr (), db1)"
    "db_rel True schema ct n db1 m"
proof -
  have "\<exists>db. db_new schema' ct cap (Some (se_contents c)) logf script = Inr db \<and> db_compression db = ct
      \<and> db_indexes db = [] \<and> \<not> db_is_open db \<and> db_storage db = storage_engine (Some (se_contents c)) ct
      \<and> db_wal db = wal_object logf script \<and> (db_schema_explicit db \<longrightarrow> schemas_match schema (db_schema db))"
    using assms(3) by (cases "s_fields schema' = []") (auto simp: db_new_def Let_def pager_def default_schema_fields_def validate_def)
  then obtain db where db: "db_new schema' ct cap (Some (se_contents c)) logf script = Inr db" "db_compression db = ct"
    "db_indexes db = []" "\<not> db_is_open db" "db_storage db = storage_engine (Some (se_contents c)) ct"
    "db_wal db = wal_object logf script" "db_schema_explicit db \<longrightarrow> schemas_match schema (db_schema db)" by blast
  have log: "clean_log (db_wal db)" using db(6) assms(2) by simp
  obtain db1 where "db_open db = (Inr (), db1)" "db_rel True schema ct n db1 m"
    by (rule open_existing [OF assms(1) db(4,2) log db(3) _ _ _ db(7)]) (simp_all add: db(5), simp_all add: storage_engine_def)
  then show thesis using that db(1) by blast
qed

lemma reopened:
  assumes "disk_holds schema ct n m c" and "good_script script" and "s_fields schema' = [] \<or> schemas_match schema schema' \<and> validate schema' = Inr ()"
  obtains db db1 where "db_new schema' ct cap (Some (se_contents c)) (Some wal_header) script = Inr db" "db_open db = (Inr (), db1)"
    "db_rel True schema ct n db1 m"
proof -
  have "clean_log (wal_object (Some wal_header) script)" using assms(2) by (simp add: clean_log_def wal_object_def)
  from reopened_clean [OF assms(1) this assms(3)] show thesis using that by blast
qed

section \<open>Properties\<close>

text \<open>
  C1: the database is a map from ids to rows. Opened on a path with no file, any sequence of
  insertions, deletions, updates (single or in batches), lookups and checkpoints, whatever the
  cache capacity, answers exactly as the map does: what is inserted is found, what is deleted is
  not, a duplicate, missing or oversized row is refused with the error the sources throw, and a
  refused operation or batch changes nothing. Every call returns; none reads outside a buffer.
\<close>

theorem db_refines_map:
  assumes "storable_schema schema" and "validate schema = Inr ()" and "ct \<in> {CNone, CLZ4}" and "good_script script"
    and "\<forall>oper \<in> set ops. good_op schema ct oper" and "length (ops_rows ops) < 2 ^ 32"
  shows "\<exists>db0 db. db_new schema ct cap None None script = Inr db0 \<and> db_open db0 = (Inr (), db)
    \<and> fst (run_calls db_call ops db) = fst (run_calls (map_call schema) ops Map.empty)"
proof -
  obtain db0 db where o: "db_new schema ct cap None None script = Inr db0" "db_open db0 = (Inr (), db)" "db_rel True schema ct 0 db Map.empty"
    by (rule open_fresh [OF assms(1-4), of cap])
  have "fst (run_calls db_call ops db) = fst (run_calls (map_call schema) ops Map.empty)"
    by (rule db_run_refined [OF o(3) assms(5)]) (use assms(6) in simp_all)
  then show ?thesis using o(1,2) by blast
qed

lemma good_demo_row [simp]: "length name \<le> 113 \<Longrightarrow> good_row demo_schema ct (demo_row i age name)"
  by (simp add: good_row_def fitting_row_def)

lemma validate_demo_schema: "validate demo_schema = Inr ()"
  by (simp add: demo_schema_def validate_def)

theorem db_refines_map_witness:
  "\<exists>db0 db. db_new demo_schema CLZ4 1 None None [7] = Inr db0 \<and> db_open db0 = (Inr (), db)
    \<and> fst (run_calls db_call [DbInsert (demo_row 1 25 ''alice''), DbInsert (demo_row 1 30 ''bob''), DbUpdate (demo_row 1 26 ''al''),
        DbGet 1, DbErase 1, DbTryGet 1] db)
      = [Inr Done, Inl DuplicateKeyError, Inr Done, Inr (Found (demo_row 1 26 ''al'')), Inr Done, Inr (Maybe None)]"
proof -
  let ?ops = "[DbInsert (demo_row 1 25 ''alice''), DbInsert (demo_row 1 30 ''bob''), DbUpdate (demo_row 1 26 ''al''),
        DbGet 1, DbErase 1, DbTryGet 1]"
  have spec: "fst (run_calls (map_call demo_schema) ?ops Map.empty)
      = [Inr Done, Inl DuplicateKeyError, Inr Done, Inr (Found (demo_row 1 26 ''al'')), Inr Done, Inr (Maybe None)]"
    by (simp add: insert_error_def erase_error_def put_row_def drop_row_def storable_length) (simp add: demo_row_def demo_schema_def)
  show ?thesis
    using db_refines_map [of demo_schema CLZ4 "[7]" ?ops 1] storable_demo_schema validate_demo_schema unfolding spec
    by (simp add: good_script_def)
qed

text \<open>
  C2: closing makes the contents durable and opening restores them. After any such sequence of
  operations, \<open>close\<close> succeeds, and a new database object on what has reached the disk by then, given
  any cache capacity and either no schema or one with the same fields, opens and answers every
  further sequence of operations as the map the first sequence left would.
\<close>

theorem db_survives_close:
  assumes "storable_schema schema" and "validate schema = Inr ()" and "ct \<in> {CNone, CLZ4}" and "good_script script" and "good_script script'"
    and "\<forall>oper \<in> set (ops @ ops'). good_op schema ct oper" and "length (ops_rows (ops @ ops')) < 2 ^ 32"
    and "s_fields schema' = [] \<or> schemas_match schema schema' \<and> validate schema' = Inr ()"
  shows "\<exists>db0 db db1. db_new schema ct cap None None script = Inr db0 \<and> db_open db0 = (Inr (), db)
    \<and> db_close (snd (run_calls db_call ops db)) = (Inr (), db1)
    \<and> (\<exists>db2 db3. db_new schema' ct cap' (Some (se_durable (db_storage db1))) (Some (wal_durable (db_wal db1))) script' = Inr db2
        \<and> db_open db2 = (Inr (), db3)
        \<and> fst (run_calls db_call ops' db3) = fst (run_calls (map_call schema) ops' (snd (run_calls (map_call schema) ops Map.empty))))"
proof -
  let ?m = "snd (run_calls (map_call schema) ops Map.empty)"
  obtain db0 db where o: "db_new schema ct cap None None script = Inr db0" "db_open db0 = (Inr (), db)" "db_rel True schema ct 0 db Map.empty"
    by (rule open_fresh [OF assms(1-4), of cap])
  obtain dbr n where run: "run_calls db_call ops db = (fst (run_calls (map_call schema) ops Map.empty), dbr)" "db_rel True schema ct n dbr ?m"
    "unat n \<le> unat (0 :: u32) + length (ops_rows ops)"
    by (rule db_run_refined [OF o(3), of ops]) (use assms(6,7) in auto)
  obtain db1 s where c: "db_close dbr = (Inr (), db1)" "disk_holds schema ct n ?m s" "se_durable (db_storage db1) = se_contents s"
    "wal_durable (db_wal db1) = wal_header" by (rule close_ok [OF run(2)])
  obtain db2 db3 where r: "db_new schema' ct cap' (Some (se_contents s)) (Some wal_header) script' = Inr db2" "db_open db2 = (Inr (), db3)"
    "db_rel True schema ct n db3 ?m" by (rule reopened [OF c(2) assms(5,8), of cap'])
  have "fst (run_calls db_call ops' db3) = fst (run_calls (map_call schema) ops' ?m)"
    by (rule db_run_refined [OF r(3), of ops']) (use assms(6,7) run(3) in auto)
  then show ?thesis using o(1,2) run(1) c r(1,2) by auto
qed

theorem db_survives_close_witness:
  "\<exists>db0 db db1. db_new demo_schema CNone 2 None None [] = Inr db0 \<and> db_open db0 = (Inr (), db)
    \<and> db_close (snd (run_calls db_call [DbInsertBatch [demo_row 1 25 ''alice'', demo_row 2 30 ''bob''], DbErase 1] db)) = (Inr (), db1)
    \<and> (\<exists>db2 db3. db_new \<lparr>s_fields = [], s_version = 0\<rparr> CNone 50 (Some (se_durable (db_storage db1))) (Some (wal_durable (db_wal db1))) [] = Inr db2
        \<and> db_open db2 = (Inr (), db3)
        \<and> fst (run_calls db_call [DbTryGet 1, DbGet 2] db3) = [Inr (Maybe None), Inr (Found (demo_row 2 30 ''bob''))])"
proof -
  let ?ops = "[DbInsertBatch [demo_row 1 25 ''alice'', demo_row 2 30 ''bob''], DbErase 1]"
  have m: "fst (run_calls (map_call demo_schema) [DbTryGet 1, DbGet 2] (snd (run_calls (map_call demo_schema) ?ops Map.empty)))
      = [Inr (Maybe None), Inr (Found (demo_row 2 30 ''bob''))]"
    by (simp add: insert_error_def erase_error_def put_row_def drop_row_def storable_length) (simp add: demo_row_def demo_schema_def)
  show ?thesis
    using db_survives_close [of demo_schema CNone "[]" "[]" ?ops "[DbTryGet 1, DbGet 2]" "\<lparr>s_fields = [], s_version = 0\<rparr>" 2 50]
      storable_demo_schema validate_demo_schema unfolding m
    by (simp add: good_script_def)
qed

text \<open>
  C23: opening a database with a schema whose fields differ from the stored ones (in name, type, order
  or number) is refused with \<open>MigrationError\<close>, whatever was stored before, and the file keeps its contents.
\<close>

theorem open_refuses_other_schema:
  assumes "storable_schema schema" and "validate schema = Inr ()" and "ct \<in> {CNone, CLZ4}" and "good_script script"
    and "\<forall>oper \<in> set ops. good_op schema ct oper" and "length (ops_rows ops) < 2 ^ 32"
    and "s_fields schema' \<noteq> []" and "validate schema' = Inr ()"
    and "map (\<lambda>f. (fd_name f, fd_type f)) (s_fields schema') \<noteq> map (\<lambda>f. (fd_name f, fd_type f)) (s_fields schema)"
  shows "\<exists>db0 db db1. db_new schema ct cap None None script = Inr db0 \<and> db_open db0 = (Inr (), db)
    \<and> db_close (snd (run_calls db_call ops db)) = (Inr (), db1)
    \<and> (\<exists>db2 db3. db_new schema' ct cap' (se_file (db_storage db1)) (wal_file (db_wal db1)) script' = Inr db2
        \<and> db_open db2 = (Inl MigrationError, db3) \<and> se_file (db_storage db3) = se_file (db_storage db1))"
proof -
  obtain db0 db where o: "db_new schema ct cap None None script = Inr db0" "db_open db0 = (Inr (), db)" "db_rel True schema ct 0 db Map.empty"
    by (rule open_fresh [OF assms(1-4), of cap])
  obtain dbr n where run: "run_calls db_call ops db = (fst (run_calls (map_call schema) ops Map.empty), dbr)"
    "db_rel True schema ct n dbr (snd (run_calls (map_call schema) ops Map.empty))"
    by (rule db_run_refined [OF o(3), of ops]) (use assms(5,6) in auto)
  obtain db1 s where c: "db_close dbr = (Inr (), db1)" "disk_holds schema ct n (snd (run_calls (map_call schema) ops Map.empty)) s"
    "se_file (db_storage db1) = Some (se_contents s)" by (rule close_ok [OF run(2)])
  have "\<not> schemas_match schema schema'" using assms(9) schemas_match_iff by metis
  then obtain db2 db3 where "db_new schema' ct cap' (Some (se_contents s)) (wal_file (db_wal db1)) script' = Inr db2"
    "db_open db2 = (Inl MigrationError, db3)" "se_file (db_storage db3) = Some (se_contents s)"
    by (rule open_other_schema [OF c(2) assms(7) _ assms(8), of cap' "wal_file (db_wal db1)" script'])
  then show ?thesis using o(1,2) run(1) c(1,3) by auto
qed

theorem open_refuses_other_schema_witness:
  "\<exists>db0 db db1. db_new demo_schema CNone 4 None None [] = Inr db0 \<and> db_open db0 = (Inr (), db)
    \<and> db_close (snd (run_calls db_call [DbInsert (demo_row 1 25 ''alice'')] db)) = (Inr (), db1)
    \<and> (\<exists>db2 db3. db_new \<lparr>s_fields = [\<lparr>fd_name = ''age'', fd_type = INT64\<rparr>], s_version = 1\<rparr> CNone 4 (se_file (db_storage db1)) (wal_file (db_wal db1)) [] = Inr db2
        \<and> db_open db2 = (Inl MigrationError, db3) \<and> se_file (db_storage db3) = se_file (db_storage db1))"
  by (rule open_refuses_other_schema)
     (simp_all add: storable_demo_schema validate_demo_schema good_script_def, simp_all add: validate_def demo_schema_def)

text \<open>The operations that do not begin with the test of \<open>open_\<close>.\<close>

fun tests_open :: "db_op \<Rightarrow> bool" where
  "tests_open (DbRange _ _ _ _ _) = False"
| "tests_open (DbCreateIndex _) = False"
| "tests_open (DbDropIndex _) = False"
| "tests_open _ = True"

text \<open>
  C24: a database that is not open, never opened or closed again, refuses every operation but those on
  secondary indexes with \<open>XDLError\<close> and does not change; \<open>close\<close> and the destructor do nothing.
\<close>

theorem not_open_refused:
  assumes "\<not> db_is_open db"
  shows "(tests_open oper \<longrightarrow> db_call oper db = (Inl XDLError, db)) \<and> db_close db = (Inr (), db) \<and> db_destroy db = (Inr (), db)"
proof (intro conjI impI)
  note closed = require_open_apply(2) [OF assms]
  show "tests_open oper \<Longrightarrow> db_call oper db = (Inl XDLError, db)"
    by (cases oper) (simp_all add: answer_def bindS_def closed db_insert_def insert_batch_def db_erase_def erase_batch_def
        db_update_def update_batch_def db_get_def try_get_def checkpoint_def scan_all_def scan_def)
  show "db_close db = (Inr (), db)" "db_destroy db = (Inr (), db)" using assms by (simp_all add: db_close_def db_destroy_def)
qed

theorem not_open_refused_witness:
  "\<exists>db. db_new demo_schema CNone 4 None None [] = Inr db \<and> db_call (DbGet 1) db = (Inl XDLError, db)"
proof -
  obtain db where "db_new demo_schema CNone 4 None None [] = Inr db" "\<not> db_is_open db"
    using validate_demo_schema by (simp add: db_new_def Let_def demo_schema_def)
  then show ?thesis using not_open_refused [of db "DbGet 1"] by auto
qed

text \<open>
  The operations on secondary indexes do not test whether the database is open: on one that was never
  opened, \<open>create_index\<close> and \<open>index_range_scan\<close> of a field of the schema use the pager before it exists.
\<close>

theorem index_operations_unguarded:
  assumes "db_new schema ct cap f logf script = Inr db" and "0 \<le> field_index (db_schema db) name"
  shows "create_index name db = (Inl UndefinedBehaviour, db) \<and> index_range_scan name lo lo_inc hi hi_inc db = (Inl UndefinedBehaviour, db)"
proof -
  have new: "\<not> db_ready db" "db_indexes db = []" using assms(1) by (auto simp: db_new_def Let_def result_simps)
  have fi: "nat (field_index (db_schema db) name) < length (s_fields (db_schema db))" using field_index_nonneg [OF assms(2)] by simp
  show ?thesis using assms(2) new fi by (simp add: create_index_def index_range_scan_def scan_unlocked_def bindS_def Let_def on_pager_def)
qed

theorem index_operations_unguarded_witness:
  "\<exists>db. db_new demo_schema CNone 4 None None [] = Inr db \<and> create_index ''age'' db = (Inl UndefinedBehaviour, db)"
proof -
  obtain db where db: "db_new demo_schema CNone 4 None None [] = Inr db" "db_schema db = demo_schema"
    using validate_demo_schema by (simp add: db_new_def Let_def demo_schema_def)
  have "0 \<le> field_index (db_schema db) ''age''" using db(2) by (simp add: field_index_def demo_schema_def)
  then show ?thesis using index_operations_unguarded [OF db(1)] db(1) by blast
qed

text \<open>
  C6: a range query returns exactly the rows whose value lies between the bounds, each once, whether the field
  has an index or not; with one the rows come in ascending order of their keys. Creating or
  dropping indexes at any point before, the result is the same set of rows.
\<close>

theorem range_query_correct:
  assumes "storable_schema schema" and "validate schema = Inr ()" and "ct \<in> {CNone, CLZ4}" and "good_script script"
    and "\<forall>oper \<in> set ops. good_op schema ct oper" and "length (ops_rows ops) < 2 ^ 32"
    and "0 \<le> field_index schema name" and "typed_bound schema name lo" and "typed_bound schema name hi"
  shows "\<exists>db0 db. db_new schema ct cap None None script = Inr db0 \<and> db_open db0 = (Inr (), db)
    \<and> (let db1 = snd (run_calls db_call ops db); m = snd (run_calls (map_call schema) ops Map.empty)
       in \<exists>rows. fst (index_range_scan name lo lo_inc hi hi_inc db1) = Inr rows \<and> distinct (map row_id rows)
         \<and> set rows = {r \<in> ran m. in_range (bound_key schema name lo) lo_inc (bound_key schema name hi) hi_inc (row_key schema name r)}
         \<and> (fst (has_index name db1) = Inr True \<longrightarrow> sorted (map (row_key schema name) rows)))"
proof -
  obtain db0 db where o: "db_new schema ct cap None None script = Inr db0" "db_open db0 = (Inr (), db)" "db_rel True schema ct 0 db Map.empty"
    by (rule open_fresh [OF assms(1-4), of cap])
  obtain db1 n where run: "run_calls db_call ops db = (fst (run_calls (map_call schema) ops Map.empty), db1)"
    "db_rel True schema ct n db1 (snd (run_calls (map_call schema) ops Map.empty))"
    by (rule db_run_refined [OF o(3), of ops]) (use assms(5,6) in auto)
  obtain rows db2 where q: "index_range_scan name lo lo_inc hi hi_inc db1 = (Inr rows, db2)" "distinct (map row_id rows)"
    "set rows = rows_in_range schema name (bound_key schema name lo) lo_inc (bound_key schema name hi) hi_inc (snd (run_calls (map_call schema) ops Map.empty))"
    "name \<in> fst ` set (db_indexes db1) \<longrightarrow> sorted (map (row_key schema name) rows)"
    by (rule index_range_scan_ok [OF run(2) assms(7) refl bound_key_ok [OF assms(8)] bound_key_ok [OF assms(9)], of lo_inc hi_inc])
  have "fst (has_index name db1) = Inr True \<longrightarrow> name \<in> fst ` set (db_indexes db1)"
    by (auto simp: has_index_def map_of_eq_None_iff simp flip: not_None_eq)
  then show ?thesis using o(1,2) run(1) q unfolding Let_def rows_in_range_def by auto
qed

theorem range_query_correct_witness:
  "\<exists>db0 db rows. db_new demo_schema CNone 4 None None [] = Inr db0 \<and> db_open db0 = (Inr (), db)
    \<and> fst (index_range_scan ''age'' (Some (VUint32 26)) True None True
        (snd (run_calls db_call [DbInsert (demo_row 1 25 ''alice''), DbCreateIndex ''age'', DbInsert (demo_row 2 30 ''bob'')] db))) = Inr rows
    \<and> distinct (map row_id rows) \<and> set rows = {demo_row 2 30 ''bob''}"
proof -
  let ?ops = "[DbInsert (demo_row 1 25 ''alice''), DbCreateIndex ''age'', DbInsert (demo_row 2 30 ''bob'')]"
  have fi: "field_index demo_schema ''age'' = 0" by (simp add: field_index_def demo_schema_def)
  have m: "snd (run_calls (map_call demo_schema) ?ops Map.empty) = [1 \<mapsto> demo_row 1 25 ''alice'', 2 \<mapsto> demo_row 2 30 ''bob'']"
    by (simp add: insert_error_def put_row_def storable_length fi) (simp add: demo_row_def demo_schema_def)
  have key: "row_key demo_schema ''age'' (demo_row i a s) = encode_int_be 4 a" for i a s
    by (simp add: row_key_def fi bptree_key_encode_vec_def) (simp add: demo_row_def demo_schema_def)
  have typed: "typed_bound demo_schema ''age'' (Some (VUint32 26))" "typed_bound demo_schema ''age'' None"
    by (simp_all add: typed_bound_def fi, simp add: demo_schema_def)
  have bounds: "bound_key demo_schema ''age'' (Some (VUint32 26)) = Some (encode_int_be 4 (26 :: u32))" "bound_key demo_schema ''age'' None = None"
    by (simp_all add: bound_key_def encode_bound_def bptree_key_encode_vec_def fi, simp add: demo_schema_def)
  have ran: "ran [(1 :: u32) \<mapsto> demo_row 1 25 ''alice'', 2 \<mapsto> demo_row 2 30 ''bob''] = {demo_row 1 25 ''alice'', demo_row 2 30 ''bob''}"
    by (auto simp: ran_def intro: exI [of _ 1] exI [of _ 2])
  have "{r \<in> ran (snd (run_calls (map_call demo_schema) ?ops Map.empty)). in_range (Some (encode_int_be 4 (26 :: u32))) True None True (row_key demo_schema ''age'' r)}
      = {demo_row 2 30 ''bob''}"
    unfolding m ran using encode_u32_less_iff [of 26 25] encode_u32_less_iff [of 26 30]
    by (auto simp: key above_lo_def below_hi_def encode_int_be_eq_iff)
  then show ?thesis
    using range_query_correct [OF storable_demo_schema validate_demo_schema, of CNone "[]" ?ops "''age''" "Some (VUint32 26)" None 4 True True]
      fi typed unfolding bounds Let_def
    by (auto simp: good_script_def)
qed

end
