(* ===== verification/Db_Replay.thy ===== *)
theory Db_Replay
  imports Db_Lifecycle
begin

text \<open>
  Replay of the write-ahead log when a database is opened after a crash: every record of an insertion
  adds its row unless the id is there already, every record of a deletion removes the row, markers do nothing, and
  replaying a log a second time changes nothing more.
\<close>

section \<open>One record\<close>

lemma payload_page:
  assumes "storable_row schema r"
  shows "get_row ((Page_of_id INVALID_PAGE_ID)\<lparr>p_data := row_bytes r, p_row_count := 1, p_row_offsets := [0]\<rparr>) 0 schema = Inr r"
proof -
  let ?p = "(Page_of_id INVALID_PAGE_ID)\<lparr>p_data := row_bytes r, p_row_count := 1, p_row_offsets := [0]\<rparr>"
  have "page_rel schema ?p [r]" using assms by (simp add: page_rel_def rows_offsets_def storable_row_def)
  then show ?thesis using get_row_page_rel [of schema ?p "[r]" 0] by simp
qed

lemma replay_insert_ok:
  assumes "db_rel b schema ct n db m" and "fitting_row schema ct r" and "m (row_id r) = None" and "n \<noteq> -1" and "wr_row_data rec = row_bytes r"
  obtains db' n' where "replay_insert rec db = (Inr (), db')" "db_rel b schema ct n' db' (m(row_id r \<mapsto> r))" "n' \<in> {n, n + 1}"
    "map fst (db_indexes db') = map fst (db_indexes db)"
proof -
  obtain R where rel: "db_state b schema ct R n db" "placed R (places (db_index db))" "m = table R (places (db_index db))"
    "indexed schema m (db_indexes db)" by (rule db_relE [OF assms(1)])
  note d = db_stateD [OF rel(1)]
  have st: "storable_row schema r" "row_typed schema r" using assms(2) by (simp_all add: fitting_row_def storable_row_def)
  obtain page page' db1 db2 n' where a: "get_or_create_writable_page r db = (Inr page, db1)" "append_row page r schema = Inr page'"
    "p_id page' = p_id page" "p_row_count page = word_of_nat (length (R (p_id page)))" "page_rel schema page' (R (p_id page) @ [r])"
    "on_pager (write_page page') db1 = (Inr (), db2)" "db_state b schema ct (R(p_id page := R (p_id page) @ [r])) n' db2" "n' \<in> {n, n + 1}"
    "db_index db2 = db_index db" "db_indexes db2 = db_indexes db"
    by (rule append_ok [OF rel(1) assms(2,4)])
  let ?pid = "p_id page"
  let ?e = "\<lparr>ie_page_id = ?pid, ie_page_offset = page_offset ?pid (db_pager db2), ie_row_slot = p_row_count page\<rparr>"
  have len: "length (R ?pid) < 2 ^ 32 - 1" using store_relD(8) [OF d(5), of ?pid] by simp
  obtain db4 db5 where g: "on_primary (im_insert (row_id r) ?e) db2 = (Inr (), db4)" "index_row (row_fields r) (row_id r) db4 = (Inr (), db5)"
    "db_rel b schema ct n' db5 (m(row_id r \<mapsto> r))" "map fst (db_indexes db5) = map fst (db_indexes db2)"
    by (rule register_ok [where R = R and pid = ?pid and r = r and e = ?e and db = db2 and m = m and n = n' and schema = schema and ct = ct and b = b])
       (use a st(2) assms(3) len rel(2,3,4) in simp_all)
  have "replay_insert rec db = (Inr (), db5)"
    using d(3) assms(5) payload_page [OF st(1)] a(1,2,3,6) db_stateD(2) [OF a(7)] g(1,2)
    by (simp add: replay_insert_def bindS_def Let_def)
  then show thesis using that g(3,4) a(8,10) by simp
qed

lemma replay_delete_ok:
  assumes "db_rel b schema ct n db m" and "im_find (db_index db) i = Some e" and "db_indexes db = []" and "wr_row_id rec = i"
  obtains db' where "replay_delete rec e db = (Inr (), db')" "db_rel b schema ct n db' (m(i := None))" "db_indexes db' = []"
proof -
  obtain R where rel: "db_state b schema ct R n db" "placed R (places (db_index db))" "m = table R (places (db_index db))"
    "indexed schema m (db_indexes db)" by (rule db_relE [OF assms(1)])
  note d = db_stateD [OF rel(1)]
  define pid slot where "pid = ie_page_id e" and "slot = ie_row_slot e"
  have P: "places (db_index db) i = Some (pid, slot)" using assms(2) by (simp add: places_def pid_def slot_def)
  let ?R = "R(pid := remove_nth (unat slot) (R pid))"
  obtain page page' ps ps2 where p: "get_mutable_page pid (db_pager db) = (Inr page, ps)" "locate_row page e i = Inr (int (unat slot))"
    "erase_row page slot = Inr page'" "write_page page' ps = (Inr (), ps2)" "p_dirty page'"
    "store_rel schema ct R (db_index db) n ps" "store_rel schema ct ?R (db_index db) n ps2" "pid < n"
    by (rule erase_page_ok [OF rel(1,2) assms(2)]) (simp_all add: pid_def slot_def)
  have dirty: "page'\<lparr>p_dirty := True\<rparr> = page'" using p(5) by (cases page') simp
  let ?db1 = "db\<lparr>db_pager := ps\<rparr>" and ?db3 = "db\<lparr>db_pager := ps2\<rparr>"
  have got: "on_pager (get_mutable_page pid) db = (Inr page, ?db1)" by (rule on_pager_apply) (use d(2) p(1) in simp_all)
  have wr: "on_pager (write_page page') ?db1 = (Inr (), ?db3)"
    using on_pager_apply [of ?db1 "write_page page'" "Inr ()" ps2] d(2) p(4) by simp
  have s3: "db_state b schema ct ?R n ?db3" by (rule db_state_pager [OF rel(1) p(7)])
  have i3: "db_index ?db3 = db_index db" using store_relD(5) [OF p(7)] by simp
  obtain db4 db5 where u: "on_primary (\<lambda>ix. case im_remove ix i of (_, i') \<Rightarrow> (Inr (), i')) ?db3 = (Inr (), db4)"
    "repair_slots_after_erase pid db4 = (Inr (), db5)" "db_state b schema ct ?R n db5" "placed ?R (places (db_index db5))"
    "table ?R (places (db_index db5)) = (table R (places (db_index ?db3)))(i := None)" "db_indexes db5 = db_indexes ?db3"
    by (rule unregister_ok [OF s3 _ _ p(8) store_relD(9) [OF d(5)], of i]) (use rel(2) P i3 in simp_all)
  have "replay_delete rec e db = (Inr (), db5)"
    using assms(4) got p(2,3) dirty wr u(1,2) by (simp add: replay_delete_def bindS_def Let_def flip: pid_def)
  moreover have "db_rel b schema ct n db5 (m(i := None))"
    using u(3,4,5,6) rel(3) i3 assms(3) unfolding db_rel_def by (intro conjI exI [of _ ?R]) (simp_all add: indexed_def)
  ultimately show thesis using that u(6) assms(3) by simp
qed

section \<open>The whole log\<close>

text \<open>What replaying a log does to a map.\<close>

fun replay_effect :: "log_entry \<Rightarrow> rows_map \<Rightarrow> rows_map" where
  "replay_effect (Inserted r _ _) m = (if m (row_id r) = None then put_row r m else m)"
| "replay_effect (Deleted i _ _) m = drop_row i m"
| "replay_effect (Marker _) m = m"

fun good_entry :: "Schema \<Rightarrow> CompressionType \<Rightarrow> log_entry \<Rightarrow> bool" where
  "good_entry schema ct (Inserted r _ _) = fitting_row schema ct r"
| "good_entry schema ct (Deleted _ _ _) = True"
| "good_entry schema ct (Marker t) = (t = COMMIT \<or> t = CHECKPOINT)"

lemma replay_record_ok:
  assumes "db_rel b schema ct n db m" and "db_indexes db = []" and "good_entry schema ct entry" and "n \<noteq> -1"
  obtains db' n' where "replay_record (log_record entry) db = (Inr (), db')" "db_rel b schema ct n' db' (replay_effect entry m)"
    "n' \<in> {n, n + 1}" "db_indexes db' = []"
proof (cases entry)
  case (Inserted r pid slot)
  note d = db_relD [OF assms(1)]
  have fit: "fitting_row schema ct r" using assms(3) Inserted by simp
  show thesis
  proof (cases "m (row_id r)")
    case None
    then have "im_find (db_index db) (row_id r) = None" using d(4) by simp
    moreover obtain db' n' where "replay_insert (log_record entry) db = (Inr (), db')" "db_rel b schema ct n' db' (m(row_id r \<mapsto> r))"
      "n' \<in> {n, n + 1}" "map fst (db_indexes db') = map fst (db_indexes db)"
      by (rule replay_insert_ok [OF assms(1) fit None assms(4), of "log_record entry"]) (use Inserted in \<open>simp_all add: make_record_def\<close>)
    ultimately show thesis
      using that [of db' n'] Inserted None d(2) assms(2) by (simp add: replay_record_def make_record_def bindS_def catchS_def put_row_def)
  next
    case (Some old)
    then have "im_find (db_index db) (row_id r) \<noteq> None" using d(4) by simp
    then show thesis
      using that [of db n] Inserted Some d(2) assms(1,2) by (simp add: replay_record_def make_record_def bindS_def)
  qed
next
  case (Deleted i pid slot)
  note d = db_relD [OF assms(1)]
  show thesis
  proof (cases "im_find (db_index db) i")
    case None
    then have "m(i := None) = m" using d(4) by auto
    then show thesis using that [of db n] Deleted None d(2) assms(1,2) by (simp add: replay_record_def make_record_def bindS_def drop_row_def)
  next
    case (Some e)
    obtain db' where "replay_delete (log_record entry) e db = (Inr (), db')" "db_rel b schema ct n db' (m(i := None))" "db_indexes db' = []"
      by (rule replay_delete_ok [OF assms(1) Some assms(2), of "log_record entry"]) (use Deleted in \<open>simp_all add: make_record_def\<close>)
    then show thesis
      using that [of db' n] Deleted Some d(2) by (simp add: replay_record_def make_record_def bindS_def catchS_def drop_row_def)
  qed
next
  case (Marker t)
  then show thesis using that [of db n] assms by (simp add: replay_record_def make_record_def)
qed

lemma replay_records_ok:
  assumes "db_rel b schema ct n db m" and "db_indexes db = []" and "\<forall>entry \<in> set entries. good_entry schema ct entry"
    and "unat n + length entries < 2 ^ 32"
  shows "\<exists>db' n'. replay_records (map log_record entries) db = (Inr (), db') \<and> db_rel b schema ct n' db' (fold replay_effect entries m)
    \<and> unat n' \<le> unat n + length entries \<and> db_indexes db' = []"
  using assms
proof (induction entries arbitrary: n db m)
  case Nil
  then show ?case by auto
next
  case (Cons entry entries)
  have room: "n \<noteq> -1" using Cons.prems(4) by (intro count_room) simp
  obtain db1 n1 where s: "replay_record (log_record entry) db = (Inr (), db1)" "db_rel b schema ct n1 db1 (replay_effect entry m)"
    "n1 \<in> {n, n + 1}" "db_indexes db1 = []"
    by (rule replay_record_ok [OF Cons.prems(1,2) _ room, of entry]) (use Cons.prems(3) in simp_all)
  have n1: "unat n1 \<le> unat n + 1" by (rule next_count [OF s(3)])
  have rest: "\<forall>entry \<in> set entries. good_entry schema ct entry" "unat n1 + length entries < 2 ^ 32" using Cons.prems(3,4) n1 by auto
  obtain db' n' where "replay_records (map log_record entries) db1 = (Inr (), db')" "unat n' \<le> unat n1 + length entries"
    "db_rel b schema ct n' db' (fold replay_effect entries (replay_effect entry m))" "db_indexes db' = []"
    using Cons.IH [OF s(2,4) rest] by blast
  then show ?case using s(1) n1 by (auto simp: bindS_def)
qed

lemma open_members_replay:
  assumes "good_script (wal_script (db_wal db))" and "\<not> wal_is_open (db_wal db)" and "wal_buf (db_wal db) = []" and "wal_file (db_wal db) = Some c"
    and "wal_durable (db_wal db) = c" and "32 \<le> length c" and "length c < 2 ^ 32" and "parse_records (drop 32 c) = Inr (map log_record entries)"
    and "db_schema db = schema" and "db_compression db = ct" and "db_indexes db = []" and "\<not> db_is_open db"
    and rec: "recover schema (pager (db_storage db) index_manager (db_cache_cap db)) = (Inr (), ps)"
    and store: "store_rel schema ct R idx n ps" "placed R (places idx)" "m = table R (places idx)"
    and entries: "\<forall>entry \<in> set entries. good_entry schema ct entry" "unat n + length entries < 2 ^ 32"
  obtains db' n' where "open_members db = (Inr (), db')" "db_rel True schema ct n' db' (fold replay_effect entries m)"
    "unat n' \<le> unat n + length entries" "wal_holds c (db_wal db') [] 0 0" "db_durable db' = se_durable (db_storage db)"
proof -
  let ?w0 = "new_wal (db_wal db)"
  have w0: "good_script (wal_script ?w0)" "\<not> wal_is_open ?w0" "wal_buf ?w0 = []" "wal_file ?w0 = Some c" "wal_durable ?w0 = c"
    using assms(1-5) by (simp_all add: new_wal_def wal_close_def)
  have ne: "c \<noteq> []" using assms(6) by auto
  obtain sc where o: "good_script sc" "wal_open ?w0 = (Inr (), ?w0\<lparr>wal_script := sc, wal_file := Some c, wal_fd := True,
      wal_offset := word_of_nat (length c), wal_pos := length c, wal_is_open := True\<rparr>)"
    by (rule wal_open_file [OF w0(1,2,4) ne])
  let ?w = "?w0\<lparr>wal_script := sc, wal_file := Some c, wal_fd := True, wal_offset := word_of_nat (length c), wal_pos := length c, wal_is_open := True\<rparr>"
  have h: "wal_holds c ?w [] 0 0" by (rule wal_holds_opened) (use o(1) w0(3,5) in simp_all)
  obtain w' where "wal_replay ?w = (parse_records (drop 32 (c @ encode_records [])), w')" "wal_holds c w' [] 0 0"
    by (rule wal_replay_holds [OF h assms(6)]) (use assms(7) in simp_all)
  then have w': "wal_replay ?w = (Inr (map log_record entries), w')" "log_ok w'" "wal_holds c w' [] 0 0" using assms(8) by (auto simp: log_ok_def)
  let ?db = "db\<lparr>db_ready := True, db_pager := ps, db_wal := w'\<rparr>"
  have idx: "db_index ?db = idx" using store_relD(5) [OF store(1)] by simp
  have "db_state False schema ct R n ?db" using store(1) assms(9,10,12) w'(2) idx by (simp add: db_state_def)
  then have rel: "db_rel False schema ct n ?db m" using store idx assms(11) unfolding db_rel_def by (intro conjI exI [of _ R]) (simp_all add: indexed_def)
  obtain db' n' where r: "replay_records (map log_record entries) ?db = (Inr (), db')" "db_rel False schema ct n' db' (fold replay_effect entries m)"
    "unat n' \<le> unat n + length entries"
    using replay_records_ok [OF rel _ entries] assms(11) by auto
  have "open_members db = (Inr (), db'\<lparr>db_is_open := True\<rparr>)"
    using o(2) w'(1) rec assms(9) r(1) by (simp add: open_members_def bindS_def zoomS_def on_pager_def on_wal_def replay_wal_def)
  moreover have "db_rel True schema ct n' (db'\<lparr>db_is_open := True\<rparr>) (fold replay_effect entries m)"
    using r(2) by (auto simp: db_rel_def db_state_def)
  moreover have "db_wal db' = w'" "db_durable db' = pager_durable ps"
    using keeps_result [OF keeps_replay(1) r(1)] keeps_result [OF keeps_replay(2) r(1)] by (simp_all add: db_durable_def)
  moreover have "pager_durable ps = se_durable (db_storage db)"
    using keeps_result [OF keeps_recover rec] by (simp add: pager_durable_def core_durable_def pager_def)
  ultimately show thesis using that r(3) w'(3) by (simp add: db_durable_def)
qed

lemma good_entry_wf: "good_entry schema ct entry \<Longrightarrow> wf_record (log_record entry)"
  by (cases entry) (auto simp: wf_record_def make_record_def wal_type_of_byte_def fitting_row_def storable_row_def)

section \<open>Opening what a crash left\<close>

text \<open>
  The database file that survives: only the header of a new file, whose schema is not synchronised, or what a checkpoint left.
\<close>

definition durable_disk :: "Schema \<Rightarrow> CompressionType \<Rightarrow> u32 \<Rightarrow> rows_map \<Rightarrow> bytes \<Rightarrow> bool" where
  "durable_disk schema ct n m f \<longleftrightarrow> n = 0 \<and> m = Map.empty \<and> f = DBHeader_bytes (initial_db_header ct)
     \<or> (\<exists>s. disk_holds schema ct n m s \<and> f = se_contents s)"

text \<open>Opening what a crash left, the log possibly cut behind the records of some entries.\<close>

lemma open_after_crash:
  assumes "storable_schema schema" and "validate schema = Inr ()" and "ct \<in> {CNone, CLZ4}" and "good_script script"
    and "durable_disk schema ct n0 m0 f" and "\<forall>e \<in> set es. good_entry schema ct e" and "unat n0 + length es < 2 ^ 32"
    and "32 \<le> length c" and "length c < 2 ^ 32" and "parse_records (drop 32 c) = Inr (map log_record es)"
  obtains db0 db n where "db_new schema ct cap (Some f) (Some c) script = Inr db0" "db_open db0 = (Inr (), db)"
    "db_rel True schema ct n db (fold replay_effect es m0)" "unat n \<le> unat n0 + length es" "wal_holds c (db_wal db) [] 0 0" "db_durable db = f"
proof -
  obtain db0 db1 R idx ps where o: "db_new schema ct cap (Some f) (Some c) script = Inr db0" "db_open db0 = open_members db1" "db_schema db1 = schema"
    "db_compression db1 = ct" "db_wal db1 = wal_object (Some c) script" "db_indexes db1 = []" "\<not> db_is_open db1"
    "recover schema (pager (db_storage db1) index_manager (db_cache_cap db1)) = (Inr (), ps)" "store_rel schema ct R idx n0 ps"
    "placed R (places idx)" "m0 = table R (places idx)" "se_durable (db_storage db1) = f"
  proof (cases "n0 = 0 \<and> m0 = Map.empty \<and> f = DBHeader_bytes (initial_db_header ct)")
    case True
    obtain db0 db1 idx ps where "db_new schema ct cap (Some f) (Some c) script = Inr db0" "db_open db0 = open_members db1" "db_schema db1 = schema"
      "db_compression db1 = ct" "db_wal db1 = wal_object (Some c) script" "db_indexes db1 = []" "\<not> db_is_open db1"
      "recover schema (pager (db_storage db1) index_manager (db_cache_cap db1)) = (Inr (), ps)" "store_rel schema ct (\<lambda>_. []) idx 0 ps"
      "places idx = Map.empty" "se_durable (db_storage db1) = f"
      by (rule open_fresh_start [OF assms(1-3), of "Some f" cap "Some c" script]) (use True in auto)
    then show thesis using that placed_empty True by metis
  next
    case False
    then obtain s where s: "disk_holds schema ct n0 m0 s" "f = se_contents s" using assms(5) by (auto simp: durable_disk_def)
    have explicit: "s_fields schema \<noteq> []" using assms(1) by (simp add: storable_schema_def)
    let ?db = "\<lparr>db_schema = schema, db_compression = ct, db_cache_cap = cap, db_schema_explicit = True, db_ready = False,
      db_pager = pager (storage_engine (Some f) ct) index_manager cap, db_wal = wal_object (Some c) script, db_indexes = [], db_is_open = False\<rparr>"
    have new: "db_new schema ct cap (Some f) (Some c) script = Inr ?db" using explicit assms(2) by (simp add: db_new_def Let_def)
    obtain db1 where st: "db_open ?db = open_members db1" "disk_holds schema ct n0 m0 (db_storage db1)" "db_schema db1 = schema" "db_compression db1 = ct"
      "db_wal db1 = db_wal ?db" "db_indexes db1 = db_indexes ?db" "db_cache_cap db1 = db_cache_cap ?db" "db_is_open db1 = db_is_open ?db"
      "se_durable (db_storage db1) = se_durable (db_storage ?db)"
      by (rule open_existing_start [OF s(1), of ?db]) (use s(2) in \<open>simp_all add: pager_def storage_engine_def schemas_match_iff\<close>)
    obtain R idx ps where r: "recover schema (pager (db_storage db1) index_manager (db_cache_cap db1)) = (Inr (), ps)" "store_rel schema ct R idx n0 ps"
      "placed R (places idx)" "m0 = table R (places idx)" by (rule disk_recover [OF st(2)])
    show thesis by (rule that [OF new st(1,3,4) _ _ _ r]) (use st in \<open>simp_all add: pager_def storage_engine_def\<close>)
  qed
  have wal: "good_script (wal_script (db_wal db1))" "\<not> wal_is_open (db_wal db1)" "wal_buf (db_wal db1) = []" "wal_file (db_wal db1) = Some c"
    "wal_durable (db_wal db1) = c" using o(5) assms(4) by (simp_all add: wal_object_def)
  show thesis
    by (rule open_members_replay [OF wal assms(8-10) o(3,4,6,7,8,9,10,11) assms(6,7)]) (use that o(1,2,12) in simp_all)
qed

section \<open>Recovery from a log\<close>

text \<open>
  Recovery from a crash with any log. Let a database be closed (or checkpointed) with certain contents, and let the
  log found at the next start hold the records of later insertions and deletions, none of whose pages has
  been written back, the last record cut off anywhere. Opening succeeds, and the database then holds exactly those contents with the
  logged operations applied in order: it answers every further sequence of operations as that map does.
\<close>

theorem crash_recovery_replays_log:
  assumes "storable_schema schema" and "validate schema = Inr ()" and "ct \<in> {CNone, CLZ4}" and "good_script script" and "good_script script'"
    and "\<forall>oper \<in> set (ops @ ops'). good_op schema ct oper"
    and "\<forall>entry \<in> set (entries @ [torn]). good_entry schema ct entry" and "k < length (encode_record (log_record torn))"
    and "length (ops_rows (ops @ ops')) + length entries < 2 ^ 32"
    and "32 + length (encode_records (map log_record (entries @ [torn]))) < 2 ^ 32"
  shows "\<exists>db0 db db1. db_new schema ct cap None None script = Inr db0 \<and> db_open db0 = (Inr (), db)
    \<and> db_close (snd (run_calls db_call ops db)) = (Inr (), db1)
    \<and> (\<exists>db2 db3. db_new schema ct cap' (Some (se_durable (db_storage db1)))
          (Some (wal_header @ encode_records (map log_record entries) @ take k (encode_record (log_record torn)))) script' = Inr db2
        \<and> db_open db2 = (Inr (), db3)
        \<and> fst (run_calls db_call ops' db3)
          = fst (run_calls (map_call schema) ops' (fold replay_effect entries (snd (run_calls (map_call schema) ops Map.empty)))))"
proof -
  let ?m = "snd (run_calls (map_call schema) ops Map.empty)"
  let ?log = "wal_header @ encode_records (map log_record entries) @ take k (encode_record (log_record torn))"
  obtain db0 db where o: "db_new schema ct cap None None script = Inr db0" "db_open db0 = (Inr (), db)" "db_rel True schema ct 0 db Map.empty"
    by (rule open_fresh [OF assms(1-4), of cap])
  obtain dbr n where run: "run_calls db_call ops db = (fst (run_calls (map_call schema) ops Map.empty), dbr)" "db_rel True schema ct n dbr ?m"
    "unat n \<le> unat (0 :: u32) + length (ops_rows ops)"
    by (rule db_run_refined [OF o(3), of ops]) (use assms(6,9) in auto)
  obtain db1 s where c: "db_close dbr = (Inr (), db1)" "disk_holds schema ct n ?m s" "se_durable (db_storage db1) = se_contents s"
    by (rule close_ok [OF run(2)])
  have disk: "durable_disk schema ct n ?m (se_durable (db_storage db1))" using c(2,3) by (auto simp: durable_disk_def)
  have entries: "\<forall>e \<in> set entries. good_entry schema ct e" "unat n + length entries < 2 ^ 32" using assms(7,9) run(3) by simp_all
  have wf: "\<forall>r \<in> set (map log_record entries). wf_record r" "wf_record (log_record torn)" using assms(7) good_entry_wf by auto
  have parsed: "parse_records (drop 32 ?log) = Inr (map log_record entries)"
    using parse_records_encode [OF wf(1), of "take k (encode_record (log_record torn))"] wal_log.dec_torn [OF wf(2) assms(8)]
    by (simp add: length_wal_header)
  have len: "32 \<le> length ?log" "length ?log < 2 ^ 32" using assms(8,10) by (simp_all add: length_wal_header)
  obtain db2 db3 n3 where d: "db_new schema ct cap' (Some (se_durable (db_storage db1))) (Some ?log) script' = Inr db2" "db_open db2 = (Inr (), db3)"
    "db_rel True schema ct n3 db3 (fold replay_effect entries ?m)" "unat n3 \<le> unat n + length entries"
    by (rule open_after_crash [OF assms(1-3,5) disk entries len parsed])
  have "fst (run_calls db_call ops' db3) = fst (run_calls (map_call schema) ops' (fold replay_effect entries ?m))"
    by (rule db_run_refined [OF d(3), of ops']) (use assms(6,9) run(3) d(4) in auto)
  then show ?thesis using o(1,2) run(1) c(1) d(1,2) by auto
qed

theorem crash_recovery_replays_log_witness:
  "\<exists>db0 db db1. db_new demo_schema CNone 2 None None [] = Inr db0 \<and> db_open db0 = (Inr (), db)
    \<and> db_close (snd (run_calls db_call [DbInsert (demo_row 1 25 ''alice'')] db)) = (Inr (), db1)
    \<and> (\<exists>db2 db3. db_new demo_schema CNone 8 (Some (se_durable (db_storage db1)))
          (Some (wal_header @ encode_records (map log_record [Inserted (demo_row 2 30 ''bob'') 0 1, Deleted 1 0 0])
             @ take 5 (encode_record (log_record (Deleted 2 0 0))))) [3] = Inr db2
        \<and> db_open db2 = (Inr (), db3)
        \<and> fst (run_calls db_call [DbTryGet 1, DbTryGet 2] db3) = [Inr (Maybe None), Inr (Maybe (Some (demo_row 2 30 ''bob'')))])"
proof -
  let ?ops = "[DbInsert (demo_row 1 25 ''alice'')]" and ?es = "[Inserted (demo_row 2 30 ''bob'') 0 1, Deleted 1 0 0]"
  have id: "row_id (demo_row i a s) = i" for i a s by (simp add: demo_row_def)
  have m: "fst (run_calls (map_call demo_schema) [DbTryGet 1, DbTryGet 2] (fold replay_effect ?es (snd (run_calls (map_call demo_schema) ?ops Map.empty))))
      = [Inr (Maybe None), Inr (Maybe (Some (demo_row 2 30 ''bob'')))]"
    by (simp add: insert_error_def put_row_def drop_row_def storable_length id)
  show ?thesis
    using crash_recovery_replays_log [of demo_schema CNone "[]" "[3]" ?ops "[DbTryGet 1, DbTryGet 2]" ?es "Deleted 2 0 0" 5 2 8]
      storable_demo_schema validate_demo_schema unfolding m
    by (simp add: good_script_def fitting_row_def length_encode_record make_record_def)
qed

end
