(* ===== verification/Db_Crash.thy ===== *)
theory Db_Crash
  imports Db_Replay
begin

text \<open>
  Crashes of a running database. A crash leaves the contents of the two files that have been synchronised: pages written back since the last
  checkpoint may be lost, the log is there up to its last synchronised record. \<open>recoverable\<close> says that
  replaying the log that survives on the database file that survives gives the current rows; every operation preserves
  it, so whatever the program acknowledged is there again after any number of crashes.
\<close>

section \<open>Changes and their replay\<close>

fun replay_change :: "row_change \<Rightarrow> rows_map \<Rightarrow> rows_map" where
  "replay_change (Put r) m = (if m (row_id r) = None then put_row r m else m)"
| "replay_change (Drop i) m = drop_row i m"

lemma records_effect: "records c e \<Longrightarrow> replay_effect e = replay_change c"
  by (cases "(c, e)" rule: records.cases) (auto simp: fun_eq_iff)

lemma records_fold: "list_all2 records cs es \<Longrightarrow> fold replay_effect es m = fold replay_change cs m"
  by (induction arbitrary: m rule: list_all2_induct) (auto simp: records_effect)

lemma replay_replacement: "fold replay_change (replacement r) m = put_row r m"
  by (simp add: replacement_def put_row_def drop_row_def)

lemma replay_puts:
  "\<forall>r \<in> set rs. m (row_id r) = None \<Longrightarrow> distinct (map row_id rs) \<Longrightarrow> fold replay_change (map Put rs) m = fold put_row rs m"
proof (induction rs arbitrary: m)
  case (Cons r rs)
  have "row_id q \<noteq> row_id r" if "q \<in> set rs" for q using Cons.prems(2) that by (auto simp: rev_image_eqI)
  then have "\<forall>q \<in> set rs. put_row r m (row_id q) = None" using Cons.prems(1) by (auto simp: put_row_def)
  then show ?case using Cons by simp
qed simp

lemma replay_drops: "fold replay_change (map Drop is) m = fold drop_row is m"
  by (induction "is" arbitrary: m) simp_all

lemma replay_replacements: "fold replay_change (concat (map replacement rs)) m = fold put_row rs m"
  by (induction rs arbitrary: m) (simp_all add: replay_replacement)

text \<open>Replaying the changes an operation logs has the effect of the operation.\<close>

definition changes :: "Schema \<Rightarrow> db_op \<Rightarrow> rows_map \<Rightarrow> row_change list" where
  "changes schema oper m = (case op_changes schema oper m of None \<Rightarrow> [] | Some cs \<Rightarrow> cs)"

lemma changes_effect: "fold replay_change (changes schema oper m) m = snd (map_call schema oper m)"
proof (cases oper)
  case (DbInsertBatch rs)
  show ?thesis
  proof (cases "first_error (insert_error schema m) row_id rs []")
    case None
    then have "\<forall>r \<in> set rs. m (row_id r) = None" "distinct (map row_id rs)" by (auto simp: first_error_None)
    then show ?thesis using DbInsertBatch None replay_puts by (simp add: changes_def)
  qed (use DbInsertBatch in \<open>simp add: changes_def\<close>)
next
  case (DbGet i)
  then show ?thesis by (simp add: changes_def split: option.split)
qed (auto simp: changes_def insert_error_def erase_error_def guarded_def replay_drops replay_replacement replay_replacements
       split: option.split if_splits)

text \<open>How many records an operation may log.\<close>

fun op_size :: "db_op \<Rightarrow> nat" where
  "op_size (DbInsert _) = 1"
| "op_size (DbInsertBatch rs) = length rs"
| "op_size (DbErase _) = 1"
| "op_size (DbEraseBatch is) = length is"
| "op_size (DbUpdate _) = 2"
| "op_size (DbUpdateBatch rs) = 2 * length rs"
| "op_size _ = 0"

lemma op_rows_size: "length (op_rows oper) \<le> op_size oper"
  by (cases oper) simp_all

lemma changes_size: "length (changes schema oper m) \<le> op_size oper"
  unfolding changes_def
proof (induction schema oper m rule: op_changes.induct)
  case (6 schema rs m)
  have "length (concat (map replacement rs)) = 2 * length rs" by (induction rs) (simp_all add: replacement_def)
  then show ?case by simp
qed (auto simp: replacement_def)

fun good_change :: "Schema \<Rightarrow> CompressionType \<Rightarrow> row_change \<Rightarrow> bool" where
  "good_change schema ct (Put r) = fitting_row schema ct r"
| "good_change schema ct (Drop _) = True"

lemma good_changes:
  assumes "good_op schema ct oper" and "c \<in> set (changes schema oper m)" shows "good_change schema ct c"
  using assms unfolding changes_def
  by (cases oper) (auto simp: list_all_iff good_row_def first_error_None insert_error_def replacement_def split: if_splits)

lemma good_records: "list_all2 records cs es \<Longrightarrow> \<forall>c \<in> set cs. good_change schema ct c \<Longrightarrow> \<forall>e \<in> set es. good_entry schema ct e"
proof (induction rule: list_all2_induct)
  case (Cons c cs e es)
  then show ?case by (cases "(c, e)" rule: records.cases) auto
qed simp

section \<open>What a crash leaves\<close>

definition recoverable :: "Schema \<Rightarrow> CompressionType \<Rightarrow> nat \<Rightarrow> DB \<Rightarrow> rows_map \<Rightarrow> bool" where
  "recoverable schema ct N db m \<longleftrightarrow> synced (db_wal db) \<and> (\<exists>n0 m0 es k j. durable_disk schema ct n0 m0 (db_durable db)
     \<and> wal_holds wal_header (db_wal db) (map log_record es) k j \<and> (\<forall>e \<in> set es. good_entry schema ct e)
     \<and> fold replay_effect es m0 = m \<and> unat n0 + length es \<le> N)"

lemma recoverableE:
  assumes "recoverable schema ct N db m"
  obtains n0 m0 es k j where "synced (db_wal db)" "durable_disk schema ct n0 m0 (db_durable db)" "wal_holds wal_header (db_wal db) (map log_record es) k j"
    "\<forall>e \<in> set es. good_entry schema ct e" "fold replay_effect es m0 = m" "unat n0 + length es \<le> N"
  using assms unfolding recoverable_def by blast

lemma recoverableI:
  assumes "synced (db_wal db)" and "durable_disk schema ct n0 m0 (db_durable db)" and "wal_holds wal_header (db_wal db) (map log_record es) k j"
    and "\<forall>e \<in> set es. good_entry schema ct e" and "fold replay_effect es m0 = m" and "unat n0 + length es \<le> N"
  shows "recoverable schema ct N db m"
  using assms unfolding recoverable_def by blast

lemma recoverable_fresh:
  assumes "wal_holds wal_header (db_wal db) [] 0 0" and "db_durable db = DBHeader_bytes (initial_db_header ct)"
  shows "recoverable schema ct 0 db Map.empty"
  by (rule recoverableI [of _ _ _ 0 Map.empty "[]" 0 0])
     (use assms synced_holds [of wal_header "db_wal db" "[]"] in \<open>simp_all add: durable_disk_def\<close>)

lemma encode_records_empty: "encode_records rs = [] \<longleftrightarrow> rs = []"
  using length_encode_record [of "hd rs"] by (cases rs) (auto simp: encode_records_def)

lemma synced_durable:
  assumes "synced w" and "wal_holds base w rs k j" shows "wal_durable w = base @ encode_records rs"
proof -
  have "encode_records (drop k rs) = []" "k \<le> length rs" using assms by (auto simp: synced_def wal_holds_def)
  then have "k = length rs" by (simp add: encode_records_empty)
  then show ?thesis using assms by (simp add: synced_def wal_holds_def)
qed

lemma encode_entries_length: "\<forall>e \<in> set es. good_entry schema ct e \<Longrightarrow> length (encode_records (map log_record es)) \<le> 8213 * length es"
proof (induction es)
  case (Cons e es)
  have "length (wr_row_data (log_record e)) \<le> 8192"
    using Cons.prems by (cases e) (auto simp: make_record_def fitting_row_def storable_row_def)
  then show ?case using Cons by (simp add: encode_records_def length_encode_record)
qed (simp add: encode_records_def)

lemma logged_parse:
  assumes "synced w" and "wal_holds wal_header w (map log_record es) k j" and "\<forall>e \<in> set es. good_entry schema ct e" and "length es \<le> N"
  shows "32 \<le> length (wal_durable w)" and "length (wal_durable w) \<le> 32 + 8213 * N" and "parse_records (drop 32 (wal_durable w)) = Inr (map log_record es)"
proof -
  have c: "wal_durable w = wal_header @ encode_records (map log_record es)" by (rule synced_durable [OF assms(1,2)])
  show "32 \<le> length (wal_durable w)" by (simp add: c length_wal_header)
  show "length (wal_durable w) \<le> 32 + 8213 * N" using encode_entries_length [OF assms(3)] assms(4) by (simp add: c length_wal_header)
  have wf: "\<forall>r \<in> set (map log_record es). wf_record r" using assms(3) good_entry_wf by auto
  show "parse_records (drop 32 (wal_durable w)) = Inr (map log_record es)"
    using parse_records_encode [OF wf, of "[]"] wal_log.dec_nil by (simp add: c length_wal_header)
qed

text \<open>After a crash the database holds the rows it held, and is recoverable again.\<close>

lemma recovered:
  assumes "recoverable schema ct N db m" and "storable_schema schema" and "validate schema = Inr ()" and "ct \<in> {CNone, CLZ4}" and "good_script script"
    and "32 + 8213 * N < 2 ^ 32"
  obtains db0 db' n where "db_new schema ct cap (Some (db_durable db)) (Some (wal_durable (db_wal db))) script = Inr db0" "db_open db0 = (Inr (), db')"
    "db_rel True schema ct n db' m" "unat n \<le> N" "recoverable schema ct N db' m"
proof -
  obtain n0 m0 es k j where h: "synced (db_wal db)" "durable_disk schema ct n0 m0 (db_durable db)" "wal_holds wal_header (db_wal db) (map log_record es) k j"
    "\<forall>e \<in> set es. good_entry schema ct e" "fold replay_effect es m0 = m" "unat n0 + length es \<le> N" by (rule recoverableE [OF assms(1)])
  let ?c = "wal_header @ encode_records (map log_record es)"
  have wf: "\<forall>r \<in> set (map log_record es). wf_record r" using h(4) good_entry_wf by auto
  have c: "wal_durable (db_wal db) = ?c" by (rule synced_durable [OF h(1,3)])
  have len: "length es \<le> N" "unat n0 + length es < 2 ^ 32" using h(6) assms(6) by simp_all
  note parsed = logged_parse [OF h(1,3,4) len(1), unfolded c]
  obtain db0 db' n where o: "db_new schema ct cap (Some (db_durable db)) (Some ?c) script = Inr db0" "db_open db0 = (Inr (), db')"
    "db_rel True schema ct n db' (fold replay_effect es m0)" "unat n \<le> unat n0 + length es" "wal_holds ?c (db_wal db') [] 0 0" "db_durable db' = db_durable db"
    by (rule open_after_crash [OF assms(2-5) h(2,4) len(2) parsed(1) _ parsed(3)]) (use parsed(2) assms(6) in simp_all)
  have "synced (db_wal db')" using synced_holds [of ?c "db_wal db'" "[]"] o(5) by simp
  moreover have "wal_holds wal_header (db_wal db') (map log_record es) (length es) (length es)" using o(5) wf by (simp add: wal_holds_def)
  ultimately have "recoverable schema ct N db' m" using o(6) h(2,4,5,6) by (intro recoverableI [of db' schema ct n0 m0 es]) simp_all
  then show thesis using that o h(5,6) c by simp
qed

section \<open>Every operation keeps the database recoverable\<close>

lemma recoverable_mono: "recoverable schema ct N db m \<Longrightarrow> N \<le> N' \<Longrightarrow> recoverable schema ct N' db m"
  by (elim recoverableE) (rule recoverableI, auto)

lemma recoverable_logged:
  assumes "recoverable schema ct N db m" and "logs_changes cs db db'" and "\<forall>c \<in> set cs. good_change schema ct c" and "synced (db_wal db')"
    and "db_durable db' = db_durable db"
  shows "recoverable schema ct (N + length cs) db' (fold replay_change cs m)"
proof -
  obtain n0 m0 es k j where h: "synced (db_wal db)" "durable_disk schema ct n0 m0 (db_durable db)" "wal_holds wal_header (db_wal db) (map log_record es) k j"
    "\<forall>e \<in> set es. good_entry schema ct e" "fold replay_effect es m0 = m" "unat n0 + length es \<le> N" by (rule recoverableE [OF assms(1)])
  obtain es' where es': "list_all2 records cs es'" "logs es' (db_wal db) (db_wal db')" using assms(2) by (auto simp: logs_changes_def)
  obtain k' j' where w: "wal_holds wal_header (db_wal db') (map log_record (es @ es')) k' j'" using logsE [OF es'(2) h(3)] by (metis map_append)
  show ?thesis
    by (rule recoverableI [OF assms(4) _ w])
       (use h assms(5) good_records [OF es'(1) assms(3)] records_fold [OF es'(1)] list_all2_lengthD [OF es'(1)] in auto)
qed

lemma checkpoint_recoverable:
  assumes "db_rel True schema ct n db m" and "checkpoint db = (Inr (), db')"
  shows "recoverable schema ct (unat n) db' m"
proof -
  obtain R where rel: "db_state True schema ct R n db" "placed R (places (db_index db))" "m = table R (places (db_index db))"
    by (rule db_relE [OF assms(1)])
  note d = db_stateD [OF rel(1)]
  obtain ps where f: "on_pager flush_all db = (Inr (), db\<lparr>db_pager := ps\<rparr>)" "disk_holds schema ct n m (pg_storage (snd ps))"
    "se_file (pg_storage (snd ps)) = Some (se_durable (pg_storage (snd ps)))" by (rule flush_disk [OF rel])
  obtain base rs k j where "wal_holds base (db_wal db) rs k j" using d(6) by (auto simp: log_ok_def)
  then obtain w where w: "wal_clear (db_wal db) = (Inr (), w)" "wal_holds wal_header w [] 0 0" by (rule wal_clear_holds)
  have "checkpoint db = (Inr (), db\<lparr>db_pager := ps, db_wal := w\<rparr>)"
    using require_open_apply(1) [OF db_rel_open [OF assms(1)]] f(1) d(2) w(1)
      on_wal_apply [of "db\<lparr>db_pager := ps\<rparr>" wal_clear "Inr ()" w] by (simp add: checkpoint_def bindS_def)
  then have db': "db' = db\<lparr>db_pager := ps, db_wal := w\<rparr>" using assms(2) by simp
  have "db_durable db' = se_contents (pg_storage (snd ps))"
    using f(3) by (simp add: db' db_durable_def pager_durable_def core_durable_def se_contents_def)
  then have "durable_disk schema ct n m (db_durable db')" using f(2) by (auto simp: durable_disk_def)
  then show ?thesis
    by (rule recoverableI [of _ _ _ n m "[]" 0 0, rotated]) (use w(2) synced_holds [of wal_header w "[]"] in \<open>simp_all add: db'\<close>)
qed

lemma keeps_answer [keep_rules]: "keeps v p \<Longrightarrow> keeps v (answer f p)"
  unfolding answer_def by (intro keep_rules)

lemma keeps_call:
  "oper \<noteq> DbCheckpoint \<Longrightarrow> keeps db_durable (db_call oper)"
  "oper \<noteq> DbCheckpoint \<Longrightarrow> op_changes schema oper m = None \<Longrightarrow> keeps (db_wal :: DB \<Rightarrow> WAL) (db_call oper)"
  by (cases oper; simp; intro keep_rules)+

lemma call_logged:
  assumes "db_rel True schema ct n db m" and "good_op schema ct oper" and "unat n + length (op_rows oper) < 2 ^ 32"
  obtains db' n' where "db_call oper db = (fst (map_call schema oper m), db')" "db_rel True schema ct n' db' (snd (map_call schema oper m))"
    "unat n' \<le> unat n + length (op_rows oper)" "oper \<noteq> DbCheckpoint \<Longrightarrow> logs_changes (changes schema oper m) db db'"
    "oper \<noteq> DbCheckpoint \<Longrightarrow> synced (db_wal db) \<Longrightarrow> synced (db_wal db')" "oper \<noteq> DbCheckpoint \<Longrightarrow> db_durable db' = db_durable db"
proof -
  have "refined schema ct n (length (op_rows oper)) (op_changes schema oper m) db (db_call oper db) (map_call schema oper m)"
    by (rule db_call_refined [OF assms])
  then obtain db' n' where c: "db_call oper db = (fst (map_call schema oper m), db')" "db_rel True schema ct n' db' (snd (map_call schema oper m))"
    "unat n' \<le> unat n + length (op_rows oper)" "\<And>cs. op_changes schema oper m = Some cs \<Longrightarrow> logs_changes cs db db' \<and> (synced (db_wal db) \<longrightarrow> synced (db_wal db'))"
    unfolding refined_def by blast
  have log: "logs_changes (changes schema oper m) db db' \<and> (synced (db_wal db) \<longrightarrow> synced (db_wal db'))" if "oper \<noteq> DbCheckpoint"
  proof (cases "op_changes schema oper m")
    case None
    then have "db_wal db' = db_wal db" using keeps_result [OF keeps_call(2) [OF that] c(1)] by simp
    then show ?thesis using None logs_changes_Nil [of db db'] by (simp add: changes_def)
  next
    case (Some cs)
    then show ?thesis using c(4) by (simp add: changes_def)
  qed
  have "db_durable db' = db_durable db" if "oper \<noteq> DbCheckpoint" using keeps_result [OF keeps_call(1) [OF that] c(1)] by simp
  then show thesis using that c(1-3) log by blast
qed

lemma call_recoverable:
  assumes "db_rel True schema ct n db m" and "recoverable schema ct N db m" and "unat n \<le> N" and "good_op schema ct oper"
    and "N + op_size oper < 2 ^ 32"
  obtains db' n' where "db_call oper db = (fst (map_call schema oper m), db')" "db_rel True schema ct n' db' (snd (map_call schema oper m))"
    "recoverable schema ct (N + op_size oper) db' (snd (map_call schema oper m))" "unat n' \<le> N + op_size oper"
proof -
  have "unat n + length (op_rows oper) < 2 ^ 32" using assms(3,5) op_rows_size [of oper] by linarith
  then obtain db' n' where c: "db_call oper db = (fst (map_call schema oper m), db')" "db_rel True schema ct n' db' (snd (map_call schema oper m))"
    "unat n' \<le> unat n + length (op_rows oper)" "oper \<noteq> DbCheckpoint \<Longrightarrow> logs_changes (changes schema oper m) db db'"
    "oper \<noteq> DbCheckpoint \<Longrightarrow> synced (db_wal db) \<Longrightarrow> synced (db_wal db')" "oper \<noteq> DbCheckpoint \<Longrightarrow> db_durable db' = db_durable db"
    by (rule call_logged [OF assms(1,4)]) blast
  have "recoverable schema ct (N + op_size oper) db' (snd (map_call schema oper m))"
  proof (cases "oper = DbCheckpoint")
    case True
    then have "checkpoint db = (Inr (), db')" using c(1) by (auto simp: answer_def bindS_def split: prod.splits sum.splits)
    from checkpoint_recoverable [OF assms(1) this] show ?thesis using True assms(3) recoverable_mono by auto
  next
    case False
    have "synced (db_wal db)" using assms(2) by (simp add: recoverable_def)
    then have "recoverable schema ct (N + length (changes schema oper m)) db' (fold replay_change (changes schema oper m) m)"
      using c(4-6) [OF False] good_changes [OF assms(4)] by (intro recoverable_logged [OF assms(2)]) auto
    then show ?thesis using changes_effect [of schema oper m] changes_size [of schema oper m] recoverable_mono by simp
  qed
  moreover have "unat n' \<le> N + op_size oper" using c(3) assms(3) op_rows_size [of oper] by linarith
  ultimately show thesis using that c(1,2) by blast
qed

abbreviation ops_size :: "db_op list \<Rightarrow> nat" where
  "ops_size ops \<equiv> sum_list (map op_size ops)"

lemma run_recoverable:
  assumes "db_rel True schema ct n db m" and "recoverable schema ct N db m" and "unat n \<le> N" and "\<forall>oper \<in> set ops. good_op schema ct oper"
    and "N + ops_size ops < 2 ^ 32"
  obtains db' n' where "run_calls db_call ops db = (fst (run_calls (map_call schema) ops m), db')"
    "db_rel True schema ct n' db' (snd (run_calls (map_call schema) ops m))"
    "recoverable schema ct (N + ops_size ops) db' (snd (run_calls (map_call schema) ops m))" "unat n' \<le> N + ops_size ops"
  using assms
proof (induction ops arbitrary: n db m N thesis)
  case Nil
  then show ?case by simp
next
  case (Cons oper ops)
  obtain a m1 where spec: "map_call schema oper m = (a, m1)" by (cases "map_call schema oper m")
  obtain db1 n1 where c: "db_call oper db = (a, db1)" "db_rel True schema ct n1 db1 m1" "recoverable schema ct (N + op_size oper) db1 m1"
    "unat n1 \<le> N + op_size oper"
    by (rule call_recoverable [OF Cons.prems(2,3,4), of oper]) (use Cons.prems(5,6) spec in auto)
  obtain db' n' where "run_calls db_call ops db1 = (fst (run_calls (map_call schema) ops m1), db')"
    "db_rel True schema ct n' db' (snd (run_calls (map_call schema) ops m1))"
    "recoverable schema ct (N + op_size oper + ops_size ops) db' (snd (run_calls (map_call schema) ops m1))" "unat n' \<le> N + op_size oper + ops_size ops"
    by (rule Cons.IH [OF _ c(2,3,4)]) (use Cons.prems(5,6) in auto)
  then show ?case
    using c(1) spec by (intro Cons.prems(1) [of db' n']) (simp_all add: case_prod_beta Let_def add.assoc)
qed

section \<open>Runs that end in crashes\<close>

text \<open>
  A program that is started again after each crash: every run opens the database on what the crash before it left of the two files, calls
  operations, and crashes. A run has its own cache capacity and results of system calls.
\<close>

fun crash_runs :: "Schema \<Rightarrow> CompressionType \<Rightarrow> bytes option \<Rightarrow> bytes option \<Rightarrow> (nat \<times> int list \<times> db_op list) list \<Rightarrow> db_answer result list result" where
  "crash_runs schema ct f logf [] = Inr []"
| "crash_runs schema ct f logf ((cap, script, ops) # runs) =
     bindR (db_new schema ct cap f logf script) (\<lambda>db0.
     bindR (fst (db_open db0)) (\<lambda>_.
       let (answers, db) = run_calls db_call ops (snd (db_open db0))
       in bindR (crash_runs schema ct (Some (se_durable (db_storage db))) (Some (wal_durable (db_wal db))) runs) (\<lambda>rest.
          Inr (answers @ rest))))"

abbreviation runs_ops :: "(nat \<times> int list \<times> db_op list) list \<Rightarrow> db_op list" where
  "runs_ops runs \<equiv> concat (map (\<lambda>(cap, script, ops). ops) runs)"

lemma run_calls_append:
  "run_calls f (xs @ ys) s = (fst (run_calls f xs s) @ fst (run_calls f ys (snd (run_calls f xs s))), snd (run_calls f ys (snd (run_calls f xs s))))"
  by (induction xs arbitrary: s) (simp_all add: case_prod_beta Let_def)

lemma crash_runs_recovered:
  assumes "recoverable schema ct N db m" and "storable_schema schema" and "validate schema = Inr ()" and "ct \<in> {CNone, CLZ4}"
    and "\<forall>(cap, script, ops) \<in> set runs. good_script script" and "\<forall>oper \<in> set (runs_ops runs). good_op schema ct oper"
    and "32 + 8213 * (N + ops_size (runs_ops runs)) < 2 ^ 32"
  shows "crash_runs schema ct (Some (db_durable db)) (Some (wal_durable (db_wal db))) runs = Inr (fst (run_calls (map_call schema) (runs_ops runs) m))"
  using assms(1,5-)
proof (induction runs arbitrary: db m N)
  case (Cons run runs)
  obtain cap script ops where run: "run = (cap, script, ops)" by (cases run)
  have script: "good_script script" and ops: "\<forall>oper \<in> set ops. good_op schema ct oper" using Cons.prems(2,3) by (auto simp: run)
  have size: "32 + 8213 * N < 2 ^ 32" "N + ops_size ops < 2 ^ 32" "32 + 8213 * (N + ops_size ops + ops_size (runs_ops runs)) < 2 ^ 32"
    using Cons.prems(4) by (simp_all add: run)
  obtain db0 db1 n where o: "db_new schema ct cap (Some (db_durable db)) (Some (wal_durable (db_wal db))) script = Inr db0" "db_open db0 = (Inr (), db1)"
    "db_rel True schema ct n db1 m" "unat n \<le> N" "recoverable schema ct N db1 m" by (rule recovered [OF Cons.prems(1) assms(2-4) script size(1)])
  let ?m = "snd (run_calls (map_call schema) ops m)"
  obtain db2 n2 where r: "run_calls db_call ops db1 = (fst (run_calls (map_call schema) ops m), db2)" "recoverable schema ct (N + ops_size ops) db2 ?m"
    by (rule run_recoverable [OF o(3,5,4) ops size(2)])
  have "crash_runs schema ct (Some (db_durable db2)) (Some (wal_durable (db_wal db2))) runs = Inr (fst (run_calls (map_call schema) (runs_ops runs) ?m))"
    by (rule Cons.IH [OF r(2) _ _ size(3)]) (use Cons.prems(2,3) in auto)
  then show ?case
    using o(1,2) r(1) by (simp add: run run_calls_append db_durable_def pager_durable_def core_durable_def)
qed simp

text \<open>What any run on a new path reaches.\<close>

lemma run_fresh:
  assumes "storable_schema schema" and "validate schema = Inr ()" and "ct \<in> {CNone, CLZ4}" and "good_script script"
    and "db_new schema ct cap None None script = Inr db0" and "db_open db0 = (Inr (), db)" and "run_calls db_call ops db = (answers, db1)"
    and "\<forall>oper \<in> set ops. good_op schema ct oper" and "ops_size ops < 2 ^ 32"
  obtains n where "db_rel True schema ct n db1 (snd (run_calls (map_call schema) ops Map.empty))" "unat n \<le> ops_size ops"
    "recoverable schema ct (ops_size ops) db1 (snd (run_calls (map_call schema) ops Map.empty))"
proof -
  obtain db0' db' where o: "db_new schema ct cap None None script = Inr db0'" "db_open db0' = (Inr (), db')" "db_rel True schema ct 0 db' Map.empty"
    "wal_holds wal_header (db_wal db') [] 0 0" "db_durable db' = DBHeader_bytes (initial_db_header ct)" by (rule open_fresh [OF assms(1-4)])
  have db: "db' = db" using o(1,2) assms(5,6) by simp
  show thesis
    by (rule run_recoverable [OF o(3) recoverable_fresh [OF o(4,5)], of ops]) (use assms(7-9) that in \<open>simp_all add: db\<close>)
qed

lemma answers_after:
  assumes "db_rel True schema ct n db m" and "\<forall>oper \<in> set ops. good_op schema ct oper" and "unat n + ops_size ops < 2 ^ 32"
  shows "fst (run_calls db_call ops db) = fst (run_calls (map_call schema) ops m)"
proof -
  have "length (ops_rows ops) \<le> ops_size ops" by (induction ops) (auto intro: add_mono op_rows_size)
  then have "unat n + length (ops_rows ops) < 2 ^ 32" using assms(3) by simp
  then show ?thesis by (rule db_run_refined [OF assms(1,2)]) simp
qed

section \<open>Operations cut short\<close>

text \<open>The bytes that the records of some changes take in the log.\<close>

fun change_bytes :: "row_change \<Rightarrow> nat" where
  "change_bytes (Put r) = 21 + row_size r"
| "change_bytes (Drop _) = 21"

abbreviation changes_bytes :: "row_change list \<Rightarrow> nat" where
  "changes_bytes cs \<equiv> sum_list (map change_bytes cs)"

lemma encode_changes: "list_all2 records cs es \<Longrightarrow> length (encode_records (map log_record es)) = changes_bytes cs"
proof (induction rule: list_all2_induct)
  case (Cons c cs e es)
  then show ?case
    by (cases "(c, e)" rule: records.cases) (auto simp: encode_records_def length_encode_record make_record_def)
qed (simp add: encode_records_def)

text \<open>
  Opening on the log of a database cut at any place behind what was synchronised when an operation began: a prefix of the changes of the operation
  is there.
\<close>

lemma open_interrupted:
  assumes "recoverable schema ct N db m" and "logs_changes cs db db'" and "\<forall>c \<in> set cs. good_change schema ct c" and "synced (db_wal db')"
    and "length (wal_durable (db_wal db)) \<le> n" and "storable_schema schema" and "validate schema = Inr ()" and "ct \<in> {CNone, CLZ4}"
    and "good_script script" and "32 + 8213 * (N + length cs) < 2 ^ 32"
  obtains j db2 db3 n3 where "j \<le> length cs" "\<forall>i \<le> length cs. i \<le> j \<longleftrightarrow> length (wal_durable (db_wal db)) + changes_bytes (take i cs) \<le> n"
    "db_new schema ct cap (Some (db_durable db)) (Some (take n (wal_contents (db_wal db')))) script = Inr db2" "db_open db2 = (Inr (), db3)"
    "db_rel True schema ct n3 db3 (fold replay_change (take j cs) m)" "unat n3 \<le> N + length cs"
proof -
  obtain n0 m0 es k i where h: "synced (db_wal db)" "durable_disk schema ct n0 m0 (db_durable db)" "wal_holds wal_header (db_wal db) (map log_record es) k i"
    "\<forall>e \<in> set es. good_entry schema ct e" "fold replay_effect es m0 = m" "unat n0 + length es \<le> N" by (rule recoverableE [OF assms(1)])
  obtain es' where es': "list_all2 records cs es'" "logs es' (db_wal db) (db_wal db')" using assms(2) by (auto simp: logs_changes_def)
  obtain k' i' where w: "wal_holds wal_header (db_wal db') (map log_record (es @ es')) k' i'" using logsE [OF es'(2) h(3)] by (metis map_append)
  let ?rs = "map log_record (es @ es')"
  have good: "\<forall>e \<in> set (es @ es'). good_entry schema ct e" using h(4) good_records [OF es'(1) assms(3)] by auto
  have len: "length es' = length cs" using list_all2_lengthD [OF es'(1)] by simp
  have durable: "wal_durable (db_wal db) = wal_header @ encode_records (map log_record es)" by (rule synced_durable [OF h(1,3)])
  have contents: "wal_contents (db_wal db') = wal_header @ encode_records ?rs" using synced_durable [OF assms(4) w] assms(4) by (simp add: wal_contents_def synced_def)
  have n32: "32 \<le> n" and n: "length (encode_records (map log_record es)) \<le> n - 32" using assms(5) durable by (simp_all add: length_wal_header)
  let ?c = "take n (wal_contents (db_wal db'))"
  have wf: "\<forall>r \<in> set ?rs. wf_record r" using good good_entry_wf by auto
  have c: "drop 32 ?c = take (n - 32) (encode_records ?rs)" "32 \<le> length ?c" "length ?c < 2 ^ 32"
    using n32 contents encode_entries_length [OF good] h(6) assms(10) len by (auto simp: length_wal_header drop_take min_less_iff_disj)
  obtain j where j: "j \<le> length ?rs" "parse_records (take (n - 32) (encode_records ?rs)) = Inr (take j ?rs)"
    "\<And>i. i \<le> length ?rs \<Longrightarrow> length (encode_records (take i ?rs)) \<le> n - 32 \<longleftrightarrow> i \<le> j"
    using wal_log.dec_cut [OF wf, of "n - 32"] by (auto simp: encode_records_def)
  have old: "length es \<le> j" using j(3) [of "length es"] n by simp
  define j' where "j' = j - length es"
  have entries: "take j (es @ es') = es @ take j' es'" using old by (simp add: j'_def)
  have parsed: "parse_records (drop 32 ?c) = Inr (map log_record (es @ take j' es'))" using j(2) c(1) by (simp add: take_map flip: entries)
  have "list_all2 records (take j' cs) (take j' es')" using es'(1) by (rule list_all2_takeI)
  then have "fold replay_effect (es @ take j' es') m0 = fold replay_change (take j' cs) m" using records_fold h(5) by simp
  moreover obtain db2 db3 n3 where "db_new schema ct cap (Some (db_durable db)) (Some ?c) script = Inr db2" "db_open db2 = (Inr (), db3)"
    "db_rel True schema ct n3 db3 (fold replay_effect (es @ take j' es') m0)" "unat n3 \<le> unat n0 + length (es @ take j' es')"
    by (rule open_after_crash [OF assms(6-9) h(2) _ _ c(2,3) parsed]) (use good h(6) assms(10) len in \<open>auto dest: in_set_takeD\<close>)
  moreover have "j' \<le> length cs" using j(1) len by (simp add: j'_def)
  moreover have "i \<le> j' \<longleftrightarrow> length (wal_durable (db_wal db)) + changes_bytes (take i cs) \<le> n" if "i \<le> length cs" for i
  proof -
    have "list_all2 records (take i cs) (take i es')" using es'(1) by (rule list_all2_takeI)
    then have "length (encode_records (take (length es + i) ?rs)) = length (encode_records (map log_record es)) + changes_bytes (take i cs)"
      by (simp add: encode_changes take_map)
    then have "length (encode_records (map log_record es)) + changes_bytes (take i cs) \<le> n - 32 \<longleftrightarrow> length es + i \<le> j"
      using j(3) [of "length es + i"] that len by simp
    then show ?thesis using old n32 durable by (auto simp: j'_def length_wal_header)
  qed
  ultimately show thesis using that h(6) len by simp
qed

text \<open>Replaying a log on contents that include its effects already changes nothing: for every id, the log fixes the row or keeps the one that is there.\<close>

lemma replay_one_id:
  "(\<exists>v. \<forall>m. fold replay_effect es m i = v) \<or> (\<forall>m. m i \<noteq> None \<longrightarrow> fold replay_effect es m i = m i)"
proof (induction es rule: rev_induct)
  case (snoc e es)
  show ?case
  proof (cases e)
    case (Inserted r pid slot)
    show ?thesis using snoc
    proof
      assume "\<exists>v. \<forall>m. fold replay_effect es m i = v"
      then obtain v where "\<forall>m. fold replay_effect es m i = v" by blast
      then have "\<forall>m. fold replay_effect (es @ [e]) m i = (if i = row_id r \<and> v = None then Some r else v)"
        using Inserted by (auto simp: put_row_def)
      then show ?thesis by blast
    next
      assume "\<forall>m. m i \<noteq> None \<longrightarrow> fold replay_effect es m i = m i"
      then show ?thesis using Inserted by (intro disjI2) (auto simp: put_row_def)
    qed
  next
    case (Deleted i' pid slot)
    then show ?thesis using snoc by (cases "i' = i") (auto simp: drop_row_def)
  qed (use snoc in auto)
qed simp

lemma replay_same_row: "m i = m' i \<Longrightarrow> fold replay_effect es m i = fold replay_effect es m' i"
proof (induction es arbitrary: m m')
  case (Cons e es)
  have "replay_effect e m i = replay_effect e m' i" using Cons.prems by (cases e; cases "m' i") (auto simp: put_row_def drop_row_def)
  then show ?case unfolding fold_Cons comp_apply by (rule Cons.IH)
qed simp

lemma replay_twice: "fold replay_effect es (fold replay_effect es m) = fold replay_effect es m"
proof
  fix i
  let ?f = "fold replay_effect es"
  show "?f (?f m) i = ?f m i"
  proof (cases "\<exists>v. \<forall>m. ?f m i = v")
    case False
    then have keep: "m' i \<noteq> None \<Longrightarrow> ?f m' i = m' i" for m' using replay_one_id [of es i] by blast
    show ?thesis
    proof (cases "?f m i")
      case None
      then have "m i = None" using keep [of m] by (cases "m i") auto
      then show ?thesis using replay_same_row [of "?f m" i m es] None by simp
    qed (use keep [of "?f m"] in simp)
  qed metis
qed

section \<open>Properties\<close>

text \<open>
  C3: acknowledged operations survive crashes. Let a program be started on a new path, call operations, crash, be started
  again on what has been synchronised of the two files, and so on any number of times, each time with any cache capacity, and with checkpoints
  anywhere. Every start succeeds, and all the answers are those of a single map from ids to rows that never crashed:
  no operation that returned is lost, and none that failed leaves a trace.
\<close>

theorem acknowledged_operations_survive:
  assumes "storable_schema schema" and "validate schema = Inr ()" and "ct \<in> {CNone, CLZ4}"
    and "\<forall>(cap, script, ops) \<in> set runs. good_script script" and "\<forall>oper \<in> set (runs_ops runs). good_op schema ct oper"
    and "32 + 8213 * ops_size (runs_ops runs) < 2 ^ 32"
  shows "crash_runs schema ct None None runs = Inr (fst (run_calls (map_call schema) (runs_ops runs) Map.empty))"
proof (cases runs)
  case (Cons run rest)
  obtain cap script ops where run: "run = (cap, script, ops)" by (cases run)
  have script: "good_script script" and ops: "\<forall>oper \<in> set ops. good_op schema ct oper" using assms(4,5) by (auto simp: Cons run)
  have size: "0 + ops_size ops < 2 ^ 32" "32 + 8213 * (0 + ops_size ops + ops_size (runs_ops rest)) < 2 ^ 32"
    using assms(6) by (simp_all add: Cons run)
  obtain db0 db where o: "db_new schema ct cap None None script = Inr db0" "db_open db0 = (Inr (), db)" "db_rel True schema ct 0 db Map.empty"
    "wal_holds wal_header (db_wal db) [] 0 0" "db_durable db = DBHeader_bytes (initial_db_header ct)"
    by (rule open_fresh [OF assms(1-3) script])
  obtain db2 n2 where r: "run_calls db_call ops db = (fst (run_calls (map_call schema) ops Map.empty), db2)"
    "db_rel True schema ct n2 db2 (snd (run_calls (map_call schema) ops Map.empty))"
    "recoverable schema ct (0 + ops_size ops) db2 (snd (run_calls (map_call schema) ops Map.empty))"
    by (rule run_recoverable [OF o(3) recoverable_fresh [OF o(4,5)] _ ops size(1)]) simp
  have "crash_runs schema ct (Some (db_durable db2)) (Some (wal_durable (db_wal db2))) rest
      = Inr (fst (run_calls (map_call schema) (runs_ops rest) (snd (run_calls (map_call schema) ops Map.empty))))"
    by (rule crash_runs_recovered [OF r(3) assms(1-3) _ _ size(2)]) (use assms(4,5) Cons in auto)
  then show ?thesis
    using o(1,2) r(1) by (simp add: Cons run run_calls_append db_durable_def pager_durable_def core_durable_def)
qed simp

theorem acknowledged_operations_survive_witness:
  "crash_runs demo_schema CLZ4 None None
     [(1, [], [DbInsert (demo_row 1 25 ''alice''), DbCheckpoint, DbInsert (demo_row 2 30 ''bob''), DbInsert (demo_row 2 31 ''eve'')]),
      (2, [3], [DbTryGet 2, DbErase 1]), (5, [], [DbTryGet 1, DbTryGet 2])]
   = Inr [Inr Done, Inr Done, Inr Done, Inl DuplicateKeyError, Inr (Maybe (Some (demo_row 2 30 ''bob''))), Inr Done,
          Inr (Maybe None), Inr (Maybe (Some (demo_row 2 30 ''bob'')))]"
proof -
  let ?runs = "[(1, [], [DbInsert (demo_row 1 25 ''alice''), DbCheckpoint, DbInsert (demo_row 2 30 ''bob''), DbInsert (demo_row 2 31 ''eve'')]),
      (2, [3], [DbTryGet 2, DbErase 1]), (5, [], [DbTryGet 1, DbTryGet 2])] :: (nat \<times> int list \<times> db_op list) list"
  have id: "row_id (demo_row i a s) = i" "length (row_fields (demo_row i a s)) = length (s_fields demo_schema)" for i a s
    by (simp_all add: demo_row_def demo_schema_def)
  have "crash_runs demo_schema CLZ4 None None ?runs = Inr (fst (run_calls (map_call demo_schema) (runs_ops ?runs) Map.empty))"
    by (rule acknowledged_operations_survive) (simp_all add: storable_demo_schema validate_demo_schema good_script_def)
  then show ?thesis by (simp add: insert_error_def erase_error_def put_row_def drop_row_def storable_length id)
qed

text \<open>
  C4: a crash in the middle of an operation. Let the machine stop while an operation other than a checkpoint runs, leaving any prefix of what the operation
  writes to the log behind what was synchronised before. Opening succeeds, and the database then
  holds the rows it held before with the first few of the changes of the operation applied, in order: exactly those whose records are whole. An insertion or a
  deletion is a single change, so it is done or not done.
\<close>

theorem interrupted_operation_prefix:
  assumes "storable_schema schema" and "validate schema = Inr ()" and "ct \<in> {CNone, CLZ4}" and "good_script script" and "good_script script'"
    and "\<forall>op \<in> set (oper # ops @ ops'). good_op schema ct op" and "oper \<noteq> DbCheckpoint"
    and "32 + 8213 * ops_size (oper # ops @ ops') < 2 ^ 32"
    and "db_new schema ct cap None None script = Inr db0" and "db_open db0 = (Inr (), db)"
    and "run_calls db_call ops db = (answers, db1)" and "db_call oper db1 = (a, db2)"
    and "m = snd (run_calls (map_call schema) ops Map.empty)" and "length (wal_durable (db_wal db1)) \<le> n"
  shows "\<exists>j \<le> length (changes schema oper m).
      (\<forall>i \<le> length (changes schema oper m). i \<le> j \<longleftrightarrow> length (wal_durable (db_wal db1)) + changes_bytes (take i (changes schema oper m)) \<le> n)
    \<and> (\<exists>db3 db4. db_new schema ct cap' (Some (se_durable (db_storage db1))) (Some (take n (wal_contents (db_wal db2)))) script' = Inr db3
        \<and> db_open db3 = (Inr (), db4)
        \<and> fst (run_calls db_call ops' db4) = fst (run_calls (map_call schema) ops' (fold replay_change (take j (changes schema oper m)) m)))"
proof -
  have ops: "\<forall>op \<in> set ops. good_op schema ct op" "ops_size ops < 2 ^ 32" using assms(6,8) by auto
  obtain n1 where r: "db_rel True schema ct n1 db1 m" "unat n1 \<le> ops_size ops" "recoverable schema ct (ops_size ops) db1 m"
    unfolding assms(13) by (rule run_fresh [OF assms(1-4,9-11) ops])
  have room: "unat n1 + length (op_rows oper) < 2 ^ 32" using r(2) assms(8) op_rows_size [of oper] by simp
  have op: "good_op schema ct oper" using assms(6) by simp
  then have good: "\<forall>c \<in> set (changes schema oper m). good_change schema ct c" using good_changes by blast
  have sync: "synced (db_wal db1)" using r(3) by (simp add: recoverable_def)
  have c: "logs_changes (changes schema oper m) db1 db2" "synced (db_wal db2)"
    using call_logged [OF r(1) op room, of "logs_changes (changes schema oper m) db1 db2 \<and> synced (db_wal db2)"] assms(7,12) sync by auto
  have size: "32 + 8213 * (ops_size ops + length (changes schema oper m)) < 2 ^ 32" using assms(8) changes_size [of schema oper m] by simp
  obtain j db3 db4 n4 where k: "j \<le> length (changes schema oper m)"
    "\<forall>i \<le> length (changes schema oper m). i \<le> j \<longleftrightarrow> length (wal_durable (db_wal db1)) + changes_bytes (take i (changes schema oper m)) \<le> n"
    "db_new schema ct cap' (Some (db_durable db1)) (Some (take n (wal_contents (db_wal db2)))) script' = Inr db3" "db_open db3 = (Inr (), db4)"
    "db_rel True schema ct n4 db4 (fold replay_change (take j (changes schema oper m)) m)" "unat n4 \<le> ops_size ops + length (changes schema oper m)"
    by (rule open_interrupted [OF r(3) c(1) good c(2) assms(14,1,2,3,5) size, of cap']) blast
  have "fst (run_calls db_call ops' db4) = fst (run_calls (map_call schema) ops' (fold replay_change (take j (changes schema oper m)) m))"
    by (rule answers_after [OF k(5)]) (use assms(6,8) k(6) changes_size [of schema oper m] in auto)
  then show ?thesis using k(1-4) by (auto simp: db_durable_def pager_durable_def core_durable_def)
qed

text \<open>The witness is an update cut between its two records: the row is lost.\<close>

theorem interrupted_operation_prefix_witness:
  "\<exists>db0 db answers db1 a db2 db3 db4. db_new demo_schema CNone 2 None None [] = Inr db0 \<and> db_open db0 = (Inr (), db)
    \<and> run_calls db_call [DbInsert (demo_row 1 25 ''alice'')] db = (answers, db1) \<and> db_call (DbUpdate (demo_row 1 26 ''alice'')) db1 = (a, db2)
    \<and> db_new demo_schema CNone 2 (Some (se_durable (db_storage db1)))
        (Some (take (length (wal_durable (db_wal db1)) + 21) (wal_contents (db_wal db2)))) [] = Inr db3
    \<and> db_open db3 = (Inr (), db4) \<and> fst (run_calls db_call [DbTryGet 1] db4) = [Inr (Maybe None)]"
proof -
  let ?op = "DbUpdate (demo_row 1 26 ''alice'')" and ?ops = "[DbInsert (demo_row 1 25 ''alice'')]"
  let ?m = "snd (run_calls (map_call demo_schema) ?ops Map.empty)"
  obtain db0 db where o: "db_new demo_schema CNone 2 None None [] = Inr db0" "db_open db0 = (Inr (), db)"
    by (rule open_fresh [of demo_schema CNone "[]" 2]) (simp_all add: storable_demo_schema validate_demo_schema good_script_def)
  obtain answers db1 where r: "run_calls db_call ?ops db = (answers, db1)" by fastforce
  obtain a db2 where c: "db_call ?op db1 = (a, db2)" by fastforce
  have id: "row_id (demo_row i a s) = i" for i a s by (simp add: demo_row_def)
  have m: "?m = [1 \<mapsto> demo_row 1 25 ''alice'']" by (simp add: insert_error_def put_row_def storable_length id)
  have cs: "changes demo_schema ?op ?m = [Drop 1, Put (demo_row 1 26 ''alice'')]" unfolding m by (simp add: changes_def id replacement_def)
  let ?n = "length (wal_durable (db_wal db1)) + 21"
  let ?cs = "[Drop 1, Put (demo_row 1 26 ''alice'')]"
  have "\<exists>j \<le> length ?cs. (\<forall>i \<le> length ?cs. i \<le> j \<longleftrightarrow> length (wal_durable (db_wal db1)) + changes_bytes (take i ?cs) \<le> ?n)
    \<and> (\<exists>db3 db4. db_new demo_schema CNone 2 (Some (se_durable (db_storage db1))) (Some (take ?n (wal_contents (db_wal db2)))) [] = Inr db3
        \<and> db_open db3 = (Inr (), db4)
        \<and> fst (run_calls db_call [DbTryGet 1] db4) = fst (run_calls (map_call demo_schema) [DbTryGet 1] (fold replay_change (take j ?cs) ?m)))"
    unfolding cs [symmetric]
    by (rule interrupted_operation_prefix [OF storable_demo_schema validate_demo_schema _ _ _ _ _ _ o r c refl]) (simp_all add: good_script_def)
  then obtain j db3 db4 where k: "j \<le> length ?cs" "\<forall>i \<le> length ?cs. i \<le> j \<longleftrightarrow> length (wal_durable (db_wal db1)) + changes_bytes (take i ?cs) \<le> ?n"
    "db_new demo_schema CNone 2 (Some (se_durable (db_storage db1))) (Some (take ?n (wal_contents (db_wal db2)))) [] = Inr db3" "db_open db3 = (Inr (), db4)"
    "fst (run_calls db_call [DbTryGet 1] db4) = fst (run_calls (map_call demo_schema) [DbTryGet 1] (fold replay_change (take j ?cs) ?m))" by blast
  have "j = 1" using k(1) spec [OF k(2), of 1] spec [OF k(2), of 2] by auto
  have "fst (run_calls db_call [DbTryGet 1] db4) = [Inr (Maybe None)]" unfolding k(5) m using \<open>j = 1\<close> by (simp add: drop_row_def)
  then show ?thesis using o r c k(3,4) by blast
qed

end
