(* ===== verification/Db_Checkpoint.thy ===== *)
theory Db_Checkpoint
  imports Db_Crash
begin

text \<open>
  A checkpoint as the sequence of its steps. \<open>checkpoint\<close> writes the dirty pages and the page count, synchronises the database file, and then removes
  the log and starts a new one. \<open>checkpoint_steps\<close> lists these steps, each making at most one change to what a crash leaves; running them in order is
  \<open>checkpoint\<close>, in every state and whatever fails. The machine may stop after any of them.
\<close>

section \<open>Programs as lists of steps\<close>

primrec run_steps :: "('s, unit) prog list \<Rightarrow> ('s, unit) prog" where
  "run_steps [] = returnS ()"
| "run_steps (m # ms) = bindS m (\<lambda>_. run_steps ms)"

lemma bindS_assoc: "bindS (bindS m f) g = bindS m (\<lambda>x. bindS (f x) g)"
  by (simp add: bindS_def fun_eq_iff split: prod.split sum.split)

lemma bindS_return [simp]: "bindS m returnS = m"
  by (auto simp: bindS_def fun_eq_iff split: prod.split sum.split)

lemma run_steps_append: "run_steps (xs @ ys) = bindS (run_steps xs) (\<lambda>_. run_steps ys)"
  by (induction xs) (simp_all add: bindS_assoc, simp add: bindS_def fun_eq_iff)

lemma run_steps_prefix:
  assumes "run_steps ms s = (Inr (), t)" obtains s' where "run_steps (take k ms) s = (Inr (), s')" "run_steps (drop k ms) s' = (Inr (), t)"
proof -
  have "bindS (run_steps (take k ms)) (\<lambda>_. run_steps (drop k ms)) s = (Inr (), t)" using assms by (simp flip: run_steps_append)
  then show thesis using that by (auto simp: bindS_def split: prod.splits sum.splits)
qed

lemma keeps_steps: "\<forall>m \<in> set ms. keeps v m \<Longrightarrow> keeps v (run_steps ms)"
  by (induction ms) (auto intro: keep_rules)

lemma zoomS_bind:
  assumes "\<And>t s. member (put t s) = t" and "\<And>t u s. put t (put u s) = put t s"
  shows "zoomS member put (bindS m f) = bindS (zoomS member put m) (\<lambda>x. zoomS member put (f x))"
  by (auto simp: zoomS_def bindS_def assms fun_eq_iff split: prod.split sum.split)

lemma on_pager_bind: "on_pager (bindS m f) = bindS (on_pager m) (\<lambda>x. on_pager (f x))"
  by (auto simp: on_pager_def zoomS_def bindS_def fun_eq_iff split: prod.split sum.split)

lemma on_wal_bind: "on_wal (bindS m f) = bindS (on_wal m) (\<lambda>x. on_wal (f x))"
  by (auto simp: on_wal_def zoomS_def bindS_def fun_eq_iff split: prod.split sum.split)

lemma on_core_bind: "on_core (bindS m f) = bindS (on_core m) (\<lambda>x. on_core (f x))"
  unfolding on_core_def by (rule zoomS_bind) simp_all

lemma on_storage_bind: "on_storage (bindS m f) = bindS (on_storage m) (\<lambda>x. on_storage (f x))"
  unfolding on_storage_def by (rule zoomS_bind) simp_all

lemma on_pager_steps: "ms \<noteq> [] \<Longrightarrow> on_pager (run_steps ms) = run_steps (map on_pager ms)"
proof (induction ms)
  case (Cons m ms)
  show ?case
  proof (cases ms)
    case (Cons m' ms')
    then have "on_pager (run_steps ms) = run_steps (map on_pager ms)" using Cons.IH by simp
    then show ?thesis by (simp add: on_pager_bind)
  qed simp
qed simp

lemma on_wal_steps: "ms \<noteq> [] \<Longrightarrow> on_wal (run_steps ms) = run_steps (map on_wal ms)"
proof (induction ms)
  case (Cons m ms)
  show ?case
  proof (cases ms)
    case (Cons m' ms')
    then have "on_wal (run_steps ms) = run_steps (map on_wal ms)" using Cons.IH by simp
    then show ?thesis by (simp add: on_wal_bind)
  qed simp
qed simp

section \<open>The steps of a checkpoint\<close>

text \<open>\<open>flush_all\<close>: the dirty pages in page order, the header with the page count, and its \<open>fsync\<close>.\<close>

definition flush_steps :: "(Pager, unit) prog list" where
  "flush_steps =
     [bindS (getS (\<lambda>ps. sort (dirty_ids (fst ps)))) flush_dirty_pages,
      bindS (getS page_count) (\<lambda>next_page_id. on_core (on_storage (bindS read_db_header (\<lambda>dbhdr.
        safe_pwrite (DBHeader_bytes (dbhdr\<lparr>dh_page_count := next_page_id\<rparr>)) 0)))),
      on_core (on_storage se_fsync)]"

text \<open>
  \<open>WAL::clear\<close>: the buffer is written, the log closed and unlinked, then created again, its
  header written and synchronised.
\<close>

definition clear_steps :: "(WAL, unit) prog list" where
  "clear_steps =
     [\<lambda>w. if wal_is_open w then flush_write_buffer w else (Inr (), w),
      wal_close,
      bindS sys_ok (\<lambda>ok. if \<not> ok then throwS IOError else modifyS (\<lambda>w. w\<lparr>wal_file := None, wal_durable := []\<rparr>)),
      bindS sys_ok (\<lambda>opened. if \<not> opened then bindS (modifyS (\<lambda>w. w\<lparr>wal_fd := False\<rparr>)) (\<lambda>_. throwS IOError)
        else modifyS (\<lambda>w. w\<lparr>wal_file := Some [], wal_pos := 0, wal_fd := True\<rparr>)),
      bindS sys_ok (\<lambda>statted. if \<not> statted then bindS (modifyS (\<lambda>w. w\<lparr>wal_fd := False\<rparr>)) (\<lambda>_. throwS IOError) else safe_write wal_header),
      sys_fsync,
      modifyS (\<lambda>w. w\<lparr>wal_offset := word_of_nat WAL_HEADER_SIZE, wal_is_open := True\<rparr>)]"

definition checkpoint_steps :: "(DB, unit) prog list" where
  "checkpoint_steps = require_open # map on_pager flush_steps @ map on_wal clear_steps"

lemma flush_all_steps: "flush_all = run_steps flush_steps"
  by (simp add: flush_all_def flush_steps_def write_db_header_def on_core_bind on_storage_bind bindS_assoc)

lemma sys_ok_keeps: "sys_ok w = (r, w') \<Longrightarrow> wal_file w' = wal_file w \<and> wal_is_open w' = wal_is_open w"
  by (auto simp: sys_ok_def bindS_def next_result_def split: list.splits)

lemma wal_open_steps:
  assumes "\<not> wal_is_open w" and "wal_file w = None"
  shows "wal_open w = run_steps (drop 3 clear_steps) w"
proof -
  obtain r w1 where w1: "sys_ok w = (r, w1)" by fastforce
  obtain r2 w2 where w2: "sys_ok (w1\<lparr>wal_file := Some [], wal_pos := 0, wal_fd := True\<rparr>) = (r2, w2)" by fastforce
  show ?thesis using assms sys_ok_keeps [OF w1] sys_ok_keeps [OF w2] w1 w2
    by (cases r; cases r2)
       (auto simp: wal_open_def clear_steps_def bindS_def wal_contents_def throwS_def modifyS_def getS_def returnS_def split: prod.splits sum.splits)
qed

lemma wal_close_closed: "wal_close w = (Inr (), w') \<Longrightarrow> \<not> wal_is_open w'"
  by (auto simp: wal_close_def bindS_def modifyS_def split: if_splits prod.splits sum.splits)

lemma wal_clear_steps: "wal_clear = run_steps clear_steps"
proof
  fix w
  let ?flush = "\<lambda>w. if wal_is_open w then flush_write_buffer w else (Inr (), w)"
  let ?remove = "bindS sys_ok (\<lambda>ok. if \<not> ok then throwS IOError else modifyS (\<lambda>w. w\<lparr>wal_file := None, wal_durable := []\<rparr>))"
  have steps: "clear_steps = [?flush, wal_close, ?remove] @ drop 3 clear_steps" by (simp add: clear_steps_def)
  have first: "(if wal_is_open w then bindS flush_write_buffer (\<lambda>_. wal_close) else returnS ()) w = bindS ?flush (\<lambda>_. wal_close) w"
    by (simp add: bindS_def wal_close_def)
  obtain r w1 where w1: "bindS ?flush (\<lambda>_. wal_close) w = (r, w1)" by fastforce
  have "bindS ?remove (\<lambda>_. wal_open) w1 = bindS ?remove (\<lambda>_. run_steps (drop 3 clear_steps)) w1" if "\<not> wal_is_open w1"
  proof -
    obtain r2 w2 where w2: "sys_ok w1 = (r2, w2)" by fastforce
    show ?thesis using sys_ok_keeps [OF w2] w2 that wal_open_steps [of "w2\<lparr>wal_file := None, wal_durable := []\<rparr>"]
      by (auto simp: bindS_def modifyS_def throwS_def split: sum.split)
  qed
  moreover have "\<not> wal_is_open w1" if "r = Inr ()" using w1 that by (auto simp: bindS_def split: prod.splits sum.splits dest: wal_close_closed)
  moreover have "wal_clear w = bindS (bindS ?flush (\<lambda>_. wal_close)) (\<lambda>_. bindS ?remove (\<lambda>_. wal_open)) w"
  proof -
    have "(\<lambda>ok. if \<not> ok then throwS IOError else bindS (modifyS (\<lambda>w. w\<lparr>wal_file := None, wal_durable := []\<rparr>)) (\<lambda>_. wal_open))
        = (\<lambda>ok. bindS (if \<not> ok then throwS IOError else modifyS (\<lambda>w. w\<lparr>wal_file := None, wal_durable := []\<rparr>)) (\<lambda>_. wal_open))"
      by (auto simp: fun_eq_iff bindS_def throwS_def)
    then have "wal_clear w = bindS (if wal_is_open w then bindS flush_write_buffer (\<lambda>_. wal_close) else returnS ()) (\<lambda>_. bindS ?remove (\<lambda>_. wal_open)) w"
      by (simp add: wal_clear_def bindS_assoc)
    then show ?thesis using first by (simp add: bindS_def)
  qed
  moreover have "run_steps clear_steps w = bindS (bindS ?flush (\<lambda>_. wal_close)) (\<lambda>_. bindS ?remove (\<lambda>_. run_steps (drop 3 clear_steps))) w"
    by (subst steps) (simp only: run_steps_append, simp add: bindS_assoc)
  ultimately show "wal_clear w = run_steps clear_steps w" using w1 by (cases r) (simp_all add: bindS_def)
qed

lemma checkpoint_is_steps: "checkpoint = run_steps checkpoint_steps"
proof -
  have "flush_steps \<noteq> []" "clear_steps \<noteq> []" by (simp_all add: flush_steps_def clear_steps_def)
  then show ?thesis by (simp add: checkpoint_def checkpoint_steps_def run_steps_append flush_all_steps wal_clear_steps on_pager_steps on_wal_steps)
qed

section \<open>Starting with a log whose header is incomplete\<close>

text \<open>Replay returns nothing from a file shorter than the header.\<close>

lemma wal_replay_short:
  assumes "wal_is_open w" and "good_script (wal_script w)" and "wal_file w = Some c" and "wal_buf w = []" and "\<not> wal_buf_dirty w" and "length c < 32"
  obtains s where "good_script s" "wal_replay w = (Inr [], w\<lparr>wal_script := s\<rparr>)"
proof -
  obtain s where s: "good_script s" "sys_ok w = (Inr True, w\<lparr>wal_script := s\<rparr>)" using sys_ok_good [OF assms(2)] by metis
  have "unat (word_of_nat (length c) :: u64) = length c" using assms(6) by (simp add: unat_of_nat)
  then show thesis using that [OF s(1)] assms s(2)
    by (simp add: wal_replay_def flush_write_buffer_def fsync_if_dirty_def wal_file_size_def bindS_def wal_contents_def WAL_HEADER_SIZE_def)
qed

lemma open_short_log:
  assumes "disk_holds schema ct n m s" and "storable_schema schema" and "validate schema = Inr ()" and "good_script script" and "c \<noteq> []" and "length c < 32"
  obtains db0 db where "db_new schema ct cap (Some (se_contents s)) (Some c) script = Inr db0" "db_open db0 = (Inr (), db)" "db_rel True schema ct n db m"
proof -
  let ?db = "\<lparr>db_schema = schema, db_compression = ct, db_cache_cap = cap, db_schema_explicit = True, db_ready = False,
    db_pager = pager (storage_engine (Some (se_contents s)) ct) index_manager cap, db_wal = wal_object (Some c) script, db_indexes = [], db_is_open = False\<rparr>"
  have new: "db_new schema ct cap (Some (se_contents s)) (Some c) script = Inr ?db" using assms(2,3) by (simp add: db_new_def Let_def storable_schema_def)
  obtain db1 where st: "db_open ?db = open_members db1" "disk_holds schema ct n m (db_storage db1)" "db_schema db1 = schema" "db_compression db1 = ct"
    "db_wal db1 = db_wal ?db" "db_indexes db1 = db_indexes ?db" "db_cache_cap db1 = db_cache_cap ?db"
    by (rule open_existing_start [OF assms(1), of ?db]) (simp_all add: pager_def storage_engine_def schemas_match_iff)
  obtain R idx ps where r: "recover schema (pager (db_storage db1) index_manager (db_cache_cap db1)) = (Inr (), ps)" "store_rel schema ct R idx n ps"
    "placed R (places idx)" "m = table R (places idx)" by (rule disk_recover [OF st(2)])
  obtain w where w: "wal_open (wal_object (Some c) script) = (Inr (), w)" "wal_is_open w" "good_script (wal_script w)" "wal_file w = Some c" "wal_buf w = []"
    "wal_pos w = length c" "wal_fd w" "\<not> wal_buf_dirty w" "wal_durable w = c" "wal_offset w = word_of_nat (length c)"
    by (rule wal_open_existing [OF assms(4,5)])
  obtain s' where s': "good_script s'" "wal_replay w = (Inr [], w\<lparr>wal_script := s'\<rparr>)" by (rule wal_replay_short [OF w(2,3,4,5,8) assms(6)])
  have same: "new_wal (wal_object (Some c) script) = wal_object (Some c) script" by (simp add: new_wal_def wal_object_def wal_close_def)
  let ?w = "w\<lparr>wal_script := s'\<rparr>" and ?db' = "db1\<lparr>db_wal := w\<lparr>wal_script := s'\<rparr>, db_pager := ps, db_ready := True, db_is_open := True\<rparr>"
  have "wal_holds c ?w [] 0 0" by (rule wal_holds_opened) (use w s'(1) in simp_all)
  then have "log_ok ?w" by (auto simp: log_ok_def)
  moreover have idx: "db_index ?db' = idx" using store_relD(5) [OF r(2)] by simp
  ultimately have "db_state True schema ct R n ?db'" using r(2) st(3,4) by (simp add: db_state_def)
  then have rel: "db_rel True schema ct n ?db' m" using r(3,4) idx st(6) by (auto simp: db_rel_def indexed_def)
  have "open_members db1 = (Inr (), ?db')"
    using w(1) s'(2) r(1) st(3,5) same by (simp add: open_members_def bindS_def zoomS_def on_pager_def on_wal_def replay_wal_def)
  then show thesis using that [OF new _ rel] st(1) by simp
qed

section \<open>What a crash during a checkpoint leaves\<close>

text \<open>
  The logs a crash may leave when the log was \<open>w0\<close> at the start of the checkpoint and is \<open>w\<close> now: of a file that is there, the synchronised bytes and
  any number of those behind them; and always the log of the start, since nothing synchronises the directory from which it was unlinked.
\<close>

definition surviving_logs :: "WAL \<Rightarrow> WAL \<Rightarrow> bytes option set" where
  "surviving_logs w0 w = insert (Some (wal_durable w0))
     (case wal_file w of None \<Rightarrow> {None} | Some c \<Rightarrow> {Some (take n c) | n. length (wal_durable w) \<le> n})"

text \<open>The states of the log between the steps.\<close>

lemma clear_states:
  assumes "synced w0" and "wal_is_open w0" and "good_script (wal_script w0)"
  obtains w2 w3 w4 w5 w6 w7 where "run_steps (take 1 clear_steps) w0 = (Inr (), w0)" "run_steps (take 2 clear_steps) w0 = (Inr (), w2)"
    "run_steps (take 3 clear_steps) w0 = (Inr (), w3)" "run_steps (take 4 clear_steps) w0 = (Inr (), w4)" "run_steps (take 5 clear_steps) w0 = (Inr (), w5)"
    "run_steps (take 6 clear_steps) w0 = (Inr (), w6)" "run_steps clear_steps w0 = (Inr (), w7)"
    "wal_file w2 = wal_file w0" "wal_durable w2 = wal_durable w0" "wal_file w3 = None" "wal_file w4 = Some []"
    "wal_file w5 = Some wal_header" "wal_file w6 = Some wal_header" "wal_file w7 = Some wal_header"
proof -
  have w0: "wal_buf w0 = []" using assms(1) by (simp add: synced_def)
  define w2 where "w2 = snd (wal_close w0)"
  have w2: "wal_close w0 = (Inr (), w2)" "wal_file w2 = wal_file w0" "wal_durable w2 = wal_durable w0" "wal_script w2 = wal_script w0"
    using assms(2) w0 by (simp_all add: w2_def wal_close_def flush_write_buffer_def bindS_def)
  obtain s3 where s3: "good_script s3" "sys_ok w2 = (Inr True, w2\<lparr>wal_script := s3\<rparr>)" using sys_ok_good [of w2] assms(3) w2(4) by metis
  define w3 where "w3 = w2\<lparr>wal_script := s3, wal_file := None, wal_durable := []\<rparr>"
  obtain s4 where s4: "good_script s4" "sys_ok w3 = (Inr True, w3\<lparr>wal_script := s4\<rparr>)" using sys_ok_good [of w3] s3(1) by (auto simp: w3_def)
  define w4 where "w4 = w3\<lparr>wal_script := s4, wal_file := Some [], wal_pos := 0, wal_fd := True\<rparr>"
  obtain s5 where s5: "good_script s5" "sys_ok w4 = (Inr True, w4\<lparr>wal_script := s5\<rparr>)" using sys_ok_good [of w4] s4(1) by (auto simp: w4_def)
  obtain s6 where s6: "good_script s6"
    "safe_write wal_header (w4\<lparr>wal_script := s5\<rparr>) = (Inr (), w4\<lparr>wal_file := Some wal_header, wal_pos := length wal_header, wal_script := s6\<rparr>)"
    using safe_write_append [of "w4\<lparr>wal_script := s5\<rparr>" "[]" wal_header] s5(1) by (auto simp: w4_def)
  define w5 where "w5 = w4\<lparr>wal_file := Some wal_header, wal_pos := length wal_header, wal_script := s6\<rparr>"
  obtain s7 where s7: "sys_fsync w5 = (Inr (), w5\<lparr>wal_durable := wal_contents w5, wal_script := s7\<rparr>)" using sys_fsync_good [of w5] s6(1) by (auto simp: w5_def)
  define w6 where "w6 = w5\<lparr>wal_durable := wal_contents w5, wal_script := s7\<rparr>"
  define w7 where "w7 = w6\<lparr>wal_offset := word_of_nat WAL_HEADER_SIZE, wal_is_open := True\<rparr>"
  obtain f1 f2 f3 f4 f5 f6 f7 where f: "clear_steps = [f1, f2, f3, f4, f5, f6, f7]" "f1 w0 = (Inr (), w0)" "f2 w0 = (Inr (), w2)" "f3 w2 = (Inr (), w3)"
    "f4 w3 = (Inr (), w4)" "f5 w4 = (Inr (), w5)" "f6 w5 = (Inr (), w6)" "f7 w6 = (Inr (), w7)"
  proof (rule that)
    show "bindS sys_ok (\<lambda>ok. if \<not> ok then throwS IOError else modifyS (\<lambda>w. w\<lparr>wal_file := None, wal_durable := []\<rparr>)) w2 = (Inr (), w3)"
      using s3(2) by (simp add: bindS_def w3_def)
    show "bindS sys_ok (\<lambda>opened. if \<not> opened then bindS (modifyS (\<lambda>w. w\<lparr>wal_fd := False\<rparr>)) (\<lambda>_. throwS IOError)
        else modifyS (\<lambda>w. w\<lparr>wal_file := Some [], wal_pos := 0, wal_fd := True\<rparr>)) w3 = (Inr (), w4)"
      using s4(2) by (simp add: bindS_def w4_def)
    show "bindS sys_ok (\<lambda>statted. if \<not> statted then bindS (modifyS (\<lambda>w. w\<lparr>wal_fd := False\<rparr>)) (\<lambda>_. throwS IOError) else safe_write wal_header) w4 = (Inr (), w5)"
      using s5(2) s6(2) by (simp add: bindS_def w5_def)
    show "sys_fsync w5 = (Inr (), w6)" using s7 by (simp add: w6_def)
    show "modifyS (\<lambda>w. w\<lparr>wal_offset := word_of_nat WAL_HEADER_SIZE, wal_is_open := True\<rparr>) w6 = (Inr (), w7)" by (simp add: w7_def)
    show "wal_close w0 = (Inr (), w2)" by (rule w2(1))
    show "(\<lambda>w. if wal_is_open w then flush_write_buffer w else (Inr (), w)) w0 = (Inr (), w0)" using w0 by (simp add: flush_write_buffer_def)
  qed (simp add: clear_steps_def fun_eq_iff)
  show thesis
    by (rule that [of w2 w3 w4 w5 w6 w7])
       (simp_all add: f bindS_def w2(2,3), simp_all add: w3_def w4_def w5_def w6_def w7_def)
qed

lemma clear_prefix:
  assumes "synced w0" and "wal_is_open w0" and "good_script (wal_script w0)"
  obtains w where "run_steps (take j clear_steps) w0 = (Inr (), w)"
    "surviving_logs w0 w \<subseteq> {Some (wal_durable w0), None} \<union> range (\<lambda>n. Some (take n wal_header))" "j = 0 \<longrightarrow> w = w0"
proof (rule clear_states [OF assms])
  fix w2 w3 w4 w5 w6 w7
  assume run: "run_steps (take 1 clear_steps) w0 = (Inr (), w0)" "run_steps (take 2 clear_steps) w0 = (Inr (), w2)"
    "run_steps (take 3 clear_steps) w0 = (Inr (), w3)" "run_steps (take 4 clear_steps) w0 = (Inr (), w4)" "run_steps (take 5 clear_steps) w0 = (Inr (), w5)"
    "run_steps (take 6 clear_steps) w0 = (Inr (), w6)" "run_steps clear_steps w0 = (Inr (), w7)"
    and files: "wal_file w2 = wal_file w0" "wal_durable w2 = wal_durable w0" "wal_file w3 = None" "wal_file w4 = Some []"
    "wal_file w5 = Some wal_header" "wal_file w6 = Some wal_header" "wal_file w7 = Some wal_header"
  have w0: "wal_file w0 = Some (wal_durable w0)" using assms(1) by (simp add: synced_def)
  have empty: "Some [] \<in> range (\<lambda>n. Some (take n wal_header))" by (rule image_eqI [of _ _ 0]) simp_all
  have left: "surviving_logs w0 w \<subseteq> {Some (wal_durable w0), None} \<union> range (\<lambda>n. Some (take n wal_header))"
    if "wal_file w = wal_file w0 \<and> wal_durable w = wal_durable w0 \<or> wal_file w \<in> {None, Some [], Some wal_header}" for w
    using that w0 empty by (auto simp: surviving_logs_def)
  note reach = that [OF _ left]
  have full: "7 \<le> j \<Longrightarrow> take j clear_steps = clear_steps" by (simp add: clear_steps_def)
  consider "j = 0" | "j = 1" | "j = 2" | "j = 3" | "j = 4" | "j = 5" | "j = 6" | "7 \<le> j" by linarith
  then show thesis
  proof cases
    case 1
    show thesis by (rule reach [of w0]) (use 1 in simp_all)
  next
    case 2
    show thesis by (rule reach [of w0]) (use 2 run(1) in simp_all)
  next
    case 3
    show thesis by (rule reach [of w2]) (use 3 run(2) files(1,2) in simp_all)
  next
    case 4
    show thesis by (rule reach [of w3]) (use 4 run(3) files(3) in simp_all)
  next
    case 5
    show thesis by (rule reach [of w4]) (use 5 run(4) files(4) in simp_all)
  next
    case 6
    show thesis by (rule reach [of w5]) (use 6 run(5) files(5) in simp_all)
  next
    case 7
    show thesis by (rule reach [of w6]) (use 7 run(6) files(6) in simp_all)
  next
    case 8
    show thesis by (rule reach [of w7]) (use 8 run(7) full files(7) in simp_all)
  qed
qed

lemma keeps_flush_dirty_page [keep_rules]: "keeps pager_durable (flush_dirty_page pid)"
proof (rule keepsI)
  fix ps
  have "keeps pager_durable (bindS (on_core (write_page_to_disk p)) (\<lambda>new_offset. bindS (on_core (on_index (modifyS (f new_offset)))) (\<lambda>_. write_page q)))" for p q f
    by (intro keep_rules)
  from keepsD [OF this] show "pager_durable (snd (flush_dirty_page pid ps)) = pager_durable ps"
    by (simp add: flush_dirty_page_def pager_durable_def Let_def split: prod.split option.split)
qed

lemma keeps_flush_dirty_pages [keep_rules]: "keeps pager_durable (flush_dirty_pages pids)"
  by (induction pids) (auto intro: keep_rules)

lemma flush_prefix_durable:
  assumes "i < 3" and "run_steps (take i flush_steps) ps = (r, ps')" shows "pager_durable ps' = pager_durable ps"
proof -
  have "keeps pager_durable m" if "m \<in> set (take 2 flush_steps)" for m
    using that by (auto simp: flush_steps_def intro!: keep_rules)
  moreover have "set (take i flush_steps) \<subseteq> set (take 2 flush_steps)" using assms(1) by (intro set_take_subset_set_take) simp
  ultimately show ?thesis by (intro keeps_result [OF keeps_steps assms(2)]) blast
qed

text \<open>A log that is missing or whose header has been begun.\<close>

lemma open_started_log:
  assumes "disk_holds schema ct n m s" and "storable_schema schema" and "validate schema = Inr ()" and "good_script script"
    and "logf = None \<or> logf = Some (take i wal_header)"
  obtains db0 db where "db_new schema ct cap (Some (se_contents s)) logf script = Inr db0" "db_open db0 = (Inr (), db)" "db_rel True schema ct n db m"
proof (cases "logf = None \<or> i = 0 \<or> 32 \<le> i")
  case True
  then have "clean_log (wal_object logf script)"
    using assms(4,5) by (auto simp: clean_log_def wal_object_def wal_contents_def length_wal_header)
  from reopened_clean [OF assms(1) this, of schema cap] show thesis using that assms(3) by (auto simp: schemas_match_iff)
next
  case False
  then have c: "take i wal_header \<noteq> []" "length (take i wal_header) < 32" using length_wal_header by auto
  show thesis by (rule open_short_log [OF assms(1-4) c, of cap]) (use that False assms(5) in auto)
qed

lemma run_on_pager:
  assumes "db_ready db" and "run_steps ms (db_pager db) = (r, ps)" shows "run_steps (map on_pager ms) db = (r, db\<lparr>db_pager := ps\<rparr>)"
  using assms on_pager_apply [of db "run_steps ms"] by (cases "ms = []") (auto simp flip: on_pager_steps)

lemma run_on_wal:
  assumes "db_ready db" and "run_steps ms (db_wal db) = (r, w)" shows "run_steps (map on_wal ms) db = (r, db\<lparr>db_wal := w\<rparr>)"
  using assms on_wal_apply [of db "run_steps ms"] by (cases "ms = []") (auto simp flip: on_wal_steps)

lemma checkpoint_prefix:
  assumes "db_is_open db" and "db_ready db" and "flush_all (db_pager db) = (Inr (), ps)"
    and log: "synced (db_wal db)" "wal_is_open (db_wal db)" "good_script (wal_script (db_wal db))"
  obtains p w where "run_steps (take k checkpoint_steps) db = (Inr (), db\<lparr>db_pager := p, db_wal := w\<rparr>)"
    "pager_durable p = pager_durable (db_pager db) \<and> w = db_wal db
      \<or> p = ps \<and> surviving_logs (db_wal db) w \<subseteq> {Some (wal_durable (db_wal db)), None} \<union> range (\<lambda>n. Some (take n wal_header))"
proof (cases k)
  case 0
  then show thesis by (intro that [where p = "db_pager db" and w = "db_wal db"]) simp_all
next
  case (Suc i)
  have len: "length flush_steps = 3" by (simp add: flush_steps_def)
  obtain p where p: "run_steps (take i flush_steps) (db_pager db) = (Inr (), p)" using assms(3) unfolding flush_all_steps by (rule run_steps_prefix)
  obtain w where w: "run_steps (take (i - 3) clear_steps) (db_wal db) = (Inr (), w)"
    "surviving_logs (db_wal db) w \<subseteq> {Some (wal_durable (db_wal db)), None} \<union> range (\<lambda>n. Some (take n wal_header))" "i - 3 = 0 \<longrightarrow> w = db_wal db"
    by (rule clear_prefix [OF log])
  have "run_steps (map on_pager (take i flush_steps)) db = (Inr (), db\<lparr>db_pager := p\<rparr>)" by (rule run_on_pager [OF assms(2) p])
  moreover have "run_steps (map on_wal (take (i - 3) clear_steps)) (db\<lparr>db_pager := p\<rparr>) = (Inr (), db\<lparr>db_pager := p, db_wal := w\<rparr>)"
    using run_on_wal [of "db\<lparr>db_pager := p\<rparr>" "take (i - 3) clear_steps"] assms(2) w(1) by simp
  ultimately have run: "run_steps (take k checkpoint_steps) db = (Inr (), db\<lparr>db_pager := p, db_wal := w\<rparr>)"
    using require_open_apply(1) [OF assms(1)] by (simp add: Suc checkpoint_steps_def len take_map run_steps_append bindS_def)
  show thesis
  proof (cases "i < 3")
    case True
    then show thesis using that [OF run] flush_prefix_durable [OF True p] w(3) by simp
  next
    case False
    then have "p = ps" using p assms(3) len by (simp add: flush_all_steps)
    then show thesis using that [OF run] w(2) by simp
  qed
qed

section \<open>Property\<close>

text \<open>
  C5: a crash during a checkpoint. \<open>checkpoint\<close> is the sequence \<open>checkpoint_steps\<close>, in every state and whatever fails. Let any operations have run since
  the database was created. Each prefix of these steps succeeds, and if the machine stops there, opening what it leaves succeeds and gives a database
  with exactly the rows it held: the database file has the contents of its last synchronisation; the log is missing, or holds the synchronised bytes and any number of
  those behind them (a part of the header of the new log, or nothing), or is still the old log, the removal of which is not synchronised. Replaying a
  log whose effects are in the pages already changes nothing.
\<close>

theorem checkpoint_crash_safe:
  assumes "storable_schema schema" and "validate schema = Inr ()" and "ct \<in> {CNone, CLZ4}" and "good_script script" and "good_script script'"
    and "\<forall>oper \<in> set (ops @ ops'). good_op schema ct oper" and "32 + 8213 * ops_size (ops @ ops') < 2 ^ 32"
    and "db_new schema ct cap None None script = Inr db0" and "db_open db0 = (Inr (), db)"
    and "run_calls db_call ops db = (answers, db1)"
  shows "checkpoint = run_steps checkpoint_steps
    \<and> (\<exists>db2. run_steps (take k checkpoint_steps) db1 = (Inr (), db2) \<and> (\<forall>logf \<in> surviving_logs (db_wal db1) (db_wal db2).
        \<exists>db3 db4. db_new schema ct cap' (Some (se_durable (db_storage db2))) logf script' = Inr db3 \<and> db_open db3 = (Inr (), db4)
          \<and> fst (run_calls db_call ops' db4) = fst (run_calls (map_call schema) ops' (snd (run_calls (map_call schema) ops Map.empty)))))"
proof -
  let ?m = "snd (run_calls (map_call schema) ops Map.empty)" and ?N = "ops_size ops"
  let ?opens = "\<lambda>f logf. \<exists>db3 db4 n4. db_new schema ct cap' (Some f) logf script' = Inr db3 \<and> db_open db3 = (Inr (), db4) \<and> db_rel True schema ct n4 db4 ?m
      \<and> unat n4 \<le> 2 * ?N"
  have ops: "\<forall>op \<in> set ops. good_op schema ct op" "?N < 2 ^ 32" "\<forall>op \<in> set ops'. good_op schema ct op" using assms(6,7) by auto
  obtain n where rel: "db_rel True schema ct n db1 ?m" "unat n \<le> ?N" "recoverable schema ct ?N db1 ?m"
    by (rule run_fresh [OF assms(1-4,8-10) ops(1,2)])
  obtain R where R: "db_state True schema ct R n db1" "placed R (places (db_index db1))" "?m = table R (places (db_index db1))"
    by (rule db_relE [OF rel(1)])
  note d = db_stateD [OF R(1)]
  obtain ps where fl: "on_pager flush_all db1 = (Inr (), db1\<lparr>db_pager := ps\<rparr>)" "disk_holds schema ct n ?m (pg_storage (snd ps))"
    "se_file (pg_storage (snd ps)) = Some (se_durable (pg_storage (snd ps)))" by (rule flush_disk [OF R])
  have flush: "flush_all (db_pager db1) = (Inr (), ps)"
    using fl(1) d(2) by (auto simp: on_pager_def zoomS_def split: prod.splits dest: arg_cong [of _ _ db_pager])
  have new: "pager_durable ps = se_contents (pg_storage (snd ps))" using fl(3) by (simp add: pager_durable_def core_durable_def se_contents_def)
  obtain n0 m0 es k' j where h: "synced (db_wal db1)" "durable_disk schema ct n0 m0 (db_durable db1)" "wal_holds wal_header (db_wal db1) (map log_record es) k' j"
    "\<forall>e \<in> set es. good_entry schema ct e" "fold replay_effect es m0 = ?m" "unat n0 + length es \<le> ?N" by (rule recoverableE [OF rel(3)])
  have log: "wal_is_open (db_wal db1)" "good_script (wal_script (db_wal db1))" using h(3) by (simp_all add: wal_holds_def)
  obtain p w where run: "run_steps (take k checkpoint_steps) db1 = (Inr (), db1\<lparr>db_pager := p, db_wal := w\<rparr>)"
    and left: "pager_durable p = pager_durable (db_pager db1) \<and> w = db_wal db1
      \<or> p = ps \<and> surviving_logs (db_wal db1) w \<subseteq> {Some (wal_durable (db_wal db1)), None} \<union> range (\<lambda>n. Some (take n wal_header))"
    by (rule checkpoint_prefix [OF d(1) [simplified] d(2) flush h(1) log, of k]) blast
  have before: "?opens (db_durable db1) (Some (wal_durable (db_wal db1)))"
  proof -
    have "32 + 8213 * ?N < 2 ^ 32" using assms(7) by simp
    then obtain db3 db4 n4 where "db_new schema ct cap' (Some (db_durable db1)) (Some (wal_durable (db_wal db1))) script' = Inr db3"
      "db_open db3 = (Inr (), db4)" "db_rel True schema ct n4 db4 ?m" "unat n4 \<le> ?N" by (rule recovered [OF rel(3) assms(1-3,5)])
    then show ?thesis by (intro exI [of _ db3] exI [of _ db4] exI [of _ n4]) auto
  qed
  have old: "?opens (pager_durable ps) (Some (wal_durable (db_wal db1)))"
  proof -
    have disk: "durable_disk schema ct n ?m (pager_durable ps)" using fl(2) new by (auto simp: durable_disk_def)
    have len: "length es \<le> ?N" "unat n + length es < 2 ^ 32" using h(6) rel(2) assms(7) by simp_all
    note c = logged_parse [OF h(1,3,4) len(1)]
    obtain db3 db4 n4 where "db_new schema ct cap' (Some (pager_durable ps)) (Some (wal_durable (db_wal db1))) script' = Inr db3" "db_open db3 = (Inr (), db4)"
      "db_rel True schema ct n4 db4 (fold replay_effect es ?m)" "unat n4 \<le> unat n + length es"
      by (rule open_after_crash [OF assms(1-3,5) disk h(4) len(2) c(1) _ c(3)]) (use c(2) assms(7) in simp_all)
    moreover have "fold replay_effect es ?m = ?m" using replay_twice [of es m0] h(5) by simp
    ultimately show ?thesis using len(1) rel(2) by (intro exI [of _ db3] exI [of _ db4] exI [of _ n4]) auto
  qed
  have clean: "?opens (pager_durable ps) logf" if l: "logf = None \<or> logf = Some (take i wal_header)" for logf i
  proof -
    obtain db3 db4 where "db_new schema ct cap' (Some (pager_durable ps)) logf script' = Inr db3" "db_open db3 = (Inr (), db4)" "db_rel True schema ct n db4 ?m"
      by (rule open_started_log [OF fl(2) assms(1,2,5) l, of cap']) (simp add: new)
    then show ?thesis using rel(2) by (intro exI [of _ db3] exI [of _ db4] exI [of _ n]) auto
  qed
  have "?opens (pager_durable p) logf" if "logf \<in> surviving_logs (db_wal db1) w" for logf
    using left
  proof
    assume early: "pager_durable p = pager_durable (db_pager db1) \<and> w = db_wal db1"
    then have "logf = Some (wal_durable (db_wal db1))" using that h(1) by (auto simp: surviving_logs_def synced_def)
    then show ?thesis using before early by (simp add: db_durable_def)
  next
    assume late: "p = ps \<and> surviving_logs (db_wal db1) w \<subseteq> {Some (wal_durable (db_wal db1)), None} \<union> range (\<lambda>n. Some (take n wal_header))"
    then have "logf \<in> {Some (wal_durable (db_wal db1)), None} \<union> range (\<lambda>n. Some (take n wal_header))" using that by blast
    then show ?thesis using old clean late by blast
  qed
  then have "\<exists>db3 db4. db_new schema ct cap' (Some (pager_durable p)) logf script' = Inr db3 \<and> db_open db3 = (Inr (), db4)
      \<and> fst (run_calls db_call ops' db4) = fst (run_calls (map_call schema) ops' ?m)" if "logf \<in> surviving_logs (db_wal db1) w" for logf
    using answers_after [OF _ ops(3)] that assms(7) by fastforce
  then show ?thesis using run checkpoint_is_steps by (auto simp: pager_durable_def core_durable_def)
qed

text \<open>The witness stops after the header of the new log has been written and before it is synchronised.\<close>

theorem checkpoint_crash_safe_witness:
  "\<exists>db0 db answers db1 db2. db_new demo_schema CLZ4 1 None None [] = Inr db0 \<and> db_open db0 = (Inr (), db)
    \<and> run_calls db_call [DbInsert (demo_row 1 25 ''alice''), DbUpdate (demo_row 1 26 ''alice'')] db = (answers, db1)
    \<and> run_steps (take 9 checkpoint_steps) db1 = (Inr (), db2) \<and> (\<forall>logf \<in> surviving_logs (db_wal db1) (db_wal db2).
        \<exists>db3 db4. db_new demo_schema CLZ4 2 (Some (se_durable (db_storage db2))) logf [] = Inr db3 \<and> db_open db3 = (Inr (), db4)
          \<and> fst (run_calls db_call [DbTryGet 1] db4) = [Inr (Maybe (Some (demo_row 1 26 ''alice'')))])"
proof -
  let ?ops = "[DbInsert (demo_row 1 25 ''alice''), DbUpdate (demo_row 1 26 ''alice'')]"
  obtain db0 db where o: "db_new demo_schema CLZ4 1 None None [] = Inr db0" "db_open db0 = (Inr (), db)"
    by (rule open_fresh [of demo_schema CLZ4 "[]" 1]) (simp_all add: storable_demo_schema validate_demo_schema good_script_def)
  obtain answers db1 where r: "run_calls db_call ?ops db = (answers, db1)" by fastforce
  have id: "row_id (demo_row i a s) = i" for i a s by (simp add: demo_row_def)
  have spec: "fst (run_calls (map_call demo_schema) [DbTryGet 1] (snd (run_calls (map_call demo_schema) ?ops Map.empty)))
      = [Inr (Maybe (Some (demo_row 1 26 ''alice'')))]" by (simp add: insert_error_def put_row_def storable_length id)
  have "checkpoint = run_steps checkpoint_steps
    \<and> (\<exists>db2. run_steps (take 9 checkpoint_steps) db1 = (Inr (), db2) \<and> (\<forall>logf \<in> surviving_logs (db_wal db1) (db_wal db2).
        \<exists>db3 db4. db_new demo_schema CLZ4 2 (Some (se_durable (db_storage db2))) logf [] = Inr db3 \<and> db_open db3 = (Inr (), db4)
          \<and> fst (run_calls db_call [DbTryGet 1] db4) = fst (run_calls (map_call demo_schema) [DbTryGet 1] (snd (run_calls (map_call demo_schema) ?ops Map.empty)))))"
    by (rule checkpoint_crash_safe [OF storable_demo_schema validate_demo_schema _ _ _ _ _ o r]) (simp_all add: good_script_def)
  then show ?thesis unfolding spec using o r by blast
qed

end
