(* ===== verification/Mmap.thy ===== *)
theory Mmap
  imports Xdl_Types
begin

text \<open>
  \<open>MmapFile\<close> of \<open>src/mmap.cpp\<close> (POSIX branch): a file mapped as a whole, grown by doubling. The state is
  the object's fields together with the file behind its path: the contents (\<open>None\<close> when there is no file) and
  what is known to survive a crash. The mapping is shared, so the mapped memory is the
  file's contents and has no field of its own.

  The kernel is a script of system call results: a call takes the next entry, \<open>None\<close> for a failure and
  \<open>Some a\<close> for success, where \<open>a\<close> is the address when the call is \<open>mmap\<close>; when the script is empty every
  call succeeds. \<open>munmap\<close> and \<open>close\<close> take no entry, their results are not looked at and the code cannot
  observe them. The size of a memory page is a constant of the kernel.

  The growth loop may run forever: an operation that contains it returns \<open>None\<close> when it does not return.
\<close>

section \<open>State and system calls\<close>

record MmapFile =
  mm_fd :: bool
  mm_addr :: u64
  mm_size :: u64
  mm_file :: "bytes option"
  mm_durable :: bytes
  mm_page_sz :: u64
  mm_script :: "u64 option list"

text \<open>A fresh object on a path whose file has the given contents.\<close>

definition mmap_file :: "bytes option \<Rightarrow> u64 \<Rightarrow> u64 option list \<Rightarrow> MmapFile" where
  "mmap_file f page_sz script =
     \<lparr>mm_fd = False, mm_addr = 0, mm_size = 0, mm_file = f, mm_durable = (case f of None \<Rightarrow> [] | Some c \<Rightarrow> c),
      mm_page_sz = page_sz, mm_script = script\<rparr>"

definition mm_contents :: "MmapFile \<Rightarrow> bytes" where
  "mm_contents m = (case mm_file m of None \<Rightarrow> [] | Some c \<Rightarrow> c)"

definition mm_call :: "(MmapFile, u64 option) prog" where
  "mm_call m = (case mm_script m of
       [] \<Rightarrow> (Inr (Some (mm_page_sz m)), m)
     | r # rs \<Rightarrow> (Inr r, m\<lparr>mm_script := rs\<rparr>))"

text \<open>\<open>ftruncate\<close>: \<open>off_t\<close> is signed, so a length from \<open>2 ^ 63\<close> on is refused. The result says whether it succeeded.\<close>

definition sys_ftruncate :: "u64 \<Rightarrow> (MmapFile, bool) prog" where
  "sys_ftruncate n = bindS mm_call (\<lambda>r. bindS (getS mm_fd) (\<lambda>fd.
     if r = None \<or> \<not> fd \<or> 2 ^ 63 \<le> n then returnS False
     else bindS (modifyS (\<lambda>m. m\<lparr>mm_file := Some (take (unat n) (mm_contents m)
                                   @ replicate (unat n - length (mm_contents m)) 0)\<rparr>)) (\<lambda>_. returnS True)))"

text \<open>
  \<open>msync\<close> with \<open>MS_SYNC\<close>: refuses an address that is not the start of a page, otherwise writes back every
  page that the range touches. The caller ignores its result.
\<close>

definition page_end :: "u64 \<Rightarrow> nat \<Rightarrow> nat" where
  "page_end page_sz n = (n + unat page_sz - 1) div unat page_sz * unat page_sz"

definition sys_msync :: "u64 \<Rightarrow> u64 \<Rightarrow> (MmapFile, unit) prog" where
  "sys_msync start sync_len = bindS mm_call (\<lambda>r. modifyS (\<lambda>m.
     let lo = unat start - unat (mm_addr m); n = page_end (mm_page_sz m) (unat sync_len)
     in if r = None \<or> start mod mm_page_sz m \<noteq> 0 then m
        else m\<lparr>mm_durable := file_put lo (file_get lo n (mm_contents m)) (mm_durable m)\<rparr>))"

section \<open>Operations\<close>

definition mm_is_open :: "MmapFile \<Rightarrow> bool" where
  "mm_is_open m \<longleftrightarrow> mm_addr m \<noteq> 0"

definition remap :: "u64 \<Rightarrow> (MmapFile, unit) prog" where
  "remap new_size =
     bindS (modifyS (\<lambda>m. if mm_addr m \<noteq> 0 \<and> 0 < mm_size m then m\<lparr>mm_addr := 0, mm_size := 0\<rparr> else m)) (\<lambda>_.
     bindS (sys_ftruncate new_size) (\<lambda>ok.
     if \<not> ok then throwS IOError
     else if new_size = 0 then modifyS (\<lambda>m. m\<lparr>mm_addr := 0, mm_size := 0\<rparr>)
     else bindS mm_call (\<lambda>p. case p of
            None \<Rightarrow> throwS IOError
          | Some a \<Rightarrow> modifyS (\<lambda>m. m\<lparr>mm_addr := a, mm_size := new_size\<rparr>))))"

definition mm_create :: "u64 \<Rightarrow> (MmapFile, unit) prog" where
  "mm_create initial_size =
     bindS mm_call (\<lambda>fd.
     if fd = None then bindS (modifyS (\<lambda>m. m\<lparr>mm_fd := False\<rparr>)) (\<lambda>_. throwS IOError)
     else bindS (modifyS (\<lambda>m. m\<lparr>mm_fd := True, mm_file := Some []\<rparr>)) (\<lambda>_.
          if 0 < initial_size
          then bindS (sys_ftruncate initial_size) (\<lambda>ok. if \<not> ok then throwS IOError else remap initial_size)
          else remap 1))"

definition mm_open_existing :: "(MmapFile, unit) prog" where
  "mm_open_existing =
     bindS mm_call (\<lambda>st. bindS (getS mm_file) (\<lambda>f.
     if st = None \<or> f = None then throwS IOError
     else bindS (getS (\<lambda>m. word_of_nat (length (mm_contents m)))) (\<lambda>st_size.
          bindS mm_call (\<lambda>fd.
          if fd = None then bindS (modifyS (\<lambda>m. m\<lparr>mm_fd := False\<rparr>)) (\<lambda>_. throwS IOError)
          else bindS (modifyS (\<lambda>m. m\<lparr>mm_fd := True\<rparr>)) (\<lambda>_.
               if 0 < st_size then remap st_size
               else modifyS (\<lambda>m. m\<lparr>mm_size := 0, mm_addr := 0\<rparr>))))))"

definition mm_open :: "bool \<Rightarrow> u64 \<Rightarrow> (MmapFile, unit) prog" where
  "mm_open create initial_size = (if create then mm_create initial_size else mm_open_existing)"

definition mm_close :: "(MmapFile, unit) prog" where
  "mm_close m =
     (if \<not> mm_is_open m then (Inr (), m)
      else (Inr (), m\<lparr>mm_addr := 0, mm_size := 0, mm_fd := False\<rparr>))"

definition mm_destroy :: "(MmapFile, unit) prog" where
  "mm_destroy m = (if mm_is_open m then mm_close m else (Inr (), m))"

definition mm_read :: "u64 \<Rightarrow> u64 \<Rightarrow> (MmapFile, bytes) prog" where
  "mm_read offset len m =
     (if mm_size m < offset + len then Inl IOError
      else if mm_addr m = 0 \<or> unat (mm_size m) < unat offset + unat len then Inl UndefinedBehaviour
      else mem_read (unat len) (drop (unat offset) (mm_contents m)), m)"

partial_function (option) grow_loop :: "u64 \<Rightarrow> u64 \<Rightarrow> u64 option" where
  "grow_loop new_size min_size = (if new_size < min_size then grow_loop (new_size * 2) min_size else Some new_size)"

declare grow_loop.simps [code]

definition grown_size :: "u64 \<Rightarrow> u64 \<Rightarrow> u64 \<Rightarrow> u64 option" where
  "grown_size page_sz sz min_size =
     (case grow_loop (if sz = 0 then 1 else sz) min_size of
        None \<Rightarrow> None
      | Some new_size \<Rightarrow> Some ((new_size + page_sz - 1) div page_sz * page_sz))"

definition ensure_size :: "u64 \<Rightarrow> MmapFile \<Rightarrow> (unit result \<times> MmapFile) option" where
  "ensure_size min_size m =
     (if min_size \<le> mm_size m then Some (Inr (), m)
      else case grown_size (mm_page_sz m) (mm_size m) min_size of
        None \<Rightarrow> None
      | Some new_size \<Rightarrow> Some (remap new_size m))"

text \<open>\<open>memcpy\<close> into the mapping, and the \<open>msync\<close> of the pages it touches.\<close>

definition mm_store :: "u64 \<Rightarrow> bytes \<Rightarrow> (MmapFile, unit) prog" where
  "mm_store offset src =
     bindS (getS (\<lambda>m. mm_addr m = 0 \<or> unat (mm_size m) < unat offset + length src)) (\<lambda>outside.
     if outside then throwS UndefinedBehaviour
     else bindS (modifyS (\<lambda>m. m\<lparr>mm_file := Some (file_put (unat offset) src (mm_contents m))\<rparr>)) (\<lambda>_.
          bindS (getS (\<lambda>m. (mm_addr m, mm_page_sz m))) (\<lambda>(addr, page_size).
          let start = (addr + offset) AND NOT (page_size - 1);
              end = addr + offset + word_of_nat (length src)
          in sys_msync start (end - start))))"

definition mm_write :: "u64 \<Rightarrow> bytes \<Rightarrow> MmapFile \<Rightarrow> (unit result \<times> MmapFile) option" where
  "mm_write offset src m =
     (let need = offset + word_of_nat (length src)
      in case (if mm_size m < need then ensure_size need m else Some (Inr (), m)) of
           None \<Rightarrow> None
         | Some (Inl e, m') \<Rightarrow> Some (Inl e, m')
         | Some (Inr _, m') \<Rightarrow> Some (mm_store offset src m'))"

definition mm_flush :: "(MmapFile, unit) prog" where
  "mm_flush m = (if mm_addr m \<noteq> 0 \<and> 0 < mm_size m then sys_msync (mm_addr m) (mm_size m) m else (Inr (), m))"

section \<open>Growth\<close>

lemma unat_double: "unat n < 2 ^ 63 \<Longrightarrow> unat (n * 2 :: u64) = 2 * unat n"
  by (simp add: unat_word_ariths)

text \<open>The loop returns when a power of two times its start reaches the bound before the word overflows.\<close>

lemma grow_loop_returns:
  assumes "0 < n" and "unat min_size \<le> 2 ^ 63"
  shows "\<exists>r. grow_loop n min_size = Some r \<and> min_size \<le> r \<and> n \<le> r \<and> (n < min_size \<longrightarrow> 2 * n \<le> r \<and> unat r < 2 * unat min_size)
    \<and> (min_size \<le> n \<longrightarrow> r = n)"
  using assms(1)
proof (induction "unat min_size - unat n" arbitrary: n rule: less_induct)
  case less
  show ?case
  proof (cases "n < min_size")
    case False
    then show ?thesis by (auto simp: grow_loop.simps [of n] not_less leD)
  next
    case True
    then have lt: "unat n < unat min_size" and dbl: "unat (n * 2) = 2 * unat n"
      using assms(2) by (simp_all add: word_less_nat_alt unat_double)
    have pos: "0 < unat n" using less.prems by (simp add: word_less_nat_alt)
    have "0 < n * 2" using dbl pos by (simp add: word_less_nat_alt)
    moreover have "unat min_size - unat (n * 2) < unat min_size - unat n" using lt dbl pos by simp
    ultimately obtain r where r: "grow_loop (n * 2) min_size = Some r" "min_size \<le> r" "n * 2 \<le> r"
      "n * 2 < min_size \<longrightarrow> unat r < 2 * unat min_size" "min_size \<le> n * 2 \<longrightarrow> r = n * 2"
      using less.hyps [of "n * 2"] by blast
    have "unat r < 2 * unat min_size"
      using r(4,5) lt dbl by (cases "n * 2 < min_size") (auto simp: not_less)
    moreover have "n \<le> r" using r(3) dbl by (simp add: word_le_nat_alt)
    ultimately show ?thesis using True r by (auto simp: grow_loop.simps [of n] mult.commute leD)
  qed
qed

lemma power_of_two_step:
  assumes "n = 0 \<or> (\<exists>k < 64. n = (2 :: u64) ^ k)"
  shows "n \<le> 2 ^ 63 \<and> (n * 2 = 0 \<or> (\<exists>k < 64. n * 2 = 2 ^ k))"
proof (cases "n = 0")
  case False
  with assms obtain k where k: "k < 64" "n = 2 ^ k" by blast
  have "(2::nat) ^ k < 2 ^ 64" using k(1) by (intro power_strict_increasing) simp_all
  then have "unat n = 2 ^ k" using k(2) unat_of_nat [where 'a = 64, of "2 ^ k"] by simp
  moreover have "(2::nat) ^ k \<le> 2 ^ 63" using k(1) by (intro power_increasing) simp_all
  ultimately have "n \<le> 2 ^ 63" by (simp add: word_le_nat_alt)
  moreover have "n * 2 = 2 ^ Suc k" using k(2) by simp
  moreover have "(2 :: u64) ^ 64 = 0" by simp
  ultimately show ?thesis using k(1) by (metis Suc_leI le_neq_implies_less)
qed simp

text \<open>Beyond \<open>2 ^ 63\<close>, doubling a power of two goes to zero before it reaches the bound.\<close>

lemma grow_loop_diverges:
  assumes "2 ^ 63 < min_size" and "n = 0 \<or> (\<exists>k < 64. n = 2 ^ k)"
  shows "grow_loop n min_size = None"
proof (rule ccontr)
  assume "grow_loop n min_size \<noteq> None"
  then obtain r where ret: "grow_loop n min_size = Some r" by blast
  have "\<not> (2 ^ 63 < min_size \<and> (n = 0 \<or> (\<exists>k < 64. n = 2 ^ k)))"
  proof (rule grow_loop.raw_induct [where P = "\<lambda>n min_size r. \<not> (2 ^ 63 < min_size \<and> (n = 0 \<or> (\<exists>k < 64. n = 2 ^ k)))", OF _ ret])
    fix f :: "u64 \<Rightarrow> u64 \<Rightarrow> u64 option" and n min_size r :: u64
    assume IH: "\<And>n min_size r. f n min_size = Some r \<Longrightarrow> \<not> (2 ^ 63 < min_size \<and> (n = 0 \<or> (\<exists>k < 64. n = 2 ^ k)))"
      and eq: "(if n < min_size then f (n * 2) min_size else Some n) = Some r"
    show "\<not> (2 ^ 63 < min_size \<and> (n = 0 \<or> (\<exists>k < 64. n = 2 ^ k)))"
    proof
      assume asm: "2 ^ 63 < min_size \<and> (n = 0 \<or> (\<exists>k < 64. n = 2 ^ k))"
      have "n \<le> 2 ^ 63" and next_n: "n * 2 = 0 \<or> (\<exists>k < 64. n * 2 = 2 ^ k)"
        using asm power_of_two_step by auto
      then have "n < min_size" using asm by (meson order.strict_trans1)
      with eq IH [of "n * 2" min_size r] asm next_n show False by simp
    qed
  qed
  with assms show False by blast
qed

text \<open>The page sizes of the kernels the program runs on: powers of two, up to a megabyte.\<close>

definition is_page_size :: "u64 \<Rightarrow> bool" where
  "is_page_size ps \<longleftrightarrow> (\<exists>p \<le> 20. ps = 2 ^ p)"

lemma page_size_unat:
  assumes "is_page_size ps"
  obtains p where "p \<le> 20" "ps = 2 ^ p" "unat ps = 2 ^ p" "0 < unat ps" "unat ps \<le> 2 ^ 20"
proof -
  from assms obtain p where p: "p \<le> 20" "ps = 2 ^ p" by (auto simp: is_page_size_def)
  have le: "(2::nat) ^ p \<le> 2 ^ 20" using p(1) by (intro power_increasing) simp_all
  then have "unat ps = 2 ^ p" using p(2) unat_of_nat [where 'a = 64, of "2 ^ p"] by simp
  with p le show thesis by (intro that) auto
qed

lemma page_end_bounds:
  assumes "0 < unat ps"
  shows "n \<le> page_end ps n" and "page_end ps n < n + unat ps" and "page_end ps n mod unat ps = 0"
proof -
  let ?k = "unat ps"
  have "(n + ?k - 1) div ?k * ?k + (n + ?k - 1) mod ?k = n + ?k - 1" by (rule div_mult_mod_eq)
  moreover have "(n + ?k - 1) mod ?k < ?k" using assms by simp
  ultimately show "n \<le> page_end ps n" "page_end ps n < n + ?k"
    unfolding page_end_def using assms by linarith+
  show "page_end ps n mod ?k = 0" by (simp add: page_end_def)
qed

lemma round_up_unat:
  assumes "0 < unat ps" and "unat r + unat ps \<le> 2 ^ 64"
  shows "unat ((r + ps - 1) div ps * ps) = page_end ps (unat r)"
proof -
  let ?x = "r + (ps - 1)"
  have "unat (ps - 1) = unat ps - 1" using assms(1) by (simp add: unat_sub_if_size)
  then have x: "unat ?x = unat r + unat ps - 1" using assms by (simp add: unat_word_ariths)
  have "unat ?x div unat ps * unat ps \<le> unat ?x" by simp
  then have "unat ?x div unat ps * unat ps < 2 ^ 64"
    using x assms by (simp del: div_times_less_eq_dividend)
  moreover have "unat (?x div ps) = unat ?x div unat ps" by (rule unat_div)
  ultimately have "unat (?x div ps * ps) = unat ?x div unat ps * unat ps" by (simp add: unat_word_ariths(2))
  moreover have "r + ps - 1 = ?x" by simp
  ultimately show ?thesis by (simp only: page_end_def x)
qed

text \<open>The first doubling of a size that is large enough, and that the loop finds it.\<close>

definition first_double :: "nat \<Rightarrow> nat \<Rightarrow> nat" where
  "first_double sz need = sz * 2 ^ (LEAST j. need \<le> sz * 2 ^ j)"

lemma first_double_enough: "need \<le> sz \<Longrightarrow> first_double sz need = sz"
  by (simp add: first_double_def)

lemma first_double_step:
  assumes "0 < sz" and "sz < need" shows "first_double sz need = first_double (2 * sz) need"
proof -
  have "need \<le> sz * 2 ^ need" using less_exp [of need] assms(1) mult_le_mono1 [of 1 sz "2 ^ need"] by linarith
  then have "(LEAST j. need \<le> sz * 2 ^ j) = Suc (LEAST j. need \<le> sz * 2 ^ Suc j)" using assms(2) by (intro Least_Suc) auto
  then show ?thesis by (simp add: first_double_def mult.assoc mult.left_commute)
qed

lemma grow_loop_first:
  assumes "0 < n" and "unat min_size \<le> 2 ^ 63"
  shows "\<exists>r. grow_loop n min_size = Some r \<and> unat r = first_double (unat n) (unat min_size)"
  using assms(1)
proof (induction "unat min_size - unat n" arbitrary: n rule: less_induct)
  case less
  show ?case
  proof (cases "n < min_size")
    case False
    then have "unat min_size \<le> unat n" by (simp add: not_less word_le_nat_alt)
    then show ?thesis using False by (simp add: grow_loop.simps [of n] first_double_enough)
  next
    case True
    then have lt: "unat n < unat min_size" and dbl: "unat (n * 2) = 2 * unat n"
      using assms(2) by (simp_all add: word_less_nat_alt unat_double)
    have pos: "0 < unat n" using less.prems by (simp add: word_less_nat_alt)
    have "0 < n * 2" using dbl pos by (simp add: word_less_nat_alt)
    moreover have "unat min_size - unat (n * 2) < unat min_size - unat n" using lt dbl pos by simp
    ultimately obtain r where "grow_loop (n * 2) min_size = Some r" "unat r = first_double (unat (n * 2)) (unat min_size)"
      using less.hyps [of "n * 2"] by blast
    then show ?thesis using True first_double_step [OF pos lt] dbl by (simp add: grow_loop.simps [of n])
  qed
qed

lemma first_double_bounds:
  assumes "0 < sz" and "sz < need"
  shows "need \<le> first_double sz need \<and> 2 * sz \<le> first_double sz need \<and> first_double sz need < 2 * need"
  using assms
proof (induction "need - sz" arbitrary: sz rule: less_induct)
  case less
  show ?case
  proof (cases "2 * sz < need")
    case True
    have "need - 2 * sz < need - sz" using less.prems by simp
    from less.hyps [OF this] show ?thesis using True less.prems first_double_step [OF less.prems] by simp
  next
    case False
    then show ?thesis using less.prems first_double_step [OF less.prems] first_double_enough [of need "2 * sz"] by simp
  qed
qed

lemma grown_size_returns:
  assumes "is_page_size ps" and "sz < min_size" and "unat min_size \<le> 2 ^ 62"
  shows "\<exists>s. grown_size ps sz min_size = Some s \<and> min_size \<le> s \<and> 2 * unat sz \<le> unat s
    \<and> unat s < 2 * unat min_size + unat ps \<and> unat s mod unat ps = 0"
proof -
  let ?n = "if sz = 0 then 1 else sz"
  have pos: "0 < ?n" by (simp add: word_neq_0_conv)
  obtain r where r: "grow_loop ?n min_size = Some r" "min_size \<le> r" "?n < min_size \<longrightarrow> 2 * ?n \<le> r \<and> unat r < 2 * unat min_size"
    "min_size \<le> ?n \<longrightarrow> r = ?n"
    using grow_loop_returns [OF pos, of min_size] assms(3) by auto
  have min_pos: "0 < unat min_size" using assms(2) by (simp add: word_less_nat_alt)
  have "unat sz < 2 ^ 63" using assms(2,3) by (simp add: word_less_nat_alt)
  then have dbl: "unat (2 * sz) = 2 * unat sz" using unat_double [of sz] by (simp add: mult.commute)
  have r': "unat r < 2 * unat min_size \<and> 2 * unat sz \<le> unat r"
  proof (cases "?n < min_size")
    case True
    then have "2 * ?n \<le> r \<and> unat r < 2 * unat min_size" using r(3) by simp
    then show ?thesis using dbl by (cases "sz = 0") (simp_all add: word_le_nat_alt)
  next
    case False
    then have "sz = 0" using assms(2) by (auto split: if_splits)
    moreover from this have "r = 1" using False r(4) by (simp add: not_less)
    ultimately show ?thesis using min_pos by simp
  qed
  obtain p where ps: "0 < unat ps" "unat ps \<le> 2 ^ 20" using page_size_unat [OF assms(1)] by metis
  let ?s = "(r + ps - 1) div ps * ps"
  have s: "unat ?s = page_end ps (unat r)" using round_up_unat [OF ps(1), of r] r' ps(2) assms(3) by simp
  note b = page_end_bounds [OF ps(1), of "unat r"]
  have "grown_size ps sz min_size = Some ?s" by (simp add: grown_size_def r(1))
  moreover have "min_size \<le> ?s" using r(2) b(1) s by (simp add: word_le_nat_alt)
  moreover have "2 * unat sz \<le> unat ?s \<and> unat ?s < 2 * unat min_size + unat ps"
    unfolding s using r' b(1,2) by linarith
  moreover have "unat ?s mod unat ps = 0" unfolding s by (rule b(3))
  ultimately show ?thesis by (intro exI [of _ ?s] conjI) simp_all
qed

section \<open>Addresses\<close>

lemma align_down:
  assumes "is_page_size ps"
  shows "unat (x AND NOT (ps - 1)) = unat x div unat ps * unat ps"
proof -
  obtain p where p: "p \<le> 20" "ps = 2 ^ p" "unat ps = 2 ^ p" using page_size_unat [OF assms] by metis
  have t: "unat (take_bit p x) = unat x mod 2 ^ p"
    using p(1) unsigned_take_bit_eq [of p x, where ?'a = nat] by (simp add: take_bit_eq_mod)
  have "x AND NOT (ps - 1) = x AND NOT (take_bit p x)"
    by (rule bit_eqI) (auto simp: p(2) bit_simps simp flip: mask_eq_exp_minus_1)
  also have "\<dots> = x - take_bit p x"
    by (rule disjunctive_diff [symmetric]) (simp add: bit_simps)
  finally have "unat (x AND NOT (ps - 1)) = unat x - unat (take_bit p x)"
    using t by (simp add: unat_sub word_le_nat_alt)
  also have "\<dots> = unat x div 2 ^ p * 2 ^ p" by (simp add: t minus_mod_eq_div_mult)
  finally show ?thesis by (simp add: p(3))
qed

section \<open>A mapped file\<close>

text \<open>
  A kernel whose calls all succeed; \<open>mmap\<close> places a mapping at the start of a page of the lower half of
  the address space.
\<close>

definition good_addr :: "u64 \<Rightarrow> u64 \<Rightarrow> bool" where
  "good_addr ps a \<longleftrightarrow> 0 < a \<and> a < 2 ^ 63 \<and> unat a mod unat ps = 0"

definition calls_succeed :: "u64 \<Rightarrow> u64 option list \<Rightarrow> bool" where
  "calls_succeed ps script \<longleftrightarrow> is_page_size ps \<and> (\<forall>r \<in> set script. \<exists>a. r = Some a \<and> good_addr ps a)"

definition mapped :: "MmapFile \<Rightarrow> bytes \<Rightarrow> bool" where
  "mapped m c \<longleftrightarrow> mm_fd m \<and> mm_file m = Some c \<and> length c = unat (mm_size m) \<and> 0 < mm_size m \<and> mm_size m < 2 ^ 63
     \<and> good_addr (mm_page_sz m) (mm_addr m) \<and> calls_succeed (mm_page_sz m) (mm_script m)"

lemma mm_call_good:
  assumes "calls_succeed (mm_page_sz m) (mm_script m)"
  shows "\<exists>a s. mm_call m = (Inr (Some a), m\<lparr>mm_script := s\<rparr>) \<and> good_addr (mm_page_sz m) a \<and> calls_succeed (mm_page_sz m) s"
proof (cases "mm_script m")
  case Nil
  obtain p where p: "0 < unat (mm_page_sz m)" "unat (mm_page_sz m) \<le> 2 ^ 20"
    using assms page_size_unat unfolding calls_succeed_def by metis
  then have "good_addr (mm_page_sz m) (mm_page_sz m)"
    by (simp add: good_addr_def word_less_nat_alt)
  with assms Nil show ?thesis
    by (intro exI [of _ "mm_page_sz m"] exI [of _ "[]"]) (simp add: mm_call_def)
next
  case (Cons r s)
  with assms show ?thesis by (auto simp: mm_call_def calls_succeed_def)
qed

text \<open>The file that \<open>ftruncate\<close> leaves.\<close>

definition resized :: "nat \<Rightarrow> bytes \<Rightarrow> bytes" where
  "resized n c = take n c @ replicate (n - length c) 0"

lemma length_resized [simp]: "length (resized n c) = n"
  by (simp add: resized_def)

lemma nth_resized: "i < n \<Longrightarrow> resized n c ! i = (if i < length c then c ! i else 0)"
  by (auto simp: resized_def nth_append)

lemma resized_same [simp]: "resized (length c) c = c"
  by (simp add: resized_def)

lemma ftruncate_good:
  assumes "calls_succeed (mm_page_sz m) (mm_script m)" and "mm_fd m" and "n < 2 ^ 63"
  shows "\<exists>s. sys_ftruncate n m = (Inr True, m\<lparr>mm_script := s, mm_file := Some (resized (unat n) (mm_contents m))\<rparr>)
    \<and> calls_succeed (mm_page_sz m) s"
proof -
  obtain a s where "mm_call m = (Inr (Some a), m\<lparr>mm_script := s\<rparr>)" "calls_succeed (mm_page_sz m) s"
    using mm_call_good [OF assms(1)] by blast
  with assms(2,3) show ?thesis
    by (intro exI [of _ s]) (simp add: sys_ftruncate_def bindS_def mm_contents_def resized_def not_le)
qed

lemma remap_good:
  assumes "calls_succeed (mm_page_sz m) (mm_script m)" and "mm_fd m" and "0 < n" and "n < 2 ^ 63"
  shows "\<exists>m'. remap n m = (Inr (), m') \<and> mapped m' (resized (unat n) (mm_contents m)) \<and> mm_size m' = n
    \<and> mm_durable m' = mm_durable m \<and> mm_page_sz m' = mm_page_sz m"
proof -
  let ?m = "if mm_addr m \<noteq> 0 \<and> 0 < mm_size m then m\<lparr>mm_addr := 0, mm_size := 0\<rparr> else m"
  have 0: "mm_page_sz ?m = mm_page_sz m" "mm_script ?m = mm_script m" "mm_fd ?m = mm_fd m" "mm_contents ?m = mm_contents m"
    "mm_durable ?m = mm_durable m" by (simp_all add: mm_contents_def)
  obtain s where 1: "sys_ftruncate n ?m = (Inr True, ?m\<lparr>mm_script := s, mm_file := Some (resized (unat n) (mm_contents m))\<rparr>)"
    "calls_succeed (mm_page_sz m) s"
    using ftruncate_good [of ?m n] assms 0 by metis
  let ?m1 = "?m\<lparr>mm_script := s, mm_file := Some (resized (unat n) (mm_contents m))\<rparr>"
  obtain a s' where 2: "mm_call ?m1 = (Inr (Some a), ?m1\<lparr>mm_script := s'\<rparr>)" "good_addr (mm_page_sz m) a" "calls_succeed (mm_page_sz m) s'"
    using mm_call_good [of ?m1] 1(2) 0 by auto
  let ?m2 = "?m1\<lparr>mm_script := s', mm_addr := a, mm_size := n\<rparr>"
  have "remap n m = (Inr (), ?m2)"
    using 1(1) 2(1) assms(3) by (simp add: remap_def bindS_def word_neq_0_conv)
  moreover have "mapped ?m2 (resized (unat n) (mm_contents m))"
    using 0 2(2,3) assms by (simp add: mapped_def)
  ultimately show ?thesis using 0 by (intro exI [of _ ?m2]) simp
qed

text \<open>The range that a write hands to \<open>msync\<close> starts at a page of the mapping and covers the bytes written.\<close>

lemma sync_range:
  assumes "is_page_size ps" and "good_addr ps a" and "unat offset + len < 2 ^ 63"
  defines "start \<equiv> (a + offset) AND NOT (ps - 1)"
  shows "start mod ps = 0" and "unat start - unat a \<le> unat offset"
    and "unat offset + len = (unat start - unat a) + unat (a + offset + word_of_nat len - start)"
proof -
  obtain p where P: "0 < unat ps" using page_size_unat [OF assms(1)] by metis
  from assms(2) have a: "unat a < 2 ^ 63" "unat a mod unat ps = 0" by (simp_all add: good_addr_def word_less_nat_alt)
  have ao: "unat (a + offset) = unat a + unat offset" using a(1) assms(3) by (simp add: unat_word_ariths)
  have aol: "unat (a + offset + word_of_nat len) = unat a + unat offset + len"
    using a(1) assms(3) ao by (simp add: unat_word_ariths unat_of_nat)
  have st: "unat start = (unat a + unat offset) div unat ps * unat ps"
    unfolding start_def by (simp add: align_down [OF assms(1)] ao)
  from a(2) obtain k where k: "unat a = unat ps * k" by auto
  have "unat start = unat a + unat offset div unat ps * unat ps"
    unfolding st k using P by (simp add: algebra_simps)
  moreover have "unat offset div unat ps * unat ps \<le> unat offset" by simp
  ultimately have b: "unat a \<le> unat start" "unat start \<le> unat a + unat offset" by linarith+
  then show "unat start - unat a \<le> unat offset" by linarith
  have "unat (start mod ps) = 0" by (simp add: unat_mod st)
  then show "start mod ps = 0" by (simp add: unat_eq_0)
  have "start \<le> a + offset + word_of_nat len" using b aol by (simp add: word_le_nat_alt)
  then have "unat (a + offset + word_of_nat len - start) = unat a + unat offset + len - unat start"
    using aol by (simp add: unat_sub)
  then show "unat offset + len = (unat start - unat a) + unat (a + offset + word_of_nat len - start)"
    using b by linarith
qed

lemma store_good:
  assumes "mapped m c" and "unat offset + length src \<le> length c"
  shows "\<exists>m' lo n. mm_store offset src m = (Inr (), m') \<and> mapped m' (file_put (unat offset) src c) \<and> mm_size m' = mm_size m
    \<and> mm_page_sz m' = mm_page_sz m \<and> lo \<le> unat offset \<and> unat offset + length src \<le> lo + n
    \<and> mm_durable m' = file_put lo (file_get lo n (file_put (unat offset) src c)) (mm_durable m)"
proof -
  let ?c = "file_put (unat offset) src c" and ?ps = "mm_page_sz m" and ?a = "mm_addr m"
  let ?start = "(?a + offset) AND NOT (?ps - 1)"
  let ?len = "?a + offset + word_of_nat (length src) - ?start"
  let ?lo = "unat ?start - unat ?a" and ?n = "page_end ?ps (unat ?len)"
  let ?m1 = "m\<lparr>mm_file := Some ?c\<rparr>"
  have m: "mm_file m = Some c" "length c = unat (mm_size m)" "mm_size m < 2 ^ 63" "good_addr ?ps ?a" "0 < ?a"
    "calls_succeed ?ps (mm_script m)" "is_page_size ?ps"
    using assms(1) by (auto simp: mapped_def good_addr_def calls_succeed_def)
  have bound: "unat offset + length src < 2 ^ 63" using m(2,3) assms(2) by (simp add: word_less_nat_alt)
  note r = sync_range [OF m(7,4) bound]
  obtain p where ps: "0 < unat ?ps" using page_size_unat [OF m(7)] by metis
  obtain a' s where call: "mm_call ?m1 = (Inr (Some a'), ?m1\<lparr>mm_script := s\<rparr>)" "calls_succeed ?ps s"
    using mm_call_good [of ?m1] m(6) by auto
  let ?m2 = "?m1\<lparr>mm_script := s, mm_durable := file_put ?lo (file_get ?lo ?n ?c) (mm_durable m)\<rparr>"
  have "\<not> (?a = 0 \<or> unat (mm_size m) < unat offset + length src)" using m assms(2) by simp
  then have "mm_store offset src m = (Inr (), ?m2)"
    using call(1) r(1) m(1) by (simp add: mm_store_def sys_msync_def bindS_def mm_contents_def Let_def)
  moreover have "length ?c = length c" using assms(2) by (auto simp: length_file_put max_def)
  then have "mapped ?m2 ?c" using assms(1) call(2) by (simp add: mapped_def)
  moreover have "unat offset + length src \<le> ?lo + ?n"
    unfolding r(3) using page_end_bounds(1) [OF ps, of "unat ?len"] by linarith
  ultimately show ?thesis using r(2) by (intro exI [of _ ?m2] exI [of _ ?lo] exI [of _ ?n]) simp
qed

lemma write_good:
  assumes "mapped m c" and "unat offset + length src \<le> 2 ^ 61"
  shows "\<exists>m' k lo n. mm_write offset src m = Some (Inr (), m') \<and> mapped m' (file_put (unat offset) src (resized k c))
    \<and> length c \<le> k \<and> unat offset + length src \<le> k \<and> lo \<le> unat offset \<and> unat offset + length src \<le> lo + n
    \<and> mm_durable m' = file_put lo (file_get lo n (file_put (unat offset) src (resized k c))) (mm_durable m)"
proof -
  let ?need = "offset + word_of_nat (length src)"
  have need: "unat ?need = unat offset + length src" using assms(2) by (simp add: unat_word_ariths unat_of_nat)
  have m: "calls_succeed (mm_page_sz m) (mm_script m)" "mm_fd m" "mm_contents m = c" "is_page_size (mm_page_sz m)"
    "length c = unat (mm_size m)"
    using assms(1) by (auto simp: mapped_def calls_succeed_def mm_contents_def)
  have "\<exists>m1 k. (if mm_size m < ?need then ensure_size ?need m else Some (Inr (), m)) = Some (Inr (), m1)
    \<and> mapped m1 (resized k c) \<and> length c \<le> k \<and> unat offset + length src \<le> k \<and> mm_durable m1 = mm_durable m"
  proof (cases "mm_size m < ?need")
    case False
    then have "unat offset + length src \<le> length c" using need m(5) by (simp add: not_less word_le_nat_alt)
    then show ?thesis using False assms(1) by (intro exI [of _ m] exI [of _ "length c"]) simp
  next
    case True
    obtain s where s: "grown_size (mm_page_sz m) (mm_size m) ?need = Some s" "?need \<le> s"
      "unat s < 2 * unat ?need + unat (mm_page_sz m)"
      using grown_size_returns [OF m(4) True] need assms(2) by auto
    obtain p where "unat (mm_page_sz m) \<le> 2 ^ 20" using page_size_unat [OF m(4)] by metis
    then have "s < 2 ^ 63" using s(3) need assms(2) by (simp add: word_less_nat_alt)
    moreover have "0 < s" using True s(2) by (simp add: word_less_nat_alt word_le_nat_alt)
    ultimately obtain m1 where "remap s m = (Inr (), m1)" "mapped m1 (resized (unat s) c)" "mm_durable m1 = mm_durable m"
      using remap_good [OF m(1,2)] m(3) by metis
    moreover have "length c \<le> unat s" "unat offset + length src \<le> unat s"
      using True s(2) m(5) need by (simp_all add: word_less_nat_alt word_le_nat_alt)
    ultimately show ?thesis using True s(1) by (auto simp: ensure_size_def not_le)
  qed
  then obtain m1 k where k: "(if mm_size m < ?need then ensure_size ?need m else Some (Inr (), m)) = Some (Inr (), m1)"
    "mapped m1 (resized k c)" "length c \<le> k" "unat offset + length src \<le> k" "mm_durable m1 = mm_durable m" by blast
  then show ?thesis
    using store_good [OF k(2), of offset src] by (auto simp: mm_write_def Let_def)
qed

section \<open>The file as an array\<close>

text \<open>The abstract view: an array of bytes, all zero at first, without an end.\<close>

definition arr_write :: "nat \<Rightarrow> bytes \<Rightarrow> (nat \<Rightarrow> byte) \<Rightarrow> nat \<Rightarrow> byte" where
  "arr_write pos bs a i = (if pos \<le> i \<and> i < pos + length bs then bs ! (i - pos) else a i)"

definition arr_writes :: "(u64 \<times> bytes) list \<Rightarrow> (nat \<Rightarrow> byte) \<Rightarrow> nat \<Rightarrow> byte" where
  "arr_writes ws a = fold (\<lambda>(offset, bs). arr_write (unat offset) bs) ws a"

definition written :: "(u64 \<times> bytes) list \<Rightarrow> nat \<Rightarrow> bool" where
  "written ws i \<longleftrightarrow> (\<exists>(offset, bs) \<in> set ws. unat offset \<le> i \<and> i < unat offset + length bs)"

fun mm_writes :: "(u64 \<times> bytes) list \<Rightarrow> MmapFile \<Rightarrow> (unit result \<times> MmapFile) option" where
  "mm_writes [] m = Some (Inr (), m)"
| "mm_writes ((offset, bs) # ws) m = (case mm_write offset bs m of
       None \<Rightarrow> None
     | Some (Inl e, m') \<Rightarrow> Some (Inl e, m')
     | Some (Inr _, m') \<Rightarrow> mm_writes ws m')"

definition array_rel :: "MmapFile \<Rightarrow> (nat \<Rightarrow> byte) \<Rightarrow> (nat \<Rightarrow> bool) \<Rightarrow> bool" where
  "array_rel m a W \<longleftrightarrow> (\<exists>c. mapped m c \<and> (\<forall>i < length c. c ! i = a i) \<and> (\<forall>i \<ge> length c. a i = 0)
     \<and> (\<forall>i. W i \<longrightarrow> i < length c \<and> i < length (mm_durable m) \<and> mm_durable m ! i = a i))"

lemma write_array:
  assumes "array_rel m a W" and "unat offset + length src \<le> 2 ^ 61"
  shows "\<exists>m'. mm_write offset src m = Some (Inr (), m')
    \<and> array_rel m' (arr_write (unat offset) src a) (\<lambda>i. W i \<or> unat offset \<le> i \<and> i < unat offset + length src)"
proof -
  from assms(1) obtain c where c: "mapped m c" "\<forall>i < length c. c ! i = a i" "\<forall>i \<ge> length c. a i = 0"
    "\<forall>i. W i \<longrightarrow> i < length c \<and> i < length (mm_durable m) \<and> mm_durable m ! i = a i"
    by (auto simp: array_rel_def)
  obtain m' k lo n where w: "mm_write offset src m = Some (Inr (), m')"
    "mapped m' (file_put (unat offset) src (resized k c))" "length c \<le> k" "unat offset + length src \<le> k"
    "lo \<le> unat offset" "unat offset + length src \<le> lo + n"
    "mm_durable m' = file_put lo (file_get lo n (file_put (unat offset) src (resized k c))) (mm_durable m)"
    using write_good [OF c(1) assms(2)] by blast
  let ?c = "file_put (unat offset) src (resized k c)" and ?a = "arr_write (unat offset) src a"
  have len: "length ?c = k" using w(4) by (auto simp: length_file_put max_def)
  have val: "?c ! i = ?a i" if "i < k" for i
    using that c(2,3) len by (auto simp: nth_file_put nth_resized arr_write_def)
  have dur: "i < length (mm_durable m') \<and> mm_durable m' ! i = ?a i"
    if "W i \<or> unat offset \<le> i \<and> i < unat offset + length src" for i
  proof -
    let ?bs = "file_get lo n ?c"
    have i: "i < k" using that c(4) w(3,4) by force
    show ?thesis
    proof (cases "lo \<le> i \<and> i < lo + n")
      case True
      then have "i < lo + length ?bs" "?bs ! (i - lo) = ?c ! i" using i len by (auto simp: file_get_def)
      then show ?thesis using True i val [OF i] by (auto simp: w(7) nth_file_put length_file_put)
    next
      case False
      then have "i < length (mm_durable m)" "mm_durable m ! i = a i" "?a i = a i"
        using that c(4) w(5,6) by (auto simp: arr_write_def)
      moreover have "\<not> (lo \<le> i \<and> i < lo + length ?bs)" using False by (auto simp: file_get_def)
      ultimately show ?thesis by (auto simp: w(7) nth_file_put length_file_put)
    qed
  qed
  have "array_rel m' ?a (\<lambda>i. W i \<or> unat offset \<le> i \<and> i < unat offset + length src)"
    unfolding array_rel_def using w(2,3,4) len val dur c(3,4)
    by (intro exI [of _ ?c]) (auto simp: arr_write_def)
  with w(1) show ?thesis by blast
qed

lemma writes_array:
  assumes "array_rel m a W" and "\<forall>(offset, bs) \<in> set ws. unat offset + length bs \<le> 2 ^ 61"
  shows "\<exists>m'. mm_writes ws m = Some (Inr (), m') \<and> array_rel m' (arr_writes ws a) (\<lambda>i. W i \<or> written ws i)"
  using assms
proof (induction ws arbitrary: m a W)
  case Nil
  then show ?case by (simp add: arr_writes_def written_def)
next
  case (Cons w ws)
  obtain offset src where w: "w = (offset, src)" by fastforce
  obtain m1 where m1: "mm_write offset src m = Some (Inr (), m1)"
    "array_rel m1 (arr_write (unat offset) src a) (\<lambda>i. W i \<or> unat offset \<le> i \<and> i < unat offset + length src)"
    using write_array [OF Cons.prems(1), of offset src] Cons.prems(2) w by auto
  obtain m2 where "mm_writes ws m1 = Some (Inr (), m2)"
    "array_rel m2 (arr_writes ws (arr_write (unat offset) src a))
       (\<lambda>i. (W i \<or> unat offset \<le> i \<and> i < unat offset + length src) \<or> written ws i)"
    using Cons.IH [OF m1(2)] Cons.prems(2) by auto
  moreover have "(\<lambda>i. (W i \<or> unat offset \<le> i \<and> i < unat offset + length src) \<or> written ws i) = (\<lambda>i. W i \<or> written (w # ws) i)"
    by (auto simp: fun_eq_iff written_def w)
  ultimately show ?case using m1(1) by (simp add: w arr_writes_def)
qed

lemma create_array:
  assumes "calls_succeed ps script" and "unat initial_size \<le> 2 ^ 61"
  shows "\<exists>m. mm_open True initial_size (mmap_file f ps script) = (Inr (), m) \<and> array_rel m (\<lambda>_. 0) (\<lambda>_. False)"
proof -
  let ?m = "mmap_file f ps script"
  obtain a s where call: "mm_call ?m = (Inr (Some a), ?m\<lparr>mm_script := s\<rparr>)" "calls_succeed ps s"
    using mm_call_good [of ?m] assms(1) by (auto simp: mmap_file_def)
  let ?m1 = "?m\<lparr>mm_script := s, mm_fd := True, mm_file := Some []\<rparr>"
  have open_eq: "mm_open True initial_size ?m = (if 0 < initial_size
      then bindS (sys_ftruncate initial_size) (\<lambda>ok. if \<not> ok then throwS IOError else remap initial_size) ?m1
      else remap 1 ?m1)"
    using call(1) by (simp add: mm_open_def mm_create_def bindS_def)
  have fresh: "array_rel m (\<lambda>_. 0) (\<lambda>_. False)" if "mapped m (resized k (replicate j 0))" for m k j
    using that by (auto simp: array_rel_def nth_resized intro!: exI [of _ "resized k (replicate j 0)"])
  show ?thesis
  proof (cases "0 < initial_size")
    case True
    have lt: "initial_size < 2 ^ 63" using assms(2) by (simp add: word_less_nat_alt)
    obtain s' where tr: "sys_ftruncate initial_size ?m1
        = (Inr True, ?m1\<lparr>mm_script := s', mm_file := Some (resized (unat initial_size) [])\<rparr>)" "calls_succeed ps s'"
      using ftruncate_good [of ?m1 initial_size] call(2) lt by (auto simp: mm_contents_def mmap_file_def)
    let ?m2 = "?m1\<lparr>mm_script := s', mm_file := Some (resized (unat initial_size) [])\<rparr>"
    obtain m' where "remap initial_size ?m2 = (Inr (), m')"
      "mapped m' (resized (unat initial_size) (replicate (unat initial_size) 0))"
      using remap_good [of ?m2 initial_size] tr(2) True lt by (auto simp: mm_contents_def mmap_file_def resized_def)
    with True open_eq tr(1) fresh show ?thesis by (auto simp: bindS_def)
  next
    case False
    obtain m' where "remap 1 ?m1 = (Inr (), m')" "mapped m' (resized 1 (replicate 0 0))"
      using remap_good [of ?m1 1] call(2) by (auto simp: mm_contents_def mmap_file_def)
    with False open_eq show ?thesis using fresh [of m' 1 0] by simp
  qed
qed

lemma read_mapped:
  assumes "mapped m c" and "unat offset + unat len < 2 ^ 64"
  shows "mm_read offset len m =
    (if unat offset + unat len \<le> length c then Inr (file_get (unat offset) (unat len) c) else Inl IOError, m)"
proof -
  have m: "mm_contents m = c" "mm_addr m \<noteq> 0" "length c = unat (mm_size m)"
    using assms(1) by (auto simp: mapped_def mm_contents_def good_addr_def)
  have "unat (offset + len) = unat offset + unat len" using assms(2) by (simp add: unat_word_ariths)
  then have "mm_size m < offset + len \<longleftrightarrow> length c < unat offset + unat len" by (simp add: word_less_nat_alt m(3))
  then show ?thesis using m by (auto simp: mm_read_def mem_read_def file_get_def)
qed

text \<open>Reads inside the mapping give the bytes of the array, reads outside throw.\<close>

definition reads_as :: "MmapFile \<Rightarrow> (nat \<Rightarrow> byte) \<Rightarrow> bool" where
  "reads_as m a \<longleftrightarrow> (\<forall>offset len. unat offset + unat len < 2 ^ 64 \<longrightarrow>
     mm_read offset len m = (if unat offset + unat len \<le> unat (mm_size m)
       then Inr (map a [unat offset..<unat offset + unat len]) else Inl IOError, m))"

lemma array_reads:
  assumes "array_rel m a W"
  shows "reads_as m a"
proof -
  from assms obtain c where c: "mapped m c" "\<forall>i < length c. c ! i = a i" by (auto simp: array_rel_def)
  have len: "length c = unat (mm_size m)" using c(1) by (simp add: mapped_def)
  have "file_get pos n c = map a [pos..<pos + n]" if "pos + n \<le> length c" for pos n
    using that c(2) by (intro nth_equalityI) (auto simp: file_get_def)
  then show ?thesis using read_mapped [OF c(1)] by (simp add: reads_as_def len)
qed

lemma reopen_array:
  assumes "array_rel m a W"
  shows "\<exists>m'. bindS mm_close (\<lambda>_. mm_open False 0) m = (Inr (), m') \<and> array_rel m' a W \<and> mm_size m' = mm_size m"
proof -
  from assms obtain c where c: "mapped m c" "\<forall>i < length c. c ! i = a i" "\<forall>i \<ge> length c. a i = 0"
    "\<forall>i. W i \<longrightarrow> i < length c \<and> i < length (mm_durable m) \<and> mm_durable m ! i = a i" by (auto simp: array_rel_def)
  have m: "mm_addr m \<noteq> 0" "mm_file m = Some c" "calls_succeed (mm_page_sz m) (mm_script m)" "length c = unat (mm_size m)"
    "0 < mm_size m" "mm_size m < 2 ^ 63"
    using c(1) by (auto simp: mapped_def good_addr_def)
  let ?m = "m\<lparr>mm_addr := 0, mm_size := 0, mm_fd := False\<rparr>"
  obtain a1 s1 where 1: "mm_call ?m = (Inr (Some a1), ?m\<lparr>mm_script := s1\<rparr>)" "calls_succeed (mm_page_sz m) s1"
    using mm_call_good [of ?m] m(3) by auto
  let ?m1 = "?m\<lparr>mm_script := s1\<rparr>"
  obtain a2 s2 where 2: "mm_call ?m1 = (Inr (Some a2), ?m1\<lparr>mm_script := s2\<rparr>)" "calls_succeed (mm_page_sz m) s2"
    using mm_call_good [of ?m1] 1(2) by auto
  let ?m2 = "?m1\<lparr>mm_script := s2, mm_fd := True\<rparr>"
  obtain m' where 3: "remap (mm_size m) ?m2 = (Inr (), m')" "mapped m' (resized (unat (mm_size m)) c)"
    "mm_size m' = mm_size m" "mm_durable m' = mm_durable m"
    using remap_good [of ?m2 "mm_size m"] 2(2) m by (auto simp: mm_contents_def)
  have sz: "word_of_nat (length c) = mm_size m" using m(4) by simp
  have "bindS mm_close (\<lambda>_. mm_open False 0) m = (Inr (), m')"
    using 1(1) 2(1) 3(1) m(1,2,5) sz
    by (simp add: bindS_def mm_close_def mm_is_open_def mm_open_def mm_open_existing_def mm_contents_def)
  moreover have "resized (unat (mm_size m)) c = c" using m(4) resized_same by metis
  then have "array_rel m' a W"
    unfolding array_rel_def using 3(2,4) c(2-4) by (intro exI [of _ c]) simp
  ultimately show ?thesis using 3(3) by blast
qed

lemma grown_size_nonzero:
  "0 < sz \<Longrightarrow> grown_size ps sz min_size = map_option (\<lambda>n. (n + ps - 1) div ps * ps) (grow_loop sz min_size)"
  by (auto simp: grown_size_def split: option.split)

lemma grown_size_some:
  assumes "0 < sz" and "unat min_size \<le> 2 ^ 63"
  shows "\<exists>s. grown_size ps sz min_size = Some s"
  using grow_loop_returns [OF assms] assms(1) by (auto simp: grown_size_nonzero)

text \<open>The new size that is too large for \<open>ftruncate\<close>, and the one whose rounding wraps around.\<close>

lemma page_end_fits:
  assumes "unat ps = 2 ^ p" and "p \<le> 20" and "page_end ps r < 2 ^ 64"
  shows "r + unat ps \<le> 2 ^ 64"
proof (rule ccontr)
  assume "\<not> ?thesis"
  then have "2 ^ 64 \<le> r + unat ps - 1" by simp
  moreover have "(2::nat) ^ 64 = 2 ^ (64 - p) * unat ps" using assms(1,2) by (simp flip: power_add)
  ultimately have "2 ^ (64 - p) \<le> (r + unat ps - 1) div unat ps" using assms(1) by (simp add: less_eq_div_iff_mult_less_eq)
  then have "2 ^ (64 - p) * unat ps \<le> page_end ps r" unfolding page_end_def by (rule mult_le_mono1)
  then show False using assms \<open>(2::nat) ^ 64 = 2 ^ (64 - p) * unat ps\<close> by simp
qed

lemma round_up_wraps:
  assumes "0 < unat ps" and "unat ps \<le> 2 ^ 20" and "2 ^ 64 \<le> page_end ps (unat r)"
  shows "(r + ps - 1) div ps * ps = (0 :: u64)"
proof -
  have "page_end ps (unat r) \<le> unat r + unat ps - 1" unfolding page_end_def by simp
  then have big: "2 ^ 64 \<le> unat r + (unat ps - 1)" using assms(1,3) by linarith
  have "unat (ps - 1) = unat ps - 1" using assms(1) by (simp add: unat_sub_if_size)
  then have "unat (r + (ps - 1)) = (unat r + (unat ps - 1)) mod 2 ^ 64" by (simp add: unat_word_ariths)
  also have "\<dots> = unat r + (unat ps - 1) - 2 ^ 64"
    using big assms(2) unsigned_less [of r, where ?'a = nat] by (simp add: le_mod_geq)
  finally have "unat (r + (ps - 1)) < unat ps" using assms(1) unsigned_less [of r, where ?'a = nat] by simp
  then have "(r + (ps - 1)) div ps = 0" by (simp add: word_unat_eq_iff [of _ 0] unat_div)
  then show ?thesis by (simp add: algebra_simps)
qed

lemma remap_refused:
  assumes "calls_succeed (mm_page_sz m) (mm_script m)" and "mm_fd m" and "0 < mm_size m" and "mm_addr m \<noteq> 0" and "2 ^ 63 \<le> n"
  shows "\<exists>m'. remap n m = (Inl IOError, m') \<and> \<not> mm_is_open m' \<and> mm_file m' = mm_file m"
proof -
  obtain a s where "mm_call (m\<lparr>mm_addr := 0, mm_size := 0\<rparr>) = (Inr (Some a), m\<lparr>mm_addr := 0, mm_size := 0, mm_script := s\<rparr>)"
    using mm_call_good [of "m\<lparr>mm_addr := 0, mm_size := 0\<rparr>"] assms(1) by auto
  then show ?thesis using assms(2-5) by (simp add: remap_def sys_ftruncate_def bindS_def mm_is_open_def)
qed

lemma remap_zero:
  assumes "calls_succeed (mm_page_sz m) (mm_script m)" and "mm_fd m" and "0 < mm_size m" and "mm_addr m \<noteq> 0"
  shows "\<exists>m'. remap 0 m = (Inr (), m') \<and> \<not> mm_is_open m' \<and> mm_file m' = Some []"
proof -
  obtain a s where "mm_call (m\<lparr>mm_addr := 0, mm_size := 0\<rparr>) = (Inr (Some a), m\<lparr>mm_addr := 0, mm_size := 0, mm_script := s\<rparr>)"
    using mm_call_good [of "m\<lparr>mm_addr := 0, mm_size := 0\<rparr>"] assms(1) by auto
  then show ?thesis using assms(2-4) by (simp add: remap_def sys_ftruncate_def bindS_def mm_is_open_def)
qed

section \<open>Properties\<close>

text \<open>
  C20: a mapped file behaves like an array of bytes that starts out zero. On a kernel whose calls succeed, creating
  the file and writing any pieces that end within the first \<open>2 ^ 61\<close> bytes (also the bound of the initial size), however the mapping grows and wherever it is placed, succeeds; every read inside
  the mapping then returns the bytes of the array, a read outside throws; every piece written lies inside
  the mapping and has reached the disk; and closing and opening the file again gives the same size and
  the same bytes.
\<close>

theorem mmap_file_is_array:
  assumes "calls_succeed ps script" and "unat initial_size \<le> 2 ^ 61"
    and "\<forall>(offset, bs) \<in> set ws. unat offset + length bs \<le> 2 ^ 61"
  shows "\<exists>m m1 m2. mm_open True initial_size (mmap_file f ps script) = (Inr (), m) \<and> mm_writes ws m = Some (Inr (), m1)
    \<and> reads_as m1 (arr_writes ws (\<lambda>_. 0))
    \<and> (\<forall>i. written ws i \<longrightarrow> i < unat (mm_size m1) \<and> i < length (mm_durable m1) \<and> mm_durable m1 ! i = arr_writes ws (\<lambda>_. 0) i)
    \<and> bindS mm_close (\<lambda>_. mm_open False 0) m1 = (Inr (), m2) \<and> mm_size m2 = mm_size m1 \<and> reads_as m2 (arr_writes ws (\<lambda>_. 0))"
proof -
  obtain m where m: "mm_open True initial_size (mmap_file f ps script) = (Inr (), m)" "array_rel m (\<lambda>_. 0) (\<lambda>_. False)"
    using create_array [OF assms(1,2)] by blast
  obtain m1 where m1: "mm_writes ws m = Some (Inr (), m1)" "array_rel m1 (arr_writes ws (\<lambda>_. 0)) (written ws)"
    using writes_array [OF m(2) assms(3)] by auto
  moreover obtain m2 where "bindS mm_close (\<lambda>_. mm_open False 0) m1 = (Inr (), m2)" "array_rel m2 (arr_writes ws (\<lambda>_. 0)) (written ws)"
    "mm_size m2 = mm_size m1"
    using reopen_array [OF m1(2)] by blast
  moreover have "\<forall>i. written ws i \<longrightarrow> i < unat (mm_size m1) \<and> i < length (mm_durable m1) \<and> mm_durable m1 ! i = arr_writes ws (\<lambda>_. 0) i"
    using m1(2) by (auto simp: array_rel_def mapped_def)
  ultimately show ?thesis using m(1) array_reads by blast
qed

theorem mmap_file_is_array_witness:
  "\<exists>m m1. mm_open True 0 (mmap_file None 4096 [Some 4096, Some 4096, Some 8192]) = (Inr (), m)
     \<and> mm_writes [(6, [1, 2, 3]), (4, [7, 8, 9])] m = Some (Inr (), m1) \<and> mm_read 4 5 m1 = (Inr [7, 8, 9, 2, 3], m1)"
proof -
  let ?ws = "[(6, [1, 2, 3]), (4, [7, 8, 9])] :: (u64 \<times> bytes) list"
  have ps: "calls_succeed 4096 [Some 4096, Some 4096, Some 8192]"
    by (auto simp: calls_succeed_def is_page_size_def good_addr_def intro!: exI [of _ 12])
  have small: "unat (0 :: u64) \<le> 2 ^ 61" "\<forall>(offset, bs) \<in> set ?ws. unat offset + length bs \<le> 2 ^ 61" by simp_all
  obtain m m1 where m: "mm_open True 0 (mmap_file None 4096 [Some 4096, Some 4096, Some 8192]) = (Inr (), m)"
    "mm_writes ?ws m = Some (Inr (), m1)" "reads_as m1 (arr_writes ?ws (\<lambda>_. 0))"
    "\<forall>i. written ?ws i \<longrightarrow> i < unat (mm_size m1)"
    using mmap_file_is_array [OF ps small, of None] by blast
  have "written ?ws 8" by (simp add: written_def)
  with m(4) have "9 \<le> unat (mm_size m1)" by fastforce
  then have "mm_read 4 5 m1 = (Inr (map (arr_writes ?ws (\<lambda>_. 0)) [4..<9]), m1)"
    using m(3) [unfolded reads_as_def, THEN spec [of _ 4], THEN spec [of _ 5]] by simp
  also have "map (arr_writes ?ws (\<lambda>_. 0)) [4..<9] = [7, 8, 9, 2, 3]"
    by (simp add: arr_writes_def arr_write_def upt_rec)
  finally show ?thesis using m(1,2) by blast
qed

text \<open>
  C32: what \<open>ensure_size\<close> does with a request that makes the mapping grow, on a kernel whose calls succeed. The new size is the first doubling of the old one that is large enough, rounded
  up to whole pages. A request of at most \<open>2 ^ 61\<close> bytes gives a new size below \<open>2 ^ 63\<close>; whenever that is so, the mapping has the new size, with the old bytes kept and
  the new ones zero. For a request of up to \<open>2 ^ 63\<close> bytes it always returns; when the new size is \<open>2 ^ 63\<close> or more, \<open>ftruncate\<close> refuses it, \<open>IOError\<close> is thrown and the old mapping is
  gone, and when the rounding wraps around, the file is emptied. Beyond that, from a size that is a power of two, the doubling wraps around to zero and the loop never ends.
\<close>

theorem ensure_size_terminates:
  assumes "mapped m c" and "mm_size m < min_size" and "n = page_end (mm_page_sz m) (first_double (unat (mm_size m)) (unat min_size))"
  shows "(unat min_size \<le> 2 ^ 61 \<longrightarrow> n < 2 ^ 63)
    \<and> (unat min_size \<le> 2 ^ 63 \<and> n < 2 ^ 63 \<longrightarrow>
        (\<exists>m'. ensure_size min_size m = Some (Inr (), m') \<and> unat (mm_size m') = n \<and> mapped m' (c @ replicate (n - length c) 0)))
    \<and> (unat min_size \<le> 2 ^ 63 \<and> 2 ^ 63 \<le> n \<and> n < 2 ^ 64 \<longrightarrow>
        (\<exists>m'. ensure_size min_size m = Some (Inl IOError, m') \<and> \<not> mm_is_open m' \<and> mm_file m' = Some c))
    \<and> (unat min_size \<le> 2 ^ 63 \<and> 2 ^ 64 \<le> n \<longrightarrow> (\<exists>m'. ensure_size min_size m = Some (Inr (), m') \<and> \<not> mm_is_open m' \<and> mm_file m' = Some []))
    \<and> (2 ^ 63 < min_size \<and> (\<exists>k < 63. mm_size m = 2 ^ k) \<longrightarrow> ensure_size min_size m = None)"
proof -
  have m: "calls_succeed (mm_page_sz m) (mm_script m)" "mm_fd m" "mm_contents m = c" "is_page_size (mm_page_sz m)" "length c = unat (mm_size m)"
    "0 < mm_size m" "mm_size m < 2 ^ 63" "mm_addr m \<noteq> 0" "mm_file m = Some c"
    using assms(1) by (auto simp: mapped_def calls_succeed_def mm_contents_def good_addr_def)
  obtain p where ps: "0 < unat (mm_page_sz m)" "unat (mm_page_sz m) \<le> 2 ^ 20" "unat (mm_page_sz m) = 2 ^ p" "p \<le> 20"
    using page_size_unat [OF m(4)] by metis
  have sz: "0 < unat (mm_size m)" "unat (mm_size m) < unat min_size" using m(6) assms(2) by (simp_all add: word_less_nat_alt)
  note fd = conjunct1 [OF first_double_bounds [OF sz]] conjunct1 [OF conjunct2 [OF first_double_bounds [OF sz]]] conjunct2 [OF conjunct2 [OF first_double_bounds [OF sz]]]
    and pe = page_end_bounds [OF ps(1), of "first_double (unat (mm_size m)) (unat min_size)", folded assms(3)]
  let ?s = "\<lambda>r. (r + mm_page_sz m - 1) div mm_page_sz m * mm_page_sz m"
  have grown: "\<exists>r. ensure_size min_size m = Some (remap (?s r) m) \<and> unat r = first_double (unat (mm_size m)) (unat min_size)" if "unat min_size \<le> 2 ^ 63"
    using grow_loop_first [OF m(6) that] m(6) assms(2) by (auto simp: ensure_size_def grown_size_nonzero not_le)
  have fits: "unat r + unat (mm_page_sz m) \<le> 2 ^ 64" if "unat r = first_double (unat (mm_size m)) (unat min_size)" "n < 2 ^ 64" for r
    by (rule page_end_fits [OF ps(3,4)]) (use that assms(3) in simp)
  have small: "unat min_size \<le> 2 ^ 61 \<Longrightarrow> n < 2 ^ 63" using fd(3) pe(2) ps(2) by simp
  moreover have "\<exists>m'. ensure_size min_size m = Some (Inr (), m') \<and> unat (mm_size m') = n \<and> mapped m' (c @ replicate (n - length c) 0)"
    if asm: "unat min_size \<le> 2 ^ 63 \<and> n < 2 ^ 63"
  proof -
    obtain r where r: "ensure_size min_size m = Some (remap (?s r) m)" "unat r = first_double (unat (mm_size m)) (unat min_size)" using grown asm by blast
    then have s: "unat (?s r) = n" using round_up_unat [OF ps(1) fits [OF r(2)]] asm assms(3) by simp
    then have "0 < ?s r" "?s r < 2 ^ 63" using fd(2) pe(1) sz(1) asm by (simp_all add: word_less_nat_alt)
    then obtain m' where "remap (?s r) m = (Inr (), m')" "mapped m' (resized n c)" "mm_size m' = ?s r"
      using remap_good [OF m(1,2), of "?s r"] m(3) s by metis
    moreover have "resized n c = c @ replicate (n - length c) 0" using fd(2) pe(1) m(5) by (simp add: resized_def)
    ultimately show ?thesis using r(1) s by auto
  qed
  moreover have "\<exists>m'. ensure_size min_size m = Some (Inl IOError, m') \<and> \<not> mm_is_open m' \<and> mm_file m' = Some c"
    if asm: "unat min_size \<le> 2 ^ 63 \<and> 2 ^ 63 \<le> n \<and> n < 2 ^ 64"
  proof -
    obtain r where r: "ensure_size min_size m = Some (remap (?s r) m)" "unat r = first_double (unat (mm_size m)) (unat min_size)" using grown asm by blast
    then have "2 ^ 63 \<le> ?s r" using round_up_unat [OF ps(1) fits [OF r(2)]] asm assms(3) by (simp add: word_le_nat_alt)
    then show ?thesis using remap_refused [OF m(1,2,6,8)] m(9) r(1) by fastforce
  qed
  moreover have "\<exists>m'. ensure_size min_size m = Some (Inr (), m') \<and> \<not> mm_is_open m' \<and> mm_file m' = Some []" if asm: "unat min_size \<le> 2 ^ 63 \<and> 2 ^ 64 \<le> n"
  proof -
    obtain r where r: "ensure_size min_size m = Some (remap (?s r) m)" "unat r = first_double (unat (mm_size m)) (unat min_size)" using grown asm by blast
    have "?s r = 0" by (rule round_up_wraps [OF ps(1,2)]) (use r(2) asm assms(3) in simp)
    then show ?thesis using remap_zero [OF m(1,2,6,8)] r(1) by fastforce
  qed
  moreover have "ensure_size min_size m = None" if big: "2 ^ 63 < min_size \<and> (\<exists>k < 63. mm_size m = 2 ^ k)"
  proof -
    obtain k where k: "k < 63" "mm_size m = 2 ^ k" using big by blast
    have "grow_loop (mm_size m) min_size = None" using big k by (intro grow_loop_diverges) (auto intro!: exI [of _ k])
    then show ?thesis using m(6) assms(2) by (auto simp: ensure_size_def grown_size_nonzero not_le)
  qed
  ultimately show ?thesis by blast
qed

theorem ensure_size_terminates_witness:
  "let c = [5, 6, 7, 8];
       m = \<lparr>mm_fd = True, mm_addr = 4096, mm_size = 4, mm_file = Some c, mm_durable = [], mm_page_sz = 4, mm_script = []\<rparr>
   in (\<exists>m'. ensure_size 9 m = Some (Inr (), m') \<and> unat (mm_size m') = 16 \<and> mapped m' (c @ replicate 12 0))
     \<and> (\<exists>m'. ensure_size (2 ^ 63) m = Some (Inl IOError, m') \<and> \<not> mm_is_open m' \<and> mm_file m' = Some c)
     \<and> ensure_size (2 ^ 63 + 1) m = None"
proof -
  let ?c = "[5, 6, 7, 8] :: bytes"
  let ?m = "\<lparr>mm_fd = True, mm_addr = 4096, mm_size = 4, mm_file = Some ?c, mm_durable = [], mm_page_sz = 4, mm_script = []\<rparr>"
  have m: "mapped ?m ?c"
    by (auto simp: mapped_def good_addr_def calls_succeed_def is_page_size_def intro!: exI [of _ 2])
  have lt: "mm_size ?m < 9" "mm_size ?m < 2 ^ 63" "mm_size ?m < 2 ^ 63 + 1" by simp_all
  have n: "16 = page_end (mm_page_sz ?m) (first_double (unat (mm_size ?m)) (unat (9 :: u64)))"
    by (simp add: first_double_step first_double_enough page_end_def)
  have n': "2 ^ 63 = page_end (mm_page_sz ?m) (first_double (unat (mm_size ?m)) (unat (2 ^ 63 :: u64)))"
    by (simp add: first_double_step first_double_enough page_end_def)
  have "\<exists>m'. ensure_size 9 ?m = Some (Inr (), m') \<and> unat (mm_size m') = 16 \<and> mapped m' (?c @ replicate (16 - length ?c) 0)"
    by (rule ensure_size_terminates [OF m lt(1) n, THEN conjunct2, THEN conjunct1, THEN mp]) simp
  moreover have "\<exists>m'. ensure_size (2 ^ 63) ?m = Some (Inl IOError, m') \<and> \<not> mm_is_open m' \<and> mm_file m' = Some ?c"
    by (rule ensure_size_terminates [OF m lt(2) n', THEN conjunct2, THEN conjunct2, THEN conjunct1, THEN mp]) simp
  moreover have "ensure_size (2 ^ 63 + 1) ?m = None"
    by (rule ensure_size_terminates [OF m lt(3) refl, THEN conjunct2, THEN conjunct2, THEN conjunct2, THEN conjunct2, THEN mp]) (auto intro: exI [of _ 2])
  moreover have "16 - length ?c = 12" by simp
  ultimately show ?thesis by (simp only: Let_def)
qed

text \<open>
  A growth that fails loses the mapping and the descriptor. When \<open>ftruncate\<close> refuses the new size, \<open>ensure_size\<close>
  throws \<open>IOError\<close> with the old mapping gone: the object counts as closed although its descriptor is
  open, so \<open>close\<close> and the destructor do nothing and the descriptor is never closed. The file keeps its bytes, but no read succeeds any more.
\<close>

theorem failed_growth_leaks:
  assumes "mapped m c" and "mm_size m < min_size" and "unat min_size \<le> 2 ^ 63"
  shows "\<exists>m'. ensure_size min_size (m\<lparr>mm_script := None # s\<rparr>) = Some (Inl IOError, m')
    \<and> \<not> mm_is_open m' \<and> mm_fd m' \<and> mm_close m' = (Inr (), m') \<and> mm_destroy m' = (Inr (), m') \<and> mm_file m' = Some c
    \<and> (\<forall>offset len. \<exists>e. mm_read offset len m' = (Inl e, m'))"
proof -
  have m: "mm_fd m" "mm_file m = Some c" "0 < mm_size m" "mm_addr m \<noteq> 0"
    using assms(1) by (auto simp: mapped_def good_addr_def)
  let ?m = "m\<lparr>mm_script := s, mm_addr := 0, mm_size := 0\<rparr>"
  obtain r where r: "grown_size (mm_page_sz m) (mm_size m) min_size = Some r"
    using grown_size_some [OF m(3) assms(3)] by blast
  have "remap r (m\<lparr>mm_script := None # s\<rparr>) = (Inl IOError, ?m)"
    using m(3,4) by (simp add: remap_def sys_ftruncate_def mm_call_def bindS_def)
  then have "ensure_size min_size (m\<lparr>mm_script := None # s\<rparr>) = Some (Inl IOError, ?m)"
    using r assms(2) by (simp add: ensure_size_def not_le)
  then show ?thesis using m
    by (intro exI [of _ ?m]) (simp add: mm_is_open_def mm_close_def mm_destroy_def mm_read_def)
qed

theorem failed_growth_leaks_witness:
  "let m = \<lparr>mm_fd = True, mm_addr = 4096, mm_size = 2, mm_file = Some [5, 6], mm_durable = [], mm_page_sz = 4, mm_script = [None]\<rparr>
   in \<exists>m'. ensure_size 9 m = Some (Inl IOError, m') \<and> \<not> mm_is_open m' \<and> mm_fd m' \<and> mm_destroy m' = (Inr (), m')"
proof -
  let ?m = "\<lparr>mm_fd = True, mm_addr = 4096, mm_size = 2, mm_file = Some [5, 6], mm_durable = [], mm_page_sz = 4, mm_script = []\<rparr>"
  have "mapped ?m [5, 6]"
    by (auto simp: mapped_def good_addr_def calls_succeed_def is_page_size_def intro!: exI [of _ 2])
  then show ?thesis using failed_growth_leaks [of ?m "[5, 6]" 9 "[]"] by (auto simp: Let_def)
qed

text \<open>
  C33: the bounds check of \<open>read\<close> is exact unless it overflows. When \<open>offset + len\<close> fits into 64 bits, a read returns
  the bytes of the file or, outside the mapping, throws \<open>IOError\<close>. When the sum wraps around to
  something inside the mapping, the check passes and the copy runs outside the mapping.
\<close>

theorem read_bounds:
  assumes "mapped m c"
  shows "fst (mm_read offset len m) =
    (if unat offset + unat len < 2 ^ 64
     then if unat offset + unat len \<le> length c then Inr (take (unat len) (drop (unat offset) c)) else Inl IOError
     else if unat offset + unat len - 2 ^ 64 \<le> length c then Inl UndefinedBehaviour else Inl IOError)"
proof (cases "unat offset + unat len < 2 ^ 64")
  case True
  then show ?thesis using read_mapped [OF assms True] by (simp add: file_get_def)
next
  case False
  have c: "length c = unat (mm_size m)" "length c < 2 ^ 63" using assms by (auto simp: mapped_def word_less_nat_alt)
  have "unat offset < 2 ^ 64" "unat len < 2 ^ 64" using unsigned_less [of offset, where ?'a = nat] unsigned_less [of len, where ?'a = nat] by simp_all
  then have "unat (offset + len) = unat offset + unat len - 2 ^ 64"
    using False by (simp add: unat_word_ariths mod_if)
  then have "mm_size m < offset + len \<longleftrightarrow> length c < unat offset + unat len - 2 ^ 64" by (simp add: word_less_nat_alt c(1))
  then show ?thesis using False c by (auto simp: mm_read_def)
qed

theorem read_bounds_witness:
  "let m = \<lparr>mm_fd = True, mm_addr = 4096, mm_size = 2, mm_file = Some [5, 6], mm_durable = [], mm_page_sz = 4, mm_script = []\<rparr>
   in fst (mm_read 1 1 m) = Inr [6] \<and> fst (mm_read 1 2 m) = Inl IOError \<and> fst (mm_read 18446744073709551615 2 m) = Inl UndefinedBehaviour"
proof -
  let ?m = "\<lparr>mm_fd = True, mm_addr = 4096, mm_size = 2, mm_file = Some [5, 6], mm_durable = [], mm_page_sz = 4, mm_script = []\<rparr>"
  have "mapped ?m [5, 6]"
    by (auto simp: mapped_def good_addr_def calls_succeed_def is_page_size_def intro!: exI [of _ 2])
  note r = read_bounds [OF this]
  show ?thesis unfolding Let_def r by simp
qed

end
