(* ===== verification/Text_Io.thy ===== *)
theory Text_Io
  imports Xdl_Types
begin

text \<open>
  The parts of the C++ library that the command line reads and prints with: extraction of words and
  numbers from a string stream, \<open>std::stoul\<close>, \<open>std::stoll\<close>, \<open>std::getline\<close> with a delimiter, decimal output and
  field widths, in the \<open>"C"\<close> locale on a platform with 64-bit \<open>unsigned long\<close>. The main lemmas say that printed numbers
  are read back.
\<close>

section \<open>Decimal numbers\<close>

definition is_digit :: "char \<Rightarrow> bool" where
  "is_digit c \<longleftrightarrow> 48 \<le> (of_char c :: nat) \<and> (of_char c :: nat) \<le> 57"

definition digit_value :: "char \<Rightarrow> nat" where
  "digit_value c = of_char c - 48"

definition digit_char :: "nat \<Rightarrow> char" where
  "digit_char d = char_of (48 + d)"

definition digits_value :: "string \<Rightarrow> nat" where
  "digits_value ds = foldl (\<lambda>n c. 10 * n + digit_value c) 0 ds"

fun show_nat :: "nat \<Rightarrow> string" where
  "show_nat n = (if n < 10 then [digit_char n] else show_nat (n div 10) @ [digit_char (n mod 10)])"

declare show_nat.simps [simp del]

definition show_int :: "int \<Rightarrow> string" where
  "show_int i = (if i < 0 then CHR ''-'' # show_nat (nat (- i)) else show_nat (nat i))"

text \<open>An optional sign, the longest run of digits, and what follows; \<open>None\<close> when there is no digit.\<close>

definition scan_sign :: "string \<Rightarrow> bool \<times> string" where
  "scan_sign s = (case s of
       [] \<Rightarrow> (False, [])
     | c # cs \<Rightarrow> if c = CHR ''-'' then (True, cs) else if c = CHR ''+'' then (False, cs) else (False, s))"

definition scan_number :: "string \<Rightarrow> (bool \<times> nat) option \<times> string" where
  "scan_number s =
     (let (neg, r) = scan_sign s; ds = takeWhile is_digit r
      in (if ds = [] then None else Some (neg, digits_value ds), dropWhile is_digit r))"

section \<open>String streams\<close>

definition is_space :: "char \<Rightarrow> bool" where
  "is_space c \<longleftrightarrow> c = CHR '' '' \<or> 9 \<le> (of_char c :: nat) \<and> (of_char c :: nat) \<le> 13"

record istringstream =
  ss_rest :: string
  ss_failed :: bool

definition string_stream :: "string \<Rightarrow> istringstream" where
  "string_stream s = \<lparr>ss_rest = s, ss_failed = False\<rparr>"

text \<open>\<open>ss >> word\<close>: skips white space; fails at the end, and always after a failure.\<close>

definition read_word :: "istringstream \<Rightarrow> string option \<times> istringstream" where
  "read_word ss =
     (let r = dropWhile is_space (ss_rest ss)
      in if ss_failed ss \<or> r = [] then (None, ss\<lparr>ss_failed := True\<rparr>)
         else (Some (takeWhile (\<lambda>c. \<not> is_space c) r), ss\<lparr>ss_rest := dropWhile (\<lambda>c. \<not> is_space c) r\<rparr>))"

text \<open>
  \<open>ss >> id\<close> for a \<open>uint32_t\<close>: reads up to the first character that is no digit; a number beyond 32 bits fails; a minus
  sign negates in 32 bits.
\<close>

definition read_uint32 :: "istringstream \<Rightarrow> u32 option \<times> istringstream" where
  "read_uint32 ss =
     (let r = dropWhile is_space (ss_rest ss)
      in if ss_failed ss \<or> r = [] then (None, ss\<lparr>ss_failed := True\<rparr>)
         else case scan_number r of
             (None, rest) \<Rightarrow> (None, ss\<lparr>ss_rest := rest, ss_failed := True\<rparr>)
           | (Some (neg, n), rest) \<Rightarrow>
               if 2 ^ 32 \<le> n then (None, ss\<lparr>ss_rest := rest, ss_failed := True\<rparr>)
               else (Some (if neg then - word_of_nat n else word_of_nat n), ss\<lparr>ss_rest := rest\<rparr>))"

section \<open>Conversions of whole strings\<close>

text \<open>What follows the number is ignored; \<open>strtoul\<close> negates in 64 bits.\<close>

definition stoul :: "string \<Rightarrow> u64 result" where
  "stoul s = (case fst (scan_number (dropWhile is_space s)) of
       None \<Rightarrow> Inl InvalidArgument
     | Some (neg, n) \<Rightarrow> if 2 ^ 64 \<le> n then Inl OutOfRange else Inr (if neg then - word_of_nat n else word_of_nat n))"

definition stoll :: "string \<Rightarrow> u64 result" where
  "stoll s = (case fst (scan_number (dropWhile is_space s)) of
       None \<Rightarrow> Inl InvalidArgument
     | Some (neg, n) \<Rightarrow>
         if n \<ge> (if neg then 2 ^ 63 + 1 else 2 ^ 63) then Inl OutOfRange
         else Inr (if neg then - word_of_nat n else word_of_nat n))"

section \<open>Splitting and padding\<close>

text \<open>The pieces that repeated \<open>std::getline(ss, token, ',')\<close> returns: a separator at the end starts no new piece.\<close>

function split_getline :: "char \<Rightarrow> string \<Rightarrow> string list" where
  "split_getline sep s =
     (if s = [] then []
      else let token = takeWhile (\<lambda>c. c \<noteq> sep) s in token # split_getline sep (drop (Suc (length token)) s))"
  by pat_completeness auto
termination
  by (relation "measure (\<lambda>(sep, s). length s)") auto

declare split_getline.simps [simp del]

definition setw :: "nat \<Rightarrow> string \<Rightarrow> string" where
  "setw n s = replicate (n - length s) CHR '' '' @ s"

definition setw_left :: "nat \<Rightarrow> string \<Rightarrow> string" where
  "setw_left n s = s @ replicate (n - length s) CHR '' ''"

section \<open>Reading what was printed\<close>

lemma digit_char_value [simp]: "d < 10 \<Longrightarrow> digit_value (digit_char d) = d" "d < 10 \<Longrightarrow> is_digit (digit_char d)"
  by (simp_all add: digit_value_def digit_char_def is_digit_def)

lemma is_space_blank [simp]: "is_space CHR '' ''"
  by (simp add: is_space_def)

lemma digit_not_space: "is_digit c \<Longrightarrow> \<not> is_space c"
  by (auto simp: is_digit_def is_space_def)

lemma digit_not_sign: "is_digit c \<Longrightarrow> c \<noteq> CHR ''-'' \<and> c \<noteq> CHR ''+''"
  by (auto simp: is_digit_def)

lemma digits_value_snoc: "digits_value (ds @ [c]) = 10 * digits_value ds + digit_value c"
  by (simp add: digits_value_def)

lemma digits_value_show_nat [simp]: "digits_value (show_nat n) = n"
proof (induction n rule: show_nat.induct)
  case (1 n)
  show ?case
  proof (cases "n < 10")
    case True
    then show ?thesis by (simp add: show_nat.simps [of n] digits_value_def)
  next
    case False
    then show ?thesis using 1 by (simp add: show_nat.simps [of n] digits_value_snoc)
  qed
qed

lemma show_nat_digits: "\<forall>c \<in> set (show_nat n). is_digit c"
proof (induction n rule: show_nat.induct)
  case (1 n)
  show ?case
  proof (cases "n < 10")
    case True
    then show ?thesis by (simp add: show_nat.simps [of n])
  next
    case False
    then show ?thesis using 1 by (simp add: show_nat.simps [of n])
  qed
qed

lemma show_nat_not_Nil [simp]: "show_nat n \<noteq> []"
  by (simp add: show_nat.simps [of n])

lemma show_nat_Cons: obtains c cs where "show_nat n = c # cs" "is_digit c"
  using show_nat_digits [of n] by (cases "show_nat n") auto

lemma number_word: "c \<in> set (show_int i) \<Longrightarrow> \<not> is_space c"
  using show_nat_digits digit_not_space by (auto simp: show_int_def is_space_def split: if_splits)

lemma scan_show_nat:
  assumes "rest = [] \<or> \<not> is_digit (hd rest)"
  shows "scan_number (show_nat n @ rest) = (Some (False, n), rest)"
proof -
  obtain c cs where c: "show_nat n = c # cs" "is_digit c" by (rule show_nat_Cons)
  have "scan_sign (show_nat n @ rest) = (False, show_nat n @ rest)"
    using c digit_not_sign [OF c(2)] by (simp add: scan_sign_def)
  moreover have "takeWhile is_digit (show_nat n @ rest) = show_nat n" "dropWhile is_digit (show_nat n @ rest) = rest"
    using show_nat_digits [of n] assms by (cases rest; auto)+
  ultimately show ?thesis by (simp add: scan_number_def)
qed

lemma scan_show_int:
  assumes "rest = [] \<or> \<not> is_digit (hd rest)"
  shows "scan_number (show_int i @ rest) = (Some (i < 0, nat \<bar>i\<bar>), rest)"
proof (cases "i < 0")
  case True
  have "takeWhile is_digit (show_nat (nat (- i)) @ rest) = show_nat (nat (- i))" "dropWhile is_digit (show_nat (nat (- i)) @ rest) = rest"
    using show_nat_digits [of "nat (- i)"] assms by (cases rest; auto)+
  then show ?thesis using True by (simp add: show_int_def scan_number_def scan_sign_def)
next
  case False
  then show ?thesis using scan_show_nat [OF assms] by (simp add: show_int_def)
qed

lemma no_space_dropWhile: "(\<forall>c \<in> set w. \<not> is_space c) \<Longrightarrow> dropWhile is_space w = w"
  by (cases w) simp_all

lemma stoul_show_nat: "n < 2 ^ 64 \<Longrightarrow> stoul (show_nat n) = Inr (word_of_nat n)"
  using scan_show_nat [of "[]" n] number_word [of _ "int n"]
  by (simp add: stoul_def no_space_dropWhile show_int_def)

lemma stoll_show_int:
  assumes "- (2 ^ 63) \<le> i" and "i < 2 ^ 63"
  shows "stoll (show_int i) = Inr (word_of_int i)"
proof -
  have "dropWhile is_space (show_int i) = show_int i" using number_word by (intro no_space_dropWhile) blast
  then have "fst (scan_number (dropWhile is_space (show_int i))) = Some (i < 0, nat \<bar>i\<bar>)"
    using scan_show_int [of "[]" i] by simp
  moreover have "(if i < 0 then - word_of_nat (nat \<bar>i\<bar>) else word_of_nat (nat \<bar>i\<bar>)) = (word_of_int i :: u64)" by simp
  moreover have "\<not> nat \<bar>i\<bar> \<ge> (if i < 0 then 2 ^ 63 + 1 else 2 ^ 63)" using assms by (auto simp: not_le)
  ultimately show ?thesis by (simp add: stoll_def)
qed

text \<open>Words separated by single blanks.\<close>

lemma read_word_word:
  assumes "w \<noteq> []" and "\<forall>c \<in> set w. \<not> is_space c" and "rest = [] \<or> is_space (hd rest)"
  shows "read_word \<lparr>ss_rest = w @ rest, ss_failed = False\<rparr> = (Some w, \<lparr>ss_rest = rest, ss_failed = False\<rparr>)"
    and "read_word \<lparr>ss_rest = CHR '' '' # w @ rest, ss_failed = False\<rparr> = (Some w, \<lparr>ss_rest = rest, ss_failed = False\<rparr>)"
proof -
  have d: "dropWhile is_space (w @ rest) = w @ rest" using assms(1,2) by (cases w) simp_all
  have t: "takeWhile (\<lambda>c. \<not> is_space c) (w @ rest) = w" "dropWhile (\<lambda>c. \<not> is_space c) (w @ rest) = rest"
    using assms(2,3) by (cases rest; auto)+
  show "read_word \<lparr>ss_rest = w @ rest, ss_failed = False\<rparr> = (Some w, \<lparr>ss_rest = rest, ss_failed = False\<rparr>)"
    using assms(1) by (simp add: read_word_def d t)
  show "read_word \<lparr>ss_rest = CHR '' '' # w @ rest, ss_failed = False\<rparr> = (Some w, \<lparr>ss_rest = rest, ss_failed = False\<rparr>)"
    using assms(1) by (simp add: read_word_def d t)
qed

lemma read_uint32_show:
  assumes "rest = [] \<or> is_space (hd rest)"
  shows "read_uint32 \<lparr>ss_rest = CHR '' '' # show_nat (unat w) @ rest, ss_failed = False\<rparr> = (Some w, \<lparr>ss_rest = rest, ss_failed = False\<rparr>)"
proof -
  have "rest = [] \<or> \<not> is_digit (hd rest)" using assms digit_not_space by blast
  then have "scan_number (show_nat (unat w) @ rest) = (Some (False, unat w), rest)" by (rule scan_show_nat)
  moreover have "dropWhile is_space (CHR '' '' # show_nat (unat w) @ rest) = show_nat (unat w) @ rest"
  proof -
    obtain c cs where "show_nat (unat w) = c # cs" "is_digit c" by (rule show_nat_Cons)
    then show ?thesis by (simp add: digit_not_space)
  qed
  moreover have "\<not> 2 ^ 32 \<le> unat w" using unsigned_less [of w, where ?'a = nat] by simp
  ultimately show ?thesis by (simp add: read_uint32_def)
qed

lemma read_word_shrinks:
  assumes "read_word ss = (Some w, ss')"
  shows "length (ss_rest ss') < length (ss_rest ss)"
proof -
  let ?r = "dropWhile is_space (ss_rest ss)"
  have r: "?r \<noteq> []" "ss' = ss\<lparr>ss_rest := dropWhile (\<lambda>c. \<not> is_space c) ?r\<rparr>"
    using assms by (auto simp: read_word_def Let_def split: if_splits)
  have "\<not> is_space (hd ?r)" using hd_dropWhile [OF r(1)] .
  then have "length (dropWhile (\<lambda>c. \<not> is_space c) ?r) < length ?r"
    using r(1) length_dropWhile_le [of "\<lambda>c. \<not> is_space c" "tl ?r"] by (cases ?r) auto
  then show ?thesis using r(2) length_dropWhile_le [of is_space "ss_rest ss"] by simp
qed

end
