(* ===== verification/Cli.thy ===== *)
theory Cli
  imports Text_Io Db
begin

text \<open>
  The command line of \<open>src/main.cpp\<close>: the schema argument, the command loop over the lines of the input, the handlers and
  what they print. The state is the database object, the text on \<open>std::cout\<close> and the messages on \<open>std::cerr\<close>;
  a message is a constructor with its parameters, and \<open>ErrorWhat e\<close> stands for the text of a caught exception. The conversion of floats from
  and to text is the C library's and a parameter of the model. A row of which printing throws in the middle leaves no text
  in the model; rows decoded under their schema never do.
\<close>

section \<open>Output\<close>

record float_io =
  fio_stof :: "string \<Rightarrow> u32 result"
  fio_fixed2 :: "u32 \<Rightarrow> string"

datatype cli_msg =
    UsageInsert | UsageGet | UsageDelete | UsageUpdate | UsageMain
  | MissingValue string | BadValue string string string | NotFoundId u32
  | UnknownScanToken string | UnknownField string | UnknownCommand string
  | SchemaErrorWhat xdl_error | OpenFailedWhat xdl_error | ErrorWhat xdl_error

record Cli =
  cli_db :: DB
  cli_out :: string
  cli_err :: "cli_msg list"

definition on_db :: "(DB, 'a) prog \<Rightarrow> (Cli, 'a) prog" where
  "on_db = zoomS cli_db (\<lambda>db s. s\<lparr>cli_db := db\<rparr>)"

definition cout :: "string \<Rightarrow> (Cli, unit) prog" where
  "cout text = modifyS (\<lambda>s. s\<lparr>cli_out := cli_out s @ text\<rparr>)"

definition cerr :: "cli_msg \<Rightarrow> (Cli, unit) prog" where
  "cerr msg = modifyS (\<lambda>s. s\<lparr>cli_err := cli_err s @ [msg]\<rparr>)"

abbreviation endl :: string where
  "endl \<equiv> [CHR 0x0A]"

section \<open>Schemas and rows\<close>

definition parse_schema_field :: "string \<Rightarrow> FieldDef result" where
  "parse_schema_field token =
     (if CHR '':'' \<notin> set token then Inl InvalidArgument
      else let name = takeWhile (\<lambda>c. c \<noteq> CHR '':'') token; ty = drop (Suc (length name)) token
           in case parse_field_type ty of Inl _ \<Rightarrow> Inl InvalidArgument | Inr ft \<Rightarrow> Inr \<lparr>fd_name = name, fd_type = ft\<rparr>)"

fun parse_schema_fields :: "string list \<Rightarrow> FieldDef list result" where
  "parse_schema_fields [] = Inr []"
| "parse_schema_fields (t # ts) = bindR (parse_schema_field t) (\<lambda>f. bindR (parse_schema_fields ts) (\<lambda>fs. Inr (f # fs)))"

definition parse_schema :: "string \<Rightarrow> Schema result" where
  "parse_schema spec = bindR (parse_schema_fields (split_getline CHR '','' spec)) (\<lambda>fs. Inr \<lparr>s_fields = fs, s_version = 1\<rparr>)"

definition field_text :: "float_io \<Rightarrow> Row \<Rightarrow> nat \<Rightarrow> FieldType \<Rightarrow> string result" where
  "field_text fio row i ft = (case ft of
       UINT32 \<Rightarrow> bindR (get_uint32 row i) (\<lambda>v. Inr (setw 6 (show_nat (unat v))))
     | STRING \<Rightarrow> bindR (get_string row i) (\<lambda>v. Inr (setw_left 12 v))
     | FLOAT32 \<Rightarrow> bindR (get_float32 row i) (\<lambda>v. Inr (setw 8 (fio_fixed2 fio v)))
     | BOOL \<Rightarrow> bindR (get_bool row i) (\<lambda>v. Inr (setw 6 (if v then ''true'' else ''false'')))
     | INT64 \<Rightarrow> bindR (get_int64 row i) (\<lambda>v. Inr (setw 10 (show_int (sint v))))
     | OtherType _ \<Rightarrow> Inr [])"

fun fields_text :: "float_io \<Rightarrow> Row \<Rightarrow> nat \<Rightarrow> FieldDef list \<Rightarrow> string result" where
  "fields_text fio row i [] = Inr []"
| "fields_text fio row i (f # fs) =
     bindR (if i \<ge> length (row_fields row) then Inr ''NULL'' else field_text fio row i (fd_type f)) (\<lambda>v.
     bindR (fields_text fio row (Suc i) fs) (\<lambda>rest. Inr (''  '' @ fd_name f @ ''='' @ v @ rest)))"

definition print_row :: "float_io \<Rightarrow> Schema \<Rightarrow> Row \<Rightarrow> string result" where
  "print_row fio schema row =
     bindR (fields_text fio row 0 (s_fields schema)) (\<lambda>t. Inr (''id='' @ setw 6 (show_nat (unat (row_id row))) @ t @ endl))"

definition schema_text :: "Schema \<Rightarrow> string" where
  "schema_text schema =
     ''Schema v'' @ show_nat (unat (s_version schema)) @ '' ('' @ show_nat (length (s_fields schema)) @ '' field(s)):'' @ endl
     @ concat (map (\<lambda>f. ''  '' @ fd_name f @ '' : '' @ field_type_name (fd_type f) @ endl) (s_fields schema))"

definition help_text :: string where
  "help_text =
     ''Commands:'' @ endl
     @ ''  insert <id> <v1> [<v2> ...]      Insert a row (values in schema order)'' @ endl
     @ ''  update <id> <v1> [<v2> ...]      Replace an existing row'' @ endl
     @ ''  delete <id>                       Delete a row by id'' @ endl
     @ ''  get    <id>                       Retrieve row by id'' @ endl
     @ ''  scan   [--<field> <val>]'' @ endl
     @ ''         [--min-<field> N]'' @ endl
     @ ''         [--max-<field> N]'' @ endl
     @ ''         [--prefix-<field> STR]     Scan rows with optional field filters'' @ endl
     @ ''  index  <field_name>               Create a secondary index on a field'' @ endl
     @ ''  schema                            Display current schema'' @ endl
     @ ''  stats                             Show database statistics'' @ endl
     @ ''  checkpoint                        Flush dirty pages to disk'' @ endl
     @ ''  help                              Show this help'' @ endl
     @ ''  quit | exit                       Close and exit'' @ endl
     @ endl"

definition print_schema :: "Schema \<Rightarrow> (Cli, unit) prog" where
  "print_schema schema = cout (schema_text schema)"

definition print_help :: "Schema \<Rightarrow> (Cli, unit) prog" where
  "print_help schema = bindS (cout help_text) (\<lambda>_. print_schema schema)"

section \<open>Handlers\<close>

definition parse_value :: "float_io \<Rightarrow> string \<Rightarrow> FieldType \<Rightarrow> FieldValue result" where
  "parse_value fio tok ft = (case ft of
       UINT32 \<Rightarrow> bindR (stoul tok) (\<lambda>v. Inr (VUint32 (ucast v)))
     | INT64 \<Rightarrow> bindR (stoll tok) (\<lambda>v. Inr (VInt64 v))
     | FLOAT32 \<Rightarrow> bindR (fio_stof fio tok) (\<lambda>v. Inr (VFloat v))
     | BOOL \<Rightarrow> Inr (VBool (tok = ''true'' \<or> tok = ''1'' \<or> tok = ''yes''))
     | STRING \<Rightarrow> Inr (VString tok)
     | OtherType _ \<Rightarrow> Inl InvalidArgument)"

text \<open>The loop over the fields that \<open>handle_insert\<close> and \<open>handle_update\<close> share: the values, or the message it ends with.\<close>

fun read_values :: "float_io \<Rightarrow> FieldDef list \<Rightarrow> istringstream \<Rightarrow> cli_msg + FieldValue list" where
  "read_values fio [] ss = Inr []"
| "read_values fio (fd # fds) ss = (case read_word ss of
       (None, _) \<Rightarrow> Inl (MissingValue (fd_name fd))
     | (Some tok, ss') \<Rightarrow> (case parse_value fio tok (fd_type fd) of
           Inl _ \<Rightarrow> Inl (BadValue (fd_name fd) (field_type_name (fd_type fd)) tok)
         | Inr v \<Rightarrow> (case read_values fio fds ss' of Inl msg \<Rightarrow> Inl msg | Inr vs \<Rightarrow> Inr (v # vs))))"

definition handle_insert :: "float_io \<Rightarrow> istringstream \<Rightarrow> (Cli, unit) prog" where
  "handle_insert fio ss =
     bindS (on_db (getS db_schema)) (\<lambda>schema. case read_uint32 ss of
       (None, _) \<Rightarrow> cerr UsageInsert
     | (Some i, ss') \<Rightarrow> (case read_values fio (s_fields schema) ss' of
           Inl msg \<Rightarrow> cerr msg
         | Inr fv \<Rightarrow> bindS (on_db (db_insert \<lparr>row_id = i, row_fields = fv\<rparr>)) (\<lambda>_.
                     cout (''Inserted id='' @ show_nat (unat i) @ endl))))"

definition handle_get :: "float_io \<Rightarrow> istringstream \<Rightarrow> (Cli, unit) prog" where
  "handle_get fio ss = (case read_uint32 ss of
       (None, _) \<Rightarrow> cerr UsageGet
     | (Some i, _) \<Rightarrow> bindS (on_db (try_get i)) (\<lambda>found. case found of
           Some row \<Rightarrow> bindS (on_db (getS db_schema)) (\<lambda>schema. bindS (liftR (print_row fio schema row)) cout)
         | None \<Rightarrow> cerr (NotFoundId i)))"

definition handle_delete :: "istringstream \<Rightarrow> (Cli, unit) prog" where
  "handle_delete ss = (case read_uint32 ss of
       (None, _) \<Rightarrow> cerr UsageDelete
     | (Some i, _) \<Rightarrow> bindS (on_db (db_erase i)) (\<lambda>_. cout (''Deleted id='' @ show_nat (unat i) @ endl)))"

definition handle_update :: "float_io \<Rightarrow> istringstream \<Rightarrow> (Cli, unit) prog" where
  "handle_update fio ss =
     bindS (on_db (getS db_schema)) (\<lambda>schema. case read_uint32 ss of
       (None, _) \<Rightarrow> cerr UsageUpdate
     | (Some i, ss') \<Rightarrow> (case read_values fio (s_fields schema) ss' of
           Inl msg \<Rightarrow> cerr msg
         | Inr fv \<Rightarrow> bindS (on_db (db_update \<lparr>row_id = i, row_fields = fv\<rparr>)) (\<lambda>_.
                     cout (''Updated id='' @ show_nat (unat i) @ endl))))"

text \<open>
  One option of \<open>scan\<close>: the messages it prints, the filter or the exception, and the stream after it. A value that is missing is the
  empty string. A bound on a field that is not numeric is ignored.
\<close>

definition read_value_or_empty :: "istringstream \<Rightarrow> string \<times> istringstream" where
  "read_value_or_empty ss = (case read_word ss of (None, ss') \<Rightarrow> ([], ss') | (Some v, ss') \<Rightarrow> (v, ss'))"

fun numeric_value :: "FieldValue \<Rightarrow> numeric option" where
  "numeric_value (VUint32 v) = Some (NUint v)"
| "numeric_value (VInt64 v) = Some (NInt64 v)"
| "numeric_value (VFloat v) = Some (NFloat v)"
| "numeric_value _ = None"

definition scan_bound :: "(ScanFilter \<Rightarrow> string \<Rightarrow> numeric \<Rightarrow> ScanFilter) \<Rightarrow> float_io \<Rightarrow> Schema \<Rightarrow> string \<Rightarrow> string \<Rightarrow> ScanFilter \<Rightarrow> ScanFilter result" where
  "scan_bound bound fio schema field vstr flt =
     (let idx = field_index schema field
      in if idx < 0 then Inr flt
         else bindR (parse_value fio vstr (fd_type (s_fields schema ! nat idx))) (\<lambda>v.
              Inr (case numeric_value v of None \<Rightarrow> flt | Some x \<Rightarrow> bound flt field x)))"

definition scan_option :: "float_io \<Rightarrow> Schema \<Rightarrow> string \<Rightarrow> istringstream \<Rightarrow> ScanFilter \<Rightarrow> cli_msg list \<times> ScanFilter result \<times> istringstream" where
  "scan_option fio schema tok ss flt =
     (if take 2 tok \<noteq> ''--'' then ([UnknownScanToken tok], Inr flt, ss)
      else let opt = drop 2 tok; (vstr, ss') = read_value_or_empty ss
           in if take 4 opt = ''min-'' then ([], scan_bound filter_min fio schema (drop 4 opt) vstr flt, ss')
              else if take 4 opt = ''max-'' then ([], scan_bound filter_max fio schema (drop 4 opt) vstr flt, ss')
              else if take 7 opt = ''prefix-'' then ([], Inr (filter_starts flt (drop 7 opt) vstr), ss')
              else let idx = field_index schema opt
                   in if idx < 0 then ([UnknownField opt], Inr flt, ss')
                      else ([], bindR (parse_value fio vstr (fd_type (s_fields schema ! nat idx))) (\<lambda>v. Inr (filter_eq flt opt v)), ss'))"

lemma read_word_le: "length (ss_rest (snd (read_word ss))) \<le> length (ss_rest ss)"
proof (cases "read_word ss")
  case (Pair w ss')
  then show ?thesis using read_word_shrinks [of ss _ ss']
    by (cases w) (auto simp: read_word_def Let_def split: if_splits)
qed

lemma scan_option_le: "scan_option fio schema tok ss flt = (msgs, r, ss') \<Longrightarrow> length (ss_rest ss') \<le> length (ss_rest ss)"
  using read_word_le [of ss]
  by (auto simp: scan_option_def read_value_or_empty_def Let_def split: if_splits prod.splits option.splits)

function scan_options :: "float_io \<Rightarrow> Schema \<Rightarrow> istringstream \<Rightarrow> ScanFilter \<Rightarrow> cli_msg list \<times> ScanFilter result" where
  "scan_options fio schema ss flt = (case read_word ss of
       (None, _) \<Rightarrow> ([], Inr flt)
     | (Some tok, ss1) \<Rightarrow> (case scan_option fio schema tok ss1 flt of
           (msgs, Inl e, _) \<Rightarrow> (msgs, Inl e)
         | (msgs, Inr flt', ss2) \<Rightarrow> (case scan_options fio schema ss2 flt' of (msgs', r) \<Rightarrow> (msgs @ msgs', r))))"
  by pat_completeness auto
termination
  by (relation "measure (\<lambda>(fio, schema, ss, flt). length (ss_rest ss))")
     (auto dest!: scan_option_le [OF sym] read_word_shrinks [OF sym])

declare scan_options.simps [simp del]
primrec cerr_all :: "cli_msg list \<Rightarrow> (Cli, unit) prog" where
  "cerr_all [] = returnS ()"
| "cerr_all (msg # msgs) = bindS (cerr msg) (\<lambda>_. cerr_all msgs)"

definition print_visitor :: "float_io \<Rightarrow> Schema \<Rightarrow> (string \<times> nat) visitor" where
  "print_visitor fio schema r acc = bindR (print_row fio schema r) (\<lambda>t. Inr (fst acc @ t, Suc (snd acc)))"

definition handle_scan :: "float_io \<Rightarrow> istringstream \<Rightarrow> (Cli, unit) prog" where
  "handle_scan fio ss =
     bindS (on_db (getS db_schema)) (\<lambda>schema.
     case scan_options fio schema ss [] of (msgs, r) \<Rightarrow>
       bindS (cerr_all msgs) (\<lambda>_.
       bindS (liftR r) (\<lambda>f.
       bindS (on_db (scan (print_visitor fio schema) f ([], 0))) (\<lambda>(text, count).
         cout (text @ show_nat count @ '' row(s)'' @ endl)))))"

definition stats_text :: "Stats \<Rightarrow> string" where
  "stats_text s =
     ''rows          : '' @ show_nat (st_row_count s) @ endl
     @ ''pages         : '' @ show_nat (unat (st_page_count s)) @ endl
     @ ''cache capacity: '' @ show_nat (st_cache_capacity s) @ '' pages'' @ endl
     @ ''file size     : '' @ show_nat (unat (st_file_size_bytes s)) @ '' bytes'' @ endl
     @ ''schema version: '' @ show_nat (unat (st_schema_version s)) @ endl
     @ ''WAL active    : '' @ (if st_wal_active s then ''yes'' else ''no'') @ endl
     @ ''indexes       : '' @ show_nat (st_secondary_index_count s) @ endl"

definition handle_stats :: "(Cli, unit) prog" where
  "handle_stats = bindS (on_db stats) (\<lambda>s. cout (stats_text s))"

definition handle_index :: "istringstream \<Rightarrow> (Cli, unit) prog" where
  "handle_index ss =
     (let field = fst (read_value_or_empty ss)
      in bindS (on_db (create_index field)) (\<lambda>_. cout (''Index created on '' @ [CHR 0x27] @ field @ [CHR 0x27] @ endl)))"

section \<open>The command loop\<close>

definition dispatch :: "float_io \<Rightarrow> string \<Rightarrow> istringstream \<Rightarrow> (Cli, unit) prog" where
  "dispatch fio cmd ss =
     (if cmd = ''insert'' then handle_insert fio ss
      else if cmd = ''update'' then handle_update fio ss
      else if cmd = ''delete'' \<or> cmd = ''erase'' then handle_delete ss
      else if cmd = ''get'' then handle_get fio ss
      else if cmd = ''scan'' then handle_scan fio ss
      else if cmd = ''index'' then handle_index ss
      else if cmd = ''schema'' then bindS (on_db (getS db_schema)) print_schema
      else if cmd = ''stats'' then handle_stats
      else if cmd = ''checkpoint'' then bindS (on_db checkpoint) (\<lambda>_. cout (''Checkpoint done'' @ endl))
      else if cmd = ''help'' then bindS (on_db (getS db_schema)) print_help
      else cerr (UnknownCommand cmd))"

text \<open>The handlers of \<open>catch (const std::exception&)\<close> print the message and go on.\<close>

definition catch_print :: "(Cli, unit) prog \<Rightarrow> (Cli, unit) prog" where
  "catch_print m s = (case m s of
       (Inl e, s') \<Rightarrow> if any_exception e then cerr (ErrorWhat e) s' else (Inl e, s')
     | (Inr x, s') \<Rightarrow> (Inr x, s'))"

text \<open>One round on a line that was read; the result says whether the loop goes on.\<close>

definition cli_line :: "float_io \<Rightarrow> string \<Rightarrow> (Cli, bool) prog" where
  "cli_line fio line =
     (let line = dropWhile (\<lambda>c. c = CHR '' '' \<or> c = CHR 0x09) line
      in if line = [] \<or> hd line = CHR 0x23 then returnS True
         else let (cmd, ss) = read_value_or_empty (string_stream line)
              in if cmd = ''quit'' \<or> cmd = ''exit'' then returnS False
                 else bindS (catch_print (dispatch fio cmd ss)) (\<lambda>_. returnS True))"

definition prompt :: "bool \<Rightarrow> (Cli, unit) prog" where
  "prompt interactive = (if interactive then cout ''xdl> '' else returnS ())"

primrec cli_loop :: "float_io \<Rightarrow> bool \<Rightarrow> string list \<Rightarrow> (Cli, unit) prog" where
  "cli_loop fio interactive [] = prompt interactive"
| "cli_loop fio interactive (line # lines) =
     bindS (prompt interactive) (\<lambda>_.
     bindS (cli_line fio line) (\<lambda>continue.
       if continue then cli_loop fio interactive lines else returnS ()))"

section \<open>The program\<close>

fun parse_args :: "string list \<Rightarrow> Schema \<Rightarrow> Schema result" where
  "parse_args (arg # spec # rest) schema =
     (if arg = ''--schema'' then bindR (parse_schema spec) (parse_args rest) else parse_args (spec # rest) schema)"
| "parse_args _ schema = Inr schema"

definition banner :: "bool \<Rightarrow> string \<Rightarrow> (Cli, unit) prog" where
  "banner interactive path =
     (if interactive
      then bindS (cout (''XDL v1  '' @ [CHR 0xE2, CHR 0x80, CHR 0x94] @ '' '' @ path @ endl)) (\<lambda>_.
           bindS (bindS (on_db (getS db_schema)) print_schema) (\<lambda>_. cout (''Type '' @ [CHR 0x27] @ ''help'' @ [CHR 0x27] @ '' for commands.'' @ endl)))
      else returnS ())"

definition cli_session :: "float_io \<Rightarrow> bool \<Rightarrow> string \<Rightarrow> string list \<Rightarrow> (Cli, int) prog" where
  "cli_session fio interactive path lines s = (case on_db db_open s of
       (Inl e, s1) \<Rightarrow>
         if any_exception e then bindS (cerr (OpenFailedWhat e)) (\<lambda>_. bindS (on_db db_destroy) (\<lambda>_. returnS 1)) s1
         else (Inl e, s1)
     | (Inr _, s1) \<Rightarrow>
         bindS (banner interactive path) (\<lambda>_.
         bindS (cli_loop fio interactive lines) (\<lambda>_.
         bindS (catchS any_exception (on_db db_close) (returnS ())) (\<lambda>_.
         bindS (on_db db_destroy) (\<lambda>_. returnS 0)))) s1)"

text \<open>
  A finished process: its exit status, or the exception nothing caught; its output; and the database
  object with its files, when it was constructed.
\<close>

record Process =
  pr_status :: "int result"
  pr_out :: string
  pr_err :: "cli_msg list"
  pr_db :: "DB option"

definition cli_main :: "float_io \<Rightarrow> bool \<Rightarrow> string list \<Rightarrow> bytes option \<Rightarrow> bytes option \<Rightarrow> int list \<Rightarrow> string list \<Rightarrow> Process" where
  "cli_main fio interactive argv f logf script lines =
     (if length argv < 2 then \<lparr>pr_status = Inr 1, pr_out = [], pr_err = [UsageMain], pr_db = None\<rparr>
      else case parse_args (drop 2 argv) \<lparr>s_fields = [], s_version = 1\<rparr> of
        Inl e \<Rightarrow> \<lparr>pr_status = Inr 1, pr_out = [], pr_err = [SchemaErrorWhat e], pr_db = None\<rparr>
      | Inr schema \<Rightarrow> (case db_new schema CLZ4 DEFAULT_CACHE_SIZE f logf script of
            Inl e \<Rightarrow> \<lparr>pr_status = Inl e, pr_out = [], pr_err = [], pr_db = None\<rparr>
          | Inr db \<Rightarrow> (case cli_session fio interactive (argv ! 1) lines \<lparr>cli_db = db, cli_out = [], cli_err = []\<rparr> of
                (r, s) \<Rightarrow> \<lparr>pr_status = r, pr_out = cli_out s, pr_err = cli_err s, pr_db = Some (cli_db s)\<rparr>)))"

end
