(* ===== verification/Cli_Refinement.thy ===== *)
theory Cli_Refinement
  imports Cli Db_Lifecycle
begin

text \<open>
  The command line against its specification: every line of the input stands for an action, an action changes the map from ids to
  rows and prints what the map says. The specification is composed from the parsers of the theory \<open>Cli\<close> and \<open>map_call\<close>;
  the proof shows that the program, over the whole stack down to the files, does the same.
\<close>

section \<open>The specification\<close>

datatype cli_action =
    Skip | Stop | Complain cli_msg | Call db_op
  | Search "cli_msg list" ScanFilter | SearchFails "cli_msg list" xdl_error
  | ShowSchema | ShowStats | ShowHelp

definition row_action :: "float_io \<Rightarrow> Schema \<Rightarrow> cli_msg \<Rightarrow> (Row \<Rightarrow> db_op) \<Rightarrow> istringstream \<Rightarrow> cli_action" where
  "row_action fio schema usage call ss = (case read_uint32 ss of
       (None, _) \<Rightarrow> Complain usage
     | (Some i, ss') \<Rightarrow> (case read_values fio (s_fields schema) ss' of
           Inl msg \<Rightarrow> Complain msg
         | Inr fv \<Rightarrow> Call (call \<lparr>row_id = i, row_fields = fv\<rparr>)))"

definition id_action :: "cli_msg \<Rightarrow> (u32 \<Rightarrow> db_op) \<Rightarrow> istringstream \<Rightarrow> cli_action" where
  "id_action usage call ss = (case fst (read_uint32 ss) of None \<Rightarrow> Complain usage | Some i \<Rightarrow> Call (call i))"

definition command_action :: "float_io \<Rightarrow> Schema \<Rightarrow> string \<Rightarrow> istringstream \<Rightarrow> cli_action" where
  "command_action fio schema cmd ss =
     (if cmd = ''insert'' then row_action fio schema UsageInsert DbInsert ss
      else if cmd = ''update'' then row_action fio schema UsageUpdate DbUpdate ss
      else if cmd = ''delete'' \<or> cmd = ''erase'' then id_action UsageDelete DbErase ss
      else if cmd = ''get'' then id_action UsageGet DbTryGet ss
      else if cmd = ''scan'' then (case scan_options fio schema ss [] of (msgs, Inl e) \<Rightarrow> SearchFails msgs e | (msgs, Inr flt) \<Rightarrow> Search msgs flt)
      else if cmd = ''index'' then Call (DbCreateIndex (fst (read_value_or_empty ss)))
      else if cmd = ''schema'' then ShowSchema
      else if cmd = ''stats'' then ShowStats
      else if cmd = ''checkpoint'' then Call DbCheckpoint
      else if cmd = ''help'' then ShowHelp
      else Complain (UnknownCommand cmd))"

definition line_action :: "float_io \<Rightarrow> Schema \<Rightarrow> string \<Rightarrow> cli_action" where
  "line_action fio schema line =
     (let line = dropWhile (\<lambda>c. c = CHR '' '' \<or> c = CHR 0x09) line
      in if line = [] \<or> hd line = CHR 0x23 then Skip
         else let (cmd, ss) = read_value_or_empty (string_stream line)
              in if cmd = ''quit'' \<or> cmd = ''exit'' then Stop else command_action fio schema cmd ss)"

text \<open>The line a row is printed as.\<close>

definition row_line :: "float_io \<Rightarrow> Schema \<Rightarrow> Row \<Rightarrow> string" where
  "row_line fio schema r = (case print_row fio schema r of Inl _ \<Rightarrow> [] | Inr t \<Rightarrow> t)"

text \<open>What a call prints for the answer it gets.\<close>

fun reply :: "float_io \<Rightarrow> Schema \<Rightarrow> db_op \<Rightarrow> db_answer result \<Rightarrow> string \<times> cli_msg list" where
  "reply fio schema call (Inl e) = ([], [ErrorWhat e])"
| "reply fio schema (DbInsert r) (Inr a) = (''Inserted id='' @ show_nat (unat (row_id r)) @ endl, [])"
| "reply fio schema (DbUpdate r) (Inr a) = (''Updated id='' @ show_nat (unat (row_id r)) @ endl, [])"
| "reply fio schema (DbErase i) (Inr a) = (''Deleted id='' @ show_nat (unat i) @ endl, [])"
| "reply fio schema (DbTryGet i) (Inr (Maybe (Some r))) = (row_line fio schema r, [])"
| "reply fio schema (DbTryGet i) (Inr a) = ([], [NotFoundId i])"
| "reply fio schema (DbCreateIndex name) (Inr a) = (''Index created on '' @ [CHR 0x27] @ name @ [CHR 0x27] @ endl, [])"
| "reply fio schema DbCheckpoint (Inr a) = (''Checkpoint done'' @ endl, [])"
| "reply fio schema _ (Inr a) = ([], [])"

text \<open>
  The effect of an action: the map after it, the messages, and what is known of the text. A scan prints the rows that satisfy the filter,
  each once, in some order, and their number; the statistics start with the number of rows.
\<close>

fun action_map :: "Schema \<Rightarrow> cli_action \<Rightarrow> rows_map \<Rightarrow> rows_map" where
  "action_map schema (Call call) m = snd (map_call schema call m)"
| "action_map schema _ m = m"

fun action_err :: "float_io \<Rightarrow> Schema \<Rightarrow> cli_action \<Rightarrow> rows_map \<Rightarrow> cli_msg list" where
  "action_err fio schema (Complain msg) m = [msg]"
| "action_err fio schema (Call call) m = snd (reply fio schema call (fst (map_call schema call m)))"
| "action_err fio schema (Search msgs flt) m = msgs"
| "action_err fio schema (SearchFails msgs e) m = msgs @ [ErrorWhat e]"
| "action_err fio schema _ m = []"

fun action_out :: "float_io \<Rightarrow> Schema \<Rightarrow> cli_action \<Rightarrow> rows_map \<Rightarrow> string \<Rightarrow> bool" where
  "action_out fio schema (Call call) m t \<longleftrightarrow> t = fst (reply fio schema call (fst (map_call schema call m)))"
| "action_out fio schema (Search msgs flt) m t \<longleftrightarrow>
     (\<exists>rows. distinct rows \<and> set rows = {r \<in> ran m. satisfies flt schema r}
        \<and> t = concat (map (row_line fio schema) rows) @ show_nat (length rows) @ '' row(s)'' @ endl)"
| "action_out fio schema ShowSchema m t \<longleftrightarrow> t = schema_text schema"
| "action_out fio schema ShowHelp m t \<longleftrightarrow> t = help_text @ schema_text schema"
| "action_out fio schema ShowStats m t \<longleftrightarrow> (\<exists>t'. t = ''rows          : '' @ show_nat (card (dom m)) @ endl @ t')"
| "action_out fio schema _ m t \<longleftrightarrow> t = []"

text \<open>A run over the lines of the input: the text, the messages and the map it ends with.\<close>

inductive script_run :: "float_io \<Rightarrow> Schema \<Rightarrow> string list \<Rightarrow> rows_map \<Rightarrow> string \<Rightarrow> cli_msg list \<Rightarrow> rows_map \<Rightarrow> bool" for fio schema where
  finish: "script_run fio schema [] m [] [] m"
| halt: "line_action fio schema line = Stop \<Longrightarrow> script_run fio schema (line # lines) m [] [] m"
| proceed: "line_action fio schema line = a \<Longrightarrow> a \<noteq> Stop \<Longrightarrow> action_out fio schema a m t \<Longrightarrow>
    script_run fio schema lines (action_map schema a m) out errs m' \<Longrightarrow>
    script_run fio schema (line # lines) m (t @ out) (action_err fio schema a m @ errs) m'"

inductive_cases script_run_NilE: "script_run fio schema [] m out errs m'"
inductive_cases script_run_ConsE: "script_run fio schema (line # lines) m out errs m'"

text \<open>The rows a script stores are small enough for a compressed page, and \<open>std::stof\<close> throws what it is documented to throw.\<close>

definition good_line :: "float_io \<Rightarrow> Schema \<Rightarrow> string \<Rightarrow> bool" where
  "good_line fio schema line \<longleftrightarrow> (case line_action fio schema line of Call call \<Rightarrow> good_op schema CLZ4 call | _ \<Rightarrow> True)"

definition stof_throws :: "float_io \<Rightarrow> bool" where
  "stof_throws fio \<longleftrightarrow> (\<forall>s e. fio_stof fio s = Inl e \<longrightarrow> e = InvalidArgument \<or> e = OutOfRange)"

section \<open>Printing\<close>

lemma typed_field_text:
  assumes "i < length (row_fields r)" and "value_has_type ft (row_fields r ! i)"
  shows "\<exists>t. field_text fio r i ft = Inr t"
  using assms
  by (cases ft; cases "row_fields r ! i")
     (auto simp: field_text_def get_uint32_def get_string_def get_float32_def get_bool_def get_int64_def vec_at_def)

lemma typed_fields_text:
  assumes "list_all2 (\<lambda>fd v. value_has_type (fd_type fd) v) fds (drop i (row_fields r))"
  shows "\<exists>t. fields_text fio r i fds = Inr t"
  using assms
proof (induction fds arbitrary: i)
  case (Cons fd fds)
  then obtain v vs where d: "drop i (row_fields r) = v # vs" "value_has_type (fd_type fd) v"
    "list_all2 (\<lambda>fd v. value_has_type (fd_type fd) v) fds vs" by (auto simp: list_all2_Cons1)
  have i: "i < length (row_fields r)" using d(1) by (metis drop_eq_Nil2 leI list.discI)
  then have "row_fields r ! i = v" "drop (Suc i) (row_fields r) = vs" using d(1) by (simp_all add: Cons_nth_drop_Suc [symmetric])
  then obtain t t' where "field_text fio r i (fd_type fd) = Inr t" "fields_text fio r (Suc i) fds = Inr t'"
    using typed_field_text [OF i] Cons.IH [of "Suc i"] d(2,3) by metis
  then show ?case using i by simp
qed simp

lemma typed_row_line:
  assumes "row_typed schema r" shows "print_row fio schema r = Inr (row_line fio schema r)"
proof -
  obtain t where "fields_text fio r 0 (s_fields schema) = Inr t"
    using typed_fields_text [of "s_fields schema" 0 r] assms by (auto simp: row_typed_def)
  then show ?thesis by (simp add: row_line_def print_row_def)
qed

lemma visit_print:
  assumes "\<forall>r \<in> set rows. row_typed schema r"
  shows "visit_all (print_visitor fio schema) rows (t, k) = Inr (t @ concat (map (row_line fio schema) rows), k + length rows)"
  using assms by (induction rows arbitrary: t k) (simp_all add: print_visitor_def typed_row_line)

lemma cerr_all_apply: "cerr_all msgs s = (Inr (), s\<lparr>cli_err := cli_err s @ msgs\<rparr>)"
  by (induction msgs arbitrary: s) (simp_all add: bindS_def cerr_def)

lemma parse_value_error:
  assumes "stof_throws fio" and "parse_value fio tok ft = Inl e" shows "any_exception e"
  using assms by (auto simp: parse_value_def stof_throws_def stoul_def stoll_def any_exception_def bindR_eq_Inl
      split: FieldType.splits option.splits prod.splits if_splits)

lemma scan_option_error:
  assumes "stof_throws fio" and "scan_option fio schema tok ss flt = (msgs, Inl e, ss')" shows "any_exception e"
  using assms(2) parse_value_error [OF assms(1)]
  by (auto simp: scan_option_def scan_bound_def Let_def bindR_eq_Inl split: if_splits prod.splits)

lemma scan_options_error:
  assumes "stof_throws fio" and "scan_options fio schema ss flt = (msgs, Inl e)" shows "any_exception e"
  using assms
proof (induction fio schema ss flt arbitrary: msgs rule: scan_options.induct)
  case (1 fio schema ss flt)
  from "1.prems"(2) obtain tok ss1 where w: "read_word ss = (Some tok, ss1)"
    by (auto simp: scan_options.simps [of fio schema ss flt] split: prod.splits option.splits)
  obtain msgs1 r ss2 where o: "scan_option fio schema tok ss1 flt = (msgs1, r, ss2)" by (cases "scan_option fio schema tok ss1 flt")
  show ?case
  proof (cases r)
    case (Inl e')
    then show ?thesis using "1.prems" w o scan_option_error [OF "1.prems"(1)] by (auto simp: scan_options.simps [of fio schema ss flt])
  next
    case (Inr flt')
    then obtain msgs2 where "scan_options fio schema ss2 flt' = (msgs2, Inl e)"
      using "1.prems"(2) w o by (auto simp: scan_options.simps [of fio schema ss flt] split: prod.splits)
    then show ?thesis using "1.IH" [OF w [symmetric] refl o [symmetric] refl Inr "1.prems"(1)] by blast
  qed
qed

section \<open>Handlers\<close>

lemma on_db_apply: "m (cli_db s) = (r, db) \<Longrightarrow> on_db m s = (r, s\<lparr>cli_db := db\<rparr>)"
  by (simp add: on_db_def zoomS_def)

lemma on_db_schema [simp]: "on_db (getS f) s = (Inr (f (cli_db s)), s)"
  by (simp add: on_db_def zoomS_def)

text \<open>A handler does what its action says, whatever it throws.\<close>

definition performs :: "float_io \<Rightarrow> Schema \<Rightarrow> u32 \<Rightarrow> rows_map \<Rightarrow> cli_action \<Rightarrow> (Cli, unit) prog \<Rightarrow> Cli \<Rightarrow> bool" where
  "performs fio schema n m a h s \<longleftrightarrow> (\<exists>t db n'.
     catch_print h s = (Inr (), \<lparr>cli_db = db, cli_out = cli_out s @ t, cli_err = cli_err s @ action_err fio schema a m\<rparr>)
     \<and> action_out fio schema a m t \<and> db_rel True schema CLZ4 n' db (action_map schema a m) \<and> unat n' \<le> unat n + 1)"

lemma performs_return:
  assumes "h s = (Inr (), \<lparr>cli_db = db, cli_out = cli_out s @ t, cli_err = cli_err s @ action_err fio schema a m\<rparr>)"
    and "action_out fio schema a m t" and "db_rel True schema CLZ4 n' db (action_map schema a m)" and "unat n' \<le> unat n + 1"
  shows "performs fio schema n m a h s"
  using assms unfolding performs_def by (intro exI [of _ t] exI [of _ db] exI [of _ n']) (simp add: catch_print_def)

lemma first_error_exception:
  "first_error err key xs seen = Some e \<Longrightarrow> (\<And>seen x e. err seen x = Some e \<Longrightarrow> any_exception e) \<Longrightarrow> any_exception e"
  by (induction err key xs seen rule: first_error.induct) (auto split: option.splits)

lemma map_call_exception: "fst (map_call schema call m) = Inl e \<Longrightarrow> any_exception e"
  by (cases call)
     (auto simp: any_exception_def guarded_def insert_error_def erase_error_def update_error_def
      split: option.splits if_splits dest!: first_error_exception [unfolded any_exception_def])

lemma performs_cerr:
  assumes "db_rel True schema CLZ4 n (cli_db s) m"
  shows "performs fio schema n m (Complain msg) (cerr msg) s"
  by (rule performs_return [where t = "[]" and n' = n and db = "cli_db s"]) (use assms in \<open>simp_all add: cerr_def\<close>)

lemma performs_cout:
  assumes "db_rel True schema CLZ4 n (cli_db s) m" and "action_out fio schema a m t" and "action_err fio schema a m = []"
    and "action_map schema a m = m"
  shows "performs fio schema n m a (cout t) s"
  by (rule performs_return [where t = t and n' = n and db = "cli_db s"]) (use assms in \<open>simp_all add: cout_def\<close>)

text \<open>A handler that makes one call and goes on with \<open>k\<close>.\<close>

lemma performs_call:
  assumes "db_rel True schema CLZ4 n (cli_db s) m" and "good_op schema CLZ4 call" and "length (op_rows call) \<le> 1" and "unat n + 1 < 2 ^ 32"
    and "db_call call = answer f prog"
    and "\<And>x db n'. fst (map_call schema call m) = Inr (f x) \<Longrightarrow> db_rel True schema CLZ4 n' db (snd (map_call schema call m)) \<Longrightarrow>
      k x (s\<lparr>cli_db := db\<rparr>) = (Inr (), \<lparr>cli_db = db, cli_out = cli_out s @ fst (reply fio schema call (Inr (f x))),
        cli_err = cli_err s @ snd (reply fio schema call (Inr (f x)))\<rparr>)"
  shows "performs fio schema n m (Call call) (bindS (on_db prog) k) s"
proof -
  let ?spec = "map_call schema call m"
  have "refined schema CLZ4 n (length (op_rows call)) (op_changes schema call m) (cli_db s) (db_call call (cli_db s)) ?spec"
    using assms(3,4) by (intro db_call_refined [OF assms(1,2)]) simp
  then obtain db n' where r: "answer f prog (cli_db s) = (fst ?spec, db)" "db_rel True schema CLZ4 n' db (snd ?spec)" "unat n' \<le> unat n + 1"
    using assms(3,5) by (auto simp: refined_def)
  show ?thesis
  proof (cases "prog (cli_db s)")
    case (Pair res db')
    show ?thesis
    proof (cases res)
      case (Inl e)
      then have e: "fst ?spec = Inl e" "db' = db" using r(1) Pair by (simp_all add: answer_def bindS_def)
      then have "any_exception e"
        by (intro map_call_exception [of schema call m]) simp
      then have "catch_print (bindS (on_db prog) k) s = cerr (ErrorWhat e) (s\<lparr>cli_db := db\<rparr>)"
        using Pair Inl e(2) by (simp add: catch_print_def bindS_def on_db_apply)
      then show ?thesis unfolding performs_def using e r(2,3)
        by (intro exI [of _ "[]"] exI [of _ db] exI [of _ n']) (simp add: cerr_def)
    next
      case (Inr x)
      then have x: "fst ?spec = Inr (f x)" "db' = db" using r(1) Pair by (simp_all add: answer_def bindS_def)
      show ?thesis
        by (rule performs_return [where n' = n' and db = db and t = "fst (reply fio schema call (Inr (f x)))"])
           (use Pair Inr x r(2,3) assms(6) [OF x(1) r(2)] in \<open>simp_all add: bindS_def on_db_apply\<close>)
    qed
  qed
qed

lemma stored_rows_typed:
  assumes "db_rel b schema ct n db m" and "r \<in> ran m"
  shows "row_typed schema r"
  using assms stored_row_ok(1) by (auto simp: ran_def fitting_row_def storable_row_def)

lemma performs_get:
  assumes "db_rel True schema CLZ4 n (cli_db s) m" and "unat n + 1 < 2 ^ 32"
  shows "performs fio schema n m (Call (DbTryGet i))
    (bindS (on_db (try_get i)) (\<lambda>found. case found of
       Some row \<Rightarrow> bindS (on_db (getS db_schema)) (\<lambda>schema. bindS (liftR (print_row fio schema row)) cout)
     | None \<Rightarrow> cerr (NotFoundId i))) s"
proof (rule performs_call [OF assms(1) _ _ assms(2), where f = Maybe])
  fix x db n'
  assume x: "fst (map_call schema (DbTryGet i) m) = Inr (Maybe x)" and rel: "db_rel True schema CLZ4 n' db (snd (map_call schema (DbTryGet i) m))"
  show "(case x of Some row \<Rightarrow> bindS (on_db (getS db_schema)) (\<lambda>schema. bindS (liftR (print_row fio schema row)) cout)
       | None \<Rightarrow> cerr (NotFoundId i)) (s\<lparr>cli_db := db\<rparr>) =
     (Inr (), \<lparr>cli_db = db, cli_out = cli_out s @ fst (reply fio schema (DbTryGet i) (Inr (Maybe x))),
        cli_err = cli_err s @ snd (reply fio schema (DbTryGet i) (Inr (Maybe x)))\<rparr>)"
  proof (cases x)
    case (Some r)
    then have "row_typed schema r" using x rel stored_rows_typed [OF assms(1)] by (auto intro: ranI)
    then show ?thesis using Some rel db_relD(3) [OF rel] by (simp add: bindS_def cout_def typed_row_line)
  qed (simp add: cerr_def)
qed simp_all

lemma performs_search:
  assumes "db_rel True schema CLZ4 n (cli_db s) m"
  shows "performs fio schema n m (Search msgs flt)
    (bindS (cerr_all msgs) (\<lambda>_. bindS (liftR (Inr flt)) (\<lambda>f.
       bindS (on_db (scan (print_visitor fio schema) f ([], 0))) (\<lambda>(text, count). cout (text @ show_nat count @ '' row(s)'' @ endl))))) s"
proof -
  obtain rows where r: "\<forall>(visitor :: (string \<times> nat) visitor) acc.
      \<exists>db'. scan visitor flt acc (cli_db s) = (visit_all visitor rows acc, db') \<and> db_rel True schema CLZ4 n db' m"
    "set rows = {r \<in> ran m. satisfies flt schema r}" "distinct (map row_id rows)" by (rule scan_ok [OF assms, of flt])
  then obtain db' where s: "scan (print_visitor fio schema) flt ([], 0) (cli_db s) = (visit_all (print_visitor fio schema) rows ([], 0), db')"
    "db_rel True schema CLZ4 n db' m" by blast
  have "\<forall>r \<in> set rows. row_typed schema r" using r(2) stored_rows_typed [OF assms] by auto
  note v = visit_print [OF this, of fio "[]" 0]
  let ?t = "concat (map (row_line fio schema) rows) @ show_nat (length rows) @ '' row(s)'' @ endl"
  show ?thesis
    by (rule performs_return [where t = ?t and n' = n and db = db'])
       (use s v r(2) r(3) in \<open>auto simp: bindS_def cerr_all_apply on_db_apply cout_def distinct_map\<close>)
qed

lemma performs_search_error:
  assumes "db_rel True schema CLZ4 n (cli_db s) m" and "any_exception e"
  shows "performs fio schema n m (SearchFails msgs e) (bindS (cerr_all msgs) (\<lambda>_. bindS (liftR (Inl e)) k)) s"
  using assms unfolding performs_def
  by (intro exI [of _ "[]"] exI [of _ "cli_db s"] exI [of _ n]) (simp add: catch_print_def bindS_def cerr_all_apply cerr_def)

lemma stats_ok:
  assumes "db_rel True schema ct n db m"
  shows "\<exists>st. stats db = (Inr st, db) \<and> st_row_count st = card (dom m)"
proof -
  note d = db_relD [OF assms]
  obtain R where rel: "db_state True schema ct R n db" "m = table R (places (db_index db))" by (rule db_relE [OF assms])
  note s = store_relD [OF db_stateD(5) [OF rel(1)]]
  have "se_fd (db_storage db)" using s(1) file_okD(1) core_okD(1) unfolding pager_ok_def by blast
  then have "file_size (db_storage db) = (Inr (word_of_nat (length (se_contents (db_storage db)))), db_storage db)"
    by (simp add: file_size_def)
  moreover have "dom m = dom (im_find (db_index db))" using rel(2) by (auto simp: table_def places_def split: option.splits)
  ultimately show ?thesis using d(1,2) im_size_card [OF s(2)]
    by (simp add: stats_def bindS_def on_pager_def on_core_def on_storage_def zoomS_def)
qed

lemma performs_stats:
  assumes "db_rel True schema CLZ4 n (cli_db s) m"
  shows "performs fio schema n m ShowStats handle_stats s"
proof -
  obtain st where st: "stats (cli_db s) = (Inr st, cli_db s)" "st_row_count st = card (dom m)" using stats_ok [OF assms] by blast
  show ?thesis
    by (rule performs_return [where t = "stats_text st" and n' = n and db = "cli_db s"])
       (use assms st in \<open>simp_all add: handle_stats_def bindS_def on_db_apply cout_def stats_text_def\<close>)
qed

lemma performs_row:
  assumes "db_rel True schema CLZ4 n (cli_db s) m" and "unat n + 1 < 2 ^ 32" and "call = DbInsert \<or> call = DbUpdate"
    and "\<And>r. row_action fio schema usage call ss = Call (call r) \<Longrightarrow> good_op schema CLZ4 (call r)"
    and "\<And>r. db_call (call r) = answer (\<lambda>_. Done) (prog r)"
    and "\<And>r. fst (reply fio schema (call r) (Inr Done)) = text (row_id r)"
  shows "performs fio schema n m (row_action fio schema usage call ss)
    (bindS (on_db (getS db_schema)) (\<lambda>schema. case read_uint32 ss of
       (None, _) \<Rightarrow> cerr usage
     | (Some i, ss') \<Rightarrow> (case read_values fio (s_fields schema) ss' of
           Inl msg \<Rightarrow> cerr msg
         | Inr fv \<Rightarrow> bindS (on_db (prog \<lparr>row_id = i, row_fields = fv\<rparr>)) (\<lambda>_. cout (text i))))) s"
proof -
  let ?k = "\<lambda>schema. case read_uint32 ss of
       (None, _) \<Rightarrow> cerr usage
     | (Some i, ss') \<Rightarrow> (case read_values fio (s_fields schema) ss' of
           Inl msg \<Rightarrow> cerr msg
         | Inr fv \<Rightarrow> bindS (on_db (prog \<lparr>row_id = i, row_fields = fv\<rparr>)) (\<lambda>_. cout (text i)))"
  have k: "catch_print (bindS (on_db (getS db_schema)) ?k) s = catch_print (?k schema) s"
    using db_relD(3) [OF assms(1)] by (simp add: catch_print_def bindS_def)
  have "performs fio schema n m (row_action fio schema usage call ss) (?k schema) s"
  proof (cases "read_uint32 ss")
    case (Pair found ss')
    show ?thesis
    proof (cases found)
      case None
      then show ?thesis using Pair performs_cerr [OF assms(1)] by (simp add: row_action_def)
    next
      case (Some i)
      show ?thesis
      proof (cases "read_values fio (s_fields schema) ss'")
        case (Inl msg)
        then show ?thesis using Pair Some performs_cerr [OF assms(1)] by (simp add: row_action_def)
      next
        case (Inr fv)
        let ?r = "\<lparr>row_id = i, row_fields = fv\<rparr>"
        have a: "row_action fio schema usage call ss = Call (call ?r)" using Pair Some Inr by (simp add: row_action_def)
        have "performs fio schema n m (Call (call ?r)) (bindS (on_db (prog ?r)) (\<lambda>_. cout (text i))) s"
          by (rule performs_call [OF assms(1) assms(4) [OF a] _ assms(2) assms(5)])
             (use assms(3) assms(6) [of ?r] in \<open>auto simp: cout_def\<close>)
        then show ?thesis using Pair Some Inr a by simp
      qed
    qed
  qed
  then show ?thesis unfolding performs_def k .
qed

lemma performs_schema:
  assumes "db_rel True schema CLZ4 n (cli_db s) m" and "performs fio schema n m a (h schema) s"
  shows "performs fio schema n m a (bindS (on_db (getS db_schema)) h) s"
  using assms(2) db_relD(3) [OF assms(1)] unfolding performs_def by (simp add: catch_print_def bindS_def)

lemma performs_delete:
  assumes "db_rel True schema CLZ4 n (cli_db s) m" and "unat n + 1 < 2 ^ 32"
  shows "performs fio schema n m (id_action UsageDelete DbErase ss) (handle_delete ss) s"
proof -
  have "performs fio schema n m (Call (DbErase i)) (bindS (on_db (db_erase i)) (\<lambda>_. cout (''Deleted id='' @ show_nat (unat i) @ endl))) s" for i
    by (rule performs_call [OF assms(1) _ _ assms(2), where f = "\<lambda>_. Done"]) (simp_all add: cout_def)
  then show ?thesis
    using performs_cerr [OF assms(1)] by (cases "read_uint32 ss") (auto simp: id_action_def handle_delete_def split: option.split)
qed

lemma performs_get_line:
  assumes "db_rel True schema CLZ4 n (cli_db s) m" and "unat n + 1 < 2 ^ 32"
  shows "performs fio schema n m (id_action UsageGet DbTryGet ss) (handle_get fio ss) s"
  using performs_cerr [OF assms(1)] performs_get [OF assms]
  by (cases "read_uint32 ss") (auto simp: id_action_def handle_get_def split: option.split)

lemma performs_scan:
  assumes "db_rel True schema CLZ4 n (cli_db s) m" and "stof_throws fio"
  shows "performs fio schema n m (command_action fio schema ''scan'' ss) (handle_scan fio ss) s"
proof -
  obtain msgs r where o: "scan_options fio schema ss [] = (msgs, r)" by (cases "scan_options fio schema ss []")
  show ?thesis
    unfolding handle_scan_def
    by (rule performs_schema [OF assms(1)], cases r)
       (use o performs_search [OF assms(1)] performs_search_error [OF assms(1) scan_options_error [OF assms(2)]]
        in \<open>simp_all add: command_action_def\<close>)
qed

lemma performs_index:
  assumes "db_rel True schema CLZ4 n (cli_db s) m" and "unat n + 1 < 2 ^ 32"
  shows "performs fio schema n m (Call (DbCreateIndex (fst (read_value_or_empty ss)))) (handle_index ss) s"
  unfolding handle_index_def Let_def
  by (rule performs_call [OF assms(1) _ _ assms(2), where f = "\<lambda>_. Done"]) (simp_all add: cout_def)

lemma performs_checkpoint:
  assumes "db_rel True schema CLZ4 n (cli_db s) m" and "unat n + 1 < 2 ^ 32"
  shows "performs fio schema n m (Call DbCheckpoint) (bindS (on_db checkpoint) (\<lambda>_. cout (''Checkpoint done'' @ endl))) s"
  by (rule performs_call [OF assms(1) _ _ assms(2), where f = "\<lambda>_. Done"]) (simp_all add: cout_def)

lemma performs_show_schema:
  assumes "db_rel True schema CLZ4 n (cli_db s) m"
  shows "performs fio schema n m ShowSchema (bindS (on_db (getS db_schema)) print_schema) s"
  by (rule performs_schema [OF assms]) (use performs_cout [OF assms] in \<open>simp add: print_schema_def\<close>)

lemma performs_help:
  assumes "db_rel True schema CLZ4 n (cli_db s) m"
  shows "performs fio schema n m ShowHelp (bindS (on_db (getS db_schema)) print_help) s"
proof -
  have "bindS (cout help_text) (\<lambda>_. print_schema schema) = cout (help_text @ schema_text schema)"
    by (auto simp: bindS_def cout_def print_schema_def)
  then show ?thesis by (intro performs_schema [OF assms]) (use performs_cout [OF assms] in \<open>simp add: print_help_def\<close>)
qed

lemma dispatch_performs:
  assumes "db_rel True schema CLZ4 n (cli_db s) m" and "unat n + 1 < 2 ^ 32" and "stof_throws fio"
    and "\<And>call. command_action fio schema cmd ss = Call call \<Longrightarrow> good_op schema CLZ4 call"
  shows "performs fio schema n m (command_action fio schema cmd ss) (dispatch fio cmd ss) s"
proof -
  consider "cmd = ''insert''" | "cmd = ''update''"
    | "cmd \<in> {''delete'', ''erase'', ''get'', ''scan'', ''index'', ''schema'', ''stats'', ''checkpoint'', ''help''}"
    | "command_action fio schema cmd ss = Complain (UnknownCommand cmd)" "dispatch fio cmd ss = cerr (UnknownCommand cmd)"
    unfolding command_action_def dispatch_def insert_iff empty_iff by argo
  then show ?thesis
  proof cases
    case 1
    have "performs fio schema n m (row_action fio schema UsageInsert DbInsert ss) (handle_insert fio ss) s"
      unfolding handle_insert_def
      by (rule performs_row [OF assms(1,2)]) (use 1 assms(4) in \<open>auto simp: command_action_def\<close>)
    then show ?thesis using 1 by (simp add: command_action_def dispatch_def)
  next
    case 2
    have "performs fio schema n m (row_action fio schema UsageUpdate DbUpdate ss) (handle_update fio ss) s"
      unfolding handle_update_def
      by (rule performs_row [OF assms(1,2)]) (use 2 assms(4) in \<open>auto simp: command_action_def\<close>)
    then show ?thesis using 2 by (simp add: command_action_def dispatch_def)
  next
    case 3
    then show ?thesis
      using performs_delete [OF assms(1,2)] performs_get_line [OF assms(1,2)] performs_scan [OF assms(1,3)] performs_index [OF assms(1,2)]
        performs_show_schema [OF assms(1)] performs_stats [OF assms(1)] performs_checkpoint [OF assms(1,2)] performs_help [OF assms(1)]
      by (elim insertE emptyE) (simp_all add: command_action_def dispatch_def)
  next
    case 4
    then show ?thesis using performs_cerr [OF assms(1)] by simp
  qed
qed

section \<open>The loop and the program\<close>

lemma command_not_stop: "command_action fio schema cmd ss \<noteq> Stop"
  by (simp add: command_action_def row_action_def id_action_def split: option.split prod.split sum.split)

lemma line_performs:
  assumes "db_rel True schema CLZ4 n (cli_db s) m" and "unat n + 1 < 2 ^ 32" and "stof_throws fio" and "good_line fio schema line"
  defines "a \<equiv> line_action fio schema line"
  shows "\<exists>t db n'. cli_line fio line s = (Inr (a \<noteq> Stop), \<lparr>cli_db = db, cli_out = cli_out s @ t, cli_err = cli_err s @ action_err fio schema a m\<rparr>)
    \<and> action_out fio schema a m t \<and> db_rel True schema CLZ4 n' db (action_map schema a m) \<and> unat n' \<le> unat n + 1"
proof -
  let ?l = "dropWhile (\<lambda>c. c = CHR '' '' \<or> c = CHR 0x09) line"
  obtain cmd ss where c: "read_value_or_empty (string_stream ?l) = (cmd, ss)" by (cases "read_value_or_empty (string_stream ?l)")
  consider "?l = [] \<or> hd ?l = CHR 0x23" | "\<not> (?l = [] \<or> hd ?l = CHR 0x23)" "cmd = ''quit'' \<or> cmd = ''exit''"
    | "\<not> (?l = [] \<or> hd ?l = CHR 0x23)" "\<not> (cmd = ''quit'' \<or> cmd = ''exit'')" by blast
  then show ?thesis
  proof cases
    case 1
    then have "cli_line fio line s = (Inr True, s)" "a = Skip"
      by (auto simp: cli_line_def a_def line_action_def Let_def)
    then show ?thesis using assms(1) by (intro exI [of _ "[]"] exI [of _ "cli_db s"] exI [of _ n]) simp
  next
    case 2
    then have "cli_line fio line s = (Inr False, s)" "a = Stop"
      using c by (auto simp: cli_line_def a_def line_action_def Let_def)
    then show ?thesis using assms(1) by (intro exI [of _ "[]"] exI [of _ "cli_db s"] exI [of _ n]) simp
  next
    case 3
    then have line: "cli_line fio line = bindS (catch_print (dispatch fio cmd ss)) (\<lambda>_. returnS True)" "a = command_action fio schema cmd ss"
      using c by (simp_all add: cli_line_def a_def line_action_def Let_def del: dropWhile_eq_Nil_conv)
    then have "good_op schema CLZ4 call" if "command_action fio schema cmd ss = Call call" for call
      using assms(4) that by (simp add: good_line_def a_def)
    then have "performs fio schema n m a (dispatch fio cmd ss) s"
      unfolding line(2) by (rule dispatch_performs [OF assms(1-3)])
    then show ?thesis using line command_not_stop by (fastforce simp: performs_def bindS_def)
  qed
qed

lemma loop_runs:
  assumes "db_rel True schema CLZ4 n (cli_db s) m" and "unat n + length lines < 2 ^ 32" and "stof_throws fio" and "\<forall>line \<in> set lines. good_line fio schema line"
  shows "\<exists>t errs db n' m'. cli_loop fio False lines s = (Inr (), \<lparr>cli_db = db, cli_out = cli_out s @ t, cli_err = cli_err s @ errs\<rparr>)
    \<and> script_run fio schema lines m t errs m' \<and> db_rel True schema CLZ4 n' db m' \<and> unat n' \<le> unat n + length lines"
  using assms
proof (induction lines arbitrary: n s m)
  case Nil
  then show ?case
    by (intro exI [of _ "[]"] exI [of _ "[]"] exI [of _ "cli_db s"] exI [of _ n] exI [of _ m])
       (simp add: prompt_def script_run.finish)
next
  case (Cons line lines)
  let ?a = "line_action fio schema line"
  obtain t db n1 where l: "cli_line fio line s = (Inr (?a \<noteq> Stop), \<lparr>cli_db = db, cli_out = cli_out s @ t, cli_err = cli_err s @ action_err fio schema ?a m\<rparr>)"
    "action_out fio schema ?a m t" "db_rel True schema CLZ4 n1 db (action_map schema ?a m)" "unat n1 \<le> unat n + 1"
    using line_performs [OF Cons.prems(1) _ Cons.prems(3), of line] Cons.prems(2,4) by auto
  show ?case
  proof (cases "?a = Stop")
    case True
    then show ?thesis using l
      by (intro exI [of _ "[]"] exI [of _ "[]"] exI [of _ db] exI [of _ n1] exI [of _ m])
         (simp add: bindS_def prompt_def script_run.halt)
  next
    case False
    let ?s = "\<lparr>cli_db = db, cli_out = cli_out s @ t, cli_err = cli_err s @ action_err fio schema ?a m\<rparr>"
    obtain t' errs db' n' m' where r: "cli_loop fio False lines ?s = (Inr (), \<lparr>cli_db = db', cli_out = cli_out ?s @ t', cli_err = cli_err ?s @ errs\<rparr>)"
      "script_run fio schema lines (action_map schema ?a m) t' errs m'" "db_rel True schema CLZ4 n' db' m'" "unat n' \<le> unat n1 + length lines"
      using Cons.IH [of n1 ?s "action_map schema ?a m"] l(3,4) Cons.prems(2-4) by auto
    have "script_run fio schema (line # lines) m (t @ t') (action_err fio schema ?a m @ errs) m'"
      by (rule script_run.proceed [OF refl False l(2) r(2)])
    then show ?thesis using l(1,4) r(1,3,4) False
      by (intro exI [of _ "t @ t'"] exI [of _ "action_err fio schema ?a m @ errs"] exI [of _ db'] exI [of _ n'] exI [of _ m'])
         (simp add: bindS_def prompt_def)
  qed
qed

lemma session_runs:
  assumes "db_open db = (Inr (), db1)" and "db_rel True schema CLZ4 n db1 m" and "unat n + length lines < 2 ^ 32" and "stof_throws fio"
    and "\<forall>line \<in> set lines. good_line fio schema line"
  obtains out errs db' n' m' c where
    "cli_session fio False path lines \<lparr>cli_db = db, cli_out = [], cli_err = []\<rparr> = (Inr 0, \<lparr>cli_db = db', cli_out = out, cli_err = errs\<rparr>)"
    "script_run fio schema lines m out errs m'" "disk_holds schema CLZ4 n' m' c" "unat n' \<le> unat n + length lines"
    "se_durable (db_storage db') = se_contents c" "wal_durable (db_wal db') = wal_header"
proof -
  let ?s = "\<lparr>cli_db = db1, cli_out = [], cli_err = []\<rparr>"
  obtain t errs db2 n' m' where l: "cli_loop fio False lines ?s = (Inr (), \<lparr>cli_db = db2, cli_out = t, cli_err = errs\<rparr>)"
    "script_run fio schema lines m t errs m'" "db_rel True schema CLZ4 n' db2 m'" "unat n' \<le> unat n + length lines"
    using loop_runs [OF _ assms(3-5), of ?s m] assms(2) by auto
  obtain db3 c where c: "db_close db2 = (Inr (), db3)" "\<not> db_is_open db3" "disk_holds schema CLZ4 n' m' c"
    "se_durable (db_storage db3) = se_contents c" "wal_durable (db_wal db3) = wal_header" by (rule close_ok [OF l(3)])
  have "cli_session fio False path lines \<lparr>cli_db = db, cli_out = [], cli_err = []\<rparr> = (Inr 0, \<lparr>cli_db = db3, cli_out = t, cli_err = errs\<rparr>)"
    using assms(1) l(1) c(1,2)
    by (simp add: cli_session_def on_db_apply banner_def bindS_def catchS_def db_destroy_def)
  then show thesis using that l(2,4) c(3-5) by blast
qed

section \<open>Properties\<close>

text \<open>
  C7: two runs of the program, end to end. Started on a path with no file with a schema argument, and fed any lines, the program ends with
  status 0, and what it prints is what the specification says: every line acts on a map from ids to rows that is empty at first,
  an insertion is confirmed or refused, a lookup prints the row of the map, a scan prints the rows that satisfy its options, a
  malformed line gives its message and changes nothing. Started again on what the first run left on the disk, without a schema or
  with the same fields, it goes on from the map the first run ended with.
\<close>

theorem cli_runs_specification:
  assumes "parse_args args \<lparr>s_fields = [], s_version = 1\<rparr> = Inr schema" and "storable_schema schema" and "validate schema = Inr ()"
    and "parse_args args' \<lparr>s_fields = [], s_version = 1\<rparr> = Inr schema'"
    and "s_fields schema' = [] \<or> schemas_match schema schema' \<and> validate schema' = Inr ()"
    and "stof_throws fio" and "good_script script" and "good_script script'"
    and "\<forall>line \<in> set (lines @ lines'). good_line fio schema line" and "length (lines @ lines') < 2 ^ 32"
  shows "\<exists>m m' db. (let p = cli_main fio False (name # path # args) None None script lines;
      p' = cli_main fio False (name # path # args') (Some (se_durable (db_storage db))) (Some (wal_durable (db_wal db))) script' lines'
    in pr_status p = Inr 0 \<and> script_run fio schema lines Map.empty (pr_out p) (pr_err p) m \<and> pr_db p = Some db
     \<and> pr_status p' = Inr 0 \<and> script_run fio schema lines' m (pr_out p') (pr_err p') m')"
proof -
  have ct: "CLZ4 \<in> {CNone, CLZ4}" by simp
  obtain db0 db1 where o: "db_new schema CLZ4 DEFAULT_CACHE_SIZE None None script = Inr db0" "db_open db0 = (Inr (), db1)"
    "db_rel True schema CLZ4 0 db1 Map.empty" by (rule open_fresh [OF assms(2,3) ct assms(7), of DEFAULT_CACHE_SIZE])
  obtain out errs db n m c where s: "cli_session fio False path lines \<lparr>cli_db = db0, cli_out = [], cli_err = []\<rparr>
      = (Inr 0, \<lparr>cli_db = db, cli_out = out, cli_err = errs\<rparr>)"
    "script_run fio schema lines Map.empty out errs m" "disk_holds schema CLZ4 n m c" "unat n \<le> unat (0 :: u32) + length lines"
    "se_durable (db_storage db) = se_contents c" "wal_durable (db_wal db) = wal_header"
    by (rule session_runs [OF o(2,3), of lines fio path]) (use assms(6,9,10) in auto)
  obtain db2 db3 where o': "db_new schema' CLZ4 DEFAULT_CACHE_SIZE (Some (se_contents c)) (Some wal_header) script' = Inr db2"
    "db_open db2 = (Inr (), db3)" "db_rel True schema CLZ4 n db3 m" by (rule reopened [OF s(3) assms(8,5), of DEFAULT_CACHE_SIZE])
  obtain out' errs' db' n' m' c' where s': "cli_session fio False path lines' \<lparr>cli_db = db2, cli_out = [], cli_err = []\<rparr>
      = (Inr 0, \<lparr>cli_db = db', cli_out = out', cli_err = errs'\<rparr>)" "script_run fio schema lines' m out' errs' m'"
    by (rule session_runs [OF o'(2,3), of lines' fio path]) (use assms(6,9,10) s(4) in auto)
  show ?thesis
    by (intro exI [of _ m] exI [of _ m'] exI [of _ db])
       (use assms(1,4) o(1) o'(1) s s' in \<open>simp add: cli_main_def Let_def\<close>)
qed

definition no_floats :: float_io where
  "no_floats = \<lparr>fio_stof = (\<lambda>_. Inl InvalidArgument), fio_fixed2 = (\<lambda>_. [])\<rparr>"

lemma stof_throws_no_floats: "stof_throws no_floats"
  by (simp add: stof_throws_def no_floats_def)

lemmas reading_simps = line_action_def command_action_def row_action_def id_action_def read_value_or_empty_def read_word_def
  read_uint32_def string_stream_def scan_number_def scan_sign_def is_space_def is_digit_def digits_value_def digit_value_def
  parse_value_def stoul_def demo_schema_def demo_row_def Let_def

lemma demo_lines:
  "line_action no_floats demo_schema ''insert 1 25 alice'' = Call (DbInsert (demo_row 1 25 ''alice''))"
  "line_action no_floats demo_schema ''insert 1 30 bob'' = Call (DbInsert (demo_row 1 30 ''bob''))"
  "line_action no_floats demo_schema ''insert 2 x bob'' = Complain (BadValue ''age'' ''uint32'' ''x'')"
  "line_action no_floats demo_schema ''get 1'' = Call (DbTryGet 1)"
  by (simp_all add: reading_simps)

lemma show_nat_small: "show_nat 1 = ''1''" "show_nat (Suc 0) = ''1''" "show_nat 25 = ''25''"
  by code_simp+

lemma demo_row_line: "row_line no_floats demo_schema (demo_row 1 25 ''alice'') = ''id=     1  age=    25  name=alice       '' @ endl"
  by (simp add: row_line_def print_row_def field_text_def get_uint32_def get_string_def vec_at_def demo_schema_def demo_row_def
      setw_def setw_left_def show_nat_small) code_simp

lemma demo_args: "parse_args [''--schema'', ''age:uint32,name:string''] \<lparr>s_fields = [], s_version = 1\<rparr> = Inr demo_schema"
  by (simp add: parse_schema_def split_getline.simps parse_schema_field_def parse_field_type_def demo_schema_def)

lemma demo_row_id: "row_id (demo_row i age name) = i"
  by (simp add: demo_row_def)

lemma demo_insert:
  "length name \<le> 100 \<Longrightarrow> map_call demo_schema (DbInsert (demo_row i age name)) m =
     (if m i = None then (Inr Done, m(i \<mapsto> demo_row i age name)) else (Inl DuplicateKeyError, m))"
  by (simp add: insert_error_def put_row_def) (simp add: demo_row_def demo_schema_def)

theorem cli_runs_specification_witness:
  "let p = cli_main no_floats False [''xdl'', ''people.xdl'', ''--schema'', ''age:uint32,name:string''] None None []
     [''insert 1 25 alice'', ''insert 1 30 bob'', ''insert 2 x bob''];
     db = the (pr_db p);
     p' = cli_main no_floats False [''xdl'', ''people.xdl''] (Some (se_durable (db_storage db))) (Some (wal_durable (db_wal db))) [] [''get 1'']
   in pr_status p = Inr 0 \<and> pr_out p = ''Inserted id=1'' @ endl \<and> pr_err p = [ErrorWhat DuplicateKeyError, BadValue ''age'' ''uint32'' ''x'']
     \<and> pr_status p' = Inr 0 \<and> pr_out p' = ''id=     1  age=    25  name=alice       '' @ endl \<and> pr_err p' = []"
proof -
  let ?lines = "[''insert 1 25 alice'', ''insert 1 30 bob'', ''insert 2 x bob'']" and ?args = "[''--schema'', ''age:uint32,name:string'']"
  have good: "\<forall>line \<in> set (?lines @ [''get 1'']). good_line no_floats demo_schema line" by (simp add: good_line_def demo_lines)
  obtain m m' db where r: "let p = cli_main no_floats False (''xdl'' # ''people.xdl'' # ?args) None None [] ?lines;
      p' = cli_main no_floats False (''xdl'' # ''people.xdl'' # []) (Some (se_durable (db_storage db))) (Some (wal_durable (db_wal db))) [] [''get 1'']
    in pr_status p = Inr 0 \<and> script_run no_floats demo_schema ?lines Map.empty (pr_out p) (pr_err p) m \<and> pr_db p = Some db
     \<and> pr_status p' = Inr 0 \<and> script_run no_floats demo_schema [''get 1''] m (pr_out p') (pr_err p') m'"
    using cli_runs_specification [of ?args demo_schema "[]" "\<lparr>s_fields = [], s_version = 1\<rparr>" no_floats "[]" "[]" ?lines "[''get 1'']" "''xdl''" "''people.xdl''"]
      demo_args storable_demo_schema validate_demo_schema stof_throws_no_floats good by (auto simp: good_script_def)
  have first: "out = ''Inserted id=1'' @ endl \<and> errs = [ErrorWhat DuplicateKeyError, BadValue ''age'' ''uint32'' ''x'']
      \<and> m = [1 \<mapsto> demo_row 1 25 ''alice'']" if "script_run no_floats demo_schema ?lines Map.empty out errs m" for out errs m
    using that by (elim script_run_ConsE script_run_NilE) (auto simp: demo_lines demo_insert demo_row_id show_nat_small simp del: map_call.simps)
  have second: "out = ''id=     1  age=    25  name=alice       '' @ endl \<and> errs = []"
    if "script_run no_floats demo_schema [''get 1''] [1 \<mapsto> demo_row 1 25 ''alice''] out errs m" for out errs m
    using that by (elim script_run_ConsE script_run_NilE) (auto simp: demo_lines demo_row_line)
  show ?thesis using r first second by (auto simp: Let_def)
qed

text \<open>The text of a value, as it is printed without padding.\<close>

fun value_text :: "float_io \<Rightarrow> FieldValue \<Rightarrow> string" where
  "value_text fio (VUint32 v) = show_nat (unat v)"
| "value_text fio (VInt64 v) = show_int (sint v)"
| "value_text fio (VFloat v) = fio_fixed2 fio v"
| "value_text fio (VBool b) = (if b then ''true'' else ''false'')"
| "value_text fio (VString s) = s"

text \<open>
  What the C library's conversions of floats are required to do: print a word, and read what they print. Reading a printed float gives
  the float its two decimals stand for, not the float that was printed.
\<close>

definition float_words :: "float_io \<Rightarrow> bool" where
  "float_words fio \<longleftrightarrow> (\<forall>x. fio_fixed2 fio x \<noteq> [] \<and> (\<forall>c \<in> set (fio_fixed2 fio x). \<not> is_space c) \<and> (\<exists>y. fio_stof fio (fio_fixed2 fio x) = Inr y))"

fun reread :: "float_io \<Rightarrow> FieldValue \<Rightarrow> FieldValue" where
  "reread fio (VFloat x) = (case fio_stof fio (fio_fixed2 fio x) of Inr y \<Rightarrow> VFloat y | Inl _ \<Rightarrow> VFloat x)"
| "reread fio v = v"

text \<open>A string that is one word.\<close>

fun is_word :: "FieldValue \<Rightarrow> bool" where
  "is_word (VString s) \<longleftrightarrow> s \<noteq> [] \<and> (\<forall>c \<in> set s. \<not> is_space c)"
| "is_word v \<longleftrightarrow> True"

definition values_text :: "float_io \<Rightarrow> FieldValue list \<Rightarrow> string" where
  "values_text fio vs = concat (map (\<lambda>v. CHR '' '' # value_text fio v) vs)"

lemma values_text_head: "values_text fio vs = [] \<or> is_space (hd (values_text fio vs))"
  by (cases vs) (simp_all add: values_text_def)

lemma ucast_small: "ucast (word_of_nat n :: u64) = (word_of_nat n :: u32)"
  by (simp add: word_unat_eq_iff unat_of_nat unsigned_ucast_eq take_bit_eq_mod mod_mod_cancel)

lemma parse_uint_text:
  "parse_value fio (show_nat n) UINT32 = (if n < 2 ^ 64 then Inr (VUint32 (word_of_nat n)) else Inl OutOfRange)"
proof -
  have "dropWhile is_space (show_nat n) = show_nat n" using show_nat_digits digit_not_space by (intro no_space_dropWhile) blast
  then show ?thesis using scan_show_nat [of "[]" n] by (simp add: parse_value_def stoul_def ucast_small)
qed

lemma value_text_word:
  assumes "float_words fio" and "is_word v"
  shows "value_text fio v \<noteq> []" and "\<forall>c \<in> set (value_text fio v). \<not> is_space c"
  using assms show_nat_digits digit_not_space number_word
  by (cases v; auto simp: float_words_def show_int_def is_space_def)+

lemma parse_value_text:
  assumes "value_has_type ft v" and "float_words fio"
  shows "parse_value fio (value_text fio v) ft = Inr (reread fio v)"
proof (cases v)
  case (VUint32 x)
  moreover have "unat x < 2 ^ 64" using unsigned_less [of x, where ?'a = nat] by simp
  ultimately show ?thesis using assms(1) by (cases ft) (simp_all add: parse_uint_text)
next
  case (VInt64 x)
  have "- (2 ^ 63) \<le> sint x" "sint x < 2 ^ 63" using sint_range_size [of x] by (simp_all add: word_size)
  then show ?thesis using assms(1) VInt64 stoll_show_int by (cases ft) (simp_all add: parse_value_def)
next
  case (VFloat x)
  obtain y where "fio_stof fio (fio_fixed2 fio x) = Inr y" using assms(2) by (auto simp: float_words_def)
  then show ?thesis using VFloat assms(1) by (cases ft) (simp_all add: parse_value_def)
qed (use assms(1) in \<open>cases ft; simp add: parse_value_def\<close>)+

lemma read_values_text:
  assumes "list_all2 (\<lambda>fd v. value_has_type (fd_type fd) v) fds vs" and "\<forall>v \<in> set vs. is_word v" and "float_words fio"
  shows "read_values fio fds \<lparr>ss_rest = values_text fio vs, ss_failed = False\<rparr> = Inr (map (reread fio) vs)"
  using assms(1,2)
proof (induction fds vs rule: list_all2_induct)
  case (Cons fd fds v vs)
  have "read_word \<lparr>ss_rest = CHR '' '' # value_text fio v @ values_text fio vs, ss_failed = False\<rparr>
      = (Some (value_text fio v), \<lparr>ss_rest = values_text fio vs, ss_failed = False\<rparr>)"
    using Cons.prems value_text_word [OF assms(3), of v] by (intro read_word_word(2) values_text_head) simp_all
  moreover have "parse_value fio (value_text fio v) (fd_type fd) = Inr (reread fio v)"
    by (rule parse_value_text [OF Cons.hyps(1) assms(3)])
  ultimately show ?case using Cons.IH Cons.prems by (simp add: values_text_def)
qed simp

lemma cli_line_command:
  assumes "w \<noteq> []" and "\<forall>c \<in> set w. \<not> is_space c" and "hd w \<noteq> CHR 0x23" and "w \<notin> {''quit'', ''exit''}"
  shows "cli_line fio (w @ CHR '' '' # rest) =
    bindS (catch_print (dispatch fio w \<lparr>ss_rest = CHR '' '' # rest, ss_failed = False\<rparr>)) (\<lambda>_. returnS True)"
proof -
  have "\<not> is_space (hd w)" using assms(1,2) by simp
  then have "\<not> (hd w = CHR '' '' \<or> hd w = CHR 0x09)" by (auto simp: is_space_def)
  then have "dropWhile (\<lambda>c. c = CHR '' '' \<or> c = CHR 0x09) (w @ CHR '' '' # rest) = w @ CHR '' '' # rest"
    using assms(1) by (cases w) simp_all
  moreover have "read_value_or_empty (string_stream (w @ CHR '' '' # rest)) = (w, \<lparr>ss_rest = CHR '' '' # rest, ss_failed = False\<rparr>)"
    using read_word_word(1) [OF assms(1,2), of "CHR '' '' # rest"] by (simp add: read_value_or_empty_def string_stream_def)
  ultimately show ?thesis using assms(1,3,4) by (simp add: cli_line_def)
qed

text \<open>
  C26: rows can be typed in as they are printed. For a row that conforms to the schema of the database and whose strings are words, the line \<open>insert\<close> with
  the id and the texts of the values, as the program prints them, inserts the row with every float replaced by the one its two printed decimals stand for, and \<open>update\<close> likewise; all
  other values are read back exactly. \<open>get\<close> and \<open>delete\<close> with the printed id look up and erase that id. It is required of the C library that it prints a float as a word and reads what it prints.
\<close>

theorem printed_rows_can_be_entered:
  assumes "row_typed (db_schema (cli_db s)) r" and "\<forall>v \<in> set (row_fields r). is_word v" and "float_words fio"
  shows "(let i = show_nat (unat (row_id r)); r' = r\<lparr>row_fields := map (reread fio) (row_fields r)\<rparr>;
      entered = (\<lambda>call done. bindS (catch_print (bindS (on_db call) (\<lambda>_. cout (done @ i @ endl)))) (\<lambda>_. returnS True) s)
    in cli_line fio (''insert '' @ i @ values_text fio (row_fields r)) s = entered (db_insert r') ''Inserted id=''
      \<and> cli_line fio (''update '' @ i @ values_text fio (row_fields r)) s = entered (db_update r') ''Updated id=''
      \<and> cli_line fio (''delete '' @ i) s = entered (db_erase (row_id r)) ''Deleted id=''
      \<and> cli_line fio (''get '' @ i) s = bindS (catch_print (bindS (on_db (try_get (row_id r))) (\<lambda>found. case found of
            Some row \<Rightarrow> bindS (on_db (getS db_schema)) (\<lambda>schema. bindS (liftR (print_row fio schema row)) cout)
          | None \<Rightarrow> cerr (NotFoundId (row_id r))))) (\<lambda>_. returnS True) s)"
proof -
  let ?i = "show_nat (unat (row_id r))" and ?vs = "values_text fio (row_fields r)" and ?schema = "db_schema (cli_db s)"
  have words: "\<forall>c \<in> set ''insert''. \<not> is_space c" "\<forall>c \<in> set ''update''. \<not> is_space c" "\<forall>c \<in> set ''delete''. \<not> is_space c" "\<forall>c \<in> set ''get''. \<not> is_space c"
    by (simp_all add: is_space_def)
  have i: "read_uint32 \<lparr>ss_rest = CHR '' '' # ?i @ ?vs, ss_failed = False\<rparr> = (Some (row_id r), \<lparr>ss_rest = ?vs, ss_failed = False\<rparr>)"
    "read_uint32 \<lparr>ss_rest = CHR '' '' # ?i, ss_failed = False\<rparr> = (Some (row_id r), \<lparr>ss_rest = [], ss_failed = False\<rparr>)"
    using read_uint32_show [OF values_text_head, of "row_id r"] read_uint32_show [of "[]" "row_id r"] by simp_all
  have v: "read_values fio (s_fields ?schema) \<lparr>ss_rest = ?vs, ss_failed = False\<rparr> = Inr (map (reread fio) (row_fields r))"
    using assms by (intro read_values_text) (simp_all add: row_typed_def)
  have blank: "''insert '' @ x = ''insert'' @ CHR '' '' # x" "''update '' @ x = ''update'' @ CHR '' '' # x" "''delete '' @ x = ''delete'' @ CHR '' '' # x"
    "''get '' @ x = ''get'' @ CHR '' '' # x" for x
    by simp_all
  have line: "cli_line fio (''insert'' @ CHR '' '' # x) = bindS (catch_print (handle_insert fio \<lparr>ss_rest = CHR '' '' # x, ss_failed = False\<rparr>)) (\<lambda>_. returnS True)"
    "cli_line fio (''update'' @ CHR '' '' # x) = bindS (catch_print (handle_update fio \<lparr>ss_rest = CHR '' '' # x, ss_failed = False\<rparr>)) (\<lambda>_. returnS True)"
    "cli_line fio (''delete'' @ CHR '' '' # x) = bindS (catch_print (handle_delete \<lparr>ss_rest = CHR '' '' # x, ss_failed = False\<rparr>)) (\<lambda>_. returnS True)"
    "cli_line fio (''get'' @ CHR '' '' # x) = bindS (catch_print (handle_get fio \<lparr>ss_rest = CHR '' '' # x, ss_failed = False\<rparr>)) (\<lambda>_. returnS True)" for x
    using cli_line_command [OF _ words(1), of fio x] cli_line_command [OF _ words(2), of fio x] cli_line_command [OF _ words(3), of fio x]
      cli_line_command [OF _ words(4), of fio x]
    by (simp_all add: dispatch_def)
  have row: "\<lparr>row_id = row_id r, row_fields = vs\<rparr> = r\<lparr>row_fields := vs\<rparr>" for vs by simp
  have get: "handle_get fio \<lparr>ss_rest = CHR '' '' # ?i, ss_failed = False\<rparr> = bindS (on_db (try_get (row_id r))) (\<lambda>found. case found of
            Some row \<Rightarrow> bindS (on_db (getS db_schema)) (\<lambda>schema. bindS (liftR (print_row fio schema row)) cout)
          | None \<Rightarrow> cerr (NotFoundId (row_id r)))" by (simp add: handle_get_def i(2))
  show ?thesis unfolding Let_def blank line get
    using i v by (simp add: row handle_insert_def handle_update_def handle_delete_def bindS_def catch_print_def del: append_Cons append_Nil)
qed

text \<open>The witness has a row with the float above one half, which is printed as \<open>0.50\<close> and read as one half.\<close>

definition demo_floats :: float_io where
  "demo_floats = \<lparr>fio_stof = (\<lambda>s. Inr (if s = ''0.50'' then 0x3F000000 else 0)),
     fio_fixed2 = (\<lambda>x. if x \<in> {0x3F000000, 0x3F000001} then ''0.50'' else ''0.00'')\<rparr>"

definition demo_float_schema :: Schema where
  "demo_float_schema = \<lparr>s_fields = [\<lparr>fd_name = ''name'', fd_type = STRING\<rparr>, \<lparr>fd_name = ''ratio'', fd_type = FLOAT32\<rparr>], s_version = 1\<rparr>"

theorem printed_rows_can_be_entered_witness:
  "\<exists>s. db_schema (cli_db s) = demo_float_schema \<and> cli_line demo_floats ''insert 1 bob 0.50'' s
    = bindS (catch_print (bindS (on_db (db_insert \<lparr>row_id = 1, row_fields = [VString ''bob'', VFloat 0x3F000000]\<rparr>)) (\<lambda>_. cout (''Inserted id='' @ ''1'' @ endl)))) (\<lambda>_. returnS True) s"
proof -
  have "validate demo_float_schema = Inr ()" by (simp add: validate_ok_iff demo_float_schema_def)
  then obtain db where db: "db_new demo_float_schema CLZ4 1 None None [] = Inr db" "db_schema db = demo_float_schema"
    by (auto simp: db_new_def Let_def demo_float_schema_def)
  let ?s = "\<lparr>cli_db = db, cli_out = [], cli_err = []\<rparr>" and ?r = "\<lparr>row_id = 1, row_fields = [VString ''bob'', VFloat 0x3F000001]\<rparr>"
  have typed: "row_typed (db_schema (cli_db ?s)) ?r" using db(2) by (simp add: row_typed_def demo_float_schema_def)
  have word: "\<forall>v \<in> set (row_fields ?r). is_word v" by (simp add: is_space_def)
  have floats: "float_words demo_floats" by (auto simp: float_words_def demo_floats_def is_space_def)
  have entered: "''insert '' @ show_nat (unat (row_id ?r)) @ values_text demo_floats (row_fields ?r) = ''insert 1 bob 0.50''"
    by (simp add: values_text_def demo_floats_def show_nat_small)
  have "map (reread demo_floats) (row_fields ?r) = [VString ''bob'', VFloat 0x3F000000]" by (simp add: demo_floats_def)
  then show ?thesis using printed_rows_can_be_entered [OF typed word floats, unfolded Let_def entered] db(2)
    by (intro exI [of _ ?s]) (simp add: show_nat_small)
qed

text \<open>
  C27: numbers out of range. As a value of a \<open>uint32\<close> field the program takes every number below \<open>2 ^ 64\<close> and silently stores it modulo
  \<open>2 ^ 32\<close>; only from \<open>2 ^ 64\<close> on it complains. As a row id a number from \<open>2 ^ 32\<close> on is refused.
\<close>

theorem uint32_input_bounds:
  "parse_value fio (show_nat n) UINT32 = (if n < 2 ^ 64 then Inr (VUint32 (word_of_nat n)) else Inl OutOfRange)
   \<and> fst (read_uint32 (string_stream (show_nat n))) = (if n < 2 ^ 32 then Some (word_of_nat n) else None)"
proof -
  have "dropWhile is_space (show_nat n) = show_nat n" using show_nat_digits digit_not_space by (intro no_space_dropWhile) blast
  then show ?thesis using parse_uint_text scan_show_nat [of "[]" n] by (simp add: read_uint32_def string_stream_def)
qed

text \<open>
  A schema argument that names a field twice ends the program with the exception of \<open>Schema::validate\<close>, which nothing catches:
  the constructor of the database runs outside the handlers of \<open>main\<close>.
\<close>

lemma duplicate_field_uncaught:
  assumes "parse_args args \<lparr>s_fields = [], s_version = 1\<rparr> = Inr schema" and "duplicate_name (s_fields schema)"
  shows "cli_main fio interactive (name # path # args) f logf script lines
    = \<lparr>pr_status = Inl InvalidArgument, pr_out = [], pr_err = [], pr_db = None\<rparr>"
proof -
  have "s_fields schema \<noteq> []" using assms(2) by (cases "s_fields schema") simp_all
  then show ?thesis using assms by (simp add: cli_main_def db_new_def validate_def Let_def)
qed

end
