(* ===== verification/Db_Threads.thy ===== *)
theory Db_Threads
  imports Db_Lifecycle
begin

text \<open>
  Concurrent clients of one database: any number of threads, each calling public operations one after the other. The code of an operation is a list
  of actions: taking the reader-writer lock (the constructors of \<open>ReadLock\<close> and \<open>WriteLock\<close> of \<open>types.h\<close>), beginning and
  ending the work of its body, releasing the lock (the destructors). The actions of different threads interleave freely, so the bodies of two
  operations can overlap. Two bodies that overlap work on the same pages and tables at the same time: from then on the model says nothing about answers
  and contents, and it records which operations met.
\<close>

section \<open>The code of the operations\<close>

datatype lock_mode = Shared | Exclusive

text \<open>The constructor and the destructor of \<open>ReadLock\<close> and of \<open>WriteLock\<close>.\<close>

fun acquire :: "lock_mode \<Rightarrow> lock_op" where
  "acquire Shared = LockShared"
| "acquire Exclusive = Lock"

fun release :: "lock_mode \<Rightarrow> lock_op" where
  "release Shared = UnlockShared"
| "release Exclusive = Unlock"

datatype action = Acquire lock_mode | Begin | End | Release lock_mode

text \<open>A lock object at the head of a function body lives until the function returns or throws.\<close>

definition with_lock :: "lock_mode \<Rightarrow> action list \<Rightarrow> action list" where
  "with_lock mode body = Acquire mode # body @ [Release mode]"

text \<open>
  The lock objects of each operation. \<open>update\<close> and the batches call the functions that do not lock; \<open>scan_all\<close> calls \<open>scan\<close>, which does.
\<close>

fun op_code :: "db_op \<Rightarrow> action list" where
  "op_code (DbInsert _) = with_lock Exclusive [Begin, End]"
| "op_code (DbInsertBatch _) = with_lock Exclusive [Begin, End]"
| "op_code (DbErase _) = with_lock Exclusive [Begin, End]"
| "op_code (DbEraseBatch _) = with_lock Exclusive [Begin, End]"
| "op_code (DbUpdate _) = with_lock Exclusive [Begin, End]"
| "op_code (DbUpdateBatch _) = with_lock Exclusive [Begin, End]"
| "op_code (DbGet _) = with_lock Shared [Begin, End]"
| "op_code (DbTryGet _) = with_lock Shared [Begin, End]"
| "op_code (DbScan _) = with_lock Shared [Begin, End]"
| "op_code (DbCreateIndex _) = with_lock Exclusive [Begin, End]"
| "op_code (DbDropIndex _) = with_lock Exclusive [Begin, End]"
| "op_code (DbRange _ _ _ _ _) = with_lock Shared [Begin, End]"
| "op_code DbCheckpoint = with_lock Exclusive [Begin, End]"

section \<open>Threads\<close>

text \<open>A thread is idle, or has some actions left of the operation it called.\<close>

record threads =
  th_lock :: RWLock
  th_db :: DB
  th_code :: "nat \<Rightarrow> (db_op \<times> action list) option"
  th_races :: "(db_op \<times> db_op) set"
  th_history :: "(db_op \<times> db_answer result) list"

definition start_threads :: "DB \<Rightarrow> threads" where
  "start_threads db = \<lparr>th_lock = rwlock_init, th_db = db, th_code = (\<lambda>_. None), th_races = {}, th_history = []\<rparr>"

text \<open>The operations whose bodies have begun and not ended.\<close>

definition running :: "threads \<Rightarrow> db_op set" where
  "running s = {call. \<exists>t rest. th_code s t = Some (call, End # rest)}"

inductive thread_step :: "threads \<Rightarrow> threads \<Rightarrow> bool" where
  request: "th_code s t = None \<Longrightarrow> thread_step s (s\<lparr>th_code := (th_code s)(t \<mapsto> (call, op_code call))\<rparr>)"
| acquire: "th_code s t = Some (call, Acquire mode # rest) \<Longrightarrow> rwlock_op (acquire mode) (th_lock s) = Some l \<Longrightarrow>
    thread_step s (s\<lparr>th_lock := l, th_code := (th_code s)(t \<mapsto> (call, rest))\<rparr>)"
| begins: "th_code s t = Some (call, Begin # rest) \<Longrightarrow>
    thread_step s (s\<lparr>th_code := (th_code s)(t \<mapsto> (call, rest)), th_races := th_races s \<union> {call} \<times> running s\<rparr>)"
| ends: "th_code s t = Some (call, End # rest) \<Longrightarrow> th_races s = {} \<Longrightarrow> db_call call (th_db s) = (a, db) \<Longrightarrow>
    thread_step s (s\<lparr>th_db := db, th_code := (th_code s)(t \<mapsto> (call, rest)), th_history := th_history s @ [(call, a)]\<rparr>)"
| ends_raced: "th_code s t = Some (call, End # rest) \<Longrightarrow> th_races s \<noteq> {} \<Longrightarrow>
    thread_step s (s\<lparr>th_db := db, th_code := (th_code s)(t \<mapsto> (call, rest)), th_history := th_history s @ [(call, a)]\<rparr>)"
| release: "th_code s t = Some (call, Release mode # rest) \<Longrightarrow> rwlock_op (release mode) (th_lock s) = Some l \<Longrightarrow>
    thread_step s (s\<lparr>th_lock := l, th_code := (th_code s)(t \<mapsto> (call, rest))\<rparr>)"
| returns: "th_code s t = Some (call, []) \<Longrightarrow> thread_step s (s\<lparr>th_code := (th_code s)(t := None)\<rparr>)"

inductive reaches :: "DB \<Rightarrow> threads \<Rightarrow> bool" for db where
  start: "reaches db (start_threads db)"
| step: "reaches db s \<Longrightarrow> thread_step s s' \<Longrightarrow> reaches db s'"

section \<open>The lock protocol\<close>

text \<open>What the code of the operations has to be: a body between taking and releasing the lock once, in the mode of the operation.\<close>

fun op_mode :: "db_op \<Rightarrow> lock_mode" where
  "op_mode (DbGet _) = Shared"
| "op_mode (DbTryGet _) = Shared"
| "op_mode (DbScan _) = Shared"
| "op_mode (DbRange _ _ _ _ _) = Shared"
| "op_mode _ = Exclusive"

lemma op_code_shape: "op_code call = [Acquire (op_mode call), Begin, End, Release (op_mode call)]"
  by (cases call) (simp_all add: with_lock_def)

fun rests :: "db_op \<Rightarrow> action list set" where
  "rests call = {op_code call, [Begin, End, Release (op_mode call)], [End, Release (op_mode call)], [Release (op_mode call)], []}"

definition codes_ok :: "threads \<Rightarrow> bool" where
  "codes_ok s \<longleftrightarrow> (\<forall>t call code. th_code s t = Some (call, code) \<longrightarrow> code \<in> rests call)"

lemma codes_okD: "codes_ok s \<Longrightarrow> th_code s t = Some (call, code) \<Longrightarrow> code \<in> rests call"
  by (simp add: codes_ok_def)

lemma codes_ok_update:
  "codes_ok s \<Longrightarrow> th_code s' = (th_code s)(t := c) \<Longrightarrow> (\<And>call code. c = Some (call, code) \<Longrightarrow> code \<in> rests call) \<Longrightarrow> codes_ok s'"
  by (simp add: codes_ok_def)

lemma rests_tl: "x # rest \<in> rests call \<Longrightarrow> rest \<in> rests call"
  by (auto simp: op_code_shape)

lemma codes_ok_step:
  assumes "codes_ok s" and "thread_step s s'" shows "codes_ok s'"
proof -
  have tl: "th_code s t = Some (call, x # rest) \<Longrightarrow> rest \<in> rests call" for t call x rest
    using codes_okD [OF assms(1)] rests_tl by blast
  from assms(2) show ?thesis
  proof cases
    case (request t call)
    then show ?thesis by (intro codes_ok_update [OF assms(1), of s' t]) auto
  next
    case (returns t call)
    then show ?thesis by (intro codes_ok_update [OF assms(1), of s' t]) auto
  qed (use tl in \<open>auto intro!: codes_ok_update [OF assms(1)] simp del: rests.simps\<close>)
qed

text \<open>The threads that hold the lock in a mode: they have to release it and not to take it any more.\<close>

definition holders :: "lock_mode \<Rightarrow> threads \<Rightarrow> nat set" where
  "holders mode s = {t. \<exists>call code. th_code s t = Some (call, code) \<and> Release mode \<in> set code \<and> Acquire mode \<notin> set code}"

text \<open>The lock counts its holders, and an exclusive holder is alone.\<close>

definition lock_inv :: "threads \<Rightarrow> bool" where
  "lock_inv s \<longleftrightarrow> codes_ok s \<and> finite (holders Shared s) \<and> finite (holders Exclusive s)
     \<and> shared_holders (th_lock s) = card (holders Shared s)
     \<and> card (holders Exclusive s) = (if exclusive (th_lock s) then 1 else 0)
     \<and> (exclusive (th_lock s) \<longrightarrow> shared_holders (th_lock s) = 0)"

lemma holders_update:
  "th_code s' = (th_code s)(t \<mapsto> (call, code)) \<Longrightarrow>
    holders mode s' = (if Release mode \<in> set code \<and> Acquire mode \<notin> set code then insert t (holders mode s) else holders mode s - {t})"
  by (auto simp: holders_def)

lemma holders_keep:
  "th_code s' = (th_code s)(t := c) \<Longrightarrow> (\<And>mode. t \<in> holders mode s' \<longleftrightarrow> t \<in> holders mode s) \<Longrightarrow> holders mode s' = holders mode s"
  by (auto simp: holders_def split: if_splits)

lemma mode_cases: "m = Shared \<or> m = Exclusive"
  by (cases m) simp_all

lemma lock_inv_step:
  assumes "lock_inv s" and "thread_step s s'"
  shows "lock_inv s'"
proof -
  have codes: "codes_ok s" "codes_ok s'" using assms codes_ok_step by (auto simp: lock_inv_def)
  note ok = codes_okD [OF codes(1)]
  from assms(2) show ?thesis
  proof cases
    case (acquire t call mode rest l)
    then have m: "mode = op_mode call" "rest = [Begin, End, Release mode]" using ok [of t] by (auto simp: op_code_shape)
    then have "t \<notin> holders mode' s" for mode' using acquire(2) by (auto simp: holders_def op_code_shape)
    moreover have "holders mode' s' = (if mode = mode' then insert t (holders mode' s) else holders mode' s - {t})" for mode'
      using acquire(1) m holders_update [of s' s t call rest mode'] by auto
    ultimately show ?thesis using assms(1) codes(2) acquire mode_cases [of mode]
      by (auto simp: lock_inv_def split: if_splits)
  next
    case (release t call mode rest l)
    then have m: "mode = op_mode call" "rest = []" using ok [of t] by (auto simp: op_code_shape)
    then have "t \<in> holders mode' s \<longleftrightarrow> mode = mode'" for mode' using release(2) by (auto simp: holders_def)
    moreover have "holders mode' s' = holders mode' s - {t}" for mode' using release(1) m holders_update [of s' s t call rest mode'] by simp
    moreover have "holders Exclusive s = {t}" if "card (holders Exclusive s) = Suc 0" "t \<in> holders Exclusive s"
      using that by (auto simp: card_1_singleton_iff)
    ultimately show ?thesis using assms(1) codes(2) release mode_cases [of mode]
      by (auto simp: lock_inv_def split: if_splits)
  next
    case (request t call)
    then have "holders mode s' = holders mode s" for mode
      by (intro holders_keep [of s' s t]) (auto simp: holders_def op_code_shape)
    then show ?thesis using assms(1) codes(2) request(1) by (auto simp: lock_inv_def)
  next
    case (begins t call rest)
    then have "holders mode s' = holders mode s" for mode by (intro holders_keep [of s' s t]) (auto simp: holders_def)
    then show ?thesis using assms(1) codes(2) begins(1) by (auto simp: lock_inv_def)
  next
    case (ends t call rest a db)
    then have "holders mode s' = holders mode s" for mode by (intro holders_keep [of s' s t]) (auto simp: holders_def)
    then show ?thesis using assms(1) codes(2) ends(1) by (auto simp: lock_inv_def)
  next
    case (ends_raced t call rest db a)
    then have "holders mode s' = holders mode s" for mode by (intro holders_keep [of s' s t]) (auto simp: holders_def)
    then show ?thesis using assms(1) codes(2) ends_raced(1) by (auto simp: lock_inv_def)
  next
    case (returns t call)
    then have "holders mode s' = holders mode s" for mode by (intro holders_keep [of s' s t]) (auto simp: holders_def)
    then show ?thesis using assms(1) codes(2) returns(1) by (auto simp: lock_inv_def)
  qed
qed

lemma lock_inv_reaches: "reaches db s \<Longrightarrow> lock_inv s"
proof (induction rule: reaches.induct)
  case start
  show ?case by (simp add: lock_inv_def codes_ok_def start_threads_def holders_def rwlock_init_def)
next
  case (step s s')
  then show ?case using lock_inv_step by blast
qed

lemma exclusive_alone:
  assumes "lock_inv s" and "t \<in> holders Exclusive s" and "t' \<noteq> t"
  shows "t' \<notin> holders mode s"
proof -
  have "card (holders Exclusive s) = 1" "holders Shared s = {}"
    using assms(1,2) card_gt_0_iff [of "holders Exclusive s"] by (auto simp: lock_inv_def split: if_splits)
  then show ?thesis using assms(2,3) mode_cases [of mode] by (auto simp: card_1_singleton_iff)
qed

text \<open>A thread that is about to begin or to end its body holds the lock in the mode of its operation.\<close>

lemma body_holds:
  assumes "codes_ok s" and "th_code s t = Some (call, code)" and "code \<noteq> []" and "hd code \<in> {Begin, End}"
  shows "t \<in> holders (op_mode call) s"
  using codes_okD [OF assms(1,2)] assms(2-4) by (auto simp: holders_def op_code_shape)

section \<open>Races\<close>

text \<open>Bodies that overlap are bodies of operations under the shared lock.\<close>

lemma race_step:
  assumes "lock_inv s" and "thread_step s s'" and "\<forall>(a, b) \<in> th_races s. op_mode a = Shared \<and> op_mode b = Shared"
  shows "\<forall>(a, b) \<in> th_races s'. op_mode a = Shared \<and> op_mode b = Shared"
  using assms(2)
proof cases
  case (begins t call rest)
  have codes: "codes_ok s" using assms(1) by (simp add: lock_inv_def)
  have "op_mode call = Shared \<and> op_mode other = Shared" if run: "other \<in> running s" for other
  proof -
    obtain t' rest' where t': "th_code s t' = Some (other, End # rest')" using run by (auto simp: running_def)
    then have "t' \<noteq> t" using begins(2) by auto
    moreover have "t \<in> holders (op_mode call) s" "t' \<in> holders (op_mode other) s"
      using body_holds [OF codes begins(2)] body_holds [OF codes t'] by simp_all
    ultimately show ?thesis using exclusive_alone [OF assms(1)] mode_cases by metis
  qed
  then show ?thesis using assms(3) begins(1) by auto
qed (use assms(3) in simp_all)

lemma races_shared: "reaches db s \<Longrightarrow> \<forall>(a, b) \<in> th_races s. op_mode a = Shared \<and> op_mode b = Shared"
proof (induction rule: reaches.induct)
  case (step s s')
  then show ?case using race_step [OF lock_inv_reaches] by blast
qed (simp add: start_threads_def)

text \<open>An operation that changes the rows of some database.\<close>

definition changes_rows :: "Schema \<Rightarrow> db_op \<Rightarrow> bool" where
  "changes_rows schema call \<longleftrightarrow> (\<exists>m. snd (map_call schema call m) \<noteq> m)"

lemma changes_rows_exclusive: "changes_rows schema call \<Longrightarrow> op_mode call = Exclusive"
  by (cases call) (auto simp: changes_rows_def split: option.splits if_splits)

section \<open>Histories\<close>

lemma races_mono: "thread_step s s' \<Longrightarrow> th_races s \<subseteq> th_races s'"
  by (erule thread_step.cases) auto

lemma history_refined:
  assumes "reaches db s" and "db_rel True schema ct 0 db m" and "th_races s = {}"
    and "\<forall>call \<in> set (map fst (th_history s)). good_op schema ct call" and "length (ops_rows (map fst (th_history s))) < 2 ^ 32"
  shows "\<exists>n. db_rel True schema ct n (th_db s) (snd (run_calls (map_call schema) (map fst (th_history s)) m))
    \<and> map snd (th_history s) = fst (run_calls (map_call schema) (map fst (th_history s)) m) \<and> unat n \<le> length (ops_rows (map fst (th_history s)))"
  using assms
proof (induction rule: reaches.induct)
  case start
  then show ?case by (intro exI [of _ 0]) (simp add: start_threads_def)
next
  case (step s s')
  have clean: "th_races s = {}" using races_mono [OF step.hyps(2)] step.prems(2) by blast
  from step.hyps(2) show ?case
  proof cases
    case (ends t call rest a db')
    let ?ops = "map fst (th_history s)"
    let ?m = "snd (run_calls (map_call schema) ?ops m)"
    obtain n where n: "db_rel True schema ct n (th_db s) ?m" "map snd (th_history s) = fst (run_calls (map_call schema) ?ops m)"
      "unat n \<le> length (ops_rows ?ops)"
      using step.IH step.prems clean ends(1) by auto
    have "refined schema ct n (length (op_rows call)) (op_changes schema call ?m) (th_db s) (db_call call (th_db s)) (map_call schema call ?m)"
      using step.prems(3,4) ends(1) n(3) by (intro db_call_refined [OF n(1)]) auto
    then obtain n' where "a = fst (map_call schema call ?m)" "db_rel True schema ct n' db' (snd (map_call schema call ?m))"
      "unat n' \<le> unat n + length (op_rows call)" using ends(4) by (auto simp: refined_def)
    then show ?thesis using n(2,3) ends(1)
      by (intro exI [of _ n']) (simp add: run_calls_snoc Let_def case_prod_beta)
  qed (use step.IH step.prems clean in simp_all)
qed

section \<open>Progress\<close>

abbreviation steps :: "threads \<Rightarrow> threads \<Rightarrow> bool" where
  "steps \<equiv> thread_step\<^sup>*\<^sup>*"

lemma reaches_steps: "steps s s' \<Longrightarrow> reaches db s \<Longrightarrow> reaches db s'"
  by (induction rule: rtranclp_induct) (auto intro: reaches.step)

lemma release_enabled:
  assumes "lock_inv s" and "t \<in> holders mode s"
  shows "\<exists>l. rwlock_op (release mode) (th_lock s) = Some l"
proof -
  have "0 < card (holders mode s)" using assms mode_cases [of mode] card_gt_0_iff by (fastforce simp: lock_inv_def)
  then show ?thesis using assms(1) mode_cases [of mode] by (auto simp: lock_inv_def split: if_splits)
qed

text \<open>The next action of a thread that need not take the lock can always be done, and no other thread moves.\<close>

lemma holder_step:
  assumes "reaches db s" and "th_code s t = Some (call, x # rest)" and "x \<noteq> Acquire (op_mode call)"
  shows "\<exists>s'. thread_step s s' \<and> th_code s' = (th_code s)(t \<mapsto> (call, rest))
    \<and> (\<exists>h. th_history s' = th_history s @ h \<and> (x = End \<longrightarrow> call \<in> fst ` set h))"
proof -
  have inv: "lock_inv s" by (rule lock_inv_reaches [OF assms(1)])
  then have ok: "x # rest \<in> rests call" using codes_okD assms(2) by (auto simp: lock_inv_def)
  then consider "x = Begin" | "x = End" | "x = Release (op_mode call)" "rest = []" using assms(3) by (auto simp: op_code_shape)
  then show ?thesis
  proof cases
    case 1
    then show ?thesis using thread_step.begins [of s t call rest] assms(2) by fastforce
  next
    case 2
    obtain a db' where c: "db_call call (th_db s) = (a, db')" by fastforce
    have "\<exists>db a. thread_step s (s\<lparr>th_db := db, th_code := (th_code s)(t \<mapsto> (call, rest)), th_history := th_history s @ [(call, a)]\<rparr>)"
      using thread_step.ends [OF assms(2) [unfolded 2] _ c] thread_step.ends_raced [OF assms(2) [unfolded 2]] by blast
    then show ?thesis by fastforce
  next
    case 3
    have "t \<in> holders (op_mode call) s" using assms(2) 3 by (auto simp: holders_def)
    then show ?thesis using release_enabled [OF inv] thread_step.release [OF assms(2) [unfolded 3(1)]] 3(1) by fastforce
  qed
qed

lemma finish_holder:
  assumes "reaches db s" and "th_code s t = Some (call, code)" and "Acquire (op_mode call) \<notin> set code"
  shows "\<exists>s'. steps s s' \<and> th_code s' = (th_code s)(t := None)
    \<and> (\<exists>h. th_history s' = th_history s @ h \<and> (End \<in> set code \<longrightarrow> call \<in> fst ` set h))"
  using assms
proof (induction code arbitrary: s)
  case Nil
  then have "thread_step s (s\<lparr>th_code := (th_code s)(t := None)\<rparr>)" by (auto intro: thread_step.returns)
  then show ?case by (intro exI [of _ "s\<lparr>th_code := (th_code s)(t := None)\<rparr>"]) auto
next
  case (Cons x rest)
  have "x \<noteq> Acquire (op_mode call)" using Cons.prems(3) by auto
  then obtain u h where u: "thread_step s u" "th_code u = (th_code s)(t \<mapsto> (call, rest))" "th_history u = th_history s @ h" "x = End \<longrightarrow> call \<in> fst ` set h"
    using holder_step [OF Cons.prems(1,2)] by blast
  have now: "th_code u t = Some (call, rest)" "Acquire (op_mode call) \<notin> set rest" using u(2) Cons.prems(3) by simp_all
  obtain s' h' where s': "steps u s'" "th_code s' = (th_code u)(t := None)" "th_history s' = th_history u @ h'" "End \<in> set rest \<longrightarrow> call \<in> fst ` set h'"
    using Cons.IH [OF reaches.step [OF Cons.prems(1) u(1)] now] by blast
  have "steps s s'" using u(1) s'(1) by (rule converse_rtranclp_into_rtranclp)
  then show ?case using u s' by (intro exI [of _ s']) auto
qed

lemma holder_code:
  assumes "codes_ok s" and "t \<in> holders mode s"
  obtains call code where "th_code s t = Some (call, code)" "Acquire (op_mode call) \<notin> set code"
  using assms codes_okD [OF assms(1)] by (fastforce simp: holders_def op_code_shape)

lemma drain_holders:
  assumes "reaches db s"
  shows "\<exists>s'. steps s s' \<and> holders Shared s' = {} \<and> holders Exclusive s' = {}
    \<and> (\<forall>t. t \<notin> holders Shared s \<union> holders Exclusive s \<longrightarrow> th_code s' t = th_code s t) \<and> (\<exists>h. th_history s' = th_history s @ h)"
  using assms
proof (induction "card (holders Shared s \<union> holders Exclusive s)" arbitrary: s rule: less_induct)
  case less
  let ?H = "holders Shared s \<union> holders Exclusive s"
  have inv: "lock_inv s" by (rule lock_inv_reaches [OF less.prems])
  show ?case
  proof (cases "?H = {}")
    case True
    then show ?thesis by (intro exI [of _ s]) auto
  next
    case False
    then obtain t where t: "t \<in> ?H" by blast
    then obtain call code where "th_code s t = Some (call, code)" "Acquire (op_mode call) \<notin> set code"
      using holder_code [of s t] inv by (auto simp: lock_inv_def)
    then obtain u h where u: "steps s u" "th_code u = (th_code s)(t := None)" "th_history u = th_history s @ h"
      using finish_holder [OF less.prems] by blast
    have H: "holders Shared u \<union> holders Exclusive u = ?H - {t}" using u(2) by (auto simp: holders_def)
    then have "card (holders Shared u \<union> holders Exclusive u) < card ?H"
      using t inv card_Diff1_less [of ?H t] unfolding lock_inv_def by auto
    from less.hyps [OF this reaches_steps [OF u(1) less.prems]] obtain s' h' where
      s': "steps u s'" "holders Shared s' = {}" "holders Exclusive s' = {}"
      "\<forall>t. t \<notin> holders Shared u \<union> holders Exclusive u \<longrightarrow> th_code s' t = th_code u t" "th_history s' = th_history u @ h'" by blast
    have "steps s s'" using u(1) s'(1) by simp
    moreover have "th_code s' t' = th_code s t'" if "t' \<notin> ?H" for t' using that s'(4) H u(2) t by auto
    ultimately show ?thesis using u(3) s'(2,3,5) by (intro exI [of _ s']) auto
  qed
qed

section \<open>Properties\<close>

text \<open>
  C8: concurrent clients. Whatever number of threads call operations of a freshly opened database, and however their actions
  interleave, two bodies that overlap are bodies of operations that do not change rows: the lock keeps insertions, deletions, updates, index changes
  and checkpoints apart from every other body. As long as no two lookups have overlapped either, the answers given so far are those the map from
  ids to rows gives when the operations run one after the other, in the order in which their bodies ended, which lies between their calls and their
  returns. Lookups that overlap race inside the pager, and nothing is said of what follows.
\<close>

theorem clients_linearizable:
  assumes "storable_schema schema" and "validate schema = Inr ()" and "ct \<in> {CNone, CLZ4}" and "good_script script"
    and "db_new schema ct cap None None script = Inr db0" and "db_open db0 = (Inr (), db)" and "reaches db s"
    and "\<forall>call \<in> set (map fst (th_history s)). good_op schema ct call" and "length (ops_rows (map fst (th_history s))) < 2 ^ 32"
  shows "(\<forall>(a, b) \<in> th_races s. \<forall>call \<in> {a, b}. \<not> changes_rows schema call \<and> call \<noteq> DbCheckpoint \<and> (\<forall>name. call \<notin> {DbCreateIndex name, DbDropIndex name}))
    \<and> (th_races s = {} \<longrightarrow> map snd (th_history s) = fst (run_calls (map_call schema) (map fst (th_history s)) Map.empty))"
proof (intro conjI impI)
  obtain dba dbb where "db_new schema ct cap None None script = Inr dba" "db_open dba = (Inr (), dbb)" "db_rel True schema ct 0 dbb Map.empty"
    by (rule open_fresh [OF assms(1-4), of cap])
  then have "db_rel True schema ct 0 db Map.empty" using assms(5,6) by simp
  from history_refined [OF assms(7) this _ assms(8,9)]
  show "th_races s = {} \<Longrightarrow> map snd (th_history s) = fst (run_calls (map_call schema) (map fst (th_history s)) Map.empty)" by blast
  show "\<forall>(a, b) \<in> th_races s. \<forall>call \<in> {a, b}. \<not> changes_rows schema call \<and> call \<noteq> DbCheckpoint \<and> (\<forall>name. call \<notin> {DbCreateIndex name, DbDropIndex name})"
    using races_shared [OF assms(7)] changes_rows_exclusive [of schema] by fastforce
qed

theorem clients_linearizable_witness:
  "\<exists>db0 db s. db_new demo_schema CLZ4 2 None None [] = Inr db0 \<and> db_open db0 = (Inr (), db) \<and> reaches db s
    \<and> th_code s 0 = Some (DbInsert (demo_row 1 25 ''alice''), [Release Exclusive]) \<and> th_code s 1 = Some (DbTryGet 1, op_code (DbTryGet 1))
    \<and> th_history s = [(DbInsert (demo_row 1 25 ''alice''), Inr Done)]"
proof -
  obtain db0 db where o: "db_new demo_schema CLZ4 2 None None [] = Inr db0" "db_open db0 = (Inr (), db)"
    by (rule open_fresh [of demo_schema CLZ4 "[]" 2]) (simp_all add: storable_demo_schema validate_demo_schema good_script_def)
  let ?call = "DbInsert (demo_row 1 25 ''alice'')" and ?s0 = "start_threads db"
  obtain a db' where a: "db_call ?call db = (a, db')" by fastforce
  let ?s1 = "?s0\<lparr>th_code := (th_code ?s0)(0 \<mapsto> (?call, op_code ?call))\<rparr>"
  let ?s2 = "?s1\<lparr>th_code := (th_code ?s1)(1 \<mapsto> (DbTryGet 1, op_code (DbTryGet 1)))\<rparr>"
  let ?s3 = "?s2\<lparr>th_lock := rwlock_init\<lparr>exclusive := True\<rparr>, th_code := (th_code ?s2)(0 \<mapsto> (?call, [Begin, End, Release Exclusive]))\<rparr>"
  let ?s4 = "?s3\<lparr>th_code := (th_code ?s3)(0 \<mapsto> (?call, [End, Release Exclusive])), th_races := th_races ?s3 \<union> {?call} \<times> running ?s3\<rparr>"
  let ?s5 = "?s4\<lparr>th_db := db', th_code := (th_code ?s4)(0 \<mapsto> (?call, [Release Exclusive])), th_history := th_history ?s4 @ [(?call, a)]\<rparr>"
  have "reaches db ?s1" by (rule reaches.step [OF reaches.start], rule thread_step.request) (simp add: start_threads_def)
  then have "reaches db ?s2" by (rule reaches.step) (rule thread_step.request, simp add: start_threads_def)
  then have "reaches db ?s3"
    by (rule reaches.step) (rule thread_step.acquire [where mode = Exclusive], auto simp: start_threads_def rwlock_init_def with_lock_def)
  then have s4: "reaches db ?s4" by (rule reaches.step) (rule thread_step.begins, simp)
  have "running ?s3 = {}" by (auto simp: running_def start_threads_def op_code_shape split: if_splits)
  then have clean: "th_races ?s4 = {}" by (simp add: start_threads_def)
  have r: "reaches db ?s5" by (rule reaches.step [OF s4], rule thread_step.ends [OF _ clean]) (use a in \<open>simp_all add: start_threads_def\<close>)
  have h: "th_history ?s5 = [(?call, a)]" by (simp add: start_threads_def)
  have spec: "fst (run_calls (map_call demo_schema) [?call] Map.empty) = [Inr Done]"
    by (simp add: insert_error_def) (simp add: demo_row_def demo_schema_def)
  have "th_races ?s5 = {}" using clean by simp
  then have "map snd (th_history ?s5) = fst (run_calls (map_call demo_schema) (map fst (th_history ?s5)) Map.empty)"
    by (intro clients_linearizable [OF storable_demo_schema validate_demo_schema _ _ o r, THEN conjunct2, rule_format])
       (simp_all only: h, simp_all add: good_script_def)
  then have "a = Inr Done" unfolding h using spec by simp
  then show ?thesis using o r h by (intro exI [of _ db0] exI [of _ db] exI [of _ ?s5]) (simp add: start_threads_def)
qed

text \<open>
  C28: no deadlock. From every state that any number of threads can reach, the operation of any thread can be completed: some
  continuation lets the holders of the lock finish, after which the operation takes the lock if it still has to, does its work unless it has done so, and returns.
\<close>

theorem pending_operation_completes:
  assumes "reaches db s" and "th_code s t = Some (call, code)"
  shows "\<exists>s' h. thread_step\<^sup>*\<^sup>* s s' \<and> th_code s' t = None \<and> th_history s' = th_history s @ h \<and> (End \<in> set code \<longrightarrow> call \<in> fst ` set h)"
proof (cases "Acquire (op_mode call) \<in> set code")
  case False
  then show ?thesis using finish_holder [OF assms] by fastforce
next
  case True
  have "lock_inv s" by (rule lock_inv_reaches [OF assms(1)])
  then have "code \<in> rests call" using codes_okD assms(2) by (auto simp: lock_inv_def)
  then have code: "code = Acquire (op_mode call) # [Begin, End, Release (op_mode call)]" using True by (auto simp: op_code_shape)
  then have "t \<notin> holders Shared s \<union> holders Exclusive s" using assms(2) mode_cases [of "op_mode call"] by (auto simp: holders_def)
  then obtain u h where u: "steps s u" "holders Shared u = {}" "holders Exclusive u = {}" "th_code u t = Some (call, code)" "th_history u = th_history s @ h"
    using drain_holders [OF assms(1)] assms(2) by fastforce
  have r: "reaches db u" by (rule reaches_steps [OF u(1) assms(1)])
  then have "\<not> exclusive (th_lock u)" "shared_holders (th_lock u) = 0"
    using lock_inv_reaches [OF r] u(2,3) by (auto simp: lock_inv_def split: if_splits)
  then obtain l where "rwlock_op (acquire (op_mode call)) (th_lock u) = Some l" using mode_cases [of "op_mode call"] by auto
  then have st: "thread_step u (u\<lparr>th_lock := l, th_code := (th_code u)(t \<mapsto> (call, [Begin, End, Release (op_mode call)]))\<rparr>)"
    by (rule thread_step.acquire [OF u(4) [unfolded code]])
  let ?u = "u\<lparr>th_lock := l, th_code := (th_code u)(t \<mapsto> (call, [Begin, End, Release (op_mode call)]))\<rparr>"
  have now: "th_code ?u t = Some (call, [Begin, End, Release (op_mode call)])" "Acquire (op_mode call) \<notin> set [Begin, End, Release (op_mode call)]" by simp_all
  obtain s' h' where "steps ?u s'" "th_code s' = (th_code ?u)(t := None)" "th_history s' = th_history ?u @ h'"
    "End \<in> set [Begin, End, Release (op_mode call)] \<longrightarrow> call \<in> fst ` set h'"
    using finish_holder [OF reaches.step [OF r st] now] by blast
  then show ?thesis using u(1,5) st
    by (intro exI [of _ s'] exI [of _ "h @ h'"]) (auto intro: rtranclp_trans converse_rtranclp_into_rtranclp)
qed

theorem pending_operation_completes_witness:
  "\<exists>db s s' h. reaches db s \<and> th_code s 0 = Some (DbCheckpoint, op_code DbCheckpoint) \<and> th_code s 1 = Some (DbTryGet 7, [Begin, End, Release Shared])
    \<and> thread_step\<^sup>*\<^sup>* s s' \<and> th_code s' 0 = None \<and> th_history s' = h \<and> DbCheckpoint \<in> fst ` set h"
proof -
  obtain db where "db_new demo_schema CLZ4 2 None None [] = Inr db" using validate_demo_schema by (auto simp: db_new_def Let_def demo_schema_def)
  let ?s1 = "(start_threads db)\<lparr>th_code := (th_code (start_threads db))(1 \<mapsto> (DbTryGet 7, op_code (DbTryGet 7)))\<rparr>"
  let ?s2 = "?s1\<lparr>th_lock := rwlock_init\<lparr>shared_holders := 1\<rparr>, th_code := (th_code ?s1)(1 \<mapsto> (DbTryGet 7, [Begin, End, Release Shared]))\<rparr>"
  let ?s = "?s2\<lparr>th_code := (th_code ?s2)(0 \<mapsto> (DbCheckpoint, op_code DbCheckpoint))\<rparr>"
  have "reaches db ?s1" by (rule reaches.step [OF reaches.start], rule thread_step.request) (simp add: start_threads_def)
  then have "reaches db ?s2"
    by (rule reaches.step) (rule thread_step.acquire [where mode = Shared], auto simp: start_threads_def rwlock_init_def with_lock_def)
  then have r: "reaches db ?s" by (rule reaches.step) (rule thread_step.request, simp add: start_threads_def)
  have c: "th_code ?s 0 = Some (DbCheckpoint, op_code DbCheckpoint)" "End \<in> set (op_code DbCheckpoint)" by (simp_all add: op_code_shape)
  obtain s' h where "thread_step\<^sup>*\<^sup>* ?s s'" "th_code s' 0 = None" "th_history s' = th_history ?s @ h" "DbCheckpoint \<in> fst ` set h"
    using pending_operation_completes [OF r c(1)] c(2) by blast
  then show ?thesis using r c(1) by (intro exI [of _ db] exI [of _ ?s] exI [of _ s'] exI [of _ "th_history ?s @ h"]) auto
qed

end
