(* ===== verification/Spec2Isabelle.thy ===== *)
theory Spec2Isabelle
  imports Page BPTree Index_Manager Compression Wal Migrate Scan_Filter Storage Page_Cache Pager Db_Checkpoint Mmap Cli_Refinement Db_Threads
begin

text \<open>
  Verification of the xdl storage engine, an embedded database of typed rows in fixed-size pages
  (C++ sources under \<open>src/include/xdl\<close> and \<open>src/src\<close>).

  \<^bold>\<open>The program and its parts.\<close> \<open>DB\<close> is the entry point. It keeps a \<open>Schema\<close>, a \<open>Pager\<close>, a primary index
  (\<open>IndexManager\<close>), secondary indexes (\<open>BPTree\<close>) and a write-ahead log (\<open>WAL\<close>). The pager hands out pages
  from an LRU pool (\<open>PageCache\<close>) over a file (\<open>StorageEngine\<close>), compressing each page on its way to
  the file (\<open>CompressionEngine\<close>). A page (\<open>Page\<close>) holds up to 64 serialised rows. A write changes a page in the
  pool, logs a record and updates both kinds of index; a checkpoint or \<open>close\<close> writes dirty pages
  back and clears the log; \<open>open\<close> rebuilds the primary index from the file and replays the log.

  \<^bold>\<open>Theories, in the order of use.\<close>
  \<^item> \<open>Xdl_Prelude\<close>: machine integers, exceptions, results, programs that mutate and throw, byte buffers, \<open>lower_bound\<close>.
  \<^item> \<open>Xdl_Types\<close> (\<open>types.h\<close>): schemas, field values, rows, the reader-writer lock as a step relation.
  \<^item> \<open>Serialise\<close>, \<open>Page\<close> (\<open>page.h\<close>, \<open>page.cpp\<close>): byte codecs; appending, erasing, finding and decoding rows. \<open>page_rel\<close> relates a
    page to the list of its rows; every operation is shown to act on that list.
  \<^item> \<open>BPTree\<close> (\<open>bptree.h\<close>, \<open>bptree.cpp\<close>): order-preserving key encodings and the secondary index. The locale \<open>row_id_multimap\<close> is
    the contract its clients use, interpreted on the tree; the public operations refine a map from values to lists of ids.
  \<^item> \<open>Index_Manager\<close> (\<open>index.h\<close>): the primary index with its write buffer, merges and page-to-ids mapping, as a finite map. Locale
    \<open>primary_index\<close>.
  \<^item> \<open>Compression\<close> (\<open>compression.cpp\<close>): the bundled LZ4 block codec; round trip and expansion bound; a malformed block that it does not refuse.
  \<^item> \<open>Wal\<close> (\<open>wal.h\<close>, \<open>wal.cpp\<close>): records, checksums, buffering, synchronisation, replay, over system calls whose results are a script.
    \<open>wal_holds\<close> says which logged records are in the file, which survive a crash and which are
    buffered. Locale \<open>framed_log\<close>.
  \<^item> \<open>Migrate\<close> (\<open>migrate.h\<close>, \<open>migrate.cpp\<close>): the schema codec and the row migrator.
  \<^item> \<open>Storage\<close> (\<open>storage.h\<close>, \<open>storage.cpp\<close>): the database file, its header and schema, positioned transfers with short reads and writes.
  \<^item> \<open>Page_Cache\<close> (\<open>cache.h\<close>, \<open>cache.cpp\<close>): the LRU pool; its capacity and consistency, given that nobody changes the id of a pooled page, and for a callback that writes pages back (locale \<open>backing_store\<close>)
    the contents of the pool and the store together.
  \<^item> \<open>Pager\<close> (\<open>pager.h\<close>, \<open>pager.cpp\<close>): interpretation of \<open>backing_store\<close> on the file, so that any sequence of page calls behaves as a map
    of pages; flushing and recovery.
  \<^item> \<open>Scan_Filter\<close> (\<open>ScanFilter\<close> in \<open>db.h\<close>, \<open>db.cpp\<close>): both evaluators of a filter decide the same predicate.
  \<^item> \<open>Db\<close> (\<open>DB\<close> in \<open>db.h\<close>, \<open>db.cpp\<close>): all operations of the database.
  \<^item> \<open>Db_Frames\<close>: what each operation leaves alone; only a checkpoint and \<open>close\<close> make pages durable.
  \<^item> \<open>Db_Layout\<close>: rows and their places, independent of the code. \<open>Db_Steps\<close>: the relation \<open>db_rel\<close> between a database and
    a map from ids to rows, and the steps of the operations with the log records they write. \<open>Db_Queries\<close>: scans, secondary indexes and range
    queries. \<open>Db_Refinement\<close>: the specification \<open>map_call\<close> and the refinement of every operation. \<open>Db_Lifecycle\<close>:
    opening, closing and opening again, and the properties of the database. \<open>Db_Replay\<close>: replay of a log on the file a crash left.
    \<open>Db_Crash\<close>: the invariant \<open>recoverable\<close>, that the file and the log that would survive a crash now give the current rows; every
    operation preserves it. \<open>Db_Checkpoint\<close>: a checkpoint as the sequence of its steps, and what a crash between any two of them leaves.
  \<^item> \<open>Db_Threads\<close>: clients on several threads. The code of each operation is the list of its lock objects around its body; the actions of
    the threads interleave freely, and bodies that overlap are recorded.
  \<^item> \<open>Mmap\<close> (\<open>mmap.h\<close>, \<open>mmap.cpp\<close>, POSIX branch): the growing memory-mapped file as an array of bytes.
  \<^item> \<open>Text_Io\<close>: the text streams and number conversions of the standard library that the command line uses. \<open>Cli\<close>
    (\<open>main.cpp\<close>): all its commands, from a line of input to the output. \<open>Cli_Refinement\<close>: the specification
    \<open>script_run\<close> of a script over a map of rows, and the refinement.

  \<^bold>\<open>What is shown.\<close> The properties carry the marks C1, C2 and so on where they stand. Those of \<open>Db_Lifecycle\<close>,
  \<open>Db_Crash\<close> and \<open>Db_Checkpoint\<close> span all components: a database answers as a map does (C1), keeps its contents over \<open>close\<close> and \<open>open\<close> (C2), and loses nothing it
  acknowledged over any number of crashes (C3); a crash inside an operation leaves a prefix of its changes (C4), a crash
  between any two steps of a checkpoint changes nothing (C5). A whole run of the command line
  program, and a second run on the file that the first leaves, print what the specification prints (C7). With concurrent
  clients only lookups can overlap, and as long as they do not, the answers are those of a sequential order (C8); no client is stuck (C28). The first five hold of every state reachable from a
  fresh file, whatever the cache capacity. The others state what each component
  promises, and where the code breaks such a promise, that it does.

  \<^bold>\<open>Bounds.\<close> Page ids are 32-bit, so a run may add fewer than \<open>2 ^ 32\<close> rows. The log is kept below \<open>2 ^ 32\<close> bytes
  where it is replayed; a record takes at most 8213 bytes. A row must fit a page; with compression
  rows of at most 127 bytes are considered, since a page of larger rows may compress to more than its
  slot (\<open>Pager.oversized_page_overruns\<close>). The loops over system calls take as fuel the number of scripted results
  plus two, which the lemmas on them show to be enough. The doubling loop of \<open>Mmap\<close> is a partial function with an optional result, since
  it does not end for every request: it is shown for which ones it does, and for which sizes it gives a mapping (all up to \<open>2 ^ 61\<close>). Every other loop is structural or has a
  measure.

  \<^bold>\<open>Modelling decisions.\<close> Every public operation of \<open>DB\<close> and \<open>PageCache\<close> is a sequential program;
  \<open>Db_Threads\<close> interleaves the lock actions and the beginnings and ends of the bodies, and takes answers and contents as
  arbitrary once two bodies have overlapped. The conversions between floats and decimal text are
  parameters of the command line; where a property needs it, it is a hypothesis that a float is printed as a word that can be read
  (not that the same float is read).
  Undefined behaviour is an error value of its own, so a theorem that a call returns also says that it does
  nothing undefined. Floats are their IEEE bit patterns. A reference to a pooled page that the
  code mutates is the page and a \<open>write_page\<close> of the result.

  \<^bold>\<open>Not modelled.\<close> The Windows branches; the build with a system liblz4; the benchmark and the tests, which only call
  the library; the texts of error messages. What two lookups that overlap do to each other inside the pager, which
  is a data race. The removal of the log by a finished checkpoint is taken as durable, although the
  directory is not synchronised; only for a crash within the checkpoint the old log may come back. A crash keeps exactly
  the synchronised contents of the two files, except that the log may also keep a part of what was written after that. Pages written back
  by the cache since the last checkpoint that reach the disk without having been synchronised are not covered: recovery does not allow for them.
\<close>

end
